(* ===== verification/Prelude.thy ===== *)
theory Prelude
  imports Complex_Main "HOL-Library.Word"
begin

text \<open>
  Shared ground of the development: the ways a C routine of the collection can stop
  (\<open>panic\<close>) and the result type built on them, the C string primitives the modules scan
  with, the shared-memory log they write to, the interface of the per-request workspace
  (varnishd code, hence a parameter), and the list facts that carry the component proofs.

  Conventions. A C string is a \<open>string\<close> without its terminating NUL; a
  \<open>VCL_STRING\<close>, which may be NULL, is a \<open>string option\<close>. A pointer into a string is
  the suffix it points to, so the end of the string is \<open>[]\<close>. A \<open>double\<close> is a rational
  (see theory \<open>Doubles\<close> for rounding). Magic-number checks (\<open>CHECK_OBJ_NOTNULL\<close> and its
  kin) hold by typing, because the model's types say what a magic number says; where such
  a check also guards against NULL, or against an object that was freed, the check is a
  branch of the model that returns a \<open>panic\<close>.
\<close>

section \<open>Proof collections\<close>

named_theorems scan_simps \<open>rewriting of pointer scans over C strings\<close>
named_theorems inv_intros \<open>invariant preservation, one rule per operation\<close>
named_theorems res_elims \<open>inversion of a successful result\<close>

section \<open>Results\<close>

text \<open>
  \<^item> \<open>AssertFail\<close>: \<open>AN\<close>, \<open>AZ\<close>, \<open>assert\<close> or \<open>WRONG\<close> fired, and the process aborts;
  \<^item> \<open>NullDeref\<close>: a NULL pointer is read;
  \<^item> \<open>HeapOverflow\<close>: a write past the end of a \<open>malloc\<close>ed buffer;
  \<^item> \<open>UndefBehav\<close>: an arithmetic operation without a defined result (signed overflow, a
    conversion of an out-of-range double to \<open>long\<close>), or a read of an indeterminate value;
  \<^item> \<open>UseAfterFree\<close>: an access through an address that is not allocated.

  Allocation does not fail: where the code asserts the result of \<open>malloc\<close>, \<open>calloc\<close> or
  \<open>ALLOC_OBJ\<close> the model has no branch for the abort.
\<close>

datatype panic = AssertFail | NullDeref | HeapOverflow | UndefBehav | UseAfterFree

type_synonym 'a res = "panic + 'a"

definition res_bind :: "'a res \<Rightarrow> ('a \<Rightarrow> 'b res) \<Rightarrow> 'b res" where
  "res_bind m f = (case m of Inl e \<Rightarrow> Inl e | Inr x \<Rightarrow> f x)"

lemma res_bind_simps [simp]:
  "res_bind (Inl e) f = Inl e" "res_bind (Inr x) f = f x"
  by (simp_all add: res_bind_def)

lemma res_bind_eq_Inr [simp]: "res_bind m f = Inr y \<longleftrightarrow> (\<exists>x. m = Inr x \<and> f x = Inr y)"
  by (cases m) auto

lemma res_bind_eq_Inl:
  "res_bind m f = Inl e \<longleftrightarrow> m = Inl e \<or> (\<exists>x. m = Inr x \<and> f x = Inl e)"
  by (cases m) auto

definition guard :: "bool \<Rightarrow> panic \<Rightarrow> unit res" where
  "guard b e = (if b then Inr () else Inl e)"

lemma guard_simps [simp]: "guard True e = Inr ()" "guard False e = Inl e"
  by (simp_all add: guard_def)

lemma guard_eq_Inr [simp]: "guard b e = Inr u \<longleftrightarrow> b"
  by (simp add: guard_def)

definition deref :: "('a \<rightharpoonup> 'b) \<Rightarrow> 'a \<Rightarrow> 'b res" where
  "deref h p = (case h p of None \<Rightarrow> Inl UseAfterFree | Some x \<Rightarrow> Inr x)"

lemma deref_simps [simp]:
  "h p = Some x \<Longrightarrow> deref h p = Inr x" "h p = None \<Longrightarrow> deref h p = Inl UseAfterFree"
  by (simp_all add: deref_def)

lemma deref_eq_Inr [simp]: "deref h p = Inr x \<longleftrightarrow> h p = Some x"
  by (simp add: deref_def split: option.splits)

section \<open>Numbers and addresses\<close>

type_synonym double = rat
type_synonym u8 = "8 word"
type_synonym u32 = "32 word"
type_synonym u64 = "64 word"

text \<open>Addresses of heap objects; \<open>None\<close> of an \<open>addr option\<close> is NULL.\<close>

type_synonym addr = nat

section \<open>The shared-memory log\<close>

text \<open>
  \<open>VSLb\<close> appends a record to the log of the transaction; the arguments of its format
  string are kept unformatted, since formatting them is the work of varnishd.
\<close>

datatype slt = SLT_VCL_Log | SLT_VCL_Error | SLT_Debug | SLT_Hash | SLT_LostHeader

datatype vsl_arg = ArgInt int | ArgStr string | ArgDbl double

type_synonym vsl_log = "(slt \<times> string \<times> vsl_arg list) list"

definition VSLb :: "slt \<Rightarrow> string \<Rightarrow> vsl_arg list \<Rightarrow> vsl_log \<Rightarrow> vsl_log" where
  "VSLb tag fmt args l = l @ [(tag, fmt, args)]"

section \<open>The workspace interface\<close>

text \<open>
  The workspace allocator \<open>WS_*\<close> belongs to varnishd. The modules see it through three
  calls, which are parameters of the model: each takes the workspace state and returns
  NULL or the new object, with the new state. What the modules rely on, that a copy holds
  the bytes it was given, is \<open>ws_copies\<close>; \<open>ws_ample\<close> says that no request of the run at
  hand overflows the workspace.
\<close>

record 'ws ws_api =
  WS_Alloc :: "'ws \<Rightarrow> nat \<Rightarrow> bool \<times> 'ws"
  WS_Copy :: "'ws \<Rightarrow> string \<Rightarrow> string option \<times> 'ws"
  WS_Printf :: "'ws \<Rightarrow> string \<Rightarrow> string option \<times> 'ws"

definition ws_copies :: "'ws ws_api \<Rightarrow> bool" where
  "ws_copies a \<longleftrightarrow>
     (\<forall>w s t. fst (WS_Copy a w s) = Some t \<longrightarrow> t = s) \<and>
     (\<forall>w s t. fst (WS_Printf a w s) = Some t \<longrightarrow> t = s)"

definition ws_ample :: "'ws ws_api \<Rightarrow> bool" where
  "ws_ample a \<longleftrightarrow>
     (\<forall>w n. fst (WS_Alloc a w n)) \<and>
     (\<forall>w s. fst (WS_Copy a w s) = Some s) \<and>
     (\<forall>w s. fst (WS_Printf a w s) = Some s)"

lemma ws_ample_copies: "ws_ample a \<Longrightarrow> ws_copies a"
  by (simp add: ws_ample_def ws_copies_def)

text \<open>
  A concrete allocator for the witnesses: a bump allocator over a number of free bytes,
  and its unlimited variant.
\<close>

definition bump_ws :: "nat ws_api" where
  "bump_ws = \<lparr>WS_Alloc = (\<lambda>w n. if n \<le> w then (True, w - n) else (False, w)),
     WS_Copy = (\<lambda>w s. if length s < w then (Some s, w - length s - 1) else (None, w)),
     WS_Printf = (\<lambda>w s. if length s < w then (Some s, w - length s - 1) else (None, w))\<rparr>"

definition ample_ws :: "unit ws_api" where
  "ample_ws = \<lparr>WS_Alloc = (\<lambda>w n. (True, w)), WS_Copy = (\<lambda>w s. (Some s, w)),
     WS_Printf = (\<lambda>w s. (Some s, w))\<rparr>"

lemma bump_ws_copies: "ws_copies bump_ws"
  by (simp add: ws_copies_def bump_ws_def)

lemma ample_ws_ample: "ws_ample ample_ws"
  by (simp add: ws_ample_def ample_ws_def)

text \<open>The parts of \<open>struct vrt_ctx\<close> that the modules write: workspace and log.\<close>

record 'ws vrt_ctx =
  ctx_ws :: 'ws
  ctx_vsl :: vsl_log

section \<open>C strings\<close>

definition isspace :: "char \<Rightarrow> bool" where
  "isspace c \<longleftrightarrow> c = CHR '' '' \<or> c = CHR 0x09 \<or> c = CHR 0x0A \<or> c = CHR 0x0B \<or>
     c = CHR 0x0C \<or> c = CHR 0x0D"

definition isblank :: "char \<Rightarrow> bool" where
  "isblank c \<longleftrightarrow> c = CHR '' '' \<or> c = CHR 0x09"

text \<open>\<open>strchr\<close> returns the suffix that starts at the first occurrence, or NULL.\<close>

definition strchr :: "string \<Rightarrow> char \<Rightarrow> string option" where
  "strchr s c = (if c \<in> set s then Some (dropWhile (\<lambda>x. x \<noteq> c) s) else None)"

definition pdiff :: "string \<Rightarrow> string \<Rightarrow> nat" where
  "pdiff b e = length b - length e"

definition strndup :: "string \<Rightarrow> nat \<Rightarrow> string" where
  "strndup s n = take n s"

text \<open>A scan \<open>while (*p != 0 && P(*p)) p++\<close> leaves the pointer at \<open>skip P p\<close>.\<close>

definition skip :: "(char \<Rightarrow> bool) \<Rightarrow> string \<Rightarrow> string" where
  "skip P s = dropWhile P s"

definition tolower :: "char \<Rightarrow> char" where
  "tolower c = (let n = (of_char c :: nat) in
     if 65 \<le> n \<and> n \<le> 90 then char_of (n + 32) else c)"

text \<open>
  \<open>strncasecmp_eq a b n\<close> is \<open>strncasecmp(a, b, n) == 0\<close>: the first \<open>n\<close> characters agree
  up to case, where the end of a string compares as NUL and ends the comparison.
\<close>

fun strncasecmp_eq :: "string \<Rightarrow> string \<Rightarrow> nat \<Rightarrow> bool" where
  "strncasecmp_eq a b 0 = True"
| "strncasecmp_eq [] [] (Suc n) = True"
| "strncasecmp_eq (x # a) (y # b) (Suc n) = (tolower x = tolower y \<and> strncasecmp_eq a b n)"
| "strncasecmp_eq a b (Suc n) = False"

lemma strncasecmp_eq_iff:
  "n \<le> length a \<Longrightarrow>
   strncasecmp_eq a b n \<longleftrightarrow> n \<le> length b \<and> map tolower (take n a) = map tolower (take n b)"
  by (induction a b n rule: strncasecmp_eq.induct) auto

lemma strchr_None [scan_simps]: "strchr s c = None \<longleftrightarrow> c \<notin> set s"
  by (simp add: strchr_def)

lemma strchr_Some:
  assumes "strchr s c = Some r"
  shows "\<exists>t. r = c # t \<and> s = takeWhile (\<lambda>x. x \<noteq> c) s @ c # t"
proof -
  from assms have r: "r = dropWhile (\<lambda>x. x \<noteq> c) s" and "c \<in> set s"
    by (simp_all add: strchr_def split: if_splits)
  then have "\<exists>t. dropWhile (\<lambda>x. x \<noteq> c) s = c # t"
    by (metis (mono_tags, lifting) dropWhile_eq_Nil_conv hd_dropWhile list.collapse)
  with r show ?thesis by (metis takeWhile_dropWhile_id)
qed

lemma strchr_append [scan_simps]: "c \<notin> set a \<Longrightarrow> strchr (a @ c # b) c = Some (c # b)"
proof -
  assume "c \<notin> set a"
  then have "dropWhile (\<lambda>x. x \<noteq> c) (a @ c # b) = c # b"
    by (subst dropWhile_append2) auto
  then show ?thesis by (simp add: strchr_def)
qed

lemma length_skip_le [scan_simps]: "length (skip P s) \<le> length s"
  by (simp add: skip_def length_dropWhile_le)

lemma skip_append [scan_simps]:
  "(\<And>x. x \<in> set a \<Longrightarrow> P x) \<Longrightarrow> \<not> P c \<Longrightarrow> skip P (a @ c # b) = c # b"
  by (simp add: skip_def dropWhile_append2)

lemma skip_all [scan_simps]: "(\<And>x. x \<in> set a \<Longrightarrow> P x) \<Longrightarrow> skip P a = []"
  by (simp add: skip_def)

lemma strndup_skip [scan_simps]: "strndup s (pdiff s (skip P s)) = takeWhile P s"
proof -
  have "length (takeWhile P s) = length s - length (dropWhile P s)"
    by (metis add_diff_cancel_right' length_append takeWhile_dropWhile_id)
  then have "take (length s - length (dropWhile P s)) s = takeWhile P s"
    by (metis takeWhile_eq_take)
  then show ?thesis by (simp add: strndup_def pdiff_def skip_def)
qed

lemma strndup_all [scan_simps]: "strndup s (pdiff s []) = s"
  by (simp add: strndup_def pdiff_def)

lemma strndup_prefix [scan_simps]: "strndup (a @ b) (pdiff (a @ b) b) = a"
  by (simp add: strndup_def pdiff_def)

lemma dropWhile_takeWhile_dropWhile [scan_simps]:
  "dropWhile P (takeWhile Q (dropWhile P s)) = takeWhile Q (dropWhile P s)"
  by (induction s) auto

lemma takeWhile_all [scan_simps]: "(\<And>x. x \<in> set s \<Longrightarrow> P x) \<Longrightarrow> takeWhile P s = s"
  by simp

text \<open>Splitting at a separator, the reference for the comma lists and token loops.\<close>

fun split_on :: "char \<Rightarrow> string \<Rightarrow> string list" where
  "split_on d [] = [[]]"
| "split_on d (x # xs) =
     (if x = d then [] # split_on d xs
      else case split_on d xs of [] \<Rightarrow> [[x]] | y # ys \<Rightarrow> (x # y) # ys)"

lemma split_on_nonempty [simp]: "split_on d s \<noteq> []"
  by (induction s) (auto split: list.splits)

lemma split_on_step:
  "split_on d s = takeWhile (\<lambda>c. c \<noteq> d) s #
     (case dropWhile (\<lambda>c. c \<noteq> d) s of [] \<Rightarrow> [] | _ # r \<Rightarrow> split_on d r)"
  by (induction s) (auto split: list.splits)

lemma split_on_skip_front:
  "\<not> P d \<Longrightarrow> map (dropWhile P) (split_on d (dropWhile P s)) = map (dropWhile P) (split_on d s)"
  by (induction s) (auto split: list.splits)

text \<open>Decimal rendering, for the \<open>%i\<close> and \<open>%u\<close> conversions of \<open>VSB_printf\<close>.\<close>

fun itoa :: "nat \<Rightarrow> string" where
  "itoa n = (if n < 10 then [char_of (48 + n)] else itoa (n div 10) @ [char_of (48 + n mod 10)])"

declare itoa.simps [simp del]

section \<open>Lists\<close>

text \<open>A \<open>VTAILQ\<close> is the list of its entries; a pointer to an entry is its position.\<close>

definition VTAILQ_REMOVE_at :: "nat \<Rightarrow> 'a list \<Rightarrow> 'a list" where
  "VTAILQ_REMOVE_at i xs = take i xs @ drop (Suc i) xs"

fun find_index :: "('a \<Rightarrow> bool) \<Rightarrow> 'a list \<Rightarrow> nat option" where
  "find_index P [] = None"
| "find_index P (x # xs) = (if P x then Some 0 else map_option Suc (find_index P xs))"

lemma find_index_None: "find_index P xs = None \<longleftrightarrow> (\<forall>x \<in> set xs. \<not> P x)"
  by (induction xs) auto

lemma find_index_Some:
  "find_index P xs = Some i \<longleftrightarrow> i < length xs \<and> P (xs ! i) \<and> (\<forall>j < i. \<not> P (xs ! j))"
proof (induction xs arbitrary: i)
  case (Cons x xs)
  then show ?case by (cases i) (auto simp: All_less_Suc2)
qed simp

lemma find_index_SomeD:
  assumes "find_index P xs = Some i"
  shows "i < length xs" "P (xs ! i)"
  using assms by (auto simp: find_index_Some)

lemma map_of_map_pair: "map_of (map (\<lambda>c. (f c, g c)) xs) k = map_option g (find (\<lambda>c. f c = k) xs)"
  by (induction xs) auto

lemma find_index_find: "find P xs = map_option (\<lambda>i. xs ! i) (find_index P xs)"
  by (induction xs) (auto simp: option.map_comp comp_def)

lemma distinct_map_nth_eq:
  "distinct (map f xs) \<Longrightarrow> i < length xs \<Longrightarrow> j < length xs \<Longrightarrow> f (xs ! i) = f (xs ! j) \<Longrightarrow> i = j"
  by (metis distinct_conv_nth length_map nth_map)

lemma REMOVE_at_filter:
  "distinct (map f xs) \<Longrightarrow> i < length xs \<Longrightarrow>
   VTAILQ_REMOVE_at i xs = filter (\<lambda>x. f x \<noteq> f (xs ! i)) xs"
proof (induction xs arbitrary: i)
  case (Cons x xs)
  show ?case
  proof (cases i)
    case 0
    have "f x \<notin> f ` set xs" using Cons.prems by simp
    then have "filter (\<lambda>y. f y \<noteq> f x) xs = xs" by (intro filter_True ballI) (metis imageI)
    with 0 show ?thesis by (simp add: VTAILQ_REMOVE_at_def)
  next
    case (Suc j)
    with Cons.prems have "f x \<noteq> f (xs ! j)" by auto
    moreover have "VTAILQ_REMOVE_at j xs = filter (\<lambda>y. f y \<noteq> f (xs ! j)) xs"
      using Cons Suc by simp
    ultimately show ?thesis using Suc by (simp add: VTAILQ_REMOVE_at_def)
  qed
qed simp

lemma map_list_update_same:
  "f y = f (xs ! i) \<Longrightarrow> map f (xs[i := y]) = map f xs"
  by (metis list_update_id map_update)

end
