(* ===== verification/KV_Store.thy ===== *)
theory KV_Store
  imports Prelude
begin

text \<open>
  The contract that the keyed stores of the collection share: the cookie list of a task, the
  variable list of a task and the global variable list all promise that a key reads back
  what was last stored under it and that other keys are left alone. The client facts (what
  a sequence of stores leaves behind, how deletion interacts with it) are proved here once,
  from the contract, and reach each store through its interpretation.
\<close>

locale kv_store =
  fixes inv :: "'s \<Rightarrow> bool"
    and lookup :: "'s \<Rightarrow> 'k \<Rightarrow> 'v option"
    and put :: "'k \<Rightarrow> 'v \<Rightarrow> 's \<Rightarrow> 's"
    and valid :: "'k \<Rightarrow> 'v \<Rightarrow> bool"
  assumes inv_put: "inv s \<Longrightarrow> valid k v \<Longrightarrow> inv (put k v s)"
    and lookup_put: "inv s \<Longrightarrow> valid k v \<Longrightarrow>
      lookup (put k v s) j = (if j = k then Some v else lookup s j)"
begin

lemma inv_puts:
  "inv s \<Longrightarrow> \<forall>(k, v) \<in> set kvs. valid k v \<Longrightarrow> inv (fold (\<lambda>(k, v). put k v) kvs s)"
  by (induction kvs arbitrary: s) (auto simp: inv_put)

text \<open>After a sequence of stores a key holds the last value stored under it.\<close>

lemma lookup_puts:
  assumes "inv s" and "\<forall>(k, v) \<in> set kvs. valid k v"
  shows "lookup (fold (\<lambda>(k, v). put k v) kvs s) = lookup s ++ map_of (rev kvs)"
  using assms
proof (induction kvs arbitrary: s)
  case (Cons kv kvs)
  obtain k v where kv: "kv = (k, v)" by fastforce
  with Cons.prems have i: "inv (put k v s)" and "valid k v" by (auto intro: inv_put)
  then have "lookup (put k v s) = (lookup s)(k \<mapsto> v)"
    using Cons.prems lookup_put by auto
  with Cons.IH [OF i] Cons.prems kv show ?case by (simp add: map_add_def fun_eq_iff split: option.splits)
qed simp

lemma put_overwrites:
  assumes "inv s" "valid k v" "valid k w"
  shows "lookup (put k w (put k v s)) = lookup (put k w s)"
  using assms by (simp add: fun_eq_iff inv_put lookup_put)

lemma put_commutes:
  assumes "inv s" "valid k v" "valid j w" "k \<noteq> j"
  shows "lookup (put k v (put j w s)) = lookup (put j w (put k v s))"
  using assms by (auto simp: fun_eq_iff inv_put lookup_put)

end

locale kv_store_del = kv_store +
  fixes del :: "'k \<Rightarrow> 's \<Rightarrow> 's"
  assumes inv_del: "inv s \<Longrightarrow> inv (del k s)"
    and lookup_del: "inv s \<Longrightarrow> lookup (del k s) j = (if j = k then None else lookup s j)"
begin

lemma del_put: "inv s \<Longrightarrow> valid k v \<Longrightarrow> lookup (del k (put k v s)) = lookup (del k s)"
  by (auto simp: fun_eq_iff inv_put lookup_put lookup_del)

lemma del_dom: "inv s \<Longrightarrow> dom (lookup (del k s)) = dom (lookup s) - {k}"
  by (auto simp: lookup_del dom_def split: if_splits)

end

end
