(* ===== verification/Doubles.thy ===== *)
theory Doubles
  imports Prelude "HOL-Library.Log_Nat"
begin

text \<open>
  C \<open>double\<close> arithmetic for the modules that keep times and durations. A value is a
  rational number; every operation computes the exact result and rounds it to 53
  significant bits, ties to even (\<open>fl\<close>), as IEEE 754 binary64 does. Not covered:
  infinities and NaN, which only a division by zero or an overflow beyond 2 to the 1024th
  can produce here (a division by zero is caught where it occurs), and the reduced
  precision of subnormal numbers, below 2 to the minus 1022nd.
\<close>

definition rne :: "rat \<Rightarrow> int" where
  "rne x = (let f = \<lfloor>x\<rfloor>; d = x - of_int f in
     if d < 1/2 \<or> d = 1/2 \<and> even f then f else f + 1)"

text \<open>The binary exponent of a positive rational.\<close>

definition exp2 :: "rat \<Rightarrow> int" where
  "exp2 x = (let (p, q) = quotient_of x;
       e = int (floorlog 2 (nat p)) - int (floorlog 2 (nat q)) in
     if 2 powi e \<le> x then e else e - 1)"

definition fl :: "rat \<Rightarrow> double" where
  "fl x = (if x = 0 then 0 else
     let ulp = 2 powi (exp2 \<bar>x\<bar> - 52) in of_int (rne (x / ulp)) * ulp)"

definition dadd :: "double \<Rightarrow> double \<Rightarrow> double" where "dadd x y = fl (x + y)"
definition dsub :: "double \<Rightarrow> double \<Rightarrow> double" where "dsub x y = fl (x - y)"
definition dmul :: "double \<Rightarrow> double \<Rightarrow> double" where "dmul x y = fl (x * y)"
definition ddiv :: "double \<Rightarrow> double \<Rightarrow> double" where "ddiv x y = fl (x / y)"
definition double_of_long :: "int \<Rightarrow> double" where "double_of_long n = fl (of_int n)"

text \<open>Conversion to \<open>long\<close> truncates towards zero; out of range it is undefined.\<close>

definition LONG_MAX :: int where "LONG_MAX = 2 ^ 63 - 1"
definition LONG_MIN :: int where "LONG_MIN = - (2 ^ 63)"

definition in_long :: "int \<Rightarrow> bool" where
  "in_long n \<longleftrightarrow> LONG_MIN \<le> n \<and> n \<le> LONG_MAX"

definition dtrunc :: "double \<Rightarrow> int" where
  "dtrunc x = (if 0 \<le> x then \<lfloor>x\<rfloor> else \<lceil>x\<rceil>)"

definition long_of_double :: "double \<Rightarrow> int res" where
  "long_of_double x = (if in_long (dtrunc x) then Inr (dtrunc x) else Inl UndefBehav)"

text \<open>Signed addition on \<open>long\<close>.\<close>

definition long_add :: "int \<Rightarrow> int \<Rightarrow> int res" where
  "long_add a b = (if in_long (a + b) then Inr (a + b) else Inl UndefBehav)"

section \<open>Rounding to an integer\<close>

lemma rne_bounds: "of_int (rne x) - 1/2 \<le> x" "x \<le> of_int (rne x) + 1/2"
proof -
  have f: "of_int \<lfloor>x\<rfloor> \<le> x" "x < of_int \<lfloor>x\<rfloor> + 1" by linarith+
  show "of_int (rne x) - 1/2 \<le> x" "x \<le> of_int (rne x) + 1/2"
    unfolding rne_def Let_def using f by (split if_split, linarith)+
qed

lemma rne_int [simp]: "rne (of_int n) = n"
  by (simp add: rne_def)

lemma rne_mono: "x \<le> y \<Longrightarrow> rne x \<le> rne y"
proof -
  assume xy: "x \<le> y"
  then have fm: "\<lfloor>x\<rfloor> \<le> \<lfloor>y\<rfloor>" by (rule floor_mono)
  show ?thesis
  proof (cases "\<lfloor>x\<rfloor> = \<lfloor>y\<rfloor>")
    case True
    with xy show ?thesis by (auto simp: rne_def Let_def)
  next
    case False
    with fm have "\<lfloor>x\<rfloor> + 1 \<le> \<lfloor>y\<rfloor>" by simp
    then show ?thesis by (auto simp: rne_def Let_def)
  qed
qed

lemma rne_minus: "rne (- x) = - rne x"
proof (cases "x = of_int \<lfloor>x\<rfloor>")
  case True
  then show ?thesis by (metis rne_int of_int_minus)
next
  case False
  then have "\<lfloor>- x\<rfloor> = - \<lfloor>x\<rfloor> - 1" by linarith
  moreover have "of_int \<lfloor>x\<rfloor> < x" "x < of_int \<lfloor>x\<rfloor> + 1" using False by linarith+
  ultimately show ?thesis by (auto simp: rne_def Let_def)
qed

section \<open>The exponent\<close>

lemma floorlog2_bounds: "0 < n \<Longrightarrow> 2 ^ floorlog 2 n \<le> 2 * n \<and> n < 2 ^ floorlog 2 n"
  using floorlog_bounds [of n 2] by (cases "floorlog 2 n") (auto simp: floorlog_eq_zero_iff)

lemma exp2_bounds:
  assumes "0 < x"
  shows "2 powi exp2 x \<le> x" "x < 2 powi (exp2 x + 1)"
proof -
  obtain p q where pq: "quotient_of x = (p, q)" by fastforce
  then have q: "0 < q" by (rule quotient_of_denom_pos)
  have x: "x = of_int p / of_int q" using pq by (rule quotient_of_div)
  with assms q have p: "0 < p" by (simp add: zero_less_divide_iff)
  define a b where "a = floorlog 2 (nat p)" and "b = floorlog 2 (nat q)"
  have P: "2 ^ a \<le> 2 * (of_int p :: rat)" "of_int p < (2 ^ a :: rat)"
    using floorlog2_bounds [of "nat p"] p unfolding a_def
    by (auto simp flip: of_nat_less_iff [where 'a = rat] of_nat_le_iff [where 'a = rat])
  have Q: "2 ^ b \<le> 2 * (of_int q :: rat)" "of_int q < (2 ^ b :: rat)"
    using floorlog2_bounds [of "nat q"] q unfolding b_def
    by (auto simp flip: of_nat_less_iff [where 'a = rat] of_nat_le_iff [where 'a = rat])
  define e where "e = int a - int b"
  have e: "2 powi e = (2 ^ a / 2 ^ b :: rat)" by (simp add: e_def power_int_diff)
  have "2 ^ a * of_int q \<le> 2 * of_int p * (2 ^ b :: rat)"
    using mult_mono [OF P(1), of "of_int q" "2 ^ b"] Q(2) q p by simp
  then have lo: "2 powi e \<le> 2 * x" using q by (simp add: e x field_simps)
  have "of_int p * (2 ^ b :: rat) < 2 ^ a * (2 * of_int q)"
    using mult_less_le_imp_less [OF P(2) Q(1)] p by simp
  then have hi: "x < 2 * 2 powi e" using q by (simp add: e x field_simps)
  have ex: "exp2 x = (if 2 powi e \<le> x then e else e - 1)"
    by (simp add: exp2_def pq a_def b_def e_def)
  have half: "2 powi (e - 1) = (2 powi e / 2 :: rat)" by (simp add: power_int_diff)
  have dbl: "2 powi (e + 1) = (2 * 2 powi e :: rat)" by (simp add: power_int_add)
  show "2 powi exp2 x \<le> x" "x < 2 powi (exp2 x + 1)"
    using lo hi ex half dbl by (auto split: if_splits)
qed

lemma exp2_mono: "0 < x \<Longrightarrow> x \<le> y \<Longrightarrow> exp2 x \<le> exp2 y"
proof (rule ccontr)
  assume "0 < x" "x \<le> y" "\<not> exp2 x \<le> exp2 y"
  then have "(2::rat) powi (exp2 y + 1) \<le> 2 powi exp2 x" by (intro power_int_increasing) auto
  moreover have "y < 2 powi (exp2 y + 1)" "2 powi exp2 x \<le> x"
    using exp2_bounds \<open>0 < x\<close> \<open>x \<le> y\<close> by auto
  ultimately show False using \<open>x \<le> y\<close> by linarith
qed

lemma exp2_unique: "2 powi e \<le> x \<Longrightarrow> x < 2 powi (e + 1) \<Longrightarrow> exp2 x = e"
proof -
  assume a: "2 powi e \<le> x" "x < 2 powi (e + 1)"
  have "0 < x" using a(1) by (meson less_le_trans zero_less_numeral zero_less_power_int)
  note b = exp2_bounds [OF this]
  have *: "(2::rat) powi e < 2 powi (exp2 x + 1)" "(2::rat) powi exp2 x < 2 powi (e + 1)"
    using a b by linarith+
  have "m < n" if "(2::rat) powi m < 2 powi n" for m n :: int
    using that power_int_increasing [of n m "2::rat"] by (cases "m < n") auto
  from this [OF *(1)] this [OF *(2)] show ?thesis by simp
qed

section \<open>Rounding to 53 bits\<close>

lemma fl_0 [simp]: "fl 0 = 0"
  by (simp add: fl_def)

lemma fl_minus: "fl (- x) = - fl x"
  by (simp add: fl_def Let_def rne_minus)

lemma ulp_pos: "0 < (2::rat) powi n"
  by simp

text \<open>Between two powers of two, rounding stays between them.\<close>

lemma fl_binade:
  assumes "0 < x"
  shows "2 powi exp2 x \<le> fl x" "fl x \<le> 2 powi (exp2 x + 1)"
proof -
  define u where "u = (2::rat) powi (exp2 x - 52)"
  have u: "0 < u" by (simp add: u_def)
  have e: "2 powi exp2 x = 2 ^ 52 * u" "2 powi (exp2 x + 1) = 2 ^ 53 * u"
    by (simp_all add: u_def power_int_diff power_int_add)
  have f: "fl x = of_int (rne (x / u)) * u" using assms by (simp add: fl_def u_def Let_def)
  have "of_int (2 ^ 52) \<le> x / u" "x / u \<le> of_int (2 ^ 53)"
    using exp2_bounds [OF assms] e u by (simp_all add: field_simps)
  then have "rne (of_int (2 ^ 52)) \<le> rne (x / u)" "rne (x / u) \<le> rne (of_int (2 ^ 53))"
    by (blast intro: rne_mono)+
  then have "2 ^ 52 \<le> rne (x / u)" "rne (x / u) \<le> 2 ^ 53" by (simp_all only: rne_int)
  then have "(of_int (2 ^ 52) :: rat) \<le> of_int (rne (x / u))" "of_int (rne (x / u)) \<le> (of_int (2 ^ 53) :: rat)"
    by (simp_all only: of_int_le_iff)
  then show "2 powi exp2 x \<le> fl x" "fl x \<le> 2 powi (exp2 x + 1)"
    using u e f by (simp_all add: mult_right_mono)
qed

lemma fl_pos: "0 < x \<Longrightarrow> 0 < fl x"
  using fl_binade(1) [of x] ulp_pos [of "exp2 x"] by linarith

lemma fl_nonneg [simp]: "0 \<le> x \<Longrightarrow> 0 \<le> fl x"
  using fl_pos [of x] by (cases "x = 0") auto

lemma fl_mono_pos:
  assumes "0 < x" "x \<le> y"
  shows "fl x \<le> fl y"
proof (cases "exp2 x = exp2 y")
  case True
  define u where "u = (2::rat) powi (exp2 x - 52)"
  have u: "0 < u" by (simp add: u_def)
  have "rne (x / u) \<le> rne (y / u)" using assms u by (intro rne_mono) (simp add: divide_right_mono)
  then have "of_int (rne (x / u)) * u \<le> of_int (rne (y / u)) * u" using u by (simp add: mult_right_mono)
  moreover have "fl x = of_int (rne (x / u)) * u" "fl y = of_int (rne (y / u)) * u"
    using assms True by (simp_all add: fl_def u_def Let_def)
  ultimately show ?thesis by simp
next
  case False
  then have "exp2 x + 1 \<le> exp2 y" using exp2_mono [OF assms] by simp
  then have "(2::rat) powi (exp2 x + 1) \<le> 2 powi exp2 y" by (intro power_int_increasing) auto
  with fl_binade(2) [OF assms(1)] fl_binade(1) [of y] assms show ?thesis by linarith
qed

lemma fl_mono: "x \<le> y \<Longrightarrow> fl x \<le> fl y"
proof -
  assume xy: "x \<le> y"
  consider "0 < x" | "y < 0" | "x \<le> 0" "0 \<le> y" by linarith
  then show ?thesis
  proof cases
    case 1
    then show ?thesis using xy by (rule fl_mono_pos)
  next
    case 2
    then have "fl (- y) \<le> fl (- x)" using xy by (intro fl_mono_pos) auto
    then show ?thesis by (simp add: fl_minus)
  next
    case 3
    have "0 \<le> fl (- x)" using 3 by simp
    then have "fl x \<le> 0" by (simp add: fl_minus)
    moreover have "0 \<le> fl y" using 3 by simp
    ultimately show ?thesis by linarith
  qed
qed

text \<open>Integers of up to 53 bits are represented exactly.\<close>

lemma fl_int_pos:
  assumes "0 < n" "n \<le> 2 ^ 53"
  shows "fl (of_int n) = of_int n"
proof -
  let ?x = "of_int n :: rat"
  have x: "0 < ?x" using assms by simp
  have up: "?x \<le> of_int (2 ^ 53)" using assms(2) by (simp only: of_int_le_iff)
  show ?thesis
  proof (cases "exp2 ?x \<le> 52")
    case True
    define k where "k = nat (52 - exp2 ?x)"
    have "2 powi (exp2 ?x - 52) = inverse (2 ^ k :: rat)"
    proof -
      have "exp2 ?x - 52 = - int k" using True by (simp add: k_def)
      then show ?thesis by (simp only: power_int_minus power_int_of_nat)
    qed
    then have "fl ?x = of_int (rne (of_int (n * 2 ^ k))) * inverse (2 ^ k)"
      using assms by (simp add: fl_def Let_def divide_inverse)
    also have "\<dots> = ?x" by (simp only: rne_int) simp
    finally show ?thesis .
  next
    case False
    then have "(2::rat) powi 53 \<le> 2 powi exp2 ?x" by (intro power_int_increasing) auto
    with exp2_bounds(1) [OF x] up have "?x = of_int (2 ^ 53)" by (simp add: power_int_def)
    moreover have "exp2 (of_int (2 ^ 53)) = 53" by (rule exp2_unique) (simp_all add: power_int_def)
    ultimately show ?thesis by (simp add: fl_def rne_def power_int_def Let_def)
  qed
qed

lemma fl_int [simp]: "\<bar>n\<bar> \<le> 2 ^ 53 \<Longrightarrow> fl (of_int n) = of_int n"
proof -
  assume n: "\<bar>n\<bar> \<le> 2 ^ 53"
  consider "n = 0" | "0 < n" | "n < 0" by linarith
  then show ?thesis
  proof cases
    case 3
    then have "fl (of_int (- n)) = of_int (- n)" using n by (intro fl_int_pos) auto
    then show ?thesis by (simp add: fl_minus)
  qed (use n fl_int_pos in auto)
qed

lemma fl_numeral [simp]:
  "numeral w \<le> (2 ^ 53 :: int) \<Longrightarrow> fl (numeral w) = numeral w"
  "numeral w \<le> (2 ^ 53 :: int) \<Longrightarrow> fl (- numeral w) = - numeral w"
  using fl_int [of "numeral w"] fl_int [of "- numeral w"] by simp_all

lemma fl_1 [simp]: "fl 1 = 1" "fl (- 1) = - 1"
  using fl_int [of 1] fl_int [of "- 1"] by simp_all

section \<open>Operations\<close>

lemma dsub_nonneg: "y \<le> x \<Longrightarrow> 0 \<le> dsub x y"
  by (simp add: dsub_def)

lemma dsub_self [simp]: "dsub x x = 0"
  by (simp add: dsub_def)

lemma dsub_pos: "y < x \<Longrightarrow> 0 < dsub x y"
  by (simp add: dsub_def fl_pos)

lemma dsub_nonpos: "x \<le> y \<Longrightarrow> dsub x y \<le> 0"
  using fl_mono [of "x - y" 0] by (simp add: dsub_def)

lemma dsub_mono: "x \<le> x' \<Longrightarrow> dsub x y \<le> dsub x' y"
  unfolding dsub_def by (rule fl_mono) simp

lemma dmul_nonneg: "0 \<le> x \<Longrightarrow> 0 \<le> y \<Longrightarrow> 0 \<le> dmul x y"
  by (simp add: dmul_def)

lemma dmul_zero [simp]: "dmul 0 y = 0" "dmul x 0 = 0"
  by (simp_all add: dmul_def)

lemma ddiv_nonneg: "0 \<le> x \<Longrightarrow> 0 < y \<Longrightarrow> 0 \<le> ddiv x y"
  by (simp add: ddiv_def)

lemma ddiv_zero [simp]: "ddiv 0 y = 0"
  by (simp add: ddiv_def)

lemma ddiv_ge_1: "0 < y \<Longrightarrow> y \<le> x \<Longrightarrow> 1 \<le> ddiv x y"
  using fl_mono [of 1 "x / y"] by (simp add: ddiv_def)

lemma dtrunc_mono: "x \<le> y \<Longrightarrow> dtrunc x \<le> dtrunc y"
proof -
  assume xy: "x \<le> y"
  have "\<lceil>x\<rceil> \<le> 0" if "x < 0" using that by (simp add: ceiling_le_zero)
  moreover have "0 \<le> \<lfloor>y\<rfloor>" if "0 \<le> y" using that by simp
  ultimately have "\<lceil>x\<rceil> \<le> \<lfloor>y\<rfloor>" if "x < 0" "0 \<le> y" using that by (meson order_trans)
  then show ?thesis using xy
    by (auto simp: dtrunc_def intro: floor_mono ceiling_mono)
qed

lemma dtrunc_int [simp]: "dtrunc (of_int n) = n"
  by (simp add: dtrunc_def)

lemma dtrunc_nonneg: "0 \<le> x \<Longrightarrow> 0 \<le> dtrunc x"
  using dtrunc_mono [of 0 x] by (simp add: dtrunc_def)

lemma dtrunc_zero [simp]: "dtrunc 0 = 0"
  by (simp add: dtrunc_def)

section \<open>Scaling and relative error\<close>

lemma exp2_scale: "0 < x \<Longrightarrow> exp2 (x * 2 powi k) = exp2 x + k"
proof -
  assume x: "0 < x"
  have "2 powi (exp2 x + k) \<le> x * 2 powi k" "x * 2 powi k < 2 powi (exp2 x + k + 1)"
    using exp2_bounds [OF x] by (simp_all add: power_int_add mult_right_mono mult_strict_right_mono)
  then show ?thesis by (rule exp2_unique)
qed

lemma fl_scale: "fl (x * 2 powi k) = fl x * 2 powi k"
proof (cases "x = 0")
  case False
  have "exp2 \<bar>x * 2 powi k\<bar> = exp2 \<bar>x\<bar> + k" using False exp2_scale [of "\<bar>x\<bar>" k] by (simp add: abs_mult)
  moreover have "(2::rat) powi (exp2 \<bar>x\<bar> + k - 52) = 2 powi (exp2 \<bar>x\<bar> - 52) * 2 powi k"
    by (simp add: power_int_add power_int_diff)
  ultimately show ?thesis using False by (simp add: fl_def Let_def)
qed simp

text \<open>Multiples of a power of one half with at most 53 significant bits are exact.\<close>

lemma fl_dyadic: "\<bar>n\<bar> \<le> 2 ^ 53 \<Longrightarrow> fl (of_int n / 2 ^ k) = of_int n / 2 ^ k"
proof -
  assume n: "\<bar>n\<bar> \<le> 2 ^ 53"
  have "fl (of_int n * 2 powi (- int k)) = of_int n * 2 powi (- int k)"
    unfolding fl_scale using n by simp
  then show ?thesis by (simp add: power_int_minus divide_inverse)
qed

definition eps :: rat where "eps = inverse (2 ^ 53)"

lemma fl_upper: "0 \<le> x \<Longrightarrow> fl x \<le> (1 + eps) * x"
proof (cases "x = 0")
  case False
  assume "0 \<le> x"
  with False have x: "0 < x" by simp
  define u where "u = (2::rat) powi (exp2 x - 52)"
  have u: "0 < u" by (simp add: u_def)
  have f: "fl x = of_int (rne (x / u)) * u" using x by (simp add: fl_def u_def Let_def)
  have "of_int (rne (x / u)) \<le> x / u + 1/2" using rne_bounds(1) [of "x / u"] by simp
  then have "fl x \<le> (x / u + 1/2) * u" using u f by (simp add: mult_right_mono)
  also have "\<dots> = x + u / 2" using u by (simp add: field_simps)
  also have "u / 2 = eps * 2 powi exp2 x"
    by (simp add: u_def eps_def power_int_diff)
  also have "x + eps * 2 powi exp2 x \<le> x + eps * x"
    using exp2_bounds(1) [OF x] by (simp add: eps_def)
  finally show ?thesis by (simp add: algebra_simps)
qed simp

lemma eps_pos: "0 < eps"
  by (simp add: eps_def)

end
