(* ===== verification/Cookie.thy ===== *)
theory Cookie
  imports KV_Store Doubles
begin

text \<open>
  The cookie module, \<^verbatim>\<open>src/src/vmod_cookie.c\<close>: a per-task list of cookies that is filled
  by \<open>parse\<close> or \<open>set\<close>, edited by \<open>delete\<close>, \<open>clean\<close>, \<open>filter\<close> and \<open>filter_except\<close>, and
  rendered by \<open>get_string\<close>. The task state is \<open>struct vmod_priv\<close>, whose \<open>priv\<close> pointer is
  NULL before the first call (\<open>None\<close>), together with the workspace and the log of the
  context.
\<close>

section \<open>Data\<close>

text \<open>
  \<open>name\<close> and \<open>value\<close> of a listed cookie are never NULL: \<open>vmod_set\<close> links an entry only after
  both copies succeeded. Their strings live in the task's workspace, which outlives the list.
\<close>

record cookie =
  c_name :: string
  c_value :: string

text \<open>\<open>struct matchlist\<close> carries a name only; a list of them is a list of names.\<close>

type_synonym matchlist = "string list"

record vmod_cookie =
  cookielist :: "cookie list"

type_synonym cookie_priv = "vmod_cookie option"

type_synonym 'ws cookie_task = "'ws vrt_ctx \<times> cookie_priv"

definition sizeof_cookie :: nat where
  "sizeof_cookie = 40"

section \<open>Operations\<close>

definition cobj_get :: "cookie_priv \<Rightarrow> vmod_cookie" where
  "cobj_get priv = (case priv of None \<Rightarrow> \<lparr>cookielist = []\<rparr> | Some vcp \<Rightarrow> vcp)"

definition find_cookie :: "vmod_cookie \<Rightarrow> string \<Rightarrow> nat option" where
  "find_cookie vcp name = find_index (\<lambda>c. c_name c = name) (cookielist vcp)"

definition cookie_vmod_set ::
  "'ws ws_api \<Rightarrow> 'ws cookie_task \<Rightarrow> string option \<Rightarrow> string option \<Rightarrow> 'ws cookie_task" where
  "cookie_vmod_set api t name value =
     (let (ctx, priv) = t; vcp = cobj_get priv in
      case name of None \<Rightarrow> (ctx, Some vcp) | Some n \<Rightarrow>
      if n = [] then (ctx, Some vcp) else
      case value of None \<Rightarrow> (ctx, Some vcp) | Some v \<Rightarrow>
      if v = [] then (ctx, Some vcp) else
      case find_cookie vcp n of
        Some i \<Rightarrow>
          (case WS_Printf api (ctx_ws ctx) v of
             (None, w) \<Rightarrow>
               (ctx\<lparr>ctx_ws := w, ctx_vsl := VSLb SLT_VCL_Log
                  ''cookie: Workspace overflow in set()'' [] (ctx_vsl ctx)\<rparr>, Some vcp)
           | (Some p, w) \<Rightarrow>
               (ctx\<lparr>ctx_ws := w\<rparr>,
                Some (vcp\<lparr>cookielist := (cookielist vcp)
                  [i := (cookielist vcp ! i)\<lparr>c_value := p\<rparr>]\<rparr>)))
      | None \<Rightarrow>
          (case WS_Alloc api (ctx_ws ctx) sizeof_cookie of
             (False, w) \<Rightarrow>
               (ctx\<lparr>ctx_ws := w, ctx_vsl := VSLb SLT_VCL_Log
                  ''cookie: unable to get storage for cookie'' [] (ctx_vsl ctx)\<rparr>, Some vcp)
           | (True, w) \<Rightarrow>
               (let (cn, w1) = WS_Printf api w n; (cv, w2) = WS_Printf api w1 v in
                case (cn, cv) of
                  (Some cn', Some cv') \<Rightarrow>
                    (ctx\<lparr>ctx_ws := w2\<rparr>,
                     Some (vcp\<lparr>cookielist := cookielist vcp @ [\<lparr>c_name = cn', c_value = cv'\<rparr>]\<rparr>))
                | _ \<Rightarrow>
                    (ctx\<lparr>ctx_ws := w2, ctx_vsl := VSLb SLT_VCL_Log
                       ''cookie: unable to get storage for cookie'' [] (ctx_vsl ctx)\<rparr>, Some vcp))))"

definition cookie_vmod_clean :: "'ws cookie_task \<Rightarrow> 'ws cookie_task" where
  "cookie_vmod_clean t = (let (ctx, priv) = t; vcp = cobj_get priv in
     (ctx, Some (vcp\<lparr>cookielist := []\<rparr>)))"

text \<open>
  The loop of \<open>vmod_parse\<close>. Each turn consumes at least the \<open>=\<close> it found, so the remaining
  header gets shorter.
\<close>

function cookie_parse_loop ::
  "'ws ws_api \<Rightarrow> 'ws cookie_task \<Rightarrow> string \<Rightarrow> int \<Rightarrow> 'ws cookie_task \<times> int" where
  "cookie_parse_loop api t p i =
     (if p = [] then (t, i) else
      let p1 = skip isspace p in
      case strchr p1 (CHR ''='') of None \<Rightarrow> (t, i) | Some sep \<Rightarrow>
      let name = strndup p1 (pdiff p1 sep);
          p2 = tl sep;
          sep2 = skip (\<lambda>c. c \<noteq> CHR '';'') p2;
          value = strndup p2 (pdiff p2 sep2);
          t' = cookie_vmod_set api t (Some name) (Some value)
      in if sep2 = [] then (t', i + 1) else cookie_parse_loop api t' (tl sep2) (i + 1))"
  by pat_completeness auto
termination
proof (relation "measure (\<lambda>(api, t, p, i). length p)", simp, clarsimp)
  fix p sep :: string
  assume "p \<noteq> []" and s: "strchr (skip isspace p) CHR ''='' = Some sep"
    and ne: "skip (\<lambda>c. c \<noteq> CHR '';'') (tl sep) \<noteq> []"
  have "length (skip (\<lambda>c. c \<noteq> CHR '';'') (tl sep)) \<le> length (tl sep)"
    by (rule length_skip_le)
  also have "length (tl sep) \<le> length (skip isspace p)"
    using strchr_Some [OF s] by (metis append_eq_conv_conj length_drop list.sel(3) length_tl diff_le_self le_trans)
  also have "\<dots> \<le> length p" by (rule length_skip_le)
  finally show "length (skip (\<lambda>c. c \<noteq> CHR '';'') (tl sep)) - Suc 0 < length p"
    using ne \<open>p \<noteq> []\<close> by (cases "skip (\<lambda>c. c \<noteq> CHR '';'') (tl sep)") auto
qed

declare cookie_parse_loop.simps [simp del]

definition cookie_vmod_parse ::
  "'ws ws_api \<Rightarrow> 'ws cookie_task \<Rightarrow> string option \<Rightarrow> 'ws cookie_task" where
  "cookie_vmod_parse api t cookieheader =
     (let (ctx, priv) = t; vcp = cobj_get priv in
      if cookieheader = None \<or> cookieheader = Some [] then
        (ctx\<lparr>ctx_vsl := VSLb SLT_VCL_Log ''cookie: nothing to parse'' [] (ctx_vsl ctx)\<rparr>, Some vcp)
      else
        let t1 = (if cookielist vcp \<noteq> [] then cookie_vmod_clean (ctx, Some vcp)
                  else (ctx, Some vcp));
            ((ctx', priv'), i) = cookie_parse_loop api t1 (the cookieheader) 0
        in (ctx'\<lparr>ctx_vsl := VSLb SLT_VCL_Log ''cookie: parsed %i cookies.'' [ArgInt i]
              (ctx_vsl ctx')\<rparr>, priv'))"

definition cookie_vmod_isset :: "'ws cookie_task \<Rightarrow> string option \<Rightarrow> bool \<times> 'ws cookie_task" where
  "cookie_vmod_isset t name =
     (let (ctx, priv) = t; vcp = cobj_get priv in
      case name of None \<Rightarrow> (False, ctx, Some vcp) | Some n \<Rightarrow>
      if n = [] then (False, ctx, Some vcp)
      else (find_cookie vcp n \<noteq> None, ctx, Some vcp))"

definition cookie_vmod_get ::
  "'ws cookie_task \<Rightarrow> string option \<Rightarrow> string option \<times> 'ws cookie_task" where
  "cookie_vmod_get t name =
     (let (ctx, priv) = t; vcp = cobj_get priv in
      case name of None \<Rightarrow> (None, ctx, Some vcp) | Some n \<Rightarrow>
      if n = [] then (None, ctx, Some vcp)
      else (map_option (\<lambda>i. c_value (cookielist vcp ! i)) (find_cookie vcp n), ctx, Some vcp))"

definition cookie_vmod_delete :: "'ws cookie_task \<Rightarrow> string option \<Rightarrow> 'ws cookie_task" where
  "cookie_vmod_delete t name =
     (let (ctx, priv) = t; vcp = cobj_get priv in
      case name of None \<Rightarrow> (ctx, Some vcp) | Some n \<Rightarrow>
      if n = [] then (ctx, Some vcp)
      else case find_cookie vcp n of
        None \<Rightarrow> (ctx, Some vcp)
      | Some i \<Rightarrow> (ctx, Some (vcp\<lparr>cookielist := VTAILQ_REMOVE_at i (cookielist vcp)\<rparr>)))"

text \<open>
  \<open>filter_cookies\<close>: first the argument is split at commas (leading white space of an item is
  skipped, empty items are ignored), then every cookie is looked up in that list and removed
  unless the outcome equals \<open>filter_action\<close>.
\<close>

function matchlist_parse :: "string \<Rightarrow> matchlist" where
  "matchlist_parse p =
     (if p = [] then [] else
      let p1 = skip isspace p in
      if p1 = [] then [] else
      let q = skip (\<lambda>c. c \<noteq> CHR '','') p1 in
      if q = p1 then matchlist_parse (tl p1)
      else strndup p1 (pdiff p1 q) # matchlist_parse (if q \<noteq> [] then tl q else q))"
  by pat_completeness auto
termination
proof (relation "measure length", simp)
  fix p p1 q :: string
  assume p: "p \<noteq> []" and p1: "p1 = skip isspace p" and ne: "p1 \<noteq> []"
    and q: "q = skip (\<lambda>c. c \<noteq> CHR '','') p1"
  have le: "length p1 \<le> length p" unfolding p1 by (rule length_skip_le)
  from ne le show "(tl p1, p) \<in> measure length" by (cases p1) auto
  assume "q \<noteq> p1"
  moreover have "length q \<le> length p1" unfolding q by (rule length_skip_le)
  moreover have "length q = length p1 \<Longrightarrow> q = p1" unfolding q skip_def
    by (metis append_eq_append_conv append_Nil takeWhile_dropWhile_id)
  ultimately have "length q < length p1" by (metis le_neq_implies_less)
  with le show "(if q \<noteq> [] then tl q else q, p) \<in> measure length" by auto
qed

declare matchlist_parse.simps [simp del]

fun filter_cookies_loop :: "matchlist \<Rightarrow> bool \<Rightarrow> cookie list \<Rightarrow> cookie list" where
  "filter_cookies_loop ml act [] = []"
| "filter_cookies_loop ml act (c # cs) =
     (let matched = list_ex (\<lambda>m. c_name c = m) ml in
      if matched \<noteq> act then filter_cookies_loop ml act cs
      else c # filter_cookies_loop ml act cs)"

definition filter_cookies :: "cookie_priv \<Rightarrow> string option \<Rightarrow> bool \<Rightarrow> cookie_priv" where
  "filter_cookies priv list_s filter_action =
     (let vcp = cobj_get priv;
          matchlist_head = (case list_s of None \<Rightarrow> [] | Some s \<Rightarrow> matchlist_parse s)
      in Some (vcp\<lparr>cookielist :=
           filter_cookies_loop matchlist_head filter_action (cookielist vcp)\<rparr>))"

definition FILTER_ACTION_BLACKLIST :: bool where
  "FILTER_ACTION_BLACKLIST = False"

definition FILTER_ACTION_WHITELIST :: bool where
  "FILTER_ACTION_WHITELIST = True"

definition cookie_vmod_filter_except :: "'ws cookie_task \<Rightarrow> string option \<Rightarrow> 'ws cookie_task" where
  "cookie_vmod_filter_except t whitelist_s =
     (let (ctx, priv) = t in (ctx, filter_cookies priv whitelist_s FILTER_ACTION_WHITELIST))"

definition cookie_vmod_filter :: "'ws cookie_task \<Rightarrow> string option \<Rightarrow> 'ws cookie_task" where
  "cookie_vmod_filter t blacklist_s =
     (let (ctx, priv) = t in (ctx, filter_cookies priv blacklist_s FILTER_ACTION_BLACKLIST))"

text \<open>The output buffer of \<open>vmod_get_string\<close>; \<open>first\<close> is \<open>curr == VTAILQ_FIRST(..)\<close>.\<close>

fun cookie_print :: "bool \<Rightarrow> cookie list \<Rightarrow> string" where
  "cookie_print first [] = []"
| "cookie_print first (c # cs) =
     (if first then '''' else '' '') @ c_name c @ ''='' @ c_value c @ '';'' @ cookie_print False cs"

definition cookie_vmod_get_string ::
  "'ws ws_api \<Rightarrow> 'ws cookie_task \<Rightarrow> string option \<times> 'ws cookie_task" where
  "cookie_vmod_get_string api t =
     (let (ctx, priv) = t; vcp = cobj_get priv;
          output = cookie_print True (cookielist vcp) in
      case WS_Alloc api (ctx_ws ctx) (length output + 1) of
        (False, w) \<Rightarrow>
          (None, ctx\<lparr>ctx_ws := w, ctx_vsl := VSLb SLT_VCL_Log ''cookie: Workspace overflow'' []
             (ctx_vsl ctx)\<rparr>, Some vcp)
      | (True, w) \<Rightarrow> (Some output, ctx\<lparr>ctx_ws := w\<rparr>, Some vcp))"

text \<open>The formatting of a time is \<open>VRT_TIME_string\<close> of varnishd, a parameter; the sum is one of doubles.\<close>

definition cookie_vmod_format_rfc1123 ::
  "('ws vrt_ctx \<Rightarrow> double \<Rightarrow> string option \<times> 'ws vrt_ctx) \<Rightarrow> 'ws vrt_ctx \<Rightarrow> double \<Rightarrow> double \<Rightarrow> string option \<times> 'ws vrt_ctx" where
  "cookie_vmod_format_rfc1123 TIME_string ctx ts duration = TIME_string ctx (dadd ts duration)"


section \<open>The cookie list as a keyed store\<close>

text \<open>
  The invariant of the list: names are pairwise different, and neither names nor values are
  empty. \<open>cookie_put\<close> and \<open>cookie_del\<close> are what \<open>vmod_set\<close> and \<open>vmod_delete\<close> do to it when
  the workspace does not overflow.
\<close>

definition cookies_ok :: "cookie list \<Rightarrow> bool" where
  "cookies_ok cs \<longleftrightarrow> distinct (map c_name cs) \<and> (\<forall>c \<in> set cs. c_name c \<noteq> [] \<and> c_value c \<noteq> [])"

definition cookie_lookup :: "cookie list \<Rightarrow> string \<Rightarrow> string option" where
  "cookie_lookup cs n = map_option c_value (find (\<lambda>c. c_name c = n) cs)"

definition cookie_put :: "string \<Rightarrow> string \<Rightarrow> cookie list \<Rightarrow> cookie list" where
  "cookie_put n v cs = (case find_index (\<lambda>c. c_name c = n) cs of
     None \<Rightarrow> cs @ [\<lparr>c_name = n, c_value = v\<rparr>]
   | Some i \<Rightarrow> cs[i := (cs ! i)\<lparr>c_value := v\<rparr>])"

definition cookie_del :: "string \<Rightarrow> cookie list \<Rightarrow> cookie list" where
  "cookie_del n cs = filter (\<lambda>c. c_name c \<noteq> n) cs"

definition cookie_valid :: "string \<Rightarrow> string \<Rightarrow> bool" where
  "cookie_valid n v \<longleftrightarrow> n \<noteq> [] \<and> v \<noteq> []"

definition task_cookies :: "'ws cookie_task \<Rightarrow> cookie list" where
  "task_cookies t = cookielist (cobj_get (snd t))"

lemma cobj_get_Some [simp]: "cobj_get (Some vcp) = vcp"
  by (simp add: cobj_get_def)

lemma task_cookies_simps [simp]:
  "task_cookies (ctx, Some vcp) = cookielist vcp" "task_cookies (ctx, None) = []"
  by (simp_all add: task_cookies_def cobj_get_def)

lemma cookie_put_names:
  "map c_name (cookie_put n v cs) =
     (if n \<in> c_name ` set cs then map c_name cs else map c_name cs @ [n])"
proof (cases "find_index (\<lambda>c. c_name c = n) cs")
  case None
  then have "n \<notin> c_name ` set cs" by (auto simp: find_index_None)
  with None show ?thesis by (simp add: cookie_put_def)
next
  case (Some i)
  then have "i < length cs" "c_name (cs ! i) = n" by (auto dest: find_index_SomeD)
  with Some show ?thesis
    by (auto simp: cookie_put_def map_list_update_same)
qed

lemma cookies_ok_put:
  assumes "cookies_ok cs" and "cookie_valid n v"
  shows "cookies_ok (cookie_put n v cs)"
proof -
  have "\<forall>c \<in> set (cookie_put n v cs). c_name c \<noteq> [] \<and> c_value c \<noteq> []"
    using assms
    by (auto simp: cookie_put_def cookies_ok_def cookie_valid_def split: option.splits
        dest!: set_update_subset_insert [THEN subsetD] find_index_SomeD)
  moreover have "distinct (map c_name (cookie_put n v cs))"
    using assms by (auto simp: cookie_put_names cookies_ok_def)
  ultimately show ?thesis by (simp add: cookies_ok_def)
qed

lemma cookie_lookup_map_of: "cookie_lookup cs = map_of (map (\<lambda>c. (c_name c, c_value c)) cs)"
  by (simp add: fun_eq_iff cookie_lookup_def map_of_map_pair)

lemma cookie_lookup_update:
  "i < length cs \<Longrightarrow> distinct (map c_name cs) \<Longrightarrow>
   cookie_lookup (cs[i := (cs ! i)\<lparr>c_value := v\<rparr>]) j =
     (if j = c_name (cs ! i) then Some v else cookie_lookup cs j)"
proof (induction cs arbitrary: i)
  case (Cons c cs)
  show ?case
  proof (cases i)
    case 0
    then show ?thesis by (simp add: cookie_lookup_def)
  next
    case (Suc k)
    with Cons.prems have "c_name c \<noteq> c_name (cs ! k)" by auto
    moreover have "cookie_lookup (cs[k := (cs ! k)\<lparr>c_value := v\<rparr>]) j =
        (if j = c_name (cs ! k) then Some v else cookie_lookup cs j)"
      using Suc Cons by simp
    moreover have "cookie_lookup (c # xs) j = (if c_name c = j then Some (c_value c) else cookie_lookup xs j)"
      for xs by (simp add: cookie_lookup_def)
    ultimately show ?thesis using Suc by auto
  qed
qed simp

lemma cookie_lookup_put:
  assumes "cookies_ok cs"
  shows "cookie_lookup (cookie_put n v cs) j = (if j = n then Some v else cookie_lookup cs j)"
proof (cases "find_index (\<lambda>c. c_name c = n) cs")
  case None
  then have "find (\<lambda>c. c_name c = n) cs = None" by (simp add: find_index_find)
  with None show ?thesis
    by (auto simp: cookie_put_def cookie_lookup_map_of map_add_def map_of_map_pair split: option.split)
next
  case (Some i)
  then have "i < length cs" and "c_name (cs ! i) = n" by (auto dest: find_index_SomeD)
  with Some assms show ?thesis
    by (simp add: cookie_put_def cookie_lookup_update cookies_ok_def)
qed

lemma cookies_ok_filter: "cookies_ok cs \<Longrightarrow> cookies_ok (filter P cs)"
  by (auto simp: cookies_ok_def distinct_map intro: inj_on_subset)

lemma cookie_lookup_filter:
  "cookies_ok cs \<Longrightarrow>
   cookie_lookup (filter (\<lambda>c. Q (c_name c)) cs) j = (if Q j then cookie_lookup cs j else None)"
  by (induction cs) (auto simp: cookies_ok_def cookie_lookup_def)

interpretation ck: kv_store_del cookies_ok cookie_lookup cookie_put cookie_valid cookie_del
proof
  fix s :: "cookie list" and k v j :: string
  assume ok: "cookies_ok s"
  show "cookies_ok (cookie_del k s)"
    using ok unfolding cookie_del_def by (rule cookies_ok_filter)
  show "cookie_lookup (cookie_del k s) j = (if j = k then None else cookie_lookup s j)"
    using cookie_lookup_filter [OF ok, of "\<lambda>n. n \<noteq> k"] by (auto simp: cookie_del_def)
  assume "cookie_valid k v"
  with ok show "cookies_ok (cookie_put k v s)" by (rule cookies_ok_put)
  show "cookie_lookup (cookie_put k v s) j = (if j = k then Some v else cookie_lookup s j)"
    using ok by (rule cookie_lookup_put)
qed

section \<open>What the operations do to the list\<close>

lemma find_cookie_task: "find_cookie (cobj_get priv) n = find_index (\<lambda>c. c_name c = n) (task_cookies (ctx, priv))"
  by (simp add: find_cookie_def task_cookies_def)

lemma vmod_set_invalid:
  "\<not> (\<exists>n v. name = Some n \<and> value = Some v \<and> cookie_valid n v) \<Longrightarrow>
   cookie_vmod_set api (ctx, priv) name value = (ctx, Some (cobj_get priv))"
  by (cases name; cases "value") (auto simp: cookie_vmod_set_def cookie_valid_def Let_def)

lemma vmod_set_all_or_nothing:
  assumes "ws_copies api" and "cookie_valid n v"
  shows "task_cookies (cookie_vmod_set api t (Some n) (Some v))
           \<in> {task_cookies t, cookie_put n v (task_cookies t)}"
proof -
  obtain ctx priv where t: "t = (ctx, priv)" by fastforce
  have cp: "\<And>w s p w'. WS_Printf api w s = (Some p, w') \<Longrightarrow> p = s"
    using assms(1) by (metis fst_conv ws_copies_def)
  show ?thesis
    using assms(2) unfolding t cookie_vmod_set_def cookie_valid_def task_cookies_def cookie_put_def
    by (auto simp: find_cookie_def Let_def split: option.splits prod.splits bool.splits dest!: cp)
qed

lemma vmod_set_ample:
  assumes "ws_ample api"
  shows "task_cookies (cookie_vmod_set api t (Some n) (Some v)) =
           (if cookie_valid n v then cookie_put n v (task_cookies t) else task_cookies t)"
proof -
  obtain ctx priv where t: "t = (ctx, priv)" by fastforce
  have cp: "\<And>w s p w'. WS_Printf api w s = (p, w') \<Longrightarrow> p = Some s"
    and al: "\<And>w m b w'. WS_Alloc api w m = (b, w') \<Longrightarrow> b"
    using assms by (metis fst_conv ws_ample_def)+
  show ?thesis
    unfolding t cookie_vmod_set_def cookie_valid_def task_cookies_def cookie_put_def
    by (auto simp: find_cookie_def Let_def split: option.splits prod.splits bool.splits dest!: cp al)
qed

lemma vmod_delete_cookies:
  assumes "cookies_ok (task_cookies t)"
  shows "task_cookies (cookie_vmod_delete t (Some n)) = cookie_del n (task_cookies t)"
proof -
  obtain ctx priv where t: "t = (ctx, priv)" by fastforce
  let ?cs = "cookielist (cobj_get priv)"
  have ok: "cookies_ok ?cs" using assms by (simp add: t task_cookies_def)
  have none: "cookie_del n ?cs = ?cs" if "\<forall>c \<in> set ?cs. c_name c \<noteq> n"
    using that by (simp add: cookie_del_def)
  show ?thesis
  proof (cases "find_cookie (cobj_get priv) n")
    case None
    then have "\<forall>c \<in> set ?cs. c_name c \<noteq> n"
      by (simp add: find_cookie_def find_index_None)
    with None none show ?thesis
      by (simp add: t cookie_vmod_delete_def task_cookies_def Let_def)
  next
    case (Some i)
    then have i: "i < length ?cs" "c_name (?cs ! i) = n"
      by (auto simp: find_cookie_def dest: find_index_SomeD)
    with ok have "n \<noteq> []" by (auto simp: cookies_ok_def)
    moreover from i ok have "VTAILQ_REMOVE_at i ?cs = cookie_del n ?cs"
      by (simp add: REMOVE_at_filter [where f = c_name] cookies_ok_def cookie_del_def)
    ultimately show ?thesis using Some
      by (simp add: t cookie_vmod_delete_def task_cookies_def Let_def)
  qed
qed

lemma vmod_get_lookup:
  "n \<noteq> [] \<Longrightarrow> fst (cookie_vmod_get t (Some n)) = cookie_lookup (task_cookies t) n"
  by (simp add: cookie_vmod_get_def cookie_lookup_def task_cookies_def find_cookie_def
      find_index_find option.map_comp comp_def Let_def split: prod.split)

lemma vmod_isset_lookup:
  "n \<noteq> [] \<Longrightarrow> fst (cookie_vmod_isset t (Some n)) = (cookie_lookup (task_cookies t) n \<noteq> None)"
  by (simp add: cookie_vmod_isset_def cookie_lookup_def task_cookies_def find_cookie_def
      find_index_find Let_def split: prod.split)

lemma filter_cookies_loop_eq:
  "filter_cookies_loop ml act cs = filter (\<lambda>c. (c_name c \<in> set ml) = act) cs"
  by (induction cs) (auto simp: list_ex_iff Let_def)

lemma matchlist_parse_items:
  "matchlist_parse s =
     filter (\<lambda>x. x \<noteq> []) (map (dropWhile isspace) (split_on (CHR '','') s))"
proof (induction s rule: matchlist_parse.induct)
  case (1 p)
  let ?c = "CHR '',''" and ?f = "\<lambda>s. filter (\<lambda>x. x \<noteq> []) (map (dropWhile isspace) (split_on (CHR '','') s))"
  define p1 where "p1 = skip isspace p"
  define q where "q = skip (\<lambda>c. c \<noteq> CHR '','') p1"
  have front: "?f p = ?f p1"
    using split_on_skip_front [of isspace ?c p] by (simp add: p1_def skip_def isspace_def)
  have head: "dropWhile isspace (takeWhile (\<lambda>c. c \<noteq> ?c) p1) = takeWhile (\<lambda>c. c \<noteq> ?c) p1"
    by (simp add: p1_def skip_def scan_simps)
  have tw: "takeWhile (\<lambda>c. c \<noteq> ?c) p1 = [] \<longleftrightarrow> q = p1"
    unfolding q_def skip_def by (cases p1) (auto, metis length_dropWhile_le impossible_Cons)
  consider "p = []" | "p \<noteq> []" "p1 = []" | "p \<noteq> []" "p1 \<noteq> []" "q = p1"
    | "p \<noteq> []" "p1 \<noteq> []" "q \<noteq> p1" by blast
  then show ?case
  proof cases
    case 1
    then show ?thesis by (simp add: matchlist_parse.simps)
  next
    case 2
    then show ?thesis using front by (simp add: matchlist_parse.simps [of p] flip: p1_def)
  next
    case 3
    with tw obtain r where r: "p1 = ?c # r" by (cases p1) (auto split: if_splits)
    have "matchlist_parse p = matchlist_parse (tl p1)"
      using 3 by (subst matchlist_parse.simps) (simp add: Let_def flip: p1_def q_def)
    with r front "1.IH"(1) [OF 3(1) p1_def 3(2) q_def 3(3)] show ?thesis by simp
  next
    case 4
    have "split_on ?c p1 = takeWhile (\<lambda>c. c \<noteq> ?c) p1 # (case q of [] \<Rightarrow> [] | _ # r \<Rightarrow> split_on ?c r)"
      unfolding q_def skip_def by (rule split_on_step)
    moreover have "takeWhile (\<lambda>c. c \<noteq> ?c) p1 \<noteq> []" using 4 tw by blast
    ultimately have "?f p1 = takeWhile (\<lambda>c. c \<noteq> ?c) p1 # ?f (if q \<noteq> [] then tl q else q)"
      using head by (cases q) simp_all
    moreover have "matchlist_parse p = strndup p1 (pdiff p1 q) # matchlist_parse (if q \<noteq> [] then tl q else q)"
      using 4 by (subst matchlist_parse.simps) (simp add: Let_def flip: p1_def q_def)
    moreover have "strndup p1 (pdiff p1 q) = takeWhile (\<lambda>c. c \<noteq> ?c) p1"
      unfolding q_def by (rule strndup_skip)
    ultimately show ?thesis
      using front "1.IH"(2) [OF 4(1) p1_def 4(2) q_def 4(3)] by simp
  qed
qed

lemma vmod_filter_except_cookies:
  "task_cookies (cookie_vmod_filter_except t (Some s)) =
     filter (\<lambda>c. c_name c \<in> set (matchlist_parse s)) (task_cookies t)"
  by (simp add: cookie_vmod_filter_except_def filter_cookies_def filter_cookies_loop_eq
      FILTER_ACTION_WHITELIST_def task_cookies_def Let_def split: prod.split)

lemma vmod_filter_cookies:
  "task_cookies (cookie_vmod_filter t (Some s)) =
     filter (\<lambda>c. c_name c \<notin> set (matchlist_parse s)) (task_cookies t)"
  by (simp add: cookie_vmod_filter_def filter_cookies_def filter_cookies_loop_eq
      FILTER_ACTION_BLACKLIST_def task_cookies_def Let_def split: prod.split)

section \<open>Parsing\<close>

text \<open>
  A Cookie header in the form browsers send it: items \<open>name=value\<close>, each preceded by white
  space (possibly none) and followed by a semicolon.
\<close>

definition item_ok :: "string \<times> string \<times> string \<Rightarrow> bool" where
  "item_ok i = (case i of (w, n, v) \<Rightarrow>
     (\<forall>c \<in> set w. isspace c) \<and> CHR ''='' \<notin> set n \<and> (n \<noteq> [] \<longrightarrow> \<not> isspace (hd n)) \<and>
     CHR '';'' \<notin> set v)"

definition render_items :: "(string \<times> string \<times> string) list \<Rightarrow> string" where
  "render_items is = concat (map (\<lambda>(w, n, v). w @ n @ ''='' @ v @ '';'') is)"

lemma parse_loop_Nil [simp]: "cookie_parse_loop api t [] i = (t, i)"
  by (simp add: cookie_parse_loop.simps)

lemma skip_item:
  assumes "item_ok (w, n, v)"
  shows "skip isspace (w @ n @ CHR ''='' # r) = n @ CHR ''='' # r"
proof (cases n)
  case Nil
  with assms show ?thesis by (simp add: item_ok_def scan_simps isspace_def [of "CHR ''=''"])
next
  case (Cons x xs)
  with assms show ?thesis by (simp add: item_ok_def scan_simps)
qed

lemma parse_loop_item:
  assumes "item_ok (w, n, v)"
  shows "cookie_parse_loop api t (w @ n @ CHR ''='' # v @ CHR '';'' # rest) i =
           cookie_parse_loop api (cookie_vmod_set api t (Some n) (Some v)) rest (i + 1)"
    and "cookie_parse_loop api t (w @ n @ CHR ''='' # v) i =
           (cookie_vmod_set api t (Some n) (Some v), i + 1)"
proof -
  have n: "CHR ''='' \<notin> set n" and v: "\<And>x. x \<in> set v \<Longrightarrow> x \<noteq> CHR '';''"
    using assms by (auto simp: item_ok_def)
  show "cookie_parse_loop api t (w @ n @ CHR ''='' # v @ CHR '';'' # rest) i =
          cookie_parse_loop api (cookie_vmod_set api t (Some n) (Some v)) rest (i + 1)"
    using n v by (subst cookie_parse_loop.simps) (simp add: skip_item [OF assms] scan_simps)
  show "cookie_parse_loop api t (w @ n @ CHR ''='' # v) i =
          (cookie_vmod_set api t (Some n) (Some v), i + 1)"
    using n v by (subst cookie_parse_loop.simps) (simp add: skip_item [OF assms] scan_simps)
qed

definition set_items ::
  "'ws ws_api \<Rightarrow> (string \<times> string \<times> string) list \<Rightarrow> 'ws cookie_task \<Rightarrow> 'ws cookie_task" where
  "set_items api is t = fold (\<lambda>(w, n, v) t. cookie_vmod_set api t (Some n) (Some v)) is t"

lemma parse_loop_items:
  "\<forall>i \<in> set is. item_ok i \<Longrightarrow>
   cookie_parse_loop api t (render_items is @ rest) k =
     cookie_parse_loop api (set_items api is t) rest (k + int (length is))"
proof (induction "is" arbitrary: t k)
  case (Cons x xs)
  obtain w n v where x: "x = (w, n, v)" by (cases x)
  then show ?case
    using Cons parse_loop_item(1) [of w n v api t "render_items xs @ rest" k]
    by (simp add: render_items_def set_items_def algebra_simps)
qed (simp add: render_items_def set_items_def)

lemma set_items_ample:
  "ws_ample api \<Longrightarrow> task_cookies (set_items api is t) =
     fold (\<lambda>(n, v). cookie_put n v) (filter (\<lambda>(n, v). cookie_valid n v) (map snd is)) (task_cookies t)"
proof (induction "is" arbitrary: t)
  case (Cons x xs)
  obtain w n v where x: "x = (w, n, v)" by (cases x)
  with Cons show ?case
    by (simp add: set_items_def vmod_set_ample case_prod_beta)
qed (simp add: set_items_def)

lemma vmod_parse_start:
  assumes "h \<noteq> []"
  shows "\<exists>ctx. task_cookies (cookie_vmod_parse api t (Some h)) =
           task_cookies (fst (cookie_parse_loop api (ctx, Some \<lparr>cookielist = []\<rparr>) h 0))"
proof -
  obtain ctx priv where t: "t = (ctx, priv)" by fastforce
  have "(if cookielist (cobj_get priv) \<noteq> [] then cookie_vmod_clean (ctx, Some (cobj_get priv))
         else (ctx, Some (cobj_get priv))) = (ctx, Some \<lparr>cookielist = []\<rparr>)"
    by (cases "cobj_get priv") (auto simp: cookie_vmod_clean_def)
  then show ?thesis
    using assms unfolding t cookie_vmod_parse_def
    by (intro exI [of _ ctx])
      (simp only: Let_def case_prod_conv cobj_get_Some option.inject option.distinct option.sel,
       simp add: task_cookies_def case_prod_beta)
qed

lemma fold_put_distinct:
  "distinct (map c_name (acc @ cs)) \<Longrightarrow>
   fold (\<lambda>(n, v). cookie_put n v) (map (\<lambda>c. (c_name c, c_value c)) cs) acc = acc @ cs"
proof (induction cs arbitrary: acc)
  case (Cons c cs)
  then have "c_name c \<notin> c_name ` set acc" by auto
  then have "find_index (\<lambda>d. c_name d = c_name c) acc = None"
    unfolding find_index_None by (metis imageI)
  then have "cookie_put (c_name c) (c_value c) acc = acc @ [c]" by (simp add: cookie_put_def)
  with Cons.IH [of "acc @ [c]"] Cons.prems show ?case by simp
qed simp

definition cookie_items :: "bool \<Rightarrow> cookie list \<Rightarrow> (string \<times> string \<times> string) list" where
  "cookie_items first cs = (case cs of [] \<Rightarrow> []
     | c # cs \<Rightarrow> (if first then '''' else '' '', c_name c, c_value c) #
         map (\<lambda>c. ('' '', c_name c, c_value c)) cs)"

lemma cookie_print_items: "cookie_print first cs = render_items (cookie_items first cs)"
proof (induction cs arbitrary: first)
  case (Cons c cs)
  have "cookie_items False cs = map (\<lambda>c. ('' '', c_name c, c_value c)) cs"
    by (cases cs) (simp_all add: cookie_items_def)
  with Cons [of False] show ?case
    by (simp add: cookie_items_def render_items_def)
qed (simp add: cookie_items_def render_items_def)

lemma snd_cookie_items: "map snd (cookie_items first cs) = map (\<lambda>c. (c_name c, c_value c)) cs"
  by (cases cs) (simp_all add: cookie_items_def)

text \<open>Cookies that survive being written to a header and read back.\<close>

definition cookie_clean_text :: "cookie \<Rightarrow> bool" where
  "cookie_clean_text c \<longleftrightarrow> CHR ''='' \<notin> set (c_name c) \<and> \<not> isspace (hd (c_name c)) \<and>
     CHR '';'' \<notin> set (c_value c)"

lemma cookie_items_ok:
  "\<forall>c \<in> set cs. cookie_clean_text c \<Longrightarrow> \<forall>i \<in> set (cookie_items first cs). item_ok i"
  by (cases cs) (auto simp: cookie_items_def item_ok_def cookie_clean_text_def isspace_def)

section \<open>Reachable task states\<close>

text \<open>One rule per call that a VCL program can make.\<close>

inductive cookie_reachable :: "'ws ws_api \<Rightarrow> 'ws cookie_task \<Rightarrow> bool" for api where
  fresh: "cookie_reachable api (ctx, None)"
| set_: "cookie_reachable api t \<Longrightarrow> cookie_reachable api (cookie_vmod_set api t n v)"
| parse: "cookie_reachable api t \<Longrightarrow> cookie_reachable api (cookie_vmod_parse api t h)"
| delete: "cookie_reachable api t \<Longrightarrow> cookie_reachable api (cookie_vmod_delete t n)"
| clean: "cookie_reachable api t \<Longrightarrow> cookie_reachable api (cookie_vmod_clean t)"
| filter_: "cookie_reachable api t \<Longrightarrow> cookie_reachable api (cookie_vmod_filter t s)"
| except: "cookie_reachable api t \<Longrightarrow> cookie_reachable api (cookie_vmod_filter_except t s)"
| get: "cookie_reachable api t \<Longrightarrow> cookie_reachable api (snd (cookie_vmod_get t n))"
| isset: "cookie_reachable api t \<Longrightarrow> cookie_reachable api (snd (cookie_vmod_isset t n))"
| get_string: "cookie_reachable api t \<Longrightarrow> cookie_reachable api (snd (cookie_vmod_get_string api t))"

lemma cookies_ok_Nil [simp]: "cookies_ok []"
  by (simp add: cookies_ok_def)

lemma vmod_set_ok [inv_intros]:
  assumes "ws_copies api" and "cookies_ok (task_cookies t)"
  shows "cookies_ok (task_cookies (cookie_vmod_set api t n v))"
proof (cases "\<exists>n' v'. n = Some n' \<and> v = Some v' \<and> cookie_valid n' v'")
  case True
  then obtain n' v' where nv: "n = Some n'" "v = Some v'" and ok: "cookie_valid n' v'" by blast
  show ?thesis
    using vmod_set_all_or_nothing [OF assms(1) ok, of t] cookies_ok_put [OF assms(2) ok] assms(2)
    unfolding nv by auto
next
  case False
  then show ?thesis
    using vmod_set_invalid [OF False, of api "fst t" "snd t"] assms(2)
    by (simp add: task_cookies_def)
qed

lemma parse_loop_ok [inv_intros]:
  "ws_copies api \<Longrightarrow> cookies_ok (task_cookies t) \<Longrightarrow>
   cookies_ok (task_cookies (fst (cookie_parse_loop api t p i)))"
proof (induction api t p i rule: cookie_parse_loop.induct)
  case (1 api t p i)
  then show ?case
    by (subst cookie_parse_loop.simps) (auto simp: Let_def vmod_set_ok split: option.split)
qed

lemma vmod_parse_ok [inv_intros]:
  assumes "ws_copies api" and "cookies_ok (task_cookies t)"
  shows "cookies_ok (task_cookies (cookie_vmod_parse api t h))"
proof (cases "h = None \<or> h = Some []")
  case True
  with assms(2) show ?thesis
    by (cases t) (auto simp: cookie_vmod_parse_def task_cookies_def Let_def)
next
  case False
  then obtain s where "h = Some s" "s \<noteq> []" by auto
  then show ?thesis
    using vmod_parse_start [of s api t] parse_loop_ok [OF assms(1)] by auto
qed

lemma filter_cookies_ok [inv_intros]:
  "cookies_ok (cookielist (cobj_get priv)) \<Longrightarrow>
   cookies_ok (cookielist (cobj_get (filter_cookies priv s act)))"
  by (simp add: filter_cookies_def filter_cookies_loop_eq Let_def cookies_ok_filter)

lemma vmod_delete_ok [inv_intros]:
  assumes "cookies_ok (task_cookies t)"
  shows "cookies_ok (task_cookies (cookie_vmod_delete t n))"
proof (cases n)
  case None
  with assms show ?thesis
    by (cases t) (simp add: cookie_vmod_delete_def task_cookies_def Let_def)
next
  case (Some n')
  with assms show ?thesis by (simp add: vmod_delete_cookies ck.inv_del)
qed

lemma cookie_reachable_ok:
  assumes "cookie_reachable api t" and "ws_copies api"
  shows "cookies_ok (task_cookies t)"
  using assms(1)
proof induction
  case (get t n)
  then show ?case
    by (cases t) (auto simp: cookie_vmod_get_def task_cookies_def Let_def split: option.split)
next
  case (isset t n)
  then show ?case
    by (cases t) (auto simp: cookie_vmod_isset_def task_cookies_def Let_def split: option.split)
next
  case (get_string t)
  then show ?case
    by (cases t)
      (auto simp: cookie_vmod_get_string_def task_cookies_def Let_def split: prod.split bool.split)
next
  case (clean t)
  then show ?case by (cases t) (simp add: cookie_vmod_clean_def task_cookies_def Let_def)
next
  case (filter_ t s)
  then show ?case
    by (cases t) (simp add: cookie_vmod_filter_def task_cookies_def filter_cookies_ok)
next
  case (except t s)
  then show ?case
    by (cases t) (simp add: cookie_vmod_filter_except_def task_cookies_def filter_cookies_ok)
qed (simp_all add: inv_intros assms(2))

section \<open>Properties\<close>

lemma parse_items_cookies:
  assumes "ws_ample api" and "\<forall>i \<in> set is. item_ok i" and "is \<noteq> []"
    and "h = render_items is \<or> h = butlast (render_items is)"
  shows "task_cookies (cookie_vmod_parse api t (Some h)) =
     fold (\<lambda>(n, v). cookie_put n v) (filter (\<lambda>(n, v). cookie_valid n v) (map snd is)) []"
proof -
  obtain w n v js where j: "is = js @ [(w, n, v)]"
    using assms(3) by (cases "is" rule: rev_cases) auto
  have last_item: "item_ok (w, n, v)" and front: "\<forall>i \<in> set js. item_ok i"
    using assms(2) j by auto
  have r: "render_items is = (render_items js @ w @ n @ CHR ''='' # v) @ '';''"
    by (simp add: j render_items_def)
  then have "h \<noteq> []" using assms(4) by (auto simp: butlast_append)
  then obtain ctx where h: "task_cookies (cookie_vmod_parse api t (Some h)) =
      task_cookies (fst (cookie_parse_loop api (ctx, Some \<lparr>cookielist = []\<rparr>) h 0))"
    using vmod_parse_start by blast
  have "fst (cookie_parse_loop api (ctx, Some \<lparr>cookielist = []\<rparr>) h 0) =
      set_items api is (ctx, Some \<lparr>cookielist = []\<rparr>)"
    using assms(4)
  proof
    assume "h = render_items is"
    then show ?thesis using parse_loop_items [OF assms(2), of api _ "[]" 0] by simp
  next
    assume "h = butlast (render_items is)"
    then have "h = render_items js @ w @ n @ CHR ''='' # v" using r by (metis butlast_snoc)
    then show ?thesis
      by (simp add: parse_loop_items [OF front] parse_loop_item(2) [OF last_item] j)
        (simp add: set_items_def)
  qed
  with h set_items_ample [OF assms(1)] show ?thesis by simp
qed

text \<open>
  Claim C8. Reading back what \<open>get_string\<close> wrote: whenever the listed cookies satisfy the
  list invariant, none of them contains the separators of the header syntax and the workspace
  is not exhausted, parsing the rendered string, from whatever state \<open>t'\<close>, yields exactly the
  same list in the same order. The exception is the empty list: it is rendered as the empty
  string, of which \<open>parse\<close> makes nothing, so the cookies of \<open>t'\<close> stay.
\<close>

theorem cookie_roundtrip:
  assumes "ws_ample api" and "cookies_ok (task_cookies t)"
    and "\<forall>c \<in> set (task_cookies t). cookie_clean_text c"
  shows "\<exists>h. fst (cookie_vmod_get_string api t) = Some h \<and>
     task_cookies (cookie_vmod_parse api t' (Some h)) = (if task_cookies t = [] then task_cookies t' else task_cookies t)"
proof -
  let ?cs = "task_cookies t" and ?is = "cookie_items True (task_cookies t)"
  have al: "\<And>w m b w'. WS_Alloc api w m = (b, w') \<Longrightarrow> b"
    using assms(1) by (metis fst_conv ws_ample_def)
  have h: "fst (cookie_vmod_get_string api t) = Some (render_items ?is)"
    by (cases t) (auto simp: cookie_vmod_get_string_def task_cookies_def cookie_print_items Let_def
        split: prod.split bool.split dest!: al)
  have "task_cookies (cookie_vmod_parse api t' (Some (render_items ?is))) = (if ?cs = [] then task_cookies t' else ?cs)"
  proof (cases "?cs = []")
    case True
    then show ?thesis
      by (cases t') (simp add: cookie_items_def render_items_def cookie_vmod_parse_def task_cookies_def Let_def)
  next
    case False
    then have "map snd ?is \<noteq> []" by (simp add: snd_cookie_items)
    then have ne: "?is \<noteq> []" by auto
    have valid: "filter (\<lambda>(n, v). cookie_valid n v) (map (\<lambda>c. (c_name c, c_value c)) ?cs) =
        map (\<lambda>c. (c_name c, c_value c)) ?cs"
      using assms(2) by (intro filter_True) (auto simp: cookies_ok_def cookie_valid_def)
    show ?thesis
      using parse_items_cookies [OF assms(1) cookie_items_ok [OF assms(3)] ne, of "render_items ?is" t']
        fold_put_distinct [of "[]" ?cs] assms(2) valid False
      by (simp add: snd_cookie_items cookies_ok_def)
  qed
  with h show ?thesis by blast
qed

theorem cookie_roundtrip_witness:
  "\<exists>h. fst (cookie_vmod_get_string ample_ws
          (\<lparr>ctx_ws = (), ctx_vsl = []\<rparr>, Some \<lparr>cookielist = [\<lparr>c_name = ''a'', c_value = ''1=2''\<rparr>, \<lparr>c_name = ''b c'', c_value = '' x''\<rparr>]\<rparr>)) = Some h \<and>
     task_cookies (cookie_vmod_parse ample_ws (\<lparr>ctx_ws = (), ctx_vsl = []\<rparr>, None) (Some h)) =
       [\<lparr>c_name = ''a'', c_value = ''1=2''\<rparr>, \<lparr>c_name = ''b c'', c_value = '' x''\<rparr>]"
  using cookie_roundtrip [OF ample_ws_ample,
      of "(\<lparr>ctx_ws = (), ctx_vsl = []\<rparr>, Some \<lparr>cookielist = [\<lparr>c_name = ''a'', c_value = ''1=2''\<rparr>, \<lparr>c_name = ''b c'', c_value = '' x''\<rparr>]\<rparr>)"
        "(\<lparr>ctx_ws = (), ctx_vsl = []\<rparr>, None)"]
  by (simp add: cookies_ok_def cookie_clean_text_def isspace_def)

text \<open>
  Claim C23. What \<open>parse\<close> leaves behind: for a header of \<open>name=value\<close> items, with or without
  the final semicolon and with any white space before the names, and a workspace that is not
  exhausted, \<open>get\<close> returns the last non-empty value given for a name and NULL for every other
  name (where \<^verbatim>\<open>docs/vmod_cookie.rst\<close> says an empty string); earlier cookies are gone.
\<close>

theorem cookie_parse_get:
  assumes "ws_ample api" and "\<forall>i \<in> set is. item_ok i" and "is \<noteq> []" and "n \<noteq> []"
    and "h = render_items is \<or> h = butlast (render_items is)"
  shows "fst (cookie_vmod_get (cookie_vmod_parse api t (Some h)) (Some n)) =
     map_of (rev (filter (\<lambda>(n, v). n \<noteq> [] \<and> v \<noteq> []) (map snd is))) n"
proof -
  let ?kvs = "filter (\<lambda>(n, v). cookie_valid n v) (map snd is)"
  have "cookie_lookup (fold (\<lambda>(n, v). cookie_put n v) ?kvs []) = cookie_lookup [] ++ map_of (rev ?kvs)"
    by (rule ck.lookup_puts) auto
  moreover have "cookie_lookup [] = Map.empty" by (simp add: fun_eq_iff cookie_lookup_def)
  ultimately show ?thesis
    using parse_items_cookies [OF assms(1,2,3,5), of t]
      vmod_get_lookup [OF assms(4), of "cookie_vmod_parse api t (Some h)"]
    by (simp add: cookie_valid_def case_prod_beta)
qed

theorem cookie_parse_get_witness:
  "fst (cookie_vmod_get (cookie_vmod_parse ample_ws (\<lparr>ctx_ws = (), ctx_vsl = []\<rparr>, None)
      (Some ''a=1; b=2;  a=3'')) (Some ''a'')) = Some ''3''"
  using cookie_parse_get [OF ample_ws_ample,
      of "[('''', ''a'', ''1''), ('' '', ''b'', ''2''), (''  '', ''a'', ''3'')]" "''a''"
        "''a=1; b=2;  a=3''" "(\<lparr>ctx_ws = (), ctx_vsl = []\<rparr>, None)"]
  by (simp add: item_ok_def render_items_def isspace_def)

text \<open>
  Claim C28. In every state a VCL program can reach, from a fresh task and whatever the
  workspace does, the listed cookies have pairwise different, non-empty names and non-empty
  values.
\<close>

theorem cookie_list_invariant:
  assumes "cookie_reachable api t" and "ws_copies api"
  shows "distinct (map c_name (task_cookies t)) \<and>
     (\<forall>c \<in> set (task_cookies t). c_name c \<noteq> [] \<and> c_value c \<noteq> [])"
  using cookie_reachable_ok [OF assms] by (simp add: cookies_ok_def)

theorem cookie_list_invariant_witness:
  "distinct (map c_name (task_cookies (cookie_vmod_set bump_ws
     (\<lparr>ctx_ws = 100, ctx_vsl = []\<rparr>, None) (Some ''a'') (Some ''b''))))"
  by (rule cookie_list_invariant [OF cookie_reachable.set_ [OF cookie_reachable.fresh] bump_ws_copies,
      THEN conjunct1])

text \<open>
  \<open>set\<close> is all or nothing: with non-empty arguments, either the list is as it was
  and one overflow message was logged, or the cookie now has the given value, in its old
  position if it existed and at the end if not, and nothing was logged.
\<close>

theorem cookie_set_atomic:
  assumes "ws_copies api" and "n \<noteq> []" and "v \<noteq> []"
  shows "(task_cookies (cookie_vmod_set api t (Some n) (Some v)) = task_cookies t \<and>
           (\<exists>msg. ctx_vsl (fst (cookie_vmod_set api t (Some n) (Some v))) =
              ctx_vsl (fst t) @ [(SLT_VCL_Log, msg, [])])) \<or>
         (task_cookies (cookie_vmod_set api t (Some n) (Some v)) = cookie_put n v (task_cookies t) \<and>
           ctx_vsl (fst (cookie_vmod_set api t (Some n) (Some v))) = ctx_vsl (fst t))"
proof -
  obtain ctx priv where t: "t = (ctx, priv)" by fastforce
  have cp: "\<And>w s p w'. WS_Printf api w s = (Some p, w') \<Longrightarrow> p = s"
    using assms(1) by (metis fst_conv ws_copies_def)
  show ?thesis
    using assms(2,3) unfolding t cookie_vmod_set_def task_cookies_def cookie_put_def
    by (auto simp: find_cookie_def Let_def VSLb_def split: option.splits prod.splits bool.splits dest!: cp)
qed

theorem cookie_set_atomic_witness:
  "task_cookies (cookie_vmod_set bump_ws (\<lparr>ctx_ws = 41, ctx_vsl = []\<rparr>, None) (Some ''a'') (Some ''b'')) = [] \<and>
   task_cookies (cookie_vmod_set bump_ws (\<lparr>ctx_ws = 44, ctx_vsl = []\<rparr>, None) (Some ''a'') (Some ''b'')) =
     [\<lparr>c_name = ''a'', c_value = ''b''\<rparr>]"
  using cookie_set_atomic [OF bump_ws_copies, of "''a''" "''b''" "(\<lparr>ctx_ws = 41, ctx_vsl = []\<rparr>, None)"]
    cookie_set_atomic [OF bump_ws_copies, of "''a''" "''b''" "(\<lparr>ctx_ws = 44, ctx_vsl = []\<rparr>, None)"]
  by (simp add: cookie_vmod_set_def bump_ws_def cobj_get_def find_cookie_def sizeof_cookie_def
      cookie_put_def VSLb_def Let_def)

text \<open>
  Claim C24. The stored cookies refine a partial map from names to values: with room in the
  workspace, \<open>set\<close> is map update unless name or value is empty, when it does nothing; \<open>delete\<close> removes one key, \<open>filter_except\<close> restricts the map
  to the listed names and \<open>filter\<close> to their complement, where the list argument is read as
  the comma-separated items with leading white space dropped and empty items ignored.
\<close>

theorem cookie_refines_map:
  assumes "ws_ample api" and "cookies_ok (task_cookies t)"
    and "items = set (filter (\<lambda>x. x \<noteq> []) (map (dropWhile isspace) (split_on (CHR '','') s)))"
  shows "cookie_lookup (task_cookies (cookie_vmod_set api t (Some n) (Some v))) =
           (if n = [] \<or> v = [] then cookie_lookup (task_cookies t) else (cookie_lookup (task_cookies t))(n \<mapsto> v)) \<and>
         cookie_lookup (task_cookies (cookie_vmod_delete t (Some n))) =
           (cookie_lookup (task_cookies t))(n := None) \<and>
         cookie_lookup (task_cookies (cookie_vmod_filter_except t (Some s))) =
           cookie_lookup (task_cookies t) |` items \<and>
         cookie_lookup (task_cookies (cookie_vmod_filter t (Some s))) =
           cookie_lookup (task_cookies t) |` (- items)"
proof (intro conjI)
  show "cookie_lookup (task_cookies (cookie_vmod_set api t (Some n) (Some v))) =
      (if n = [] \<or> v = [] then cookie_lookup (task_cookies t) else (cookie_lookup (task_cookies t))(n \<mapsto> v))"
    using ck.lookup_put [OF assms(2), of n v] by (auto simp: vmod_set_ample [OF assms(1)] cookie_valid_def)
  show "cookie_lookup (task_cookies (cookie_vmod_delete t (Some n))) =
      (cookie_lookup (task_cookies t))(n := None)"
    using ck.lookup_del [OF assms(2)] by (auto simp: vmod_delete_cookies [OF assms(2)])
  show "cookie_lookup (task_cookies (cookie_vmod_filter_except t (Some s))) =
      cookie_lookup (task_cookies t) |` items"
    using cookie_lookup_filter [OF assms(2), of "\<lambda>k. k \<in> items"]
    by (auto simp: vmod_filter_except_cookies restrict_map_def matchlist_parse_items assms(3))
  show "cookie_lookup (task_cookies (cookie_vmod_filter t (Some s))) =
      cookie_lookup (task_cookies t) |` (- items)"
    using cookie_lookup_filter [OF assms(2), of "\<lambda>k. k \<notin> items"]
    by (auto simp: vmod_filter_cookies restrict_map_def matchlist_parse_items assms(3))
qed

theorem cookie_refines_map_witness:
  "cookie_lookup (task_cookies (cookie_vmod_filter_except
      (\<lparr>ctx_ws = (), ctx_vsl = []\<rparr>, Some \<lparr>cookielist = [\<lparr>c_name = ''a'', c_value = ''1''\<rparr>, \<lparr>c_name = ''b'', c_value = ''2''\<rparr>]\<rparr>)
      (Some '' b,, c''))) = Map.empty(''b'' \<mapsto> ''2'')"
  using cookie_refines_map [OF ample_ws_ample,
      of "(\<lparr>ctx_ws = (), ctx_vsl = []\<rparr>, Some \<lparr>cookielist = [\<lparr>c_name = ''a'', c_value = ''1''\<rparr>, \<lparr>c_name = ''b'', c_value = ''2''\<rparr>]\<rparr>)"
        _ "'' b,, c''" "''x''" "''y''"]
  by (auto simp: cookies_ok_def isspace_def cookie_lookup_def restrict_map_def fun_eq_iff)

text \<open>
  Parsing a NULL or an empty header does not touch the stored cookies: they are the
  ones of the previous \<open>parse\<close>, although the documentation of \<open>parse\<close> says that existing state
  is cleaned first.
\<close>

theorem cookie_parse_empty_keeps_state:
  "task_cookies (cookie_vmod_parse api t None) = task_cookies t \<and>
   task_cookies (cookie_vmod_parse api t (Some [])) = task_cookies t"
  by (cases t) (simp add: cookie_vmod_parse_def task_cookies_def Let_def)

end
