(* ===== verification/Vtree.thy ===== *)
theory Vtree
  imports Prelude
begin

text \<open>
  The red-black trees of \<^verbatim>\<open>src/src/vtree.h\<close> (the \<open>VRB_*\<close> macros), which index the token
  buckets of \<open>vsthrottle\<close> and the two directions of \<open>xkey\<close>.

  The C code links nodes by left, right and parent pointers. A tree is modelled by its
  shape, and a pointer to a node by the place it marks: the subtree at the node together
  with the path of frames up to the root. A frame is what the parent pointer reaches: the
  parent's element and colour, on which side of it we are, and the subtree on its other
  side. Walking to the parent pops a frame; assigning a colour, relinking a child or
  rotating changes the subtree or the topmost frames. Reading through a NULL pointer is
  the result \<open>None\<close>; that no operation on a red-black tree does so is part of the
  correctness theorems. The comparison macro argument \<open>cmp\<close> is applied to the search
  element once and then given to the operations as a function of the node.
\<close>

section \<open>Data\<close>

datatype vrb_color = VRB_BLACK | VRB_RED

datatype 'a vrb = NIL | NODE (rbe_left: "'a vrb") (rbe_elm: 'a) (rbe_color: vrb_color) (rbe_right: "'a vrb")

text \<open>Colour tests of the macros: a NULL child counts as black.\<close>

fun is_red :: "'a vrb \<Rightarrow> bool" where
  "is_red NIL = False"
| "is_red (NODE _ _ c _) = (c = VRB_RED)"

fun set_color :: "vrb_color \<Rightarrow> 'a vrb \<Rightarrow> 'a vrb" where
  "set_color c NIL = NIL"
| "set_color c (NODE l x _ r) = NODE l x c r"

datatype 'a frame =
    LeftOf 'a vrb_color "'a vrb"   \<comment> \<open>we are the left child; the right sibling is kept\<close>
  | RightOf "'a vrb" 'a vrb_color  \<comment> \<open>we are the right child; the left sibling is kept\<close>

type_synonym 'a rb_path = "'a frame list"

fun frame_color :: "'a frame \<Rightarrow> vrb_color" where
  "frame_color (LeftOf _ c _) = c"
| "frame_color (RightOf _ _ c) = c"

fun up :: "'a frame \<Rightarrow> 'a vrb \<Rightarrow> 'a vrb" where
  "up (LeftOf x c r) t = NODE t x c r"
| "up (RightOf l x c) t = NODE l x c t"

text \<open>\<open>VRB_ROOT(head)\<close> as seen from a place in the tree.\<close>

fun plug :: "'a rb_path \<Rightarrow> 'a vrb \<Rightarrow> 'a vrb" where
  "plug [] t = t"
| "plug (f # fs) t = plug fs (up f t)"

section \<open>Rotations\<close>

fun VRB_ROTATE_LEFT :: "'a vrb \<Rightarrow> 'a vrb option" where
  "VRB_ROTATE_LEFT (NODE a x c (NODE b y d e)) = Some (NODE (NODE a x c b) y d e)"
| "VRB_ROTATE_LEFT _ = None"

fun VRB_ROTATE_RIGHT :: "'a vrb \<Rightarrow> 'a vrb option" where
  "VRB_ROTATE_RIGHT (NODE (NODE a x c b) y d e) = Some (NODE a x c (NODE b y d e))"
| "VRB_ROTATE_RIGHT _ = None"

section \<open>Insertion\<close>

text \<open>
  \<open>VRB_INSERT_COLOR elm fs\<close>: \<open>elm\<close> is the subtree at the current element, which is red. While
  the parent is red there is work to do; a red uncle is recoloured and the loop goes on at
  the grandparent, otherwise one or two rotations make the parent black and the loop test
  fails the next time round. The root is blackened at the end.
\<close>

fun VRB_INSERT_COLOR :: "'a vrb \<Rightarrow> 'a rb_path \<Rightarrow> 'a vrb option" where
  "VRB_INSERT_COLOR elm [] = Some (set_color VRB_BLACK elm)"
| "VRB_INSERT_COLOR elm (parent # fs) =
     (if frame_color parent \<noteq> VRB_RED then Some (set_color VRB_BLACK (plug (parent # fs) elm))
      else case fs of
        [] \<Rightarrow> None
      | LeftOf g gc tmp # fs' \<Rightarrow>
          if is_red tmp then
            VRB_INSERT_COLOR
              (NODE (set_color VRB_BLACK (up parent elm)) g VRB_RED (set_color VRB_BLACK tmp)) fs'
          else
            Option.bind
              (case parent of RightOf _ _ _ \<Rightarrow> VRB_ROTATE_LEFT (up parent elm)
               | LeftOf _ _ _ \<Rightarrow> Some (up parent elm))
              (\<lambda>p. Option.bind (VRB_ROTATE_RIGHT (NODE (set_color VRB_BLACK p) g VRB_RED tmp))
                (\<lambda>t. Some (set_color VRB_BLACK (plug fs' t))))
      | RightOf tmp g gc # fs' \<Rightarrow>
          if is_red tmp then
            VRB_INSERT_COLOR
              (NODE (set_color VRB_BLACK tmp) g VRB_RED (set_color VRB_BLACK (up parent elm))) fs'
          else
            Option.bind
              (case parent of LeftOf _ _ _ \<Rightarrow> VRB_ROTATE_RIGHT (up parent elm)
               | RightOf _ _ _ \<Rightarrow> Some (up parent elm))
              (\<lambda>p. Option.bind (VRB_ROTATE_LEFT (NODE tmp g VRB_RED (set_color VRB_BLACK p)))
                (\<lambda>t. Some (set_color VRB_BLACK (plug fs' t)))))"

text \<open>The descent of \<open>VRB_INSERT\<close>: the node with an equal key, or the path to the free slot.\<close>

fun insert_descend :: "('a \<Rightarrow> int) \<Rightarrow> 'a vrb \<Rightarrow> 'a rb_path \<Rightarrow> 'a + 'a rb_path" where
  "insert_descend cmp NIL fs = Inr fs"
| "insert_descend cmp (NODE l x c r) fs =
     (let comp = cmp x in
      if comp < 0 then insert_descend cmp l (LeftOf x c r # fs)
      else if comp > 0 then insert_descend cmp r (RightOf l x c # fs)
      else Inl x)"

definition VRB_INSERT :: "('a \<Rightarrow> int) \<Rightarrow> 'a \<Rightarrow> 'a vrb \<Rightarrow> ('a option \<times> 'a vrb) option" where
  "VRB_INSERT cmp elm t =
     (case insert_descend cmp t [] of
        Inl tmp \<Rightarrow> Some (Some tmp, t)
      | Inr fs \<Rightarrow> map_option (Pair None) (VRB_INSERT_COLOR (NODE NIL elm VRB_RED NIL) fs))"

section \<open>Removal\<close>

text \<open>
  \<open>VRB_REMOVE_COLOR fs elm\<close>: the subtree \<open>elm\<close> (possibly NULL) is one black node short of its
  sibling. The three stages below are the body of the loop for the case that \<open>elm\<close> is a left
  child; \<open>remove_color_R\<close> is its mirror image. The first component of the result says
  whether the loop goes on (\<open>Inl\<close>, with the new place) or was left by \<open>break\<close> (\<open>Inr\<close>, with
  the whole tree).
\<close>

definition remove_color_L ::
  "'a vrb \<Rightarrow> 'a \<Rightarrow> vrb_color \<Rightarrow> 'a vrb \<Rightarrow> 'a rb_path \<Rightarrow> ('a rb_path \<times> 'a vrb + 'a vrb) option" where
  "remove_color_L elm p pc tmp fs =
     (case tmp of NIL \<Rightarrow> None | NODE sl s sc sr \<Rightarrow>
      let (pc1, tmp1, fs1) =
        (if sc = VRB_RED then (VRB_RED, sl, LeftOf s VRB_BLACK sr # fs) else (pc, tmp, fs)) in
      case tmp1 of NIL \<Rightarrow> None | NODE ta t tc tb \<Rightarrow>
      if \<not> is_red ta \<and> \<not> is_red tb then
        Some (Inl (fs1, NODE elm p pc1 (NODE ta t VRB_RED tb)))
      else
        Option.bind
          (if \<not> is_red tb then VRB_ROTATE_RIGHT (NODE (set_color VRB_BLACK ta) t VRB_RED tb)
           else Some tmp1)
          (\<lambda>tmp2. case tmp2 of NIL \<Rightarrow> None | NODE ul u uc ur \<Rightarrow>
             Option.bind
               (VRB_ROTATE_LEFT (NODE elm p VRB_BLACK (NODE ul u pc1 (set_color VRB_BLACK ur))))
               (\<lambda>t'. Some (Inr (plug fs1 t')))))"

definition remove_color_R ::
  "'a vrb \<Rightarrow> 'a \<Rightarrow> vrb_color \<Rightarrow> 'a vrb \<Rightarrow> 'a rb_path \<Rightarrow> ('a rb_path \<times> 'a vrb + 'a vrb) option" where
  "remove_color_R tmp p pc elm fs =
     (case tmp of NIL \<Rightarrow> None | NODE sl s sc sr \<Rightarrow>
      let (pc1, tmp1, fs1) =
        (if sc = VRB_RED then (VRB_RED, sr, RightOf sl s VRB_BLACK # fs) else (pc, tmp, fs)) in
      case tmp1 of NIL \<Rightarrow> None | NODE ta t tc tb \<Rightarrow>
      if \<not> is_red ta \<and> \<not> is_red tb then
        Some (Inl (fs1, NODE (NODE ta t VRB_RED tb) p pc1 elm))
      else
        Option.bind
          (if \<not> is_red ta then VRB_ROTATE_LEFT (NODE ta t VRB_RED (set_color VRB_BLACK tb))
           else Some tmp1)
          (\<lambda>tmp2. case tmp2 of NIL \<Rightarrow> None | NODE ul u uc ur \<Rightarrow>
             Option.bind
               (VRB_ROTATE_RIGHT (NODE (NODE (set_color VRB_BLACK ul) u pc1 ur) p VRB_BLACK elm))
               (\<lambda>t'. Some (Inr (plug fs1 t')))))"

fun remove_color_step :: "'a frame \<Rightarrow> 'a rb_path \<Rightarrow> 'a vrb \<Rightarrow> ('a rb_path \<times> 'a vrb + 'a vrb) option" where
  "remove_color_step (LeftOf p pc tmp) fs elm = remove_color_L elm p pc tmp fs"
| "remove_color_step (RightOf tmp p pc) fs elm = remove_color_R tmp p pc elm fs"

lemma remove_color_step_shrinks:
  assumes "remove_color_step f fs elm = Some (Inl (fs', elm'))"
  shows "length fs' = length fs \<or> length fs' = Suc (length fs) \<and> is_red elm'"
proof (cases f)
  case (LeftOf p pc tmp)
  with assms show ?thesis
    by (auto simp: remove_color_L_def Let_def bind_eq_Some_conv split: vrb.splits if_splits)
      (metis vrb.exhaust)+
next
  case (RightOf tmp p pc)
  with assms show ?thesis
    by (auto simp: remove_color_R_def Let_def bind_eq_Some_conv split: vrb.splits if_splits)
      (metis vrb.exhaust)+
qed

function VRB_REMOVE_COLOR :: "'a rb_path \<Rightarrow> 'a vrb \<Rightarrow> 'a vrb option" where
  "VRB_REMOVE_COLOR fs elm =
     (if is_red elm \<or> fs = [] then Some (plug fs (set_color VRB_BLACK elm))
      else case remove_color_step (hd fs) (tl fs) elm of
        None \<Rightarrow> None
      | Some (Inr t) \<Rightarrow> Some (set_color VRB_BLACK t)
      | Some (Inl (fs', elm')) \<Rightarrow> VRB_REMOVE_COLOR fs' elm')"
  by pat_completeness auto
termination
proof (relation "measure (\<lambda>(fs, elm). 2 * length fs + (if is_red elm then 0 else 1))", simp)
  fix fs :: "'a rb_path" and elm x y fs' elm'
  assume "\<not> (is_red elm \<or> fs = [])" and "remove_color_step (hd fs) (tl fs) elm = Some x"
    and "x = Inl y" and "(fs', elm') = y"
  moreover from this have "length fs' = length (tl fs) \<or> length fs' = Suc (length (tl fs)) \<and> is_red elm'"
    by (metis remove_color_step_shrinks)
  ultimately show "((fs', elm'), (fs, elm)) \<in> measure (\<lambda>(fs, elm). 2 * length fs + (if is_red elm then 0 else 1))"
    by (cases fs) auto
qed

declare VRB_REMOVE_COLOR.simps [simp del]

text \<open>The place of a node: where a pointer to \<open>x\<close> points.\<close>

fun locate :: "'a \<Rightarrow> 'a vrb \<Rightarrow> 'a rb_path \<Rightarrow> ('a vrb \<times> 'a rb_path) option" where
  "locate x NIL fs = None"
| "locate x (NODE l y c r) fs =
     (if x = y then Some (NODE l y c r, fs)
      else case locate x l (LeftOf y c r # fs) of
        Some p \<Rightarrow> Some p
      | None \<Rightarrow> locate x r (RightOf l y c # fs))"

text \<open>The walk \<open>while ((left = VRB_LEFT(elm)) != NULL) elm = left\<close>.\<close>

fun leftmost :: "'a vrb \<Rightarrow> 'a rb_path \<Rightarrow> 'a vrb \<times> 'a rb_path" where
  "leftmost (NODE (NODE ll y d lr) x c r) fs = leftmost (NODE ll y d lr) (LeftOf x c r # fs)"
| "leftmost t fs = (t, fs)"

fun rightmost :: "'a vrb \<Rightarrow> 'a rb_path \<Rightarrow> 'a vrb \<times> 'a rb_path" where
  "rightmost (NODE l x c (NODE rl y d rr)) fs = rightmost (NODE rl y d rr) (RightOf l x c # fs)"
| "rightmost t fs = (t, fs)"

text \<open>
  A node with two children is replaced by its successor, which takes over the node's links and
  colour; the successor's old place receives the successor's right child. Then
  \<open>color\<close> is the colour that left the tree.
\<close>

definition VRB_REMOVE :: "'a \<Rightarrow> 'a vrb \<Rightarrow> 'a vrb option" where
  "VRB_REMOVE old t =
     (case locate old t [] of
        None \<Rightarrow> None
      | Some (NIL, fs) \<Rightarrow> None
      | Some (NODE l x c r, fs) \<Rightarrow>
          let (child, parent, color) =
            (if l = NIL then (r, fs, c)
             else if r = NIL then (l, fs, c)
             else case leftmost r [] of
               (NIL, gs) \<Rightarrow> (NIL, fs, c)
             | (NODE _ elm ec er, gs) \<Rightarrow> (er, gs @ RightOf l elm c # fs, ec))
          in if color = VRB_BLACK then VRB_REMOVE_COLOR parent child
             else Some (plug parent child))"

section \<open>Search and traversal\<close>

fun VRB_FIND :: "('a \<Rightarrow> int) \<Rightarrow> 'a vrb \<Rightarrow> 'a option" where
  "VRB_FIND cmp NIL = None"
| "VRB_FIND cmp (NODE l x _ r) =
     (let comp = cmp x in
      if comp < 0 then VRB_FIND cmp l else if comp > 0 then VRB_FIND cmp r else Some x)"

fun VRB_NFIND_loop :: "('a \<Rightarrow> int) \<Rightarrow> 'a vrb \<Rightarrow> 'a option \<Rightarrow> 'a option" where
  "VRB_NFIND_loop cmp NIL res = res"
| "VRB_NFIND_loop cmp (NODE l x _ r) res =
     (let comp = cmp x in
      if comp < 0 then VRB_NFIND_loop cmp l (Some x)
      else if comp > 0 then VRB_NFIND_loop cmp r res else Some x)"

definition VRB_NFIND :: "('a \<Rightarrow> int) \<Rightarrow> 'a vrb \<Rightarrow> 'a option" where
  "VRB_NFIND cmp t = VRB_NFIND_loop cmp t None"

fun VRB_MINMAX_loop :: "int \<Rightarrow> 'a vrb \<Rightarrow> 'a option \<Rightarrow> 'a option" where
  "VRB_MINMAX_loop val NIL parent = parent"
| "VRB_MINMAX_loop val (NODE l x _ r) parent =
     (if val < 0 then VRB_MINMAX_loop val l (Some x) else VRB_MINMAX_loop val r (Some x))"

definition VRB_MIN :: "'a vrb \<Rightarrow> 'a option" where
  "VRB_MIN t = VRB_MINMAX_loop (- 1) t None"

definition VRB_MAX :: "'a vrb \<Rightarrow> 'a option" where
  "VRB_MAX t = VRB_MINMAX_loop 1 t None"

definition elm_of :: "'a vrb \<Rightarrow> 'a option" where
  "elm_of t = (case t of NIL \<Rightarrow> None | NODE _ x _ _ \<Rightarrow> Some x)"

text \<open>Climbing while we are the right (left) child, then once more: the next (previous) node.\<close>

fun climb_right :: "'a rb_path \<Rightarrow> 'a option" where
  "climb_right [] = None"
| "climb_right (LeftOf x _ _ # fs) = Some x"
| "climb_right (RightOf _ _ _ # fs) = climb_right fs"

fun climb_left :: "'a rb_path \<Rightarrow> 'a option" where
  "climb_left [] = None"
| "climb_left (RightOf _ x _ # fs) = Some x"
| "climb_left (LeftOf _ _ _ # fs) = climb_left fs"

definition VRB_NEXT :: "'a vrb \<Rightarrow> 'a \<Rightarrow> 'a option" where
  "VRB_NEXT t elm =
     (case locate elm t [] of
        Some (NODE l x c r, fs) \<Rightarrow>
          if r \<noteq> NIL then elm_of (fst (leftmost r [])) else climb_right fs
      | _ \<Rightarrow> None)"

definition VRB_PREV :: "'a vrb \<Rightarrow> 'a \<Rightarrow> 'a option" where
  "VRB_PREV t elm =
     (case locate elm t [] of
        Some (NODE l x c r, fs) \<Rightarrow>
          if l \<noteq> NIL then elm_of (fst (rightmost l [])) else climb_left fs
      | _ \<Rightarrow> None)"

text \<open>
  \<open>VRB_FOREACH\<close> collects the visited elements; \<open>VRB_FOREACH_SAFE\<close> reads the successor before
  the body runs, so that the body may remove the element it is given. \<open>None\<close>: the loop
  does not end, or its body fails.
\<close>

partial_function (option) foreach_from :: "'a vrb \<Rightarrow> 'a option \<Rightarrow> 'a list \<Rightarrow> 'a list option" where
  "foreach_from t x acc =
     (case x of None \<Rightarrow> Some (rev acc) | Some e \<Rightarrow> foreach_from t (VRB_NEXT t e) (e # acc))"

definition VRB_FOREACH :: "'a vrb \<Rightarrow> 'a list option" where
  "VRB_FOREACH t = foreach_from t (VRB_MIN t) []"

partial_function (option) remove_safe_from ::
  "('a \<Rightarrow> bool) \<Rightarrow> 'a vrb \<Rightarrow> 'a option \<Rightarrow> 'a list \<Rightarrow> ('a vrb \<times> 'a list) option" where
  "remove_safe_from P t x freed =
     (case x of None \<Rightarrow> Some (t, freed)
      | Some e \<Rightarrow>
          let y = VRB_NEXT t e in
          if P e then Option.bind (VRB_REMOVE e t) (\<lambda>t'. remove_safe_from P t' y (freed @ [e]))
          else remove_safe_from P t y freed)"

text \<open>\<open>VRB_FOREACH_SAFE(x, ..) if (P x) { VRB_REMOVE(..); free(x); }\<close>\<close>

definition VRB_FOREACH_SAFE_remove :: "('a \<Rightarrow> bool) \<Rightarrow> 'a vrb \<Rightarrow> ('a vrb \<times> 'a list) option" where
  "VRB_FOREACH_SAFE_remove P t = remove_safe_from P t (VRB_MIN t) []"

text \<open>
  The other loops. \<open>FROM\<close> starts at a given node instead of the first one, \<open>REVERSE\<close> goes from
  \<open>VRB_MAX\<close> down by \<open>VRB_PREV\<close>. The \<open>FROM\<close> and \<open>SAFE\<close> variants read the neighbour before the body
  runs; their body is again the removal of the nodes that satisfy \<open>P\<close>.
\<close>

definition VRB_FOREACH_FROM_remove :: "('a \<Rightarrow> bool) \<Rightarrow> 'a vrb \<Rightarrow> 'a option \<Rightarrow> ('a vrb \<times> 'a list) option" where
  "VRB_FOREACH_FROM_remove P t y = remove_safe_from P t y []"

partial_function (option) reverse_from :: "'a vrb \<Rightarrow> 'a option \<Rightarrow> 'a list \<Rightarrow> 'a list option" where
  "reverse_from t x acc =
     (case x of None \<Rightarrow> Some (rev acc) | Some e \<Rightarrow> reverse_from t (VRB_PREV t e) (e # acc))"

definition VRB_FOREACH_REVERSE :: "'a vrb \<Rightarrow> 'a list option" where
  "VRB_FOREACH_REVERSE t = reverse_from t (VRB_MAX t) []"

partial_function (option) remove_reverse_from ::
  "('a \<Rightarrow> bool) \<Rightarrow> 'a vrb \<Rightarrow> 'a option \<Rightarrow> 'a list \<Rightarrow> ('a vrb \<times> 'a list) option" where
  "remove_reverse_from P t x freed =
     (case x of None \<Rightarrow> Some (t, freed)
      | Some e \<Rightarrow>
          let y = VRB_PREV t e in
          if P e then Option.bind (VRB_REMOVE e t) (\<lambda>t'. remove_reverse_from P t' y (freed @ [e]))
          else remove_reverse_from P t y freed)"

definition VRB_FOREACH_REVERSE_FROM_remove ::
  "('a \<Rightarrow> bool) \<Rightarrow> 'a vrb \<Rightarrow> 'a option \<Rightarrow> ('a vrb \<times> 'a list) option" where
  "VRB_FOREACH_REVERSE_FROM_remove P t y = remove_reverse_from P t y []"

definition VRB_FOREACH_REVERSE_SAFE_remove :: "('a \<Rightarrow> bool) \<Rightarrow> 'a vrb \<Rightarrow> ('a vrb \<times> 'a list) option" where
  "VRB_FOREACH_REVERSE_SAFE_remove P t = remove_reverse_from P t (VRB_MAX t) []"

end
