(* ===== verification/Vtree_Correct.thy ===== *)
theory Vtree_Correct
  imports Vtree
begin

text \<open>
  Correctness of the red-black trees: the in-order sequence of elements, the colour and
  black-height invariants, and their preservation by insertion and removal. A place in a
  tree splits the in-order sequence into what lies before and after it (\<open>before\<close>,
  \<open>after\<close>), and the invariant of the whole tree into one about the subtree and one about
  the path (\<open>path_ok\<close>), so that the loops of \<open>VRB_INSERT_COLOR\<close> and \<open>VRB_REMOVE_COLOR\<close>
  are proved one turn at a time.
\<close>

section \<open>In-order sequences\<close>

fun inorder :: "'a vrb \<Rightarrow> 'a list" where
  "inorder NIL = []"
| "inorder (NODE l x _ r) = inorder l @ x # inorder r"

lemma inorder_Nil_iff [simp]: "inorder t = [] \<longleftrightarrow> t = NIL"
  by (cases t) auto

fun before :: "'a rb_path \<Rightarrow> 'a list" where
  "before [] = []"
| "before (LeftOf _ _ _ # fs) = before fs"
| "before (RightOf l x _ # fs) = before fs @ inorder l @ [x]"

fun after :: "'a rb_path \<Rightarrow> 'a list" where
  "after [] = []"
| "after (LeftOf x _ r # fs) = x # inorder r @ after fs"
| "after (RightOf _ _ _ # fs) = after fs"

lemma inorder_plug [simp]: "inorder (plug fs t) = before fs @ inorder t @ after fs"
proof (induction fs arbitrary: t)
  case (Cons f fs)
  then show ?case by (cases f) auto
qed simp

lemma inorder_set_color [simp]: "inorder (set_color c t) = inorder t"
  by (cases t) auto

lemma inorder_up [simp]: "inorder (up f t) = before [f] @ inorder t @ after [f]"
  by (cases f) auto

lemma before_append: "before (fs @ gs) = before gs @ before fs"
  by (induction fs rule: before.induct) auto

lemma after_append: "after (fs @ gs) = after fs @ after gs"
  by (induction fs rule: after.induct) auto

lemma plug_append: "plug (fs @ gs) t = plug gs (plug fs t)"
  by (induction fs arbitrary: t) auto

lemma before_Cons: "before (f # fs) = before fs @ before [f]"
  using before_append [of "[f]" fs] by simp

lemma after_Cons: "after (f # fs) = after [f] @ after fs"
  using after_append [of "[f]" fs] by simp

lemma inorder_rotate_left: "VRB_ROTATE_LEFT t = Some t' \<Longrightarrow> inorder t' = inorder t"
  by (cases t rule: VRB_ROTATE_LEFT.cases) auto

lemma inorder_rotate_right: "VRB_ROTATE_RIGHT t = Some t' \<Longrightarrow> inorder t' = inorder t"
  by (cases t rule: VRB_ROTATE_RIGHT.cases) auto

lemmas inorder_rotates = inorder_rotate_left inorder_rotate_right

section \<open>Colour and height invariants\<close>

fun bheight :: "'a vrb \<Rightarrow> nat" where
  "bheight NIL = 0"
| "bheight (NODE l _ c _) = (if c = VRB_BLACK then Suc (bheight l) else bheight l)"

fun rb_ok :: "'a vrb \<Rightarrow> bool" where
  "rb_ok NIL = True"
| "rb_ok (NODE l _ c r) =
     (rb_ok l \<and> rb_ok r \<and> bheight l = bheight r \<and> (c = VRB_RED \<longrightarrow> \<not> is_red l \<and> \<not> is_red r))"

definition rb_tree :: "'a vrb \<Rightarrow> bool" where
  "rb_tree t \<longleftrightarrow> rb_ok t \<and> \<not> is_red t"

text \<open>The parent a red node must have.\<close>

definition black_above :: "'a rb_path \<Rightarrow> bool" where
  "black_above fs \<longleftrightarrow> (\<exists>f fs'. fs = f # fs' \<and> frame_color f = VRB_BLACK)"

text \<open>\<open>path_ok fs n\<close>: a subtree of black height \<open>n\<close> fits into the hole at \<open>fs\<close>.\<close>

fun path_ok :: "'a rb_path \<Rightarrow> nat \<Rightarrow> bool" where
  "path_ok [] n = True"
| "path_ok (LeftOf x c r # fs) n =
     (rb_ok r \<and> bheight r = n \<and> (c = VRB_RED \<longrightarrow> \<not> is_red r \<and> black_above fs) \<and>
      path_ok fs (if c = VRB_BLACK then Suc n else n))"
| "path_ok (RightOf l x c # fs) n =
     (rb_ok l \<and> bheight l = n \<and> (c = VRB_RED \<longrightarrow> \<not> is_red l \<and> black_above fs) \<and>
      path_ok fs (if c = VRB_BLACK then Suc n else n))"

lemma color_neq [simp]:
  "c \<noteq> VRB_BLACK \<longleftrightarrow> c = VRB_RED" "c \<noteq> VRB_RED \<longleftrightarrow> c = VRB_BLACK"
  by (cases c; simp)+

lemma black_above_simps [simp]:
  "black_above [] = False" "black_above (f # fs) = (frame_color f = VRB_BLACK)"
  by (simp_all add: black_above_def)

lemma set_color_simps [simp]:
  "is_red (set_color VRB_BLACK t) = False"
  "rb_ok t \<Longrightarrow> rb_ok (set_color VRB_BLACK t)"
  "bheight (set_color VRB_BLACK t) = (if is_red t then Suc (bheight t) else bheight t)"
  "\<not> is_red t \<Longrightarrow> set_color VRB_BLACK t = t"
  by (cases t; simp)+

lemma rb_tree_plug:
  "rb_tree (plug fs t) \<longleftrightarrow> rb_ok t \<and> path_ok fs (bheight t) \<and> (is_red t \<longrightarrow> black_above fs)"
proof (induction fs arbitrary: t)
  case Nil
  then show ?case by (simp add: rb_tree_def)
next
  case (Cons f fs)
  show ?case
  proof (cases f)
    case (LeftOf x c r)
    with Cons show ?thesis by (cases c) auto
  next
    case (RightOf l x c)
    show ?thesis
    proof (cases "bheight l = bheight t")
      case True
      with Cons RightOf show ?thesis by (cases c) auto
    next
      case False
      with Cons RightOf show ?thesis by simp
    qed
  qed
qed

lemma rb_tree_root_black: "rb_tree t \<Longrightarrow> set_color VRB_BLACK t = t"
  by (simp add: rb_tree_def)

lemma rb_tree_blacken: "rb_tree t \<Longrightarrow> rb_tree (set_color VRB_BLACK t)"
  by (simp add: rb_tree_def)

section \<open>Insertion\<close>

lemma insert_color_correct:
  assumes "rb_ok elm" "is_red elm" "path_ok fs (bheight elm)"
  shows "\<exists>t. VRB_INSERT_COLOR elm fs = Some t \<and> rb_tree t \<and>
     inorder t = before fs @ inorder elm @ after fs"
  using assms
proof (induction elm fs rule: VRB_INSERT_COLOR.induct)
  case (1 elm)
  then show ?case by (simp add: rb_tree_def)
next
  case (2 elm parent fs)
  show ?case
  proof (cases "frame_color parent = VRB_RED")
    case False
    then have "rb_tree (plug (parent # fs) elm)" using "2.prems" by (subst rb_tree_plug) simp
    with False show ?thesis
      by (simp add: rb_tree_root_black del: plug.simps)
  next
    case red: True
    then have "black_above fs" using "2.prems" by (cases parent) auto
    then obtain f fs' where fs: "fs = f # fs'" and f: "frame_color f = VRB_BLACK"
      by (auto simp: black_above_def)
    have elm: "rb_ok elm" "is_red elm" using "2.prems" by auto
    then obtain a x b where e: "elm = NODE a x VRB_RED b" by (cases elm) auto
    show ?thesis
    proof (cases f)
      case F: (LeftOf g gc tmp)
      show ?thesis
      proof (cases "is_red tmp")
        case True
        with 2 red fs F f show ?thesis by (cases parent) auto
      next
        case False
        with 2 red fs F f e show ?thesis
          by (cases parent) (auto simp: rb_tree_plug intro!: rb_tree_blacken)
      qed
    next
      case F: (RightOf tmp g gc)
      show ?thesis
      proof (cases "is_red tmp")
        case True
        with 2 red fs F f show ?thesis by (cases parent) auto
      next
        case False
        with 2 red fs F f e show ?thesis
          by (cases parent) (auto simp: rb_tree_plug intro!: rb_tree_blacken)
      qed
    qed
  qed
qed

text \<open>
  The comparison function agrees with the order of the keys: \<open>cmp x\<close> is the outcome of
  comparing the search key \<open>k\<close> with node \<open>x\<close>.
\<close>

definition cmp_ok :: "('a \<Rightarrow> 'k::linorder) \<Rightarrow> 'k \<Rightarrow> ('a \<Rightarrow> int) \<Rightarrow> 'a set \<Rightarrow> bool" where
  "cmp_ok key k cmp A \<longleftrightarrow> (\<forall>x \<in> A. (cmp x < 0 \<longleftrightarrow> k < key x) \<and> (cmp x > 0 \<longleftrightarrow> key x < k))"

abbreviation sorted_keys :: "('a \<Rightarrow> 'k::linorder) \<Rightarrow> 'a list \<Rightarrow> bool" where
  "sorted_keys key xs \<equiv> sorted_wrt (<) (map key xs)"

lemma insert_descend_Inl:
  "insert_descend cmp t fs = Inl x \<Longrightarrow> cmp_ok key k cmp (set (inorder t)) \<Longrightarrow>
   x \<in> set (inorder t) \<and> key x = k"
  by (induction cmp t fs rule: insert_descend.induct)
    (auto simp: Let_def cmp_ok_def split: if_splits)

lemma insert_descend_Inr:
  assumes "insert_descend cmp t fs = Inr gs" "cmp_ok key k cmp (set (inorder t))"
    "sorted_keys key (inorder t)"
  shows "\<exists>xs ys. inorder t = xs @ ys \<and> before gs = before fs @ xs \<and> after gs = ys @ after fs \<and>
     (\<forall>x \<in> set xs. key x < k) \<and> (\<forall>y \<in> set ys. k < key y) \<and>
     plug gs NIL = plug fs t"
  using assms
proof (induction cmp t fs rule: insert_descend.induct)
  case (1 cmp fs)
  then show ?case by simp
next
  case (2 cmp l x c r fs)
  consider "k < key x" | "key x < k" | "key x = k" by fastforce
  then show ?case
  proof cases
    case 1
    with 2 obtain xs ys where "inorder l = xs @ ys" "before gs = before fs @ xs"
      "after gs = ys @ x # inorder r @ after fs" "\<forall>x \<in> set xs. key x < k" "\<forall>y \<in> set ys. k < key y"
      "plug gs NIL = plug fs (NODE l x c r)"
      by (fastforce simp: cmp_ok_def sorted_wrt_append)
    moreover have "\<forall>y \<in> set (inorder r). k < key y"
      using 1 "2.prems"(3) by (auto simp: sorted_wrt_append)
    ultimately show ?thesis
      using 1 by (intro exI [of _ xs] exI [of _ "ys @ x # inorder r"]) auto
  next
    case 2
    with "2.IH"(2) "2.prems" obtain xs ys where "inorder r = xs @ ys"
      "before gs = before fs @ inorder l @ x # xs"
      "after gs = ys @ after fs" "\<forall>x \<in> set xs. key x < k" "\<forall>y \<in> set ys. k < key y"
      "plug gs NIL = plug fs (NODE l x c r)"
      by (fastforce simp: cmp_ok_def sorted_wrt_append)
    moreover have "\<forall>y \<in> set (inorder l). key y < k"
      using 2 "2.prems"(3) by (auto simp: sorted_wrt_append)
    ultimately show ?thesis
      using 2 by (intro exI [of _ "inorder l @ x # xs"] exI [of _ ys]) auto
  next
    case 3
    with "2.prems" show ?thesis by (auto simp: cmp_ok_def Let_def)
  qed
qed

text \<open>The reference for insertion: put an element before the first one with a larger key.\<close>

definition ins_sorted :: "('a \<Rightarrow> 'k::linorder) \<Rightarrow> 'a \<Rightarrow> 'a list \<Rightarrow> 'a list" where
  "ins_sorted key x xs = takeWhile (\<lambda>y. key y < key x) xs @ x # dropWhile (\<lambda>y. key y < key x) xs"

lemma VRB_INSERT_new:
  assumes "rb_tree t" "sorted_keys key (inorder t)" "cmp_ok key (key e) cmp (set (inorder t))"
    and "key e \<notin> key ` set (inorder t)"
  shows "\<exists>t'. VRB_INSERT cmp e t = Some (None, t') \<and> rb_tree t' \<and>
     inorder t' = ins_sorted key e (inorder t)"
proof (cases "insert_descend cmp t []")
  case (Inl x)
  with assms(3,4) show ?thesis by (metis imageI insert_descend_Inl)
next
  case (Inr fs)
  from insert_descend_Inr [OF this assms(3,2)] obtain xs ys where *: "inorder t = xs @ ys"
    "before fs = xs" "after fs = ys" "\<forall>x \<in> set xs. key x < key e" "\<forall>y \<in> set ys. key e < key y"
    and t: "plug fs NIL = t" by auto
  have "path_ok fs 0" using assms(1) t rb_tree_plug [of fs NIL] by simp
  then obtain t' where "VRB_INSERT_COLOR (NODE NIL e VRB_RED NIL) fs = Some t'" "rb_tree t'"
    "inorder t' = before fs @ e # after fs"
    using insert_color_correct [of "NODE NIL e VRB_RED NIL" fs] by auto
  moreover have "takeWhile (\<lambda>y. key y < key e) (xs @ ys) = xs" "dropWhile (\<lambda>y. key y < key e) (xs @ ys) = ys"
    using * by (auto simp: takeWhile_append dropWhile_append takeWhile_eq_Nil_iff dropWhile_eq_self_iff)
      (meson hd_in_set not_less_iff_gr_or_eq)+
  ultimately show ?thesis using * Inr by (simp add: VRB_INSERT_def ins_sorted_def)
qed

lemma VRB_INSERT_present:
  assumes "sorted_keys key (inorder t)" "cmp_ok key (key e) cmp (set (inorder t))"
    and "x \<in> set (inorder t)" "key x = key e"
  shows "VRB_INSERT cmp e t = Some (Some x, t)"
proof (cases "insert_descend cmp t []")
  case (Inl y)
  with assms(2) have y: "y \<in> set (inorder t)" "key y = key e" by (auto dest: insert_descend_Inl)
  have "distinct (map key (inorder t))" using assms(1) by (metis strict_sorted_iff)
  then have "y = x" using y assms(3,4) by (auto simp: distinct_map inj_on_def)
  with Inl show ?thesis by (simp add: VRB_INSERT_def)
next
  case (Inr fs)
  from insert_descend_Inr [OF this assms(2,1)] assms(3,4) show ?thesis by force
qed

section \<open>Removal\<close>

text \<open>
  One turn of the loop. \<open>gap_ok fs elm\<close>: the subtree \<open>elm\<close> is sound once its root is
  blackened, and the path expects one black node more than it has.
\<close>

definition gap_ok :: "'a rb_path \<Rightarrow> 'a vrb \<Rightarrow> bool" where
  "gap_ok fs elm \<longleftrightarrow> rb_ok (set_color VRB_BLACK elm) \<and> path_ok fs (Suc (bheight elm))"

lemma remove_color_L_correct:
  assumes "gap_ok (LeftOf p pc tmp # fs) elm" "\<not> is_red elm"
  shows "\<exists>res. remove_color_L elm p pc tmp fs = Some res \<and>
    (case res of
       Inl (fs', elm') \<Rightarrow> gap_ok fs' elm' \<and>
         before fs' @ inorder elm' @ after fs' = before fs @ inorder elm @ p # inorder tmp @ after fs
     | Inr t \<Rightarrow> rb_tree t \<and> inorder t = before fs @ inorder elm @ p # inorder tmp @ after fs)"
proof -
  have h: "bheight tmp = Suc (bheight elm)" "rb_ok tmp" "rb_ok elm"
    using assms by (simp_all add: gap_ok_def)
  then obtain sl s sc sr where tmp: "tmp = NODE sl s sc sr" by (cases tmp) auto
  show ?thesis
  proof (cases sc)
    case VRB_BLACK
    show ?thesis
    proof (cases "is_red sl \<or> is_red sr")
      case True
      show ?thesis
      proof (cases "is_red sr")
        case True
        then show ?thesis using assms h tmp VRB_BLACK
          by (cases sr) (auto simp: remove_color_L_def gap_ok_def rb_tree_plug)
      next
        case False
        with True show ?thesis using assms h tmp VRB_BLACK
          by (cases sl) (auto simp: remove_color_L_def gap_ok_def rb_tree_plug)
      qed
    next
      case False
      then show ?thesis using assms h tmp VRB_BLACK
        by (cases pc) (auto simp: remove_color_L_def gap_ok_def)
    qed
  next
    case VRB_RED
    then have pc: "pc = VRB_BLACK" using assms tmp by (cases pc) (auto simp: gap_ok_def)
    from VRB_RED h tmp obtain tl' t tr' where sl: "sl = NODE tl' t VRB_BLACK tr'"
      by (cases sl) auto
    show ?thesis
    proof (cases "is_red tl' \<or> is_red tr'")
      case True
      show ?thesis
      proof (cases "is_red tr'")
        case True
        then show ?thesis using assms h tmp VRB_RED pc sl
          by (cases tr') (auto simp: remove_color_L_def gap_ok_def rb_tree_plug)
      next
        case False
        with True show ?thesis using assms h tmp VRB_RED pc sl
          by (cases tl') (auto simp: remove_color_L_def gap_ok_def rb_tree_plug)
      qed
    next
      case False
      then show ?thesis using assms h tmp VRB_RED pc sl
        by (auto simp: remove_color_L_def gap_ok_def)
    qed
  qed
qed

lemma remove_color_R_correct:
  assumes "gap_ok (RightOf tmp p pc # fs) elm" "\<not> is_red elm"
  shows "\<exists>res. remove_color_R tmp p pc elm fs = Some res \<and>
    (case res of
       Inl (fs', elm') \<Rightarrow> gap_ok fs' elm' \<and>
         before fs' @ inorder elm' @ after fs' = before fs @ inorder tmp @ p # inorder elm @ after fs
     | Inr t \<Rightarrow> rb_tree t \<and> inorder t = before fs @ inorder tmp @ p # inorder elm @ after fs)"
proof -
  have h: "bheight tmp = Suc (bheight elm)" "rb_ok tmp" "rb_ok elm"
    using assms by (simp_all add: gap_ok_def)
  then obtain sl s sc sr where tmp: "tmp = NODE sl s sc sr" by (cases tmp) auto
  show ?thesis
  proof (cases sc)
    case VRB_BLACK
    show ?thesis
    proof (cases "is_red sl \<or> is_red sr")
      case True
      show ?thesis
      proof (cases "is_red sl")
        case True
        then show ?thesis using assms h tmp VRB_BLACK
          by (cases sl) (auto simp: remove_color_R_def gap_ok_def rb_tree_plug)
      next
        case False
        with True show ?thesis using assms h tmp VRB_BLACK
          by (cases sr) (auto simp: remove_color_R_def gap_ok_def rb_tree_plug)
      qed
    next
      case False
      then show ?thesis using assms h tmp VRB_BLACK
        by (cases pc) (auto simp: remove_color_R_def gap_ok_def)
    qed
  next
    case VRB_RED
    then have pc: "pc = VRB_BLACK" using assms tmp by (cases pc) (auto simp: gap_ok_def)
    from VRB_RED h tmp obtain tl' t tr' where sr: "sr = NODE tl' t VRB_BLACK tr'"
      by (cases sr) auto
    show ?thesis
    proof (cases "is_red tl' \<or> is_red tr'")
      case True
      show ?thesis
      proof (cases "is_red tl'")
        case True
        then show ?thesis using assms h tmp VRB_RED pc sr
          by (cases tl') (auto simp: remove_color_R_def gap_ok_def rb_tree_plug)
      next
        case False
        with True show ?thesis using assms h tmp VRB_RED pc sr
          by (cases tr') (auto simp: remove_color_R_def gap_ok_def rb_tree_plug)
      qed
    next
      case False
      then show ?thesis using assms h tmp VRB_RED pc sr
        by (auto simp: remove_color_R_def gap_ok_def)
    qed
  qed
qed

lemma remove_color_correct:
  assumes "gap_ok fs elm"
  shows "\<exists>t. VRB_REMOVE_COLOR fs elm = Some t \<and> rb_tree t \<and>
     inorder t = before fs @ inorder elm @ after fs"
  using assms
proof (induction fs elm rule: VRB_REMOVE_COLOR.induct)
  case (1 fs elm)
  show ?case
  proof (cases "is_red elm \<or> fs = []")
    case True
    then show ?thesis using "1.prems"
      by (subst VRB_REMOVE_COLOR.simps) (auto simp: gap_ok_def rb_tree_plug)
  next
    case False
    then obtain f gs where fs: "fs = f # gs" and b: "\<not> is_red elm" by (cases fs) auto
    have "\<exists>res. remove_color_step f gs elm = Some res \<and>
      (case res of
         Inl (fs', elm') \<Rightarrow> gap_ok fs' elm' \<and>
           before fs' @ inorder elm' @ after fs' = before fs @ inorder elm @ after fs
       | Inr t \<Rightarrow> rb_tree t \<and> inorder t = before fs @ inorder elm @ after fs)"
    proof (cases f)
      case (LeftOf p pc tmp)
      then have eq: "before fs @ inorder elm @ after fs = before gs @ inorder elm @ p # inorder tmp @ after gs"
        by (simp add: fs)
      show ?thesis unfolding eq
        using LeftOf "1.prems" fs b remove_color_L_correct [of p pc tmp gs elm] by simp
    next
      case (RightOf tmp p pc)
      then have eq: "before fs @ inorder elm @ after fs = before gs @ inorder tmp @ p # inorder elm @ after gs"
        by (simp add: fs)
      show ?thesis unfolding eq
        using RightOf "1.prems" fs b remove_color_R_correct [of tmp p pc gs elm] by simp
    qed
    then obtain res where step: "remove_color_step f gs elm = Some res" and
      res: "case res of
         Inl (fs', elm') \<Rightarrow> gap_ok fs' elm' \<and>
           before fs' @ inorder elm' @ after fs' = before fs @ inorder elm @ after fs
       | Inr t \<Rightarrow> rb_tree t \<and> inorder t = before fs @ inorder elm @ after fs"
      by blast
    show ?thesis
    proof (cases res)
      case (Inl a)
      obtain fs' elm' where a: "a = (fs', elm')" by (cases a)
      have gap: "gap_ok fs' elm'"
        and eq: "before fs' @ inorder elm' @ after fs' = before fs @ inorder elm @ after fs"
        using res Inl a by simp_all
      have st: "remove_color_step (hd fs) (tl fs) elm = Some res" using step fs by simp
      obtain t where "VRB_REMOVE_COLOR fs' elm' = Some t" "rb_tree t"
        "inorder t = before fs' @ inorder elm' @ after fs'"
        using "1.IH" [OF False st Inl a [symmetric] gap] by blast
      moreover have "VRB_REMOVE_COLOR fs elm = VRB_REMOVE_COLOR fs' elm'"
        using False st Inl a by (subst VRB_REMOVE_COLOR.simps) simp
      ultimately show ?thesis using eq by simp
    next
      case (Inr t)
      with res step fs b show ?thesis
        by (subst VRB_REMOVE_COLOR.simps) (auto intro: rb_tree_blacken)
    qed
  qed
qed

lemma locate_Some:
  "locate x t fs = Some (s, gs) \<Longrightarrow> plug gs s = plug fs t \<and> (\<exists>l c r. s = NODE l x c r)"
  by (induction x t fs rule: locate.induct) (auto split: if_splits option.splits)

lemma locate_None: "locate x t fs = None \<longleftrightarrow> x \<notin> set (inorder t)"
  by (induction x t fs rule: locate.induct) (auto split: option.splits)

lemma leftmost_spec:
  "t \<noteq> NIL \<Longrightarrow> \<exists>y d r gs. leftmost t fs = (NODE NIL y d r, gs @ fs) \<and> before gs = [] \<and>
     plug gs (NODE NIL y d r) = t"
proof (induction t fs rule: leftmost.induct)
  case (1 ll y d lr x c r fs)
  then obtain z e rr gs where "leftmost (NODE ll y d lr) (LeftOf x c r # fs) = (NODE NIL z e rr, gs @ LeftOf x c r # fs)"
    "before gs = []" "plug gs (NODE NIL z e rr) = NODE ll y d lr" by auto
  then show ?case
    by (intro exI [of _ z] exI [of _ e] exI [of _ rr] exI [of _ "gs @ [LeftOf x c r]"])
      (simp add: before_append plug_append)
qed auto

lemma rightmost_spec:
  "t \<noteq> NIL \<Longrightarrow> \<exists>y d l gs. rightmost t fs = (NODE l y d NIL, gs @ fs) \<and> after gs = [] \<and>
     plug gs (NODE l y d NIL) = t"
proof (induction t fs rule: rightmost.induct)
  case (1 l x c rl y d rr fs)
  then obtain z e ll gs where "rightmost (NODE rl y d rr) (RightOf l x c # fs) = (NODE ll z e NIL, gs @ RightOf l x c # fs)"
    "after gs = []" "plug gs (NODE ll z e NIL) = NODE rl y d rr" by auto
  then show ?case
    by (intro exI [of _ z] exI [of _ e] exI [of _ ll] exI [of _ "gs @ [RightOf l x c]"])
      (simp add: after_append plug_append)
qed auto

lemma black_above_rename: "black_above (gs @ RightOf l x c # fs) = black_above (gs @ RightOf l y c # fs)"
  by (cases gs) auto

lemma path_ok_rename: "path_ok (gs @ RightOf l x c # fs) n = path_ok (gs @ RightOf l y c # fs) n"
  by (induction gs n rule: path_ok.induct) (auto simp: black_above_rename [of _ l x c fs y])

text \<open>Unlinking a node with at most one child.\<close>

lemma unlink_correct:
  assumes "rb_ok (NODE l x c r)" "path_ok fs (bheight (NODE l x c r))"
    and "child = r \<and> l = NIL \<or> child = l \<and> r = NIL"
  shows "\<exists>t. (if c = VRB_BLACK then VRB_REMOVE_COLOR fs child else Some (plug fs child)) = Some t \<and>
     rb_tree t \<and> inorder t = before fs @ inorder child @ after fs"
proof (cases c)
  case VRB_BLACK
  with assms have "gap_ok fs child" by (auto simp: gap_ok_def)
  with VRB_BLACK show ?thesis using remove_color_correct by auto
next
  case VRB_RED
  with assms have "rb_tree (plug fs child)" by (auto simp: rb_tree_plug)
  with VRB_RED show ?thesis by simp
qed

lemma VRB_REMOVE_correct:
  assumes "rb_tree t" "distinct (inorder t)" "x \<in> set (inorder t)"
  shows "\<exists>t'. VRB_REMOVE x t = Some t' \<and> rb_tree t' \<and> inorder t' = remove1 x (inorder t)"
proof -
  obtain s fs where loc: "locate x t [] = Some (s, fs)"
    using assms(3) locate_None [of x t "[]"] by (cases "locate x t []") auto
  from locate_Some [OF loc] obtain l c r where s: "s = NODE l x c r" and t: "plug fs (NODE l x c r) = t"
    by auto
  from assms(1) t have ok: "rb_ok (NODE l x c r)" "path_ok fs (bheight (NODE l x c r))"
    using rb_tree_plug by blast+
  have io: "inorder t = before fs @ (inorder l @ x # inorder r) @ after fs"
    using inorder_plug [of fs "NODE l x c r"] t by simp
  have rm: "remove1 x (inorder t) = before fs @ inorder l @ inorder r @ after fs"
    using assms(2) unfolding io by (simp add: remove1_append)
  show ?thesis
  proof (cases "l = NIL \<or> r = NIL")
    case True
    then show ?thesis
      using unlink_correct [OF ok, of r] unlink_correct [OF ok, of l] rm loc s
      by (auto simp: VRB_REMOVE_def)
  next
    case False
    then obtain y d er gs where lm: "leftmost r [] = (NODE NIL y d er, gs)" "before gs = []"
      "plug gs (NODE NIL y d er) = r"
      using leftmost_spec [of r "[]"] by auto
    have "plug (gs @ RightOf l x c # fs) (NODE NIL y d er) = t" using lm(3) t by (simp add: plug_append)
    then have "rb_ok (NODE NIL y d er)" "path_ok (gs @ RightOf l y c # fs) (bheight (NODE NIL y d er))"
      using assms(1) rb_tree_plug path_ok_rename by metis+
    from unlink_correct [OF this, of er] obtain t' where
      "(if d = VRB_BLACK then VRB_REMOVE_COLOR (gs @ RightOf l y c # fs) er
        else Some (plug (gs @ RightOf l y c # fs) er)) = Some t'" "rb_tree t'"
      "inorder t' = before (gs @ RightOf l y c # fs) @ inorder er @ after (gs @ RightOf l y c # fs)"
      by auto
    moreover have "inorder r = y # inorder er @ after gs" using lm inorder_plug [of gs "NODE NIL y d er"] by simp
    ultimately show ?thesis
      using False loc s lm rm by (simp add: VRB_REMOVE_def before_append after_append)
  qed
qed

section \<open>Search and traversal\<close>

definition first_of :: "'a list \<Rightarrow> 'a option" where
  "first_of xs = (case xs of [] \<Rightarrow> None | x # _ \<Rightarrow> Some x)"

lemma first_of_simps [simp]: "first_of [] = None" "first_of (x # xs) = Some x"
  by (simp_all add: first_of_def)

lemma first_of_append: "first_of (xs @ ys) = (if xs = [] then first_of ys else first_of xs)"
  by (cases xs) auto

lemma find_append: "find P (xs @ ys) = (case find P xs of None \<Rightarrow> find P ys | Some x \<Rightarrow> Some x)"
  by (induction xs) auto

lemma find_none: "(\<And>x. x \<in> set xs \<Longrightarrow> \<not> P x) \<Longrightarrow> find P xs = None"
  by (simp add: find_None_iff)

lemma VRB_FIND_correct:
  "sorted_keys key (inorder t) \<Longrightarrow> cmp_ok key k cmp (set (inorder t)) \<Longrightarrow>
   VRB_FIND cmp t = find (\<lambda>x. key x = k) (inorder t)"
proof (induction t)
  case (NODE l x c r)
  have l: "\<And>y. y \<in> set (inorder l) \<Longrightarrow> key y < key x" and r: "\<And>y. y \<in> set (inorder r) \<Longrightarrow> key x < key y"
    using NODE.prems(1) by (auto simp: sorted_wrt_append)
  have IH: "VRB_FIND cmp l = find (\<lambda>x. key x = k) (inorder l)" "VRB_FIND cmp r = find (\<lambda>x. key x = k) (inorder r)"
    using NODE by (auto simp: cmp_ok_def sorted_wrt_append)
  consider "k < key x" | "key x < k" | "key x = k" by fastforce
  then show ?case
  proof cases
    case 1
    then have "find (\<lambda>x. key x = k) (inorder r) = None" using r by (intro find_none) force
    with 1 NODE.prems(2) IH show ?thesis by (auto simp: cmp_ok_def find_append split: option.split)
  next
    case 2
    then have "find (\<lambda>x. key x = k) (inorder l) = None" using l by (intro find_none) force
    with 2 NODE.prems(2) IH show ?thesis by (auto simp: cmp_ok_def find_append Let_def)
  next
    case 3
    then have "find (\<lambda>x. key x = k) (inorder l) = None" using l by (intro find_none) force
    with 3 NODE.prems(2) show ?thesis by (auto simp: cmp_ok_def find_append Let_def)
  qed
qed simp

lemma VRB_NFIND_loop_correct:
  "sorted_keys key (inorder t) \<Longrightarrow> cmp_ok key k cmp (set (inorder t)) \<Longrightarrow>
   VRB_NFIND_loop cmp t res =
     (case find (\<lambda>x. k \<le> key x) (inorder t) of None \<Rightarrow> res | Some x \<Rightarrow> Some x)"
proof (induction t arbitrary: res)
  case (NODE l x c r)
  have l: "\<And>y. y \<in> set (inorder l) \<Longrightarrow> key y < key x"
    using NODE.prems(1) by (auto simp: sorted_wrt_append)
  have IH: "\<And>res. VRB_NFIND_loop cmp l res = (case find (\<lambda>x. k \<le> key x) (inorder l) of None \<Rightarrow> res | Some x \<Rightarrow> Some x)"
    "\<And>res. VRB_NFIND_loop cmp r res = (case find (\<lambda>x. k \<le> key x) (inorder r) of None \<Rightarrow> res | Some x \<Rightarrow> Some x)"
    using NODE by (auto simp: cmp_ok_def sorted_wrt_append)
  consider "k < key x" | "key x < k" | "key x = k" by fastforce
  then show ?case
  proof cases
    case 1
    with NODE.prems(2) IH show ?thesis by (auto simp: cmp_ok_def find_append split: option.split)
  next
    case 2
    then have "find (\<lambda>x. k \<le> key x) (inorder l) = None" using l by (intro find_none) force
    with 2 NODE.prems(2) IH show ?thesis by (auto simp: cmp_ok_def find_append Let_def)
  next
    case 3
    then have "find (\<lambda>x. k \<le> key x) (inorder l) = None" using l by (intro find_none) force
    with 3 NODE.prems(2) show ?thesis by (auto simp: cmp_ok_def find_append Let_def)
  qed
qed simp

lemma VRB_MIN_first: "VRB_MIN t = first_of (inorder t)"
proof -
  have "VRB_MINMAX_loop (- 1) t p = (if t = NIL then p else first_of (inorder t))" for p
    by (induction t arbitrary: p) (auto simp: first_of_append)
  then show ?thesis by (auto simp: VRB_MIN_def)
qed

lemma VRB_MAX_last: "VRB_MAX t = first_of (rev (inorder t))"
proof -
  have "VRB_MINMAX_loop 1 t p = (if t = NIL then p else first_of (rev (inorder t)))" for p
    by (induction t arbitrary: p) (auto simp: first_of_append)
  then show ?thesis by (auto simp: VRB_MAX_def)
qed

lemma climb_right_first: "climb_right fs = first_of (after fs)"
  by (induction fs rule: climb_right.induct) auto

lemma climb_left_last: "climb_left fs = first_of (rev (before fs))"
  by (induction fs rule: climb_left.induct) auto

lemma distinct_split_unique:
  "distinct (xs @ x # ys) \<Longrightarrow> xs @ x # ys = us @ x # vs \<Longrightarrow> xs = us \<and> ys = vs"
  by (metis append_Cons_eq_iff distinct_append not_distinct_conv_prefix distinct.simps(2) disjoint_insert(2) list.simps(15))

lemma VRB_NEXT_correct:
  assumes "distinct (inorder t)" "inorder t = xs @ x # ys"
  shows "VRB_NEXT t x = first_of ys"
proof -
  obtain s fs where loc: "locate x t [] = Some (s, fs)"
    using assms(2) locate_None [of x t "[]"] by (cases "locate x t []") auto
  from locate_Some [OF loc] obtain l c r where s: "s = NODE l x c r" and t: "plug fs (NODE l x c r) = t"
    by auto
  have "inorder t = (before fs @ inorder l) @ x # (inorder r @ after fs)"
    using inorder_plug [of fs "NODE l x c r"] t by simp
  with assms have ys: "ys = inorder r @ after fs" using distinct_split_unique by metis
  show ?thesis
  proof (cases "r = NIL")
    case True
    with loc s ys show ?thesis by (simp add: VRB_NEXT_def climb_right_first)
  next
    case False
    then obtain y d er gs where lm: "leftmost r [] = (NODE NIL y d er, gs)" "before gs = []"
      "plug gs (NODE NIL y d er) = r" using leftmost_spec [of r "[]"] by auto
    then have "inorder r = y # inorder er @ after gs" using inorder_plug [of gs "NODE NIL y d er"] by simp
    with False loc s ys lm show ?thesis by (simp add: VRB_NEXT_def elm_of_def)
  qed
qed

lemma VRB_PREV_correct:
  assumes "distinct (inorder t)" "inorder t = xs @ x # ys"
  shows "VRB_PREV t x = first_of (rev xs)"
proof -
  obtain s fs where loc: "locate x t [] = Some (s, fs)"
    using assms(2) locate_None [of x t "[]"] by (cases "locate x t []") auto
  from locate_Some [OF loc] obtain l c r where s: "s = NODE l x c r" and t: "plug fs (NODE l x c r) = t"
    by auto
  have "inorder t = (before fs @ inorder l) @ x # (inorder r @ after fs)"
    using inorder_plug [of fs "NODE l x c r"] t by simp
  with assms have xs: "xs = before fs @ inorder l" using distinct_split_unique by metis
  show ?thesis
  proof (cases "l = NIL")
    case True
    with loc s xs show ?thesis by (simp add: VRB_PREV_def climb_left_last)
  next
    case False
    then obtain y d el gs where rm: "rightmost l [] = (NODE el y d NIL, gs)" "after gs = []"
      "plug gs (NODE el y d NIL) = l" using rightmost_spec [of l "[]"] by auto
    then have "inorder l = before gs @ inorder el @ [y]" using inorder_plug [of gs "NODE el y d NIL"] by simp
    with False loc s xs rm show ?thesis by (simp add: VRB_PREV_def elm_of_def)
  qed
qed

lemma foreach_from_correct:
  "distinct (inorder t) \<Longrightarrow> inorder t = xs @ ys \<Longrightarrow>
   foreach_from t (first_of ys) acc = Some (rev acc @ ys)"
proof (induction ys arbitrary: xs acc)
  case Nil
  then show ?case by (simp add: foreach_from.simps)
next
  case (Cons y ys)
  then show ?case
    using VRB_NEXT_correct [of t xs y ys] Cons.IH [of "xs @ [y]" "y # acc"]
    by (subst foreach_from.simps) simp
qed

lemma VRB_FOREACH_correct: "distinct (inorder t) \<Longrightarrow> VRB_FOREACH t = Some (inorder t)"
  using foreach_from_correct [of t "[]" "inorder t" "[]"] by (simp add: VRB_FOREACH_def VRB_MIN_first)

lemma remove_safe_from_correct:
  "rb_tree t \<Longrightarrow> distinct (inorder t) \<Longrightarrow> inorder t = xs @ ys \<Longrightarrow>
   \<exists>t'. remove_safe_from P t (first_of ys) freed = Some (t', freed @ filter P ys) \<and> rb_tree t' \<and>
     inorder t' = xs @ filter (\<lambda>x. \<not> P x) ys"
proof (induction ys arbitrary: t xs freed)
  case Nil
  then show ?case by (simp add: remove_safe_from.simps)
next
  case (Cons y ys)
  have nx: "VRB_NEXT t y = first_of ys" using Cons.prems VRB_NEXT_correct by metis
  show ?case
  proof (cases "P y")
    case True
    obtain t1 where t1: "VRB_REMOVE y t = Some t1" "rb_tree t1" "inorder t1 = remove1 y (inorder t)"
      using VRB_REMOVE_correct [OF Cons.prems(1,2), of y] Cons.prems(3) by auto
    then have io: "inorder t1 = xs @ ys" "distinct (inorder t1)"
      using Cons.prems by (auto simp: remove1_append)
    from Cons.IH [OF t1(2) io(2,1), of "freed @ [y]"] True t1(1) nx show ?thesis
      by (subst remove_safe_from.simps) simp
  next
    case False
    with Cons.IH [OF Cons.prems(1,2), of "xs @ [y]" freed] Cons.prems(3) nx show ?thesis
      by (subst remove_safe_from.simps) simp
  qed
qed

lemma VRB_FOREACH_SAFE_remove_correct:
  "rb_tree t \<Longrightarrow> distinct (inorder t) \<Longrightarrow>
   \<exists>t'. VRB_FOREACH_SAFE_remove P t = Some (t', filter P (inorder t)) \<and> rb_tree t' \<and>
     inorder t' = filter (\<lambda>x. \<not> P x) (inorder t)"
  using remove_safe_from_correct [of t "[]" "inorder t" P "[]"]
  by (simp add: VRB_FOREACH_SAFE_remove_def VRB_MIN_first)

lemma reverse_from_correct:
  "distinct (inorder t) \<Longrightarrow> inorder t = rev ys @ xs \<Longrightarrow>
   reverse_from t (first_of ys) acc = Some (rev acc @ ys)"
proof (induction ys arbitrary: xs acc)
  case Nil
  then show ?case by (simp add: reverse_from.simps)
next
  case (Cons y ys)
  then show ?case
    using VRB_PREV_correct [of t "rev ys" y xs] Cons.IH [of "y # xs" "y # acc"]
    by (subst reverse_from.simps) simp
qed

lemma VRB_FOREACH_REVERSE_correct:
  "distinct (inorder t) \<Longrightarrow> VRB_FOREACH_REVERSE t = Some (rev (inorder t))"
  using reverse_from_correct [of t "rev (inorder t)" "[]" "[]"]
  by (simp add: VRB_FOREACH_REVERSE_def VRB_MAX_last)

lemma remove_reverse_from_correct:
  "rb_tree t \<Longrightarrow> distinct (inorder t) \<Longrightarrow> inorder t = rev ys @ xs \<Longrightarrow>
   \<exists>t'. remove_reverse_from P t (first_of ys) freed = Some (t', freed @ filter P ys) \<and> rb_tree t' \<and>
     inorder t' = filter (\<lambda>x. \<not> P x) (rev ys) @ xs"
proof (induction ys arbitrary: t xs freed)
  case Nil
  then show ?case by (simp add: remove_reverse_from.simps)
next
  case (Cons y ys)
  have nx: "VRB_PREV t y = first_of ys"
    using Cons.prems VRB_PREV_correct [of t "rev ys" y xs] by simp
  show ?case
  proof (cases "P y")
    case True
    obtain t1 where t1: "VRB_REMOVE y t = Some t1" "rb_tree t1" "inorder t1 = remove1 y (inorder t)"
      using VRB_REMOVE_correct [OF Cons.prems(1,2), of y] Cons.prems(3) by auto
    then have io: "inorder t1 = rev ys @ xs" "distinct (inorder t1)"
      using Cons.prems by (auto simp: remove1_append)
    from Cons.IH [OF t1(2) io(2,1), of "freed @ [y]"] True t1(1) nx show ?thesis
      by (subst remove_reverse_from.simps) simp
  next
    case False
    with Cons.IH [OF Cons.prems(1,2), of "y # xs" freed] Cons.prems(3) nx show ?thesis
      by (subst remove_reverse_from.simps) simp
  qed
qed

text \<open>The \<open>FROM\<close> loops see the part of the sequence on the far side of the node they start at.\<close>

lemma VRB_FOREACH_FROM_remove_correct:
  assumes "rb_tree t" "distinct (inorder t)" "inorder t = xs @ e # ys"
  shows "\<exists>t'. VRB_FOREACH_FROM_remove P t (Some e) = Some (t', filter P (e # ys)) \<and> rb_tree t' \<and>
     inorder t' = xs @ filter (\<lambda>x. \<not> P x) (e # ys)"
  using remove_safe_from_correct [OF assms, of P "[]"] by (simp add: VRB_FOREACH_FROM_remove_def)

lemma VRB_FOREACH_REVERSE_FROM_remove_correct:
  assumes "rb_tree t" "distinct (inorder t)" "inorder t = xs @ e # ys"
  shows "\<exists>t'. VRB_FOREACH_REVERSE_FROM_remove P t (Some e) = Some (t', filter P (e # rev xs)) \<and>
     rb_tree t' \<and> inorder t' = filter (\<lambda>x. \<not> P x) (xs @ [e]) @ ys"
  using remove_reverse_from_correct [OF assms(1,2), of "e # rev xs" ys P "[]"] assms(3)
  by (simp add: VRB_FOREACH_REVERSE_FROM_remove_def)

lemma VRB_FOREACH_REVERSE_SAFE_remove_correct:
  "rb_tree t \<Longrightarrow> distinct (inorder t) \<Longrightarrow>
   \<exists>t'. VRB_FOREACH_REVERSE_SAFE_remove P t = Some (t', filter P (rev (inorder t))) \<and> rb_tree t' \<and>
     inorder t' = filter (\<lambda>x. \<not> P x) (inorder t)"
  using remove_reverse_from_correct [of t "rev (inorder t)" "[]" P "[]"]
  by (simp add: VRB_FOREACH_REVERSE_SAFE_remove_def VRB_MAX_last)

section \<open>Height\<close>

fun rb_height :: "'a vrb \<Rightarrow> nat" where
  "rb_height NIL = 0"
| "rb_height (NODE l _ _ r) = Suc (max (rb_height l) (rb_height r))"

lemma height_bheight: "rb_ok t \<Longrightarrow> rb_height t \<le> 2 * bheight t + (if is_red t then 1 else 0)"
  by (induction t) (auto split: if_splits)

lemma size_bheight: "rb_ok t \<Longrightarrow> 2 ^ bheight t \<le> Suc (length (inorder t))"
  by (induction t) auto

lemma rb_tree_height:
  assumes "rb_tree t"
  shows "real (rb_height t) \<le> 2 * log 2 (real (length (inorder t)) + 1)"
proof -
  have "rb_height t \<le> 2 * bheight t" using assms height_bheight [of t] by (simp add: rb_tree_def)
  moreover have "2 ^ bheight t \<le> real (Suc (length (inorder t)))"
    using assms size_bheight [of t] unfolding rb_tree_def
    by (metis of_nat_le_iff of_nat_numeral of_nat_power)
  then have "real (bheight t) \<le> log 2 (real (length (inorder t)) + 1)"
    by (intro le_log_of_power) simp_all
  ultimately show ?thesis by linarith
qed

section \<open>The index interface\<close>

text \<open>
  What \<open>vsthrottle\<close> and \<open>xkey\<close> rely on: a set of nodes with pairwise different keys, found by
  key, extended by nodes with new keys, reduced by removing nodes, and swept by a loop that
  removes nodes while it walks. \<open>key\<close> reads a node's key.
\<close>

locale node_index =
  fixes key :: "'a \<Rightarrow> 'k::linorder"
    and inv :: "'t \<Rightarrow> bool"
    and nodes :: "'t \<Rightarrow> 'a list"
    and empty :: 't
    and lookup :: "('a \<Rightarrow> int) \<Rightarrow> 't \<Rightarrow> 'a option"
    and insert_node :: "('a \<Rightarrow> int) \<Rightarrow> 'a \<Rightarrow> 't \<Rightarrow> ('a option \<times> 't) option"
    and remove_node :: "'a \<Rightarrow> 't \<Rightarrow> 't option"
    and sweep :: "('a \<Rightarrow> bool) \<Rightarrow> 't \<Rightarrow> ('t \<times> 'a list) option"
  assumes empty_inv: "inv empty" and empty_nodes: "nodes empty = []"
    and sorted: "inv t \<Longrightarrow> sorted_keys key (nodes t)"
    and lookup_find: "inv t \<Longrightarrow> cmp_ok key k cmp (set (nodes t)) \<Longrightarrow>
      lookup cmp t = find (\<lambda>x. key x = k) (nodes t)"
    and insert_new: "inv t \<Longrightarrow> cmp_ok key (key e) cmp (set (nodes t)) \<Longrightarrow>
      key e \<notin> key ` set (nodes t) \<Longrightarrow>
      \<exists>t'. insert_node cmp e t = Some (None, t') \<and> inv t' \<and> set (nodes t') = insert e (set (nodes t))"
    and insert_present: "inv t \<Longrightarrow> cmp_ok key (key e) cmp (set (nodes t)) \<Longrightarrow>
      x \<in> set (nodes t) \<Longrightarrow> key x = key e \<Longrightarrow> insert_node cmp e t = Some (Some x, t)"
    and remove_correct: "inv t \<Longrightarrow> x \<in> set (nodes t) \<Longrightarrow>
      \<exists>t'. remove_node x t = Some t' \<and> inv t' \<and> set (nodes t') = set (nodes t) - {x}"
    and sweep_correct: "inv t \<Longrightarrow>
      \<exists>t'. sweep P t = Some (t', filter P (nodes t)) \<and> inv t' \<and>
        nodes t' = filter (\<lambda>x. \<not> P x) (nodes t)"
begin

lemma distinct_keys: "inv t \<Longrightarrow> distinct (map key (nodes t))"
  using sorted [of t] by (simp add: strict_sorted_iff)

lemma key_inj: "inv t \<Longrightarrow> x \<in> set (nodes t) \<Longrightarrow> y \<in> set (nodes t) \<Longrightarrow> key x = key y \<Longrightarrow> x = y"
  using distinct_keys [of t] by (auto simp: distinct_map inj_on_def)

lemma lookup_Some:
  assumes "inv t" "cmp_ok key k cmp (set (nodes t))"
  shows "lookup cmp t = Some x \<longleftrightarrow> x \<in> set (nodes t) \<and> key x = k"
proof
  assume "lookup cmp t = Some x"
  then show "x \<in> set (nodes t) \<and> key x = k"
    using lookup_find [OF assms] by (auto simp: find_Some_iff)
next
  assume x: "x \<in> set (nodes t) \<and> key x = k"
  then have "find (\<lambda>y. key y = k) (nodes t) \<noteq> None" by (auto simp: find_None_iff)
  then obtain y where "find (\<lambda>y. key y = k) (nodes t) = Some y" by auto
  moreover from this have "y \<in> set (nodes t) \<and> key y = k" by (auto simp: find_Some_iff)
  ultimately show "lookup cmp t = Some x"
    using lookup_find [OF assms] key_inj [OF assms(1)] x by metis
qed

lemma lookup_None:
  assumes "inv t" "cmp_ok key k cmp (set (nodes t))"
  shows "lookup cmp t = None \<longleftrightarrow> k \<notin> key ` set (nodes t)"
  using lookup_find [OF assms] by (auto simp: find_None_iff)

text \<open>Insert-or-find: the routine both clients build on.\<close>

lemma insert_cases:
  assumes "inv t" "cmp_ok key (key e) cmp (set (nodes t))"
  obtains (present) x where "x \<in> set (nodes t)" "key x = key e" "insert_node cmp e t = Some (Some x, t)"
    | (new) t' where "key e \<notin> key ` set (nodes t)" "insert_node cmp e t = Some (None, t')" "inv t'"
        "set (nodes t') = insert e (set (nodes t))"
proof (cases "key e \<in> key ` set (nodes t)")
  case True
  then obtain x where "x \<in> set (nodes t)" "key x = key e" by auto
  with present insert_present [OF assms] show ?thesis by blast
next
  case False
  with new insert_new [OF assms] show ?thesis by blast
qed

lemma sweep_all:
  assumes "inv t" shows "\<exists>t'. sweep (\<lambda>_. True) t = Some (t', nodes t) \<and> inv t' \<and> nodes t' = []"
  using sweep_correct [OF assms, of "\<lambda>_. True"] by simp

end

definition index_ok :: "('a \<Rightarrow> 'k::linorder) \<Rightarrow> 'a vrb \<Rightarrow> bool" where
  "index_ok key t \<longleftrightarrow> rb_tree t \<and> sorted_keys key (inorder t)"

text \<open>Changing what is not a key of a node leaves the index intact.\<close>

lemma index_ok_cong:
  "(\<And>x. x \<in> set (inorder t) \<Longrightarrow> key x = key' x) \<Longrightarrow> index_ok key t \<Longrightarrow> index_ok key' t"
  by (simp add: index_ok_def cong: map_cong)

lemma sorted_keys_distinct: "sorted_keys key xs \<Longrightarrow> distinct xs"
  by (metis distinct_map strict_sorted_iff)

lemma sorted_ins_sorted:
  assumes "sorted_keys key xs" "key e \<notin> key ` set xs"
  shows "sorted_keys key (ins_sorted key e xs)"
proof -
  have "\<forall>y \<in> set (dropWhile (\<lambda>y. key y < key e) xs). key e < key y"
    using assms
  proof (induction xs)
    case (Cons x xs)
    show ?case
    proof (cases "key x < key e")
      case True
      with Cons show ?thesis by simp
    next
      case False
      with Cons.prems(2) have "key e < key x" by (auto simp: not_less_iff_gr_or_eq)
      with Cons.prems(1) show ?thesis by (auto dest: order.strict_trans)
    qed
  qed simp
  moreover have "\<forall>y \<in> set (takeWhile (\<lambda>y. key y < key e) xs). key y < key e"
    by (auto dest: set_takeWhileD)
  moreover have "sorted_keys key (takeWhile (\<lambda>y. key y < key e) xs @ dropWhile (\<lambda>y. key y < key e) xs)"
    using assms(1) by simp
  ultimately have "sorted_keys key (A @ e # B)"
    if "A = takeWhile (\<lambda>y. key y < key e) xs" "B = dropWhile (\<lambda>y. key y < key e) xs" for A B
    unfolding that [symmetric] by (simp add: sorted_wrt_append)
  then show ?thesis by (simp add: ins_sorted_def)
qed

interpretation vrb: node_index key "index_ok key" inorder NIL VRB_FIND VRB_INSERT VRB_REMOVE
  VRB_FOREACH_SAFE_remove for key :: "'a \<Rightarrow> 'k::linorder"
proof (unfold_locales, goal_cases)
  case 1
  show ?case by (simp add: index_ok_def rb_tree_def)
next
  case 2
  show ?case by simp
next
  case (3 t)
  then show ?case by (simp add: index_ok_def)
next
  case (4 t k cmp)
  then show ?case by (simp add: index_ok_def VRB_FIND_correct)
next
  case (5 t e cmp)
  then obtain t' where "VRB_INSERT cmp e t = Some (None, t')" "rb_tree t'"
    "inorder t' = ins_sorted key e (inorder t)"
    using VRB_INSERT_new [of t key e cmp] by (auto simp: index_ok_def)
  moreover have "set (ins_sorted key e (inorder t)) = insert e (set (inorder t))"
    unfolding ins_sorted_def by (metis list.simps(15) set_append takeWhile_dropWhile_id Un_insert_right)
  ultimately show ?case using 5 by (auto simp: index_ok_def sorted_ins_sorted)
next
  case (6 t e cmp x)
  then show ?case by (auto simp: index_ok_def VRB_INSERT_present)
next
  case (7 t x)
  then have "distinct (inorder t)" by (auto simp: index_ok_def dest: sorted_keys_distinct)
  with 7 VRB_REMOVE_correct [of t x] show ?case
    by (auto simp: index_ok_def remove1_filter_not sorted_wrt_filter distinct_remove1_removeAll sorted_wrt_map removeAll_filter_not_eq)
next
  case (8 t P)
  then have "distinct (inorder t)" by (auto simp: index_ok_def dest: sorted_keys_distinct)
  with 8 VRB_FOREACH_SAFE_remove_correct [of t P] show ?case
    by (auto simp: index_ok_def sorted_wrt_map sorted_wrt_filter)
qed

section \<open>Properties\<close>

text \<open>A small tree for the witnesses.\<close>

definition sample_tree :: "int vrb" where
  "sample_tree = NODE (NODE NIL 1 VRB_BLACK NIL) 2 VRB_BLACK
     (NODE (NODE NIL 3 VRB_BLACK NIL) 5 VRB_RED (NODE (NODE NIL 6 VRB_RED NIL) 7 VRB_BLACK NIL))"

lemma sample_tree_ok: "rb_tree sample_tree" "sorted_keys (\<lambda>x. x) (inorder sample_tree)"
  by (simp_all add: sample_tree_def rb_tree_def)

text \<open>
  Claim C14. \<open>VRB_INSERT\<close> on a red-black search tree never runs into a NULL pointer. If a node
  with an equal key is present it returns that node and leaves the tree alone; otherwise it
  returns NULL, the tree stays red-black, and its in-order sequence is the old one with the
  new element put in front of the first larger key.
\<close>

theorem vrb_insert_correct:
  assumes "rb_tree t" and "sorted_keys key (inorder t)"
    and "cmp_ok key (key e) cmp (set (inorder t))"
  shows "if key e \<in> key ` set (inorder t)
    then (\<exists>x \<in> set (inorder t). key x = key e \<and> VRB_INSERT cmp e t = Some (Some x, t))
    else (\<exists>t'. VRB_INSERT cmp e t = Some (None, t') \<and> rb_tree t' \<and>
       sorted_keys key (inorder t') \<and> inorder t' = ins_sorted key e (inorder t))"
proof (cases "key e \<in> key ` set (inorder t)")
  case True
  then obtain x where "x \<in> set (inorder t)" "key x = key e" by force
  with True VRB_INSERT_present [OF assms(2,3)] show ?thesis by auto
next
  case False
  with VRB_INSERT_new [OF assms False] sorted_ins_sorted [OF assms(2) False] show ?thesis by auto
qed

theorem vrb_insert_correct_witness:
  "\<exists>t'. VRB_INSERT (\<lambda>x. 4 - x) 4 sample_tree = Some (None, t') \<and> rb_tree t' \<and>
     inorder t' = [1, 2, 3, 4, 5, 6, 7]"
proof -
  have c: "cmp_ok (\<lambda>x. x) ((4::int)) (\<lambda>x. 4 - x) (set (inorder sample_tree))"
    by (auto simp: cmp_ok_def)
  show ?thesis
    using vrb_insert_correct [OF sample_tree_ok, of 4 "\<lambda>x. 4 - x"] c
    by (auto simp: sample_tree_def ins_sorted_def)
qed

text \<open>
  Claim C13. \<open>VRB_REMOVE\<close> of a node of a red-black tree never runs into a NULL pointer (in
  particular the sibling it inspects exists), keeps the colour and black-height invariants,
  and takes exactly that node out of the in-order sequence.
\<close>

theorem vrb_remove_correct:
  assumes "rb_tree t" and "distinct (inorder t)" and "x \<in> set (inorder t)"
  shows "\<exists>t'. VRB_REMOVE x t = Some t' \<and> rb_tree t' \<and> inorder t' = remove1 x (inorder t)"
  using assms by (rule VRB_REMOVE_correct)

theorem vrb_remove_correct_witness:
  "\<exists>t'. VRB_REMOVE 1 sample_tree = Some t' \<and> rb_tree t' \<and> inorder t' = [2, 3, 5, 6, 7]"
  using vrb_remove_correct [OF sample_tree_ok(1), of 1] by (simp add: sample_tree_def)

text \<open>
  \<open>VRB_FIND\<close> and \<open>VRB_NFIND\<close> against their reference: on a search tree they return
  the node with the key, and the first node whose key is not smaller, or NULL if there is none.
\<close>

theorem vrb_find_correct:
  assumes "sorted_keys key (inorder t)" and "cmp_ok key k cmp (set (inorder t))"
  shows "VRB_FIND cmp t = find (\<lambda>x. key x = k) (inorder t) \<and>
     VRB_NFIND cmp t = find (\<lambda>x. k \<le> key x) (inorder t)"
  using VRB_FIND_correct [OF assms] VRB_NFIND_loop_correct [OF assms, of None]
  by (auto simp: VRB_NFIND_def split: option.splits)

theorem vrb_find_correct_witness:
  "VRB_FIND (\<lambda>x. 4 - x) sample_tree = None \<and> VRB_NFIND (\<lambda>x. 4 - x) sample_tree = Some 5"
proof -
  have c: "cmp_ok (\<lambda>x. x) ((4::int)) (\<lambda>x. 4 - x) (set (inorder sample_tree))"
    by (auto simp: cmp_ok_def)
  show ?thesis using vrb_find_correct [OF sample_tree_ok(2) c] by (simp add: sample_tree_def)
qed

text \<open>
  The traversal macros: \<open>VRB_FOREACH\<close> and \<open>VRB_FOREACH_REVERSE\<close> end and visit every node
  once, in key order and against it; their \<open>SAFE\<close> variants with a body that removes and frees
  the nodes satisfying \<open>P\<close> end as well, free exactly those nodes, each once and in the order of
  the loop, and leave a red-black tree of the others.
\<close>

theorem vrb_foreach_correct:
  assumes "rb_tree t" and "distinct (inorder t)"
  shows "VRB_FOREACH t = Some (inorder t) \<and> VRB_FOREACH_REVERSE t = Some (rev (inorder t)) \<and>
     (\<exists>t'. VRB_FOREACH_SAFE_remove P t = Some (t', filter P (inorder t)) \<and> rb_tree t' \<and>
        inorder t' = filter (\<lambda>x. \<not> P x) (inorder t)) \<and>
     (\<exists>t'. VRB_FOREACH_REVERSE_SAFE_remove P t = Some (t', filter P (rev (inorder t))) \<and> rb_tree t' \<and>
        inorder t' = filter (\<lambda>x. \<not> P x) (inorder t))"
  using VRB_FOREACH_correct [OF assms(2)] VRB_FOREACH_REVERSE_correct [OF assms(2)]
    VRB_FOREACH_SAFE_remove_correct [OF assms] VRB_FOREACH_REVERSE_SAFE_remove_correct [OF assms] by blast

theorem vrb_foreach_correct_witness:
  "(\<exists>t'. VRB_FOREACH_SAFE_remove even sample_tree = Some (t', [2, 6]) \<and> rb_tree t' \<and>
      inorder t' = [1, 3, 5, 7]) \<and>
   VRB_FOREACH_REVERSE sample_tree = Some [7, 6, 5, 3, 2, 1]"
  using vrb_foreach_correct [OF sample_tree_ok(1), of even] by (simp add: sample_tree_def)

text \<open>The trees that calls of \<open>VRB_INSERT\<close> and \<open>VRB_REMOVE\<close> can build from \<open>VRB_INIT\<close>.\<close>

inductive vrb_built :: "('a \<Rightarrow> 'k::linorder) \<Rightarrow> 'a vrb \<Rightarrow> bool" for key where
  init: "vrb_built key NIL"
| insert_: "vrb_built key t \<Longrightarrow> cmp_ok key (key e) cmp (set (inorder t)) \<Longrightarrow>
    VRB_INSERT cmp e t = Some (r, t') \<Longrightarrow> vrb_built key t'"
| remove_: "vrb_built key t \<Longrightarrow> VRB_REMOVE x t = Some t' \<Longrightarrow> vrb_built key t'"

lemma vrb_built_index_ok: "vrb_built key t \<Longrightarrow> index_ok key t"
proof (induction rule: vrb_built.induct)
  case init
  show ?case by (rule vrb.empty_inv)
next
  case (insert_ t e cmp r t')
  from insert_.IH insert_.hyps(2) show ?case
    by (rule vrb.insert_cases) (use insert_.hyps(3) insert_.IH in auto)
next
  case (remove_ t x t')
  then have "x \<in> set (inorder t)"
    using locate_None [of x t "[]"] by (auto simp: VRB_REMOVE_def split: option.splits)
  with remove_ vrb.remove_correct [of key t x] show ?case by auto
qed

text \<open>
  The bound the header states, for every tree the operations can build: with \<open>n\<close>
  nodes it is at most \<open>2 lg (n + 1)\<close> high.
\<close>

theorem vrb_height_bound:
  assumes "vrb_built key t"
  shows "real (rb_height t) \<le> 2 * log 2 (real (length (inorder t)) + 1)"
  using vrb_built_index_ok [OF assms] by (intro rb_tree_height) (simp add: index_ok_def)

theorem vrb_height_bound_witness:
  "real (rb_height (NODE NIL (3::int) VRB_BLACK NIL)) \<le> 2 * log 2 2"
proof -
  have "vrb_built (\<lambda>x. x) (NODE NIL (3::int) VRB_BLACK NIL)"
    by (rule vrb_built.insert_ [OF vrb_built.init, of _ 3 "\<lambda>x. 3 - x" None])
      (simp_all add: cmp_ok_def VRB_INSERT_def)
  from vrb_height_bound [OF this] show ?thesis by simp
qed

end
