(* ===== verification/Digest.thy ===== *)
theory Digest
  imports Prelude "HOL-Library.List_Lexorder"
begin

text \<open>
  Digests and the memory comparison that orders them. \<open>SHA256_*\<close> is library code of
  varnishd: the modules use it as a function from the bytes fed by \<open>SHA256_Update\<close> to 32
  bytes, which is a parameter of the model.
\<close>

type_synonym digest = "u8 list"

definition DIGEST_LEN :: nat where
  "DIGEST_LEN = 32"

text \<open>\<open>memcmp\<close> over equally long buffers: the sign is that of the first difference.\<close>

fun memcmp :: "u8 list \<Rightarrow> u8 list \<Rightarrow> int" where
  "memcmp (x # xs) (y # ys) = (if x = y then memcmp xs ys else uint x - uint y)"
| "memcmp _ _ = 0"

lemma memcmp_order:
  "length a = length b \<Longrightarrow> (memcmp a b < 0 \<longleftrightarrow> a < b) \<and> (memcmp a b > 0 \<longleftrightarrow> b < a)"
proof (induction a b rule: memcmp.induct)
  case (1 x xs y ys)
  then show ?case by (auto simp: word_less_def)
qed auto

definition bytes_of :: "string \<Rightarrow> u8 list" where
  "bytes_of s = map (\<lambda>c. of_nat (of_char c)) s"

text \<open>The object representation of an 8-byte integer, least significant byte first.\<close>

fun le_bytes :: "nat \<Rightarrow> int \<Rightarrow> u8 list" where
  "le_bytes 0 n = []"
| "le_bytes (Suc k) n = of_int (n mod 256) # le_bytes k (n div 256)"

lemma length_le_bytes [simp]: "length (le_bytes k n) = k"
  by (induction k arbitrary: n) auto

lemma length_bytes_of [simp]: "length (bytes_of s) = length s"
  by (simp add: bytes_of_def)

lemma bytes_of_inj: "bytes_of s = bytes_of t \<Longrightarrow> s = t"
proof -
  have "unat (of_nat (of_char c) :: u8) = of_char c" for c :: char
    by (simp add: unsigned_of_nat take_bit_nat_eq_self)
  then have "(of_nat (of_char c) :: u8) = of_nat (of_char d) \<Longrightarrow> c = d" for c d :: char
    by (metis of_char_eq_iff)
  then have "inj (\<lambda>c :: char. of_nat (of_char c) :: u8)" by (auto intro: injI)
  then show "bytes_of s = bytes_of t \<Longrightarrow> s = t"
    unfolding bytes_of_def by (simp add: inj_map_eq_map)
qed

lemma le_bytes_inj:
  "le_bytes k m = le_bytes k n \<Longrightarrow> m mod 256 ^ k = n mod 256 ^ k"
proof (induction k arbitrary: m n)
  case (Suc k)
  have e: "(of_int (m mod 256) :: u8) = of_int (n mod 256)" "le_bytes k (m div 256) = le_bytes k (n div 256)"
    using Suc.prems unfolding le_bytes.simps list.inject by blast+
  have u: "uint (of_int (i mod 256) :: u8) = i mod 256" for i
    by (simp add: unsigned_of_int take_bit_eq_mod)
  have b: "m mod 256 = n mod 256" using arg_cong [OF e(1), of uint] unfolding u .
  have d: "(m div 256) mod 256 ^ k = (n div 256) mod 256 ^ k" using e(2) by (rule Suc.IH)
  have "m mod (256 * 256 ^ k) = 256 * ((m div 256) mod 256 ^ k) + m mod 256"
    "n mod (256 * 256 ^ k) = 256 * ((n div 256) mod 256 ^ k) + n mod 256"
    by (simp_all add: zmod_zmult2_eq)
  with b d show ?case by simp
qed simp

end
