(* ===== verification/Vsthrottle.thy ===== *)
theory Vsthrottle
  imports Vtree_Correct Doubles Digest
begin

unbundle bit_operations_syntax

text \<open>
  The throttling module, \<^verbatim>\<open>src/src/vmod_vsthrottle.c\<close>: token buckets, one per (key, limit,
  period, block) quadruple, kept in sixteen partitions, each a red-black tree ordered by
  the digest of the quadruple. The buckets live on the heap, a map from addresses; a
  freed bucket has no entry. A call is one step here, and a run of the module a
  sequence of calls; the clock \<open>VTIM_mono\<close> is read inside the call and is an argument. That
  the mutexes allow this view is proved in theories \<open>Vsthrottle_Lock\<close> and \<open>Vsthrottle_Threads\<close>.
\<close>

section \<open>Data\<close>

record tbucket =
  tb_digest :: digest
  last_used :: double
  tb_period :: double
  tb_block :: double
  tokens :: int
  capacity :: int

definition N_PART :: nat where "N_PART = 16"
definition N_PART_MASK :: u8 where "N_PART_MASK = of_nat (N_PART - 1)"
definition GC_INTVL :: u32 where "GC_INTVL = 1000"

record vsthrottle =
  buckets :: "addr vrb"
  gc_count :: u32

text \<open>\<open>vst_next\<close> is the allocator's next fresh address.\<close>

record vst =
  parts :: "vsthrottle list"
  vst_heap :: "addr \<rightharpoonup> tbucket"
  vst_next :: addr
  vst_n_init :: u32

text \<open>SHA-256 and the object representation of a \<open>double\<close> are parameters.\<close>

record hash_api =
  SHA256 :: "u8 list \<Rightarrow> digest"
  mem_double :: "double \<Rightarrow> u8 list"

section \<open>Operations\<close>

text \<open>\<open>keycmp\<close>, applied to the digest of the search key.\<close>

definition keycmp :: "(addr \<rightharpoonup> tbucket) \<Rightarrow> digest \<Rightarrow> addr \<Rightarrow> int" where
  "keycmp h d p = (case h p of None \<Rightarrow> 0 | Some b \<Rightarrow> memcmp d (tb_digest b))"

definition tb_alloc :: "digest \<Rightarrow> int \<Rightarrow> double \<Rightarrow> double \<Rightarrow> tbucket" where
  "tb_alloc d limit period now =
     \<lparr>tb_digest = d, last_used = now, tb_period = period, tb_block = 0, tokens = limit, capacity = limit\<rparr>"

definition part_of :: "digest \<Rightarrow> nat" where
  "part_of d = unat (d ! 0 AND N_PART_MASK)"

definition get_bucket :: "vst \<Rightarrow> digest \<Rightarrow> int \<Rightarrow> double \<Rightarrow> double \<Rightarrow> (addr \<times> vst) res" where
  "get_bucket s d limit period now =
     (let part = part_of d; v = parts s ! part in
      case VRB_FIND (keycmp (vst_heap s) d) (buckets v) of
        Some b \<Rightarrow> Inr (b, s)
      | None \<Rightarrow>
          let b = vst_next s; h = (vst_heap s)(b \<mapsto> tb_alloc d limit period now) in
          case VRB_INSERT (keycmp h d) b (buckets v) of
            None \<Rightarrow> Inl NullDeref
          | Some (Some _, _) \<Rightarrow> Inl AssertFail
          | Some (None, t) \<Rightarrow>
              Inr (b, s\<lparr>vst_heap := h, vst_next := Suc b,
                        parts := (parts s)[part := v\<lparr>buckets := t\<rparr>]\<rparr>))"

text \<open>
  A zero period makes the quotient infinite or not a number, and its conversion to \<open>long\<close>
  undefined.
\<close>

definition calc_tokens :: "tbucket \<Rightarrow> double \<Rightarrow> tbucket res" where
  "calc_tokens b now =
     (let delta = dsub now (last_used b) in
      res_bind (guard (delta \<ge> 0) AssertFail) (\<lambda>_.
      res_bind (guard (tb_period b \<noteq> 0) UndefBehav) (\<lambda>_.
      res_bind (long_of_double (dmul (ddiv delta (tb_period b)) (double_of_long (capacity b)))) (\<lambda>n.
      res_bind (long_add (tokens b) n) (\<lambda>t.
      Inr (b\<lparr>tokens := (if t > capacity b then capacity b else t)\<rparr>))))))"

text \<open>The bytes fed to the hash by the four \<open>SHA256_Update\<close> calls, and the digest.\<close>

definition digest_input :: "hash_api \<Rightarrow> string \<Rightarrow> int \<Rightarrow> double \<Rightarrow> double \<Rightarrow> u8 list" where
  "digest_input api s l p b = bytes_of s @ le_bytes 8 l @ mem_double api p @ mem_double api b"

definition do_digest :: "hash_api \<Rightarrow> string \<Rightarrow> int \<Rightarrow> double \<Rightarrow> double \<Rightarrow> digest" where
  "do_digest api s l p b = SHA256 api (digest_input api s l p b)"

text \<open>Freed buckets leave the heap.\<close>

definition free_all :: "addr list \<Rightarrow> (addr \<rightharpoonup> tbucket) \<Rightarrow> (addr \<rightharpoonup> tbucket)" where
  "free_all ps h = h |` (- set ps)"

definition gc_expired :: "(addr \<rightharpoonup> tbucket) \<Rightarrow> double \<Rightarrow> addr \<Rightarrow> bool" where
  "gc_expired h now p = (case h p of None \<Rightarrow> False | Some x \<Rightarrow> dsub now (last_used x) > tb_period x)"

definition run_gc :: "double \<Rightarrow> nat \<Rightarrow> vst \<Rightarrow> vst res" where
  "run_gc now part s =
     (let v = parts s ! part in
      case VRB_FOREACH_SAFE_remove (gc_expired (vst_heap s) now) (buckets v) of
        None \<Rightarrow> Inl NullDeref
      | Some (t, freed) \<Rightarrow>
          Inr (s\<lparr>parts := (parts s)[part := v\<lparr>buckets := t\<rparr>], vst_heap := free_all freed (vst_heap s)\<rparr>))"

text \<open>
  The decision of \<open>vmod_is_denied\<close> on its bucket, after \<open>calc_tokens\<close>: the return value and
  the bucket it leaves.
\<close>

definition deny_decision :: "double \<Rightarrow> double \<Rightarrow> tbucket \<Rightarrow> bool \<times> tbucket" where
  "deny_decision now block b =
     (let blocked = (block > 0 \<and> now < tb_block b);
          b1 = (if blocked then b\<lparr>last_used := now\<rparr> else b);
          (ret, b2) =
            (if tokens b1 > 0 then (blocked, b1\<lparr>tokens := tokens b1 - 1, last_used := now\<rparr>)
             else if block > 0 \<and> \<not> blocked then (True, b1\<lparr>tb_block := dadd now block\<rparr>)
             else (True, b1));
          b3 = (if block > 0 \<and> \<not> ret \<and> \<not> blocked then b2\<lparr>tb_block := 0\<rparr> else b2)
      in (ret, b3))"

definition vmod_is_denied ::
  "hash_api \<Rightarrow> double \<Rightarrow> vst \<Rightarrow> string option \<Rightarrow> int \<Rightarrow> double \<Rightarrow> double \<Rightarrow> (bool \<times> vst) res" where
  "vmod_is_denied api now s key limit period block =
     (case key of None \<Rightarrow> Inr (True, s) | Some k \<Rightarrow>
      let d = do_digest api k limit period block; part = part_of d in
      res_bind (get_bucket s d limit period now) (\<lambda>(p, s1).
      res_bind (deref (vst_heap s1) p) (\<lambda>b0.
      res_bind (calc_tokens b0 now) (\<lambda>b1.
      let (ret, b2) = deny_decision now block b1;
          v = parts s1 ! part;
          n = gc_count v + 1;
          s2 = s1\<lparr>vst_heap := (vst_heap s1)(p \<mapsto> b2), parts := (parts s1)[part := v\<lparr>gc_count := n\<rparr>]\<rparr>
      in if n = GC_INTVL then
           res_bind (run_gc now part s2) (\<lambda>s3.
             Inr (ret, s3\<lparr>parts := (parts s3)[part := (parts s3 ! part)\<lparr>gc_count := 0\<rparr>]\<rparr>))
         else Inr (ret, s2)))))"

text \<open>\<open>unsigned ret = b->tokens\<close> keeps the low 32 bits; as \<open>VCL_INT\<close> it is not negative.\<close>

definition vmod_remaining ::
  "hash_api \<Rightarrow> double \<Rightarrow> vst \<Rightarrow> string option \<Rightarrow> int \<Rightarrow> double \<Rightarrow> double \<Rightarrow> (int \<times> vst) res" where
  "vmod_remaining api now s key limit period block =
     (case key of None \<Rightarrow> Inr (- 1, s) | Some k \<Rightarrow>
      let d = do_digest api k limit period block in
      res_bind (get_bucket s d limit period now) (\<lambda>(p, s1).
      res_bind (deref (vst_heap s1) p) (\<lambda>b0.
      res_bind (calc_tokens b0 now) (\<lambda>b1.
      Inr (uint (of_int (tokens b1) :: u32), s1\<lparr>vst_heap := (vst_heap s1)(p \<mapsto> b1)\<rparr>)))))"

definition vmod_blocked ::
  "hash_api \<Rightarrow> double \<Rightarrow> vst \<Rightarrow> string option \<Rightarrow> int \<Rightarrow> double \<Rightarrow> double \<Rightarrow> (double \<times> vst) res" where
  "vmod_blocked api now s key limit period block =
     (case key of None \<Rightarrow> Inr (- 1, s) | Some k \<Rightarrow>
      let d = do_digest api k limit period block in
      res_bind (get_bucket s d limit period now) (\<lambda>(p, s1).
      res_bind (deref (vst_heap s1) p) (\<lambda>b.
      let ret = dsub (tb_block b) now in
      Inr (if ret \<le> 0 then 0 else ret, s1))))"

text \<open>\<open>fini\<close>: the last VCL to go frees every bucket of every partition.\<close>

fun fini_parts :: "vsthrottle list \<Rightarrow> (vsthrottle list \<times> addr list) res" where
  "fini_parts [] = Inr ([], [])"
| "fini_parts (v # vs) =
     (case VRB_FOREACH_SAFE_remove (\<lambda>_. True) (buckets v) of
        None \<Rightarrow> Inl NullDeref
      | Some (t, freed) \<Rightarrow>
          res_bind (fini_parts vs) (\<lambda>(vs', freed'). Inr (v\<lparr>buckets := t\<rparr> # vs', freed @ freed')))"

definition vst_fini :: "vst \<Rightarrow> vst res" where
  "vst_fini s =
     res_bind (guard (vst_n_init s > 0) AssertFail) (\<lambda>_.
     let s1 = s\<lparr>vst_n_init := vst_n_init s - 1\<rparr> in
     if vst_n_init s1 = 0 then
       res_bind (fini_parts (parts s1)) (\<lambda>(vs, freed).
         Inr (s1\<lparr>parts := vs, vst_heap := free_all freed (vst_heap s1)\<rparr>))
     else Inr s1)"

text \<open>\<open>event_function\<close> for \<open>VCL_EVENT_LOAD\<close>; every other event is ignored.\<close>

definition vst_event_function :: "bool \<Rightarrow> vst \<Rightarrow> vst" where
  "vst_event_function load s =
     (if \<not> load then s else
      let s1 = (if vst_n_init s = 0
                then s\<lparr>parts := map (\<lambda>v. v\<lparr>buckets := NIL\<rparr>) (parts s)\<rparr> else s)
      in s1\<lparr>vst_n_init := vst_n_init s1 + 1\<rparr>)"

text \<open>The static state before any VCL is loaded.\<close>

definition vst_initial :: vst where
  "vst_initial = \<lparr>parts = replicate N_PART \<lparr>buckets = NIL, gc_count = 0\<rparr>,
     vst_heap = Map.empty, vst_next = 1, vst_n_init = 0\<rparr>"

section \<open>The invariant\<close>

text \<open>The call counter is not part of what the invariant and the abstraction see.\<close>

lemma buckets_set_gc [simp]: "map buckets (ps[i := (ps ! i)\<lparr>gc_count := c\<rparr>]) = map buckets ps"
  by (rule map_list_update_same) simp

lemma gc_set_buckets [simp]: "map gc_count (ps[i := (ps ! i)\<lparr>buckets := t\<rparr>]) = map gc_count ps"
  by (rule map_list_update_same) simp

text \<open>
  Every partition is a red-black index of its buckets by digest, holds only digests that
  belong to it, and between them the partitions hold every allocated bucket: nothing
  dangles and nothing leaks.
\<close>

definition bkey :: "(addr \<rightharpoonup> tbucket) \<Rightarrow> addr \<Rightarrow> digest" where
  "bkey h p = tb_digest (the (h p))"

definition tree_ok :: "(addr \<rightharpoonup> tbucket) \<Rightarrow> nat \<Rightarrow> addr vrb \<Rightarrow> bool" where
  "tree_ok h i t \<longleftrightarrow> index_ok (bkey h) t \<and>
     (\<forall>p \<in> set (inorder t). \<exists>b. h p = Some b \<and> length (tb_digest b) = DIGEST_LEN \<and> part_of (tb_digest b) = i)"

definition trees_inv :: "addr vrb list \<Rightarrow> (addr \<rightharpoonup> tbucket) \<Rightarrow> addr \<Rightarrow> bool" where
  "trees_inv ts h n \<longleftrightarrow> length ts = N_PART \<and> (\<forall>i < N_PART. tree_ok h i (ts ! i)) \<and>
     dom h = (\<Union>i < N_PART. set (inorder (ts ! i))) \<and> (\<forall>p \<in> dom h. p < n)"

definition vst_inv :: "vst \<Rightarrow> bool" where
  "vst_inv s \<longleftrightarrow> trees_inv (map buckets (parts s)) (vst_heap s) (vst_next s)"

text \<open>The abstract state: which bucket is stored for a digest.\<close>

definition vst_abs :: "vst \<Rightarrow> digest \<Rightarrow> tbucket option" where
  "vst_abs s d = (case VRB_FIND (keycmp (vst_heap s) d) (buckets (parts s ! part_of d)) of
     None \<Rightarrow> None | Some p \<Rightarrow> vst_heap s p)"

lemma part_of_less: "part_of d < N_PART"
proof -
  have "unat (d ! 0 AND 15) \<le> unat (15 :: u8)"
    by (rule word_and_le1 [THEN word_le_nat_alt [THEN iffD1]])
  then show ?thesis by (simp add: part_of_def N_PART_def N_PART_MASK_def)
qed

lemma vst_inv_parts: "vst_inv s \<Longrightarrow> length (parts s) = N_PART"
  by (auto simp: vst_inv_def trees_inv_def)

lemma vst_inv_tree: "vst_inv s \<Longrightarrow> i < N_PART \<Longrightarrow> tree_ok (vst_heap s) i (buckets (parts s ! i))"
  by (auto simp: vst_inv_def trees_inv_def)

lemma cmp_ok_keycmp:
  assumes "tree_ok h i t" and "length d = DIGEST_LEN"
  shows "cmp_ok (bkey h) d (keycmp h d) (set (inorder t))"
  unfolding cmp_ok_def
proof
  fix p
  assume "p \<in> set (inorder t)"
  then obtain b where "h p = Some b" "length d = length (tb_digest b)"
    using assms by (auto simp: tree_ok_def)
  then show "(keycmp h d p < 0 \<longleftrightarrow> d < bkey h p) \<and> (keycmp h d p > 0 \<longleftrightarrow> bkey h p < d)"
    using memcmp_order by (simp add: keycmp_def bkey_def)
qed

lemma vst_inv_place:
  assumes "vst_inv s" "vst_heap s p = Some b"
  shows "\<exists>i < N_PART. p \<in> set (inorder (buckets (parts s ! i)))"
proof -
  let ?ts = "map buckets (parts s)"
  have d: "dom (vst_heap s) = (\<Union>i < N_PART. set (inorder (?ts ! i)))" and l: "length ?ts = N_PART"
    using assms(1) by (simp_all add: vst_inv_def trees_inv_def)
  have "p \<in> dom (vst_heap s)" using assms(2) by (rule domI)
  then obtain i where i: "i < N_PART" "p \<in> set (inorder (?ts ! i))" unfolding d by blast
  with l have "p \<in> set (inorder (buckets (parts s ! i)))" by (simp add: nth_map)
  with i(1) show ?thesis by blast
qed

lemma vst_inv_digest:
  assumes "vst_inv s" "vst_heap s p = Some b"
  shows "length (tb_digest b) = DIGEST_LEN"
    "p \<in> set (inorder (buckets (parts s ! part_of (tb_digest b))))"
proof -
  obtain i where i: "i < N_PART" "p \<in> set (inorder (buckets (parts s ! i)))"
    using vst_inv_place [OF assms] by blast
  with vst_inv_tree [OF assms(1) i(1)] assms(2)
  have "length (tb_digest b) = DIGEST_LEN \<and> part_of (tb_digest b) = i" by (auto simp: tree_ok_def)
  with i(2) show "length (tb_digest b) = DIGEST_LEN"
    "p \<in> set (inorder (buckets (parts s ! part_of (tb_digest b))))" by simp_all
qed

lemma find_bucket_iff:
  assumes "vst_inv s" and "length d = DIGEST_LEN"
  shows "VRB_FIND (keycmp (vst_heap s) d) (buckets (parts s ! part_of d)) = Some p \<longleftrightarrow>
     (\<exists>b. vst_heap s p = Some b \<and> tb_digest b = d)"
proof -
  let ?h = "vst_heap s" and ?t = "buckets (parts s ! part_of d)"
  have ok: "tree_ok ?h (part_of d) ?t" using vst_inv_tree [OF assms(1) part_of_less] .
  have "VRB_FIND (keycmp ?h d) ?t = Some p \<longleftrightarrow> p \<in> set (inorder ?t) \<and> bkey ?h p = d"
    using ok vrb.lookup_Some [OF _ cmp_ok_keycmp [OF ok assms(2)]] by (simp add: tree_ok_def)
  also have "\<dots> \<longleftrightarrow> (\<exists>b. ?h p = Some b \<and> tb_digest b = d)"
  proof
    assume p: "p \<in> set (inorder ?t) \<and> bkey ?h p = d"
    with ok obtain b where "?h p = Some b" unfolding tree_ok_def by blast
    with p show "\<exists>b. ?h p = Some b \<and> tb_digest b = d" by (simp add: bkey_def)
  next
    assume "\<exists>b. ?h p = Some b \<and> tb_digest b = d"
    then obtain b where b: "?h p = Some b" "tb_digest b = d" by blast
    with vst_inv_digest(2) [OF assms(1) b(1)] show "p \<in> set (inorder ?t) \<and> bkey ?h p = d"
      by (simp add: bkey_def)
  qed
  finally show ?thesis .
qed

lemma vst_abs_iff:
  assumes "vst_inv s" and "length d = DIGEST_LEN"
  shows "vst_abs s d = Some b \<longleftrightarrow> (\<exists>p. vst_heap s p = Some b \<and> tb_digest b = d)"
proof
  assume "vst_abs s d = Some b"
  then obtain p where p: "VRB_FIND (keycmp (vst_heap s) d) (buckets (parts s ! part_of d)) = Some p"
    "vst_heap s p = Some b" by (auto simp: vst_abs_def split: option.splits)
  have "\<exists>b. vst_heap s p = Some b \<and> tb_digest b = d" using find_bucket_iff [OF assms, of p] p(1) by blast
  with p(2) show "\<exists>p. vst_heap s p = Some b \<and> tb_digest b = d" by auto
next
  assume "\<exists>p. vst_heap s p = Some b \<and> tb_digest b = d"
  then obtain p where "vst_heap s p = Some b" "tb_digest b = d" by blast
  moreover from this have "VRB_FIND (keycmp (vst_heap s) d) (buckets (parts s ! part_of d)) = Some p"
    using find_bucket_iff [OF assms] by blast
  ultimately show "vst_abs s d = Some b" by (simp add: vst_abs_def)
qed

lemma vst_cong:
  assumes "map buckets (parts s') = map buckets (parts s)" "vst_heap s' = vst_heap s"
    "vst_next s' = vst_next s"
  shows "vst_inv s' = vst_inv s" and "vst_inv s \<Longrightarrow> length d = DIGEST_LEN \<Longrightarrow> vst_abs s' d = vst_abs s d"
proof -
  show i: "vst_inv s' = vst_inv s" by (simp add: vst_inv_def assms)
  assume "vst_inv s" "length d = DIGEST_LEN"
  moreover from this i have "vst_inv s'" by simp
  ultimately have "vst_abs s' d = Some b \<longleftrightarrow> vst_abs s d = Some b" for b
    by (simp add: vst_abs_iff assms(2))
  then show "vst_abs s' d = vst_abs s d" by (metis not_Some_eq)
qed

lemma digest_unique:
  assumes "vst_inv s" "vst_heap s p = Some b" "vst_heap s q = Some c" "tb_digest b = tb_digest c"
  shows "p = q"
proof -
  note f = find_bucket_iff [OF assms(1) vst_inv_digest(1) [OF assms(1,2)]]
  have "VRB_FIND (keycmp (vst_heap s) (tb_digest b)) (buckets (parts s ! part_of (tb_digest b))) = Some p"
    using f [of p] assms(2) by blast
  moreover have "VRB_FIND (keycmp (vst_heap s) (tb_digest b)) (buckets (parts s ! part_of (tb_digest b))) = Some q"
    using f [of q] assms(3,4) by metis
  ultimately show ?thesis by simp
qed

text \<open>Overwriting a bucket without changing its digest.\<close>

lemma update_bucket:
  assumes "vst_inv s" "vst_heap s p = Some b" "tb_digest b' = tb_digest b"
  defines "s' \<equiv> s\<lparr>vst_heap := (vst_heap s)(p \<mapsto> b')\<rparr>"
  shows "vst_inv s'" and "length d = DIGEST_LEN \<Longrightarrow>
    vst_abs s' d = (if d = tb_digest b then Some b' else vst_abs s d)"
proof -
  let ?h = "vst_heap s" and ?h' = "(vst_heap s)(p \<mapsto> b')"
  have k: "bkey ?h' = bkey ?h" using assms(2,3) by (auto simp: bkey_def fun_eq_iff)
  have t: "tree_ok ?h i t \<Longrightarrow> tree_ok ?h' i t" for i t
    unfolding tree_ok_def k using assms(2,3) by fastforce
  have "dom ?h' = dom ?h" using assms(2) by auto
  then have "trees_inv ts ?h n \<Longrightarrow> trees_inv ts ?h' n" for ts n
    using t unfolding trees_inv_def by metis
  then show i: "vst_inv s'" using assms(1) by (simp add: s'_def vst_inv_def)
  assume d: "length d = DIGEST_LEN"
  have "vst_abs s' d = Some c \<longleftrightarrow> (if d = tb_digest b then Some b' else vst_abs s d) = Some c" for c
  proof (cases "d = tb_digest b")
    case True
    have "(\<exists>q. vst_heap s' q = Some c \<and> tb_digest c = d) \<longleftrightarrow> c = b'"
    proof
      assume "\<exists>q. vst_heap s' q = Some c \<and> tb_digest c = d"
      then obtain q where q: "vst_heap s' q = Some c" "tb_digest c = d" by blast
      have "q = p"
      proof (rule ccontr)
        assume "q \<noteq> p"
        with q(1) have "vst_heap s q = Some c" by (simp add: s'_def)
        from digest_unique [OF assms(1,2) this] q(2) True \<open>q \<noteq> p\<close> show False by simp
      qed
      with q(1) show "c = b'" by (simp add: s'_def)
    next
      assume "c = b'"
      then have "vst_heap s' p = Some c" "tb_digest c = d" using True assms(3) by (simp_all add: s'_def)
      then show "\<exists>q. vst_heap s' q = Some c \<and> tb_digest c = d" by blast
    qed
    then show ?thesis unfolding vst_abs_iff [OF i d] using True by auto
  next
    case False
    have "vst_heap s' q = Some c \<and> tb_digest c = d \<longleftrightarrow> vst_heap s q = Some c \<and> tb_digest c = d" for q
      using False assms(2,3) by (cases "q = p") (auto simp: s'_def)
    with False show ?thesis by (simp add: vst_abs_iff [OF i d] vst_abs_iff [OF assms(1) d])
  qed
  then show "vst_abs s' d = (if d = tb_digest b then Some b' else vst_abs s d)"
    by (metis not_Some_eq)
qed

text \<open>Exchanging the tree of one partition, with the heap that goes with it.\<close>

lemma tree_ok_cong:
  assumes "\<And>p. p \<in> set (inorder t) \<Longrightarrow> h' p = h p" and "tree_ok h i t"
  shows "tree_ok h' i t"
proof -
  have "index_ok (bkey h') t"
    using assms(2) by (rule_tac index_ok_cong [of t "bkey h"]) (simp_all add: tree_ok_def bkey_def assms(1))
  moreover have "\<forall>p \<in> set (inorder t). \<exists>b. h' p = Some b \<and> length (tb_digest b) = DIGEST_LEN \<and> part_of (tb_digest b) = i"
    using assms(2) unfolding tree_ok_def by (simp add: assms(1))
  ultimately show ?thesis by (simp add: tree_ok_def)
qed

lemma trees_disjoint:
  assumes "trees_inv ts h n" "i < N_PART" "j < N_PART" "p \<in> set (inorder (ts ! i))" "p \<in> set (inorder (ts ! j))"
  shows "i = j"
proof -
  have "tree_ok h i (ts ! i)" "tree_ok h j (ts ! j)" using assms by (auto simp: trees_inv_def)
  with assms(4,5) show ?thesis unfolding tree_ok_def by (metis option.inject)
qed

lemma trees_inv_update:
  assumes inv: "trees_inv ts h n" and i: "i < N_PART" and t': "tree_ok h' i t'"
    and same: "\<And>p. p \<notin> set (inorder (ts ! i)) \<Longrightarrow> p \<in> dom h \<Longrightarrow> h' p = h p"
    and d: "dom h' = (dom h - set (inorder (ts ! i))) \<union> set (inorder t')" and n: "\<forall>p \<in> dom h'. p < n'"
  shows "trees_inv (ts[i := t']) h' n'"
proof -
  have len: "length ts = N_PART" and dh: "dom h = (\<Union>j < N_PART. set (inorder (ts ! j)))"
    using inv by (auto simp: trees_inv_def)
  have other: "p \<notin> set (inorder (ts ! i))" "p \<in> dom h"
    if "j < N_PART" "j \<noteq> i" "p \<in> set (inorder (ts ! j))" for j p
    using trees_disjoint [OF inv i that(1)] that dh by auto
  have "tree_ok h' j (ts[i := t'] ! j)" if j: "j < N_PART" for j
  proof (cases "j = i")
    case False
    then have "tree_ok h' j (ts ! j)"
      using inv j other [OF j] same by (rule_tac tree_ok_cong [of "ts ! j" h' h]) (auto simp: trees_inv_def)
    with False show ?thesis by simp
  qed (use t' len i in simp)
  moreover have "dom h' = (\<Union>j < N_PART. set (inorder (ts[i := t'] ! j)))"
  proof (intro set_eqI iffI)
    fix p assume "p \<in> dom h'"
    then consider "p \<in> set (inorder t')" | j where "j < N_PART" "p \<in> set (inorder (ts ! j))" "j \<noteq> i"
      unfolding d dh by blast
    then show "p \<in> (\<Union>j < N_PART. set (inorder (ts[i := t'] ! j)))"
    proof cases
      case 1
      then have "p \<in> set (inorder (ts[i := t'] ! i))" using len i by simp
      with i show ?thesis by blast
    next
      case 2
      then have "p \<in> set (inorder (ts[i := t'] ! j))" by simp
      with 2 show ?thesis by blast
    qed
  next
    fix p assume "p \<in> (\<Union>j < N_PART. set (inorder (ts[i := t'] ! j)))"
    then obtain j where j: "j < N_PART" "p \<in> set (inorder (ts[i := t'] ! j))" by blast
    show "p \<in> dom h'"
    proof (cases "j = i")
      case True
      with j len i show ?thesis unfolding d by simp
    next
      case False
      with j have "p \<in> set (inorder (ts ! j))" by simp
      from other [OF j(1) False this] show ?thesis unfolding d by blast
    qed
  qed
  ultimately show ?thesis using len n unfolding trees_inv_def by simp
qed

lemma vst_abs_eqI:
  assumes "vst_inv s" "length d = DIGEST_LEN"
    "\<And>c. (\<exists>p. vst_heap s p = Some c \<and> tb_digest c = d) \<longleftrightarrow> x = Some c"
  shows "vst_abs s d = x"
proof -
  have "vst_abs s d = Some c \<longleftrightarrow> x = Some c" for c
    using vst_abs_iff [OF assms(1,2)] assms(3) by blast
  then show ?thesis by (metis not_Some_eq)
qed

section \<open>The operations on the abstract state\<close>

text \<open>
  \<open>get_bucket\<close> returns the stored bucket, or stores a full one. It never fails: the
  \<open>AZ(VRB_INSERT(..))\<close> cannot fire.
\<close>

definition bucket_for :: "vst \<Rightarrow> digest \<Rightarrow> int \<Rightarrow> double \<Rightarrow> double \<Rightarrow> tbucket" where
  "bucket_for s d limit period now =
     (case vst_abs s d of Some b \<Rightarrow> b | None \<Rightarrow> tb_alloc d limit period now)"

lemma tree_ok_alloc:
  assumes "vst_inv s" and d: "length d = DIGEST_LEN" and f: "vst_abs s d = None" and b: "tb_digest b = d"
  defines "h \<equiv> (vst_heap s)(vst_next s \<mapsto> b)" and "t \<equiv> buckets (parts s ! part_of d)"
  shows "\<exists>t'. VRB_INSERT (keycmp h d) (vst_next s) t = Some (None, t') \<and> tree_ok h (part_of d) t' \<and>
    set (inorder t') = insert (vst_next s) (set (inorder t))"
proof -
  let ?n = "vst_next s"
  have fresh: "vst_heap s ?n = None" using assms(1) by (auto simp: vst_inv_def trees_inv_def)
  have ok: "tree_ok (vst_heap s) (part_of d) t"
    using vst_inv_tree [OF assms(1) part_of_less] by (simp add: t_def)
  then have "?n \<notin> set (inorder t)" using fresh by (auto simp: tree_ok_def)
  then have ok': "tree_ok h (part_of d) t"
    using ok by (rule_tac tree_ok_cong [of t h "vst_heap s"]) (auto simp: h_def)
  have k: "bkey h ?n = d" using b by (simp add: bkey_def h_def)
  have "bkey h p \<noteq> d" if p: "p \<in> set (inorder t)" for p
  proof
    assume "bkey h p = d"
    moreover obtain c where "vst_heap s p = Some c" using p ok by (auto simp: tree_ok_def)
    moreover from this have "p \<noteq> ?n" using fresh by auto
    ultimately have "\<exists>p. vst_heap s p = Some c \<and> tb_digest c = d" by (auto simp: bkey_def h_def)
    with f vst_abs_iff [OF assms(1) d] show False by (metis option.distinct(1))
  qed
  then have new: "bkey h ?n \<notin> bkey h ` set (inorder t)" unfolding k by blast
  have "cmp_ok (bkey h) (bkey h ?n) (keycmp h d) (set (inorder t))"
    unfolding k by (rule cmp_ok_keycmp [OF ok' d])
  then obtain t' where t': "VRB_INSERT (keycmp h d) ?n t = Some (None, t')" "index_ok (bkey h) t'"
    "set (inorder t') = insert ?n (set (inorder t))"
    using vrb.insert_new [of "bkey h" t ?n] new ok' unfolding tree_ok_def by blast
  then have "tree_ok h (part_of d) t'"
    using ok' b d unfolding tree_ok_def by (simp add: h_def)
  with t' show ?thesis by blast
qed

lemma get_bucket_correct:
  assumes inv: "vst_inv s" and d: "length d = DIGEST_LEN"
  shows "\<exists>p s1 b. get_bucket s d limit period now = Inr (p, s1) \<and> vst_inv s1 \<and>
    b = bucket_for s d limit period now \<and> vst_heap s1 p = Some b \<and> tb_digest b = d \<and>
    (\<forall>d'. length d' = DIGEST_LEN \<longrightarrow> vst_abs s1 d' = (if d' = d then Some b else vst_abs s d')) \<and>
    map gc_count (parts s1) = map gc_count (parts s)"
proof (cases "vst_abs s d")
  case (Some b)
  then obtain p where p: "VRB_FIND (keycmp (vst_heap s) d) (buckets (parts s ! part_of d)) = Some p"
    "vst_heap s p = Some b" by (auto simp: vst_abs_def split: option.splits)
  moreover have "tb_digest b = d" using Some vst_abs_iff [OF inv d] by blast
  ultimately show ?thesis using inv Some by (auto simp: get_bucket_def bucket_for_def Let_def)
next
  case None
  let ?n = "vst_next s" and ?i = "part_of d" and ?b = "tb_alloc d limit period now"
  let ?h = "(vst_heap s)(?n \<mapsto> ?b)"
  have b: "tb_digest ?b = d" by (simp add: tb_alloc_def)
  have fresh: "vst_heap s ?n = None" using inv by (auto simp: vst_inv_def trees_inv_def)
  have "VRB_FIND (keycmp (vst_heap s) d) (buckets (parts s ! ?i)) = None"
  proof (rule ccontr)
    assume "VRB_FIND (keycmp (vst_heap s) d) (buckets (parts s ! ?i)) \<noteq> None"
    then obtain p where p: "VRB_FIND (keycmp (vst_heap s) d) (buckets (parts s ! ?i)) = Some p" by blast
    with find_bucket_iff [OF inv d, of p] None show False by (auto simp: vst_abs_def)
  qed
  moreover obtain t' where t': "VRB_INSERT (keycmp ?h d) ?n (buckets (parts s ! ?i)) = Some (None, t')"
    "tree_ok ?h ?i t'" "set (inorder t') = insert ?n (set (inorder (buckets (parts s ! ?i))))"
    using tree_ok_alloc [OF inv d None b] by blast
  define s1 where "s1 = s\<lparr>vst_heap := ?h, vst_next := Suc ?n,
    parts := (parts s)[?i := (parts s ! ?i)\<lparr>buckets := t'\<rparr>]\<rparr>"
  ultimately have g: "get_bucket s d limit period now = Inr (?n, s1)"
    using t' by (simp add: get_bucket_def Let_def s1_def)
  have l: "?i < length (parts s)" using vst_inv_parts [OF inv] part_of_less by simp
  have sub: "set (inorder (buckets (parts s ! ?i))) \<subseteq> dom (vst_heap s)"
    using vst_inv_tree [OF inv part_of_less, of d] by (auto simp: tree_ok_def)
  have "trees_inv ((map buckets (parts s))[?i := t']) ?h (Suc ?n)"
  proof (rule trees_inv_update [of _ "vst_heap s" ?n])
    show "dom ?h = (dom (vst_heap s) - set (inorder (map buckets (parts s) ! ?i))) \<union> set (inorder t')"
      using sub t'(3) l by auto
    show "\<forall>p \<in> dom ?h. p < Suc ?n"
      using inv by (auto simp: vst_inv_def trees_inv_def less_Suc_eq)
  qed (use inv part_of_less t' fresh in \<open>auto simp: vst_inv_def\<close>)
  then have i1: "vst_inv s1" by (simp add: vst_inv_def s1_def map_update)
  have "vst_abs s1 d' = (if d' = d then Some ?b else vst_abs s d')" if d': "length d' = DIGEST_LEN" for d'
  proof (rule vst_abs_eqI [OF i1 d'])
    fix c
    have "(\<exists>p. vst_heap s1 p = Some c \<and> tb_digest c = d') \<longleftrightarrow>
      c = ?b \<and> d' = d \<or> (\<exists>p. vst_heap s p = Some c \<and> tb_digest c = d')"
    proof -
      have "vst_heap s p = Some c \<Longrightarrow> vst_heap s1 p = Some c" for p
        using fresh by (cases "p = ?n") (auto simp: s1_def)
      moreover have "vst_heap s1 ?n = Some ?b" by (simp add: s1_def)
      moreover have "vst_heap s1 p = Some c \<Longrightarrow> c = ?b \<or> vst_heap s p = Some c" for p
        by (cases "p = ?n") (auto simp: s1_def)
      ultimately show ?thesis using b by metis
    qed
    also have "\<dots> \<longleftrightarrow> c = ?b \<and> d' = d \<or> vst_abs s d' = Some c"
      by (simp add: vst_abs_iff [OF inv d'])
    also have "\<dots> \<longleftrightarrow> (if d' = d then Some ?b else vst_abs s d') = Some c" using None by auto
    finally show "(\<exists>p. vst_heap s1 p = Some c \<and> tb_digest c = d') \<longleftrightarrow>
      (if d' = d then Some ?b else vst_abs s d') = Some c" .
  qed
  moreover have "map gc_count (parts s1) = map gc_count (parts s)"
    by (simp add: s1_def)
  ultimately show ?thesis using g i1 b None by (auto simp: bucket_for_def s1_def)
qed

text \<open>The collector drops the expired buckets of its partition, and nothing else.\<close>

definition gc_dropped :: "double \<Rightarrow> nat \<Rightarrow> digest \<Rightarrow> tbucket option \<Rightarrow> tbucket option" where
  "gc_dropped now part d x = (case x of None \<Rightarrow> None | Some b \<Rightarrow>
     if part_of d = part \<and> dsub now (last_used b) > tb_period b then None else Some b)"

lemma run_gc_correct:
  assumes inv: "vst_inv s" and i: "part < N_PART"
  shows "\<exists>s'. run_gc now part s = Inr s' \<and> vst_inv s' \<and> map gc_count (parts s') = map gc_count (parts s) \<and>
    vst_n_init s' = vst_n_init s \<and>
    (\<forall>d. length d = DIGEST_LEN \<longrightarrow> vst_abs s' d = gc_dropped now part d (vst_abs s d))"
proof -
  let ?h = "vst_heap s" and ?t = "buckets (parts s ! part)"
  let ?P = "gc_expired ?h now"
  let ?h' = "free_all (filter ?P (inorder ?t)) ?h"
  have ok: "tree_ok ?h part ?t" using vst_inv_tree [OF inv i] .
  then obtain t' where t': "VRB_FOREACH_SAFE_remove ?P ?t = Some (t', filter ?P (inorder ?t))"
    "index_ok (bkey ?h) t'" "inorder t' = filter (\<lambda>x. \<not> ?P x) (inorder ?t)"
    using vrb.sweep_correct [of "bkey ?h" ?t ?P] by (auto simp: tree_ok_def)
  have sub: "set (inorder ?t) \<subseteq> dom ?h" using ok by (auto simp: tree_ok_def)
  have keep: "?h' p = ?h p" if "p \<notin> set (inorder ?t) \<or> \<not> ?P p" for p
    using that by (auto simp: free_all_def restrict_map_def)
  have gone: "?h' p = None" if "p \<in> set (inorder ?t)" "?P p" for p
    using that by (simp add: free_all_def restrict_map_def)
  have "tree_ok ?h part t'" using t'(2,3) ok unfolding tree_ok_def by simp
  then have ok': "tree_ok ?h' part t'"
    by (rule_tac tree_ok_cong [of t' ?h' ?h]) (simp_all add: keep t'(3))
  define s' where "s' = s\<lparr>parts := (parts s)[part := (parts s ! part)\<lparr>buckets := t'\<rparr>], vst_heap := ?h'\<rparr>"
  have run: "run_gc now part s = Inr s'" using t'(1) by (simp add: run_gc_def Let_def s'_def)
  have l: "part < length (parts s)" using vst_inv_parts [OF inv] i by simp
  have "trees_inv ((map buckets (parts s))[part := t']) ?h' (vst_next s)"
  proof (rule trees_inv_update [of _ ?h "vst_next s"])
    show "dom ?h' = (dom ?h - set (inorder (map buckets (parts s) ! part))) \<union> set (inorder t')"
      using sub l t'(3) by (auto simp: free_all_def)
    show "\<forall>p \<in> dom ?h'. p < vst_next s"
      using inv by (auto simp: vst_inv_def trees_inv_def free_all_def)
  qed (use inv i ok' l keep in \<open>simp_all add: vst_inv_def\<close>)
  then have i1: "vst_inv s'" by (simp add: vst_inv_def s'_def map_update)
  have "vst_abs s' d = gc_dropped now part d (vst_abs s d)" if d: "length d = DIGEST_LEN" for d
  proof (rule vst_abs_eqI [OF i1 d])
    fix c
    have "vst_heap s' p = Some c \<and> tb_digest c = d \<longleftrightarrow> ?h p = Some c \<and> tb_digest c = d \<and>
      \<not> (part_of d = part \<and> dsub now (last_used c) > tb_period c)" for p
    proof (cases "p \<in> set (inorder ?t) \<and> ?P p")
      case True
      with gone have "vst_heap s' p = None" by (simp add: s'_def)
      moreover have "part_of (tb_digest c) = part \<and> dsub now (last_used c) > tb_period c" if "?h p = Some c"
        using True that ok by (auto simp: tree_ok_def gc_expired_def)
      ultimately show ?thesis by auto
    next
      case False
      then have "vst_heap s' p = ?h p" using keep by (simp add: s'_def)
      moreover have "\<not> (part_of (tb_digest c) = part \<and> dsub now (last_used c) > tb_period c)"
        if "?h p = Some c"
        using vst_inv_digest(2) [OF inv that] False that by (auto simp: gc_expired_def)
      ultimately show ?thesis by auto
    qed
    then have "(\<exists>p. vst_heap s' p = Some c \<and> tb_digest c = d) \<longleftrightarrow> vst_abs s d = Some c \<and>
      \<not> (part_of d = part \<and> dsub now (last_used c) > tb_period c)"
      unfolding vst_abs_iff [OF inv d] by blast
    also have "\<dots> \<longleftrightarrow> gc_dropped now part d (vst_abs s d) = Some c"
      by (auto simp: gc_dropped_def split: option.splits)
    finally show "(\<exists>p. vst_heap s' p = Some c \<and> tb_digest c = d) \<longleftrightarrow>
      gc_dropped now part d (vst_abs s d) = Some c" .
  qed
  moreover have "map gc_count (parts s') = map gc_count (parts s)"
    by (simp add: s'_def)
  ultimately show ?thesis using run i1 by (auto simp: s'_def)
qed

text \<open>What a digest promises: the hash function returns 32 bytes.\<close>

definition hash_ok :: "hash_api \<Rightarrow> bool" where
  "hash_ok api \<longleftrightarrow> (\<forall>x. length (SHA256 api x) = DIGEST_LEN)"

lemma length_do_digest: "hash_ok api \<Longrightarrow> length (do_digest api k l p b) = DIGEST_LEN"
  by (simp add: hash_ok_def do_digest_def)

lemma calc_tokens_keeps:
  assumes "calc_tokens b now = Inr b'"
  shows "tb_digest b' = tb_digest b" "last_used b' = last_used b" "tb_period b' = tb_period b"
    "tb_block b' = tb_block b" "capacity b' = capacity b"
  using assms by (auto simp: calc_tokens_def Let_def)

lemma deny_decision_keeps:
  "tb_digest (snd (deny_decision now block b)) = tb_digest b"
  "tb_period (snd (deny_decision now block b)) = tb_period b"
  "capacity (snd (deny_decision now block b)) = capacity b"
  by (simp_all add: deny_decision_def Let_def)

text \<open>
  The abstract step of \<open>vmod_is_denied\<close>: refill the bucket, decide, write it back, and every
  \<open>GC_INTVL\<close>th call of a partition drop that partition's expired buckets.
\<close>

definition denied_abs :: "(digest \<Rightarrow> tbucket option) \<Rightarrow> bool \<Rightarrow> double \<Rightarrow> digest \<Rightarrow> tbucket \<Rightarrow> digest \<Rightarrow> tbucket option" where
  "denied_abs m gc now d b d' =
     (let x = (if d' = d then Some b else m d') in if gc then gc_dropped now (part_of d) d' x else x)"

lemma is_denied_correct:
  fixes k :: string and limit :: int and period block now :: double
  assumes inv: "vst_inv s" and api: "hash_ok api"
  defines "d \<equiv> do_digest api k limit period block"
    and "gc \<equiv> gc_count (parts s ! part_of (do_digest api k limit period block)) + 1 = GC_INTVL"
  shows "case calc_tokens (bucket_for s d limit period now) now of
      Inl e \<Rightarrow> vmod_is_denied api now s (Some k) limit period block = Inl e
    | Inr b1 \<Rightarrow> \<exists>s'. vmod_is_denied api now s (Some k) limit period block =
          Inr (fst (deny_decision now block b1), s') \<and> vst_inv s' \<and>
        (\<forall>d'. length d' = DIGEST_LEN \<longrightarrow>
          vst_abs s' d' = denied_abs (vst_abs s) gc now d (snd (deny_decision now block b1)) d')"
proof -
  let ?i = "part_of d"
  have d: "length d = DIGEST_LEN" using api by (simp add: d_def length_do_digest)
  obtain p s1 b where g: "get_bucket s d limit period now = Inr (p, s1)" "vst_inv s1"
      "b = bucket_for s d limit period now" "vst_heap s1 p = Some b" "tb_digest b = d"
      "\<forall>d'. length d' = DIGEST_LEN \<longrightarrow> vst_abs s1 d' = (if d' = d then Some b else vst_abs s d')"
      "map gc_count (parts s1) = map gc_count (parts s)"
    using get_bucket_correct [OF inv d] by blast
  have "gc_count (parts s1 ! ?i) = gc_count (parts s ! ?i)"
    using arg_cong [OF g(7), of "\<lambda>xs. xs ! ?i"] vst_inv_parts [OF inv] vst_inv_parts [OF g(2)]
    by (simp add: part_of_less)
  then have gc: "gc \<longleftrightarrow> gc_count (parts s1 ! ?i) + 1 = GC_INTVL" by (simp add: gc_def d_def)
  show ?thesis
  proof (cases "calc_tokens b now")
    case (Inl e)
    with g show ?thesis by (simp add: vmod_is_denied_def Let_def flip: d_def)
  next
    case (Inr b1)
    define b2 where "b2 = snd (deny_decision now block b1)"
    define n where "n = gc_count (parts s1 ! ?i) + 1"
    define s2 where "s2 = s1\<lparr>vst_heap := (vst_heap s1)(p \<mapsto> b2)\<rparr>"
    define s3 where "s3 = s2\<lparr>parts := (parts s2)[?i := (parts s2 ! ?i)\<lparr>gc_count := n\<rparr>]\<rparr>"
    have b2: "tb_digest b2 = tb_digest b"
      using calc_tokens_keeps(1) [OF Inr] by (simp add: b2_def deny_decision_keeps)
    note u = update_bucket [OF g(2,4) b2, folded s2_def]

    have i3: "vst_inv s3" using u(1) vst_cong(1) [of s3 s2] by (simp add: s3_def)
    have a3: "vst_abs s3 d' = (if d' = d then Some b2 else vst_abs s d')" if "length d' = DIGEST_LEN" for d'
      using vst_cong(2) [of s3 s2 d'] u that g(5,6) by (simp add: s3_def)
    have run: "vmod_is_denied api now s (Some k) limit period block =
      (if n = GC_INTVL then res_bind (run_gc now ?i s3) (\<lambda>s4. Inr (fst (deny_decision now block b1),
           s4\<lparr>parts := (parts s4)[?i := (parts s4 ! ?i)\<lparr>gc_count := 0\<rparr>]\<rparr>))
       else Inr (fst (deny_decision now block b1), s3))"
      using g Inr by (simp add: vmod_is_denied_def Let_def split_beta s3_def s2_def n_def b2_def flip: d_def)
    show ?thesis
    proof (cases "n = GC_INTVL")
      case False
      with run i3 a3 g(3) Inr show ?thesis
        by (auto simp: denied_abs_def b2_def gc n_def intro!: exI [of _ s3])
    next
      case True
      obtain s4 where s4: "run_gc now ?i s3 = Inr s4" "vst_inv s4"
        "\<forall>d'. length d' = DIGEST_LEN \<longrightarrow> vst_abs s4 d' = gc_dropped now ?i d' (vst_abs s3 d')"
        using run_gc_correct [OF i3 part_of_less] by blast
      let ?s5 = "s4\<lparr>parts := (parts s4)[?i := (parts s4 ! ?i)\<lparr>gc_count := 0\<rparr>]\<rparr>"
      have "vst_inv ?s5" using s4(2) vst_cong(1) [of ?s5 s4] by simp
      moreover have "vst_abs ?s5 d' = gc_dropped now ?i d' (if d' = d then Some b2 else vst_abs s d')"
        if "length d' = DIGEST_LEN" for d'
        using vst_cong(2) [of ?s5 s4 d'] s4 that a3 by simp
      ultimately show ?thesis using run True s4(1) g(3) Inr
        by (auto simp: denied_abs_def b2_def gc n_def intro!: exI [of _ ?s5])
    qed
  qed
qed

text \<open>The call counters of the partitions.\<close>

lemma is_denied_counts:
  assumes "vst_inv s" "hash_ok api" "vmod_is_denied api now s (Some k) limit period block = Inr (r, s')"
  shows "map gc_count (parts s') = (map gc_count (parts s))[part_of (do_digest api k limit period block) :=
    (let n = gc_count (parts s ! part_of (do_digest api k limit period block)) + 1 in if n = GC_INTVL then 0 else n)]"
proof -
  define d where "d = do_digest api k limit period block"
  let ?i = "part_of d"
  have d: "length d = DIGEST_LEN" using assms(2) by (simp add: d_def length_do_digest)
  obtain p s1 b where g: "get_bucket s d limit period now = Inr (p, s1)" "vst_inv s1" "vst_heap s1 p = Some b"
      "tb_digest b = d" "map gc_count (parts s1) = map gc_count (parts s)"
    using get_bucket_correct [OF assms(1) d] by blast
  have i: "?i < length (parts s)" "?i < length (parts s1)"
    using vst_inv_parts [OF assms(1)] vst_inv_parts [OF g(2)] by (simp_all add: part_of_less)
  then have c: "gc_count (parts s1 ! ?i) = gc_count (parts s ! ?i)"
    using arg_cong [OF g(5), of "\<lambda>xs. xs ! ?i"] by simp
  obtain b1 where b1: "calc_tokens b now = Inr b1" using assms(3) g by (auto simp: vmod_is_denied_def Let_def simp flip: d_def)
  define b2 where "b2 = snd (deny_decision now block b1)"
  define n where "n = gc_count (parts s1 ! ?i) + 1"
  define s3 where "s3 = s1\<lparr>vst_heap := (vst_heap s1)(p \<mapsto> b2), parts := (parts s1)[?i := (parts s1 ! ?i)\<lparr>gc_count := n\<rparr>]\<rparr>"
  have "vmod_is_denied api now s (Some k) limit period block =
    (if n = GC_INTVL then res_bind (run_gc now ?i s3) (\<lambda>s4. Inr (fst (deny_decision now block b1),
         s4\<lparr>parts := (parts s4)[?i := (parts s4 ! ?i)\<lparr>gc_count := 0\<rparr>]\<rparr>))
     else Inr (fst (deny_decision now block b1), s3))"
    using g b1 by (simp add: vmod_is_denied_def Let_def split_beta s3_def n_def b2_def flip: d_def)
  note run = this [unfolded assms(3)]
  have m3: "map gc_count (parts s3) = (map gc_count (parts s))[?i := n]" by (simp add: s3_def map_update g(5))
  have "tb_digest b2 = tb_digest b" using calc_tokens_keeps(1) [OF b1] by (simp add: b2_def deny_decision_keeps)
  from update_bucket(1) [OF g(2,3) this] have "vst_inv s3"
    using vst_cong(1) [of s3 "s1\<lparr>vst_heap := (vst_heap s1)(p \<mapsto> b2)\<rparr>"] by (simp add: s3_def)
  then obtain s4 where s4: "run_gc now ?i s3 = Inr s4" "map gc_count (parts s4) = map gc_count (parts s3)"
    using run_gc_correct [OF _ part_of_less] by blast
  have "map gc_count (parts s') = (map gc_count (parts s))[?i := (if n = GC_INTVL then 0 else n)]"
    using run s4 m3 by (auto simp: map_update split: if_splits)
  then show ?thesis by (simp add: d_def [symmetric] n_def c Let_def)
qed

section \<open>The rate limit\<close>

lemma vmod_blocked_correct:
  fixes k :: string and limit :: int and period block now :: double
  assumes inv: "vst_inv s" and api: "hash_ok api"
  defines "d \<equiv> do_digest api k limit period block"
  shows "\<exists>s'. vmod_blocked api now s (Some k) limit period block =
      Inr (max 0 (dsub (tb_block (bucket_for s d limit period now)) now), s') \<and> vst_inv s' \<and>
    (\<forall>d'. length d' = DIGEST_LEN \<longrightarrow>
      vst_abs s' d' = (if d' = d then Some (bucket_for s d limit period now) else vst_abs s d'))"
proof -
  have d: "length d = DIGEST_LEN" using api by (simp add: d_def length_do_digest)
  obtain p s1 where g: "get_bucket s d limit period now = Inr (p, s1)" "vst_inv s1"
      "vst_heap s1 p = Some (bucket_for s d limit period now)"
      "\<forall>d'. length d' = DIGEST_LEN \<longrightarrow>
        vst_abs s1 d' = (if d' = d then Some (bucket_for s d limit period now) else vst_abs s d')"
    using get_bucket_correct [OF inv d] by blast
  then show ?thesis by (auto simp: vmod_blocked_def Let_def max_def simp flip: d_def)
qed

lemma vmod_remaining_correct:
  fixes k :: string and limit :: int and period block now :: double
  assumes inv: "vst_inv s" and api: "hash_ok api"
  defines "d \<equiv> do_digest api k limit period block"
  shows "case calc_tokens (bucket_for s d limit period now) now of
      Inl e \<Rightarrow> vmod_remaining api now s (Some k) limit period block = Inl e
    | Inr b1 \<Rightarrow> \<exists>s'. vmod_remaining api now s (Some k) limit period block =
          Inr (uint (of_int (tokens b1) :: u32), s') \<and> vst_inv s' \<and>
        (\<forall>d'. length d' = DIGEST_LEN \<longrightarrow> vst_abs s' d' = (if d' = d then Some b1 else vst_abs s d'))"
proof -
  have d: "length d = DIGEST_LEN" using api by (simp add: d_def length_do_digest)
  obtain p s1 b where g: "get_bucket s d limit period now = Inr (p, s1)" "vst_inv s1"
      "b = bucket_for s d limit period now" "vst_heap s1 p = Some b" "tb_digest b = d"
      "\<forall>d'. length d' = DIGEST_LEN \<longrightarrow> vst_abs s1 d' = (if d' = d then Some b else vst_abs s d')"
    using get_bucket_correct [OF inv d] by blast
  show ?thesis
  proof (cases "calc_tokens b now")
    case (Inl e)
    with g show ?thesis by (simp add: vmod_remaining_def Let_def flip: d_def)
  next
    case (Inr b1)
    note u = update_bucket [OF g(2,4) calc_tokens_keeps(1) [OF Inr]]
    show ?thesis using g Inr u by (auto simp: vmod_remaining_def Let_def simp flip: d_def)
  qed
qed

text \<open>
  A run of the module by any interleaving of requests; the result counts the calls that were
  let through for one digest.
\<close>

datatype vst_call =
    Is_denied "string option" int double double
  | Blocked "string option" int double double

fun vst_step :: "hash_api \<Rightarrow> double \<Rightarrow> vst_call \<Rightarrow> vst \<Rightarrow> (bool \<times> vst) res" where
  "vst_step api now (Is_denied key l p b) s =
     res_bind (vmod_is_denied api now s key l p b) (\<lambda>(denied, s'). Inr (\<not> denied, s'))"
| "vst_step api now (Blocked key l p b) s =
     res_bind (vmod_blocked api now s key l p b) (\<lambda>(_, s'). Inr (False, s'))"

fun call_args :: "vst_call \<Rightarrow> string option \<times> int \<times> double \<times> double" where
  "call_args (Is_denied key l p b) = (key, l, p, b)"
| "call_args (Blocked key l p b) = (key, l, p, b)"

definition call_digest :: "hash_api \<Rightarrow> vst_call \<Rightarrow> digest option" where
  "call_digest api c = (case call_args c of (key, l, p, b) \<Rightarrow> map_option (\<lambda>k. do_digest api k l p b) key)"

fun vst_admitted :: "hash_api \<Rightarrow> digest \<Rightarrow> (double \<times> vst_call) list \<Rightarrow> vst \<Rightarrow> (nat \<times> vst) res" where
  "vst_admitted api d [] s = Inr (0, s)"
| "vst_admitted api d ((now, c) # cs) s =
     res_bind (vst_step api now c s) (\<lambda>(ok, s1).
     res_bind (vst_admitted api d cs s1) (\<lambda>(n, s2).
     Inr (n + (if ok \<and> call_digest api c = Some d then 1 else 0), s2)))"

text \<open>A bucket in use: configured for \<open>limit\<close> and \<open>period\<close>, with a sane number of tokens.\<close>

definition bucket_ok :: "int \<Rightarrow> double \<Rightarrow> tbucket \<Rightarrow> bool" where
  "bucket_ok limit period b \<longleftrightarrow>
     capacity b = limit \<and> tb_period b = period \<and> 0 \<le> tokens b \<and> tokens b \<le> limit"

text \<open>The refill rate in tokens per second, with the rounding errors of the four operations.\<close>

definition refill_rate :: "int \<Rightarrow> double \<Rightarrow> rat" where
  "refill_rate limit period = (1 + eps) ^ 4 * of_int limit / period"

lemma refill_rate_nonneg: "0 \<le> limit \<Longrightarrow> 0 < period \<Longrightarrow> 0 \<le> refill_rate limit period"
  using eps_pos by (simp add: refill_rate_def)

lemma dsub_nonneg_iff: "0 \<le> dsub x y \<longleftrightarrow> y \<le> x"
proof
  assume "0 \<le> dsub x y"
  moreover have "dsub x y < 0" if "x < y" using fl_pos [of "y - x"] that fl_minus [of "y - x"] by (simp add: dsub_def)
  ultimately show "y \<le> x" by linarith
qed (rule dsub_nonneg)

lemma refill_amount:
  assumes "lu \<le> now" "0 < period" "0 \<le> limit"
  defines "x \<equiv> dmul (ddiv (dsub now lu) period) (double_of_long limit)"
  shows "0 \<le> dtrunc x" and "of_int (dtrunc x) \<le> refill_rate limit period * (now - lu)"
proof -
  have x0: "0 \<le> x" unfolding x_def
    using assms by (intro dmul_nonneg ddiv_nonneg dsub_nonneg) (simp_all add: double_of_long_def)
  then show "0 \<le> dtrunc x" by (rule dtrunc_nonneg)
  have e: "0 \<le> 1 + eps" using eps_pos by simp
  let ?a = "dsub now lu" and ?l = "double_of_long limit"
  have a: "0 \<le> ?a" "?a \<le> (1 + eps) * (now - lu)"
    using fl_upper [of "now - lu"] assms(1) by (simp_all add: dsub_def)
  have q: "0 \<le> ddiv ?a period" "ddiv ?a period \<le> (1 + eps) * ((1 + eps) * (now - lu) / period)"
  proof -
    show "0 \<le> ddiv ?a period" using a assms(2) by (intro ddiv_nonneg)
    have "ddiv ?a period \<le> (1 + eps) * (?a / period)"
      using fl_upper [of "?a / period"] a assms(2) by (simp add: ddiv_def)
    also have "\<dots> \<le> (1 + eps) * ((1 + eps) * (now - lu) / period)"
      using a(2) assms(2) e by (intro mult_left_mono divide_right_mono) auto
    finally show "ddiv ?a period \<le> (1 + eps) * ((1 + eps) * (now - lu) / period)" .
  qed
  have l: "0 \<le> ?l" "?l \<le> (1 + eps) * of_int limit"
    using fl_upper [of "of_int limit"] assms(3) by (simp_all add: double_of_long_def)
  have "of_int (dtrunc x) \<le> x" using x0 by (simp add: dtrunc_def)
  also have "x \<le> (1 + eps) * (ddiv ?a period * ?l)"
    using fl_upper [of "ddiv ?a period * ?l"] q(1) l(1) by (simp add: x_def dmul_def)
  also have "\<dots> \<le> (1 + eps) * (((1 + eps) * ((1 + eps) * (now - lu) / period)) * ((1 + eps) * of_int limit))"
    using q l e assms(1,2) by (intro mult_left_mono mult_mono) auto
  also have "\<dots> = refill_rate limit period * (now - lu)"
    by (simp add: refill_rate_def power4_eq_xxxx)
  finally show "of_int (dtrunc x) \<le> refill_rate limit period * (now - lu)" .
qed

lemma calc_tokens_bounds:
  assumes "calc_tokens b now = Inr b1" "bucket_ok limit period b" "0 < period"
  shows "bucket_ok limit period b1" "last_used b \<le> now" "tokens b \<le> tokens b1"
    "of_int (tokens b1) \<le> of_int (tokens b) + refill_rate limit period * (now - last_used b)"
proof -
  let ?n = "dtrunc (dmul (ddiv (dsub now (last_used b)) period) (double_of_long limit))"
  have c: "0 \<le> dsub now (last_used b)" and b1: "b1 = b\<lparr>tokens := min limit (tokens b + ?n)\<rparr>"
    using assms(1,2)
    by (auto simp: calc_tokens_def bucket_ok_def Let_def long_of_double_def long_add_def min_def split: if_splits)
  from c show l: "last_used b \<le> now" by (simp add: dsub_nonneg_iff)
  have lim: "0 \<le> limit" using assms(2) by (auto simp: bucket_ok_def)
  note r = refill_amount [OF l assms(3) lim]
  show "bucket_ok limit period b1" "tokens b \<le> tokens b1"
    using assms(2) r(1) by (auto simp: b1 bucket_ok_def)
  have "tokens b1 \<le> tokens b + ?n" by (simp add: b1)
  then have "of_int (tokens b1) \<le> (of_int (tokens b + ?n) :: rat)" by (simp only: of_int_le_iff)
  then have "of_int (tokens b1) \<le> of_int (tokens b) + (of_int ?n :: rat)" by (simp only: of_int_add)
  with r(2) show "of_int (tokens b1) \<le> of_int (tokens b) + refill_rate limit period * (now - last_used b)"
    by linarith
qed

text \<open>
  What holds of the bucket of a digest after \<open>a\<close> admissions since time \<open>t0\<close>, at time \<open>t\<close>.
  A bucket that is absent, never used or collected, counts as full.
\<close>

definition rl_inv :: "int \<Rightarrow> double \<Rightarrow> double \<Rightarrow> nat \<Rightarrow> double \<Rightarrow> tbucket option \<Rightarrow> bool" where
  "rl_inv limit period t0 a t x \<longleftrightarrow> t0 \<le> t \<and>
     (case x of None \<Rightarrow> of_nat a \<le> refill_rate limit period * (t - t0)
      | Some b \<Rightarrow> bucket_ok limit period b \<and> last_used b \<le> t \<and>
          (a = 0 \<or> t0 \<le> last_used b \<and>
            of_int (tokens b) + of_nat a \<le> of_int limit + refill_rate limit period * (last_used b - t0)))"

lemma rate_mono: "0 \<le> limit \<Longrightarrow> 0 < period \<Longrightarrow> x \<le> y \<Longrightarrow>
  refill_rate limit period * x \<le> refill_rate limit period * y"
  by (intro mult_left_mono refill_rate_nonneg)

lemma rl_inv_later:
  assumes "rl_inv limit period t0 a t x" "t \<le> t'" "0 \<le> limit" "0 < period"
  shows "rl_inv limit period t0 a t' x"
  using assms rate_mono [OF assms(3,4), of "t - t0" "t' - t0"]
  by (auto simp: rl_inv_def split: option.splits)

lemma rl_inv_bound:
  assumes "rl_inv limit period t0 a t x" "0 \<le> limit" "0 < period"
  shows "of_nat a \<le> of_int limit + refill_rate limit period * (t - t0)"
proof -
  have n: "0 \<le> refill_rate limit period * (t - t0)"
    using assms by (auto simp: rl_inv_def refill_rate_nonneg)
  have lim: "0 \<le> (of_int limit :: rat)" using assms(2) by simp
  show ?thesis
  proof (cases x)
    case None
    with assms(1) lim show ?thesis by (simp add: rl_inv_def)
  next
    case (Some b)
    with assms(1) consider "a = 0" | "of_int (tokens b) + of_nat a \<le> of_int limit + refill_rate limit period * (last_used b - t0)"
      "last_used b \<le> t" "0 \<le> tokens b" by (auto simp: rl_inv_def bucket_ok_def)
    then show ?thesis
    proof cases
      case 1
      with n lim show ?thesis by simp
    next
      case 2
      moreover have "refill_rate limit period * (last_used b - t0) \<le> refill_rate limit period * (t - t0)"
        using 2 assms(2,3) by (intro rate_mono) auto
      moreover have "0 \<le> (of_int (tokens b) :: rat)" using 2 by simp
      ultimately show ?thesis by linarith
    qed
  qed
qed

lemma rl_inv_bucket_for:
  assumes "rl_inv limit period t0 a now (vst_abs s d)" "0 \<le> limit" "0 < period"
  shows "rl_inv limit period t0 a now (Some (bucket_for s d limit period now))"
  using assms by (auto simp: rl_inv_def bucket_for_def tb_alloc_def bucket_ok_def split: option.splits)

lemma rl_inv_gc:
  assumes r: "rl_inv limit period t0 a now x" and lim: "0 \<le> limit" and per: "0 < period"
  shows "rl_inv limit period t0 a now (gc_dropped now i d x)"
proof (cases "gc_dropped now i d x = x")
  case False
  then obtain b where x: "x = Some b" "gc_dropped now i d x = None" "dsub now (last_used b) > tb_period b"
    by (auto simp: gc_dropped_def split: option.splits if_splits)
  let ?R = "refill_rate limit period"
  have b: "tb_period b = period" "last_used b \<le> now" "t0 \<le> now" "0 \<le> tokens b" using r x by (auto simp: rl_inv_def bucket_ok_def)
  have "period \<le> (1 + eps) * (now - last_used b)"
    using fl_upper [of "now - last_used b"] x(3) b by (simp add: dsub_def)
  also have "\<dots> \<le> (1 + eps) ^ 4 * (now - last_used b)"
    using eps_pos b(2) by (intro mult_right_mono self_le_power) auto
  finally have "of_int limit * period \<le> of_int limit * ((1 + eps) ^ 4 * (now - last_used b))"
    using lim by (intro mult_left_mono) auto
  then have full: "of_int limit \<le> ?R * (now - last_used b)"
    using per by (simp add: refill_rate_def field_simps)
  have "of_nat a \<le> ?R * (now - t0)"
  proof (cases "a = 0")
    case True
    with b refill_rate_nonneg [OF lim per] show ?thesis by simp
  next
    case False
    with r x(1) have "of_int (tokens b) + of_nat a \<le> of_int limit + ?R * (last_used b - t0)"
      by (simp add: rl_inv_def)
    moreover have "?R * (now - t0) = ?R * (now - last_used b) + ?R * (last_used b - t0)" by (simp add: algebra_simps)
    moreover have "0 \<le> (of_int (tokens b) :: rat)" using b by simp
    ultimately show ?thesis using full by linarith
  qed
  with x(2) b(3) show ?thesis by (simp add: rl_inv_def)
qed (use r in simp)

lemma rl_inv_decide:
  assumes r: "rl_inv limit period t0 a now (Some b)" and c: "calc_tokens b now = Inr b1"
    and lim: "0 \<le> limit" and per: "0 < period"
    and dec: "deny_decision now block b1 = (ret, b2)"
  shows "rl_inv limit period t0 (a + (if ret then 0 else 1)) now (Some b2)"
proof -
  let ?R = "refill_rate limit period"
  have b: "bucket_ok limit period b" "t0 \<le> now" using r by (auto simp: rl_inv_def)
  note k = calc_tokens_bounds [OF c b(1) per] and keep = calc_tokens_keeps [OF c]
  have t1: "0 \<le> tokens b1" "tokens b1 \<le> limit" using k(1) by (auto simp: bucket_ok_def)
  show ?thesis
  proof (cases "0 < tokens b1")
    case True
    then have b2: "tokens b2 = tokens b1 - 1" "last_used b2 = now" "capacity b2 = capacity b1" "tb_period b2 = tb_period b1"
      using dec by (auto simp: deny_decision_def Let_def split: if_splits)
    have ok2: "bucket_ok limit period b2" using k(1) b2 True by (simp add: bucket_ok_def)
    have "of_int (tokens b2) + of_nat (a + 1) \<le> of_int limit + ?R * (now - t0)"
    proof (cases "a = 0")
      case True
      then have "of_int (tokens b2) + of_nat (a + 1) = (of_int (tokens b1) :: rat)" by (simp add: b2)
      moreover have "(of_int (tokens b1) :: rat) \<le> of_int limit" using t1 by (simp only: of_int_le_iff)
      moreover have "0 \<le> ?R * (now - t0)" using b refill_rate_nonneg [OF lim per] by simp
      ultimately show ?thesis by linarith
    next
      case False
      with r have "of_int (tokens b) + of_nat a \<le> of_int limit + ?R * (last_used b - t0)"
        by (simp add: rl_inv_def)
      moreover have "?R * (now - t0) = ?R * (now - last_used b) + ?R * (last_used b - t0)"
        by (simp add: algebra_simps)
      ultimately show ?thesis using k(4) by (simp add: b2)
    qed
    moreover have "of_nat (a + (if ret then 0 else 1)) \<le> (of_nat (a + 1) :: rat)" by simp
    ultimately have "of_int (tokens b2) + of_nat (a + (if ret then 0 else 1)) \<le> of_int limit + ?R * (now - t0)"
      by linarith
    then show ?thesis using b(2) ok2 b2(2) by (simp add: rl_inv_def)
  next
    case False
    then have z: "tokens b1 = 0" "tokens b = 0" using t1 k(3) b(1) by (auto simp: bucket_ok_def)
    have d: "ret" "tokens b2 = 0" "capacity b2 = capacity b1" "tb_period b2 = tb_period b1"
      "last_used b2 = now \<or> last_used b2 = last_used b"
      using dec z keep by (auto simp: deny_decision_def Let_def split: if_splits)
    have ok2: "bucket_ok limit period b2" using k(1) d by (simp add: bucket_ok_def)
    have "a = 0 \<or> t0 \<le> last_used b2 \<and> of_nat a \<le> of_int limit + ?R * (last_used b2 - t0)"
    proof (cases "a = 0 \<or> last_used b2 = last_used b")
      case True
      with r z show ?thesis by (auto simp: rl_inv_def)
    next
      case False
      with d have "last_used b2 = now" by simp
      with rl_inv_bound [OF r lim per] b(2) show ?thesis by simp
    qed
    with d ok2 b(2) k(2) show ?thesis by (auto simp: rl_inv_def)
  qed
qed

text \<open>The calls of a run that concern the digest agree on limit and period.\<close>

definition uniform :: "hash_api \<Rightarrow> digest \<Rightarrow> int \<Rightarrow> double \<Rightarrow> (double \<times> vst_call) list \<Rightarrow> bool" where
  "uniform api d limit period cs \<longleftrightarrow>
     (\<forall>(now, c) \<in> set cs. call_digest api c = Some d \<longrightarrow>
        (case call_args c of (_, l, p, _) \<Rightarrow> l = limit \<and> p = period))"

lemma rl_inv_step:
  assumes "vst_inv s" "hash_ok api" and d: "length d = DIGEST_LEN"
    and r: "rl_inv limit period t0 a now (vst_abs s d)" and lp: "0 \<le> limit" "0 < period"
    and u: "uniform api d limit period [(now, c)]" and step: "vst_step api now c s = Inr (ok, s1)"
  shows "vst_inv s1 \<and>
    rl_inv limit period t0 (a + (if ok \<and> call_digest api c = Some d then 1 else 0)) now (vst_abs s1 d)"
proof -
  obtain key l p b where args: "call_args c = (key, l, p, b)" by (metis prod_cases4)
  show ?thesis
  proof (cases key)
    case None
    with args step r assms(1) show ?thesis
      by (cases c) (auto simp: vmod_is_denied_def vmod_blocked_def call_digest_def)
  next
    case (Some k)
    define e where "e = do_digest api k l p b"
    have cd: "call_digest api c = Some e" by (simp add: call_digest_def args Some e_def)
    have same: "l = limit \<and> p = period" if "e = d" using u cd that args by (auto simp: uniform_def)
    show ?thesis
    proof (cases c)
      case (Blocked key' l' p' b')
      with args Some have "c = Blocked (Some k) l p b" by simp
      with step obtain x where x: "vmod_blocked api now s (Some k) l p b = Inr (x, s1)" "ok = False" by auto
      with vmod_blocked_correct [OF assms(1,2), where k = k and limit = l and period = p and block = b
          and now = now] d
      have "vst_inv s1" "vst_abs s1 d = (if d = e then Some (bucket_for s e l p now) else vst_abs s d)"
        by (auto simp: e_def)
      with x(2) r rl_inv_bucket_for [OF r lp] same show ?thesis by auto
    next
      case (Is_denied key' l' p' b')
      with args Some have c: "c = Is_denied (Some k) l p b" by simp
      with step have dn: "vmod_is_denied api now s (Some k) l p b = Inr (\<not> ok, s1)" by auto
      note q = is_denied_correct [OF assms(1,2), where k = k and limit = l and period = p and block = b
          and now = now, folded e_def]
      from q dn obtain b1 where b1: "calc_tokens (bucket_for s e l p now) now = Inr b1"
        by (auto split: sum.splits)
      define b2 where "b2 = snd (deny_decision now b b1)"
      with q b1 dn obtain gc where i1: "vst_inv s1" and dec: "deny_decision now b b1 = (\<not> ok, b2)"
        and a1: "vst_abs s1 d = denied_abs (vst_abs s) gc now e b2 d" using d by (auto simp: prod_eq_iff)
      let ?a = "a + (if ok \<and> call_digest api c = Some d then 1 else 0)"
      have "rl_inv limit period t0 ?a now (if d = e then Some b2 else vst_abs s d)"
      proof (cases "d = e")
        case True
        with same have [simp]: "l = limit" "p = period" by auto
        have "calc_tokens (bucket_for s d limit period now) now = Inr b1" using b1 True by simp
        from rl_inv_decide [OF rl_inv_bucket_for [OF r lp] this lp dec] True cd show ?thesis
          by (auto split: if_splits)
      qed (use r cd in auto)
      with rl_inv_gc [OF this lp] i1 a1 show ?thesis by (simp add: denied_abs_def Let_def)
    qed
  qed
qed

lemma rl_inv_run:
  assumes "vst_inv s" "hash_ok api" "length d = DIGEST_LEN" "0 \<le> limit" "0 < period"
    "rl_inv limit period t0 a t (vst_abs s d)" "uniform api d limit period cs"
    "sorted (t # map fst cs)" "vst_admitted api d cs s = Inr (n, s')"
  shows "vst_inv s' \<and> rl_inv limit period t0 (a + n) (last (t # map fst cs)) (vst_abs s' d)"
  using assms
proof (induction cs arbitrary: s a t n)
  case (Cons nc cs)
  obtain now c where nc: "nc = (now, c)" by fastforce
  let ?g = "\<lambda>ok. if ok \<and> call_digest api c = Some d then 1 else 0 :: nat"
  from Cons.prems(9) nc obtain ok s1 m where run: "vst_step api now c s = Inr (ok, s1)"
    "vst_admitted api d cs s1 = Inr (m, s')" "n = m + ?g ok" by auto
  have "rl_inv limit period t0 a now (vst_abs s d)"
    using rl_inv_later [OF Cons.prems(6) _ Cons.prems(4,5)] Cons.prems(8) nc by simp
  from rl_inv_step [OF Cons.prems(1-3) this Cons.prems(4,5) _ run(1)] Cons.prems(7) nc
  have "vst_inv s1 \<and> rl_inv limit period t0 (a + ?g ok) now (vst_abs s1 d)" by (simp add: uniform_def)
  with Cons.IH [OF _ Cons.prems(2-5) _ _ _ run(2), of "a + ?g ok" now] Cons.prems(7,8) nc run(3)
  show ?case by (simp add: uniform_def ac_simps)
qed simp

section \<open>Loading, unloading\<close>

lemma vst_initial_inv: "vst_inv vst_initial"
  by (simp add: vst_inv_def trees_inv_def vst_initial_def tree_ok_def index_ok_def rb_tree_def)

text \<open>No VCL loaded: no bucket is allocated.\<close>

definition vst_life :: "vst \<Rightarrow> bool" where
  "vst_life s \<longleftrightarrow> vst_inv s \<and> (vst_n_init s = 0 \<longrightarrow> vst_heap s = Map.empty)"

lemma vst_inv_empty_trees:
  assumes "vst_inv s" "vst_heap s = Map.empty" "v \<in> set (parts s)"
  shows "buckets v = NIL"
proof -
  obtain i where i: "i < N_PART" "v = parts s ! i" using assms(3) vst_inv_parts [OF assms(1)] by (auto simp: in_set_conv_nth)
  have "set (inorder (buckets v)) = {}"
    using vst_inv_tree [OF assms(1) i(1)] assms(2) i(2) by (auto simp: tree_ok_def)
  then show ?thesis by simp
qed

lemma vst_event_function_life:
  assumes "vst_life s" "vst_n_init s \<noteq> - 1"
  shows "vst_life (vst_event_function load s)"
proof (cases "load \<and> vst_n_init s = 0")
  case True
  let ?s = "vst_event_function load s"
  have "map buckets (parts ?s) = map buckets (parts s)"
    using True assms(1) vst_inv_empty_trees [of s] by (auto simp: vst_life_def vst_event_function_def Let_def)
  then have "vst_inv ?s = vst_inv s"
    by (rule vst_cong(1)) (simp_all add: vst_event_function_def Let_def)
  with assms True show ?thesis by (auto simp: vst_life_def vst_event_function_def Let_def)
next
  case False
  moreover have "vst_n_init s + 1 \<noteq> 0" using assms(2) by (metis add.commute add_eq_0_iff)
  ultimately show ?thesis using assms(1) by (auto simp: vst_life_def vst_event_function_def vst_inv_def Let_def)
qed

lemma fini_parts_correct:
  assumes "\<And>v. v \<in> set vs \<Longrightarrow> index_ok key (buckets v)"
  shows "\<exists>vs' freed. fini_parts vs = Inr (vs', freed) \<and> length vs' = length vs \<and>
    (\<forall>v \<in> set vs'. buckets v = NIL) \<and> set freed = (\<Union>v \<in> set vs. set (inorder (buckets v)))"
  using assms
proof (induction vs)
  case (Cons v vs)
  obtain t where t: "VRB_FOREACH_SAFE_remove (\<lambda>_. True) (buckets v) = Some (t, inorder (buckets v))" "t = NIL"
    using vrb.sweep_all [of key "buckets v"] Cons.prems by auto
  from Cons obtain vs' freed where "fini_parts vs = Inr (vs', freed)" "length vs' = length vs"
    "\<forall>v \<in> set vs'. buckets v = NIL" "set freed = (\<Union>v \<in> set vs. set (inorder (buckets v)))" by auto
  with t show ?case by auto
qed simp

lemma vst_fini_correct:
  assumes "vst_life s" "vst_n_init s \<noteq> 0"
  shows "\<exists>s'. vst_fini s = Inr s' \<and> vst_life s' \<and> vst_n_init s' = vst_n_init s - 1 \<and>
    (vst_n_init s \<noteq> 1 \<longrightarrow> vst_heap s' = vst_heap s)"
proof (cases "vst_n_init s = 1")
  case False
  then have "vst_n_init s - 1 \<noteq> 0" by simp
  with assms False show ?thesis
    by (auto simp: vst_fini_def vst_life_def vst_inv_def Let_def word_neq_0_conv)
next
  case True
  let ?h = "vst_heap s"
  have inv: "vst_inv s" using assms(1) by (simp add: vst_life_def)
  have ix: "index_ok (bkey ?h) (buckets v)" if "v \<in> set (parts s)" for v
    using that vst_inv_tree [OF inv] vst_inv_parts [OF inv] by (auto simp: tree_ok_def in_set_conv_nth)
  obtain vs' freed where f: "fini_parts (parts s) = Inr (vs', freed)" "length vs' = length (parts s)"
    "\<forall>v \<in> set vs'. buckets v = NIL" "set freed = (\<Union>v \<in> set (parts s). set (inorder (buckets v)))"
    using fini_parts_correct [of "parts s" "bkey ?h"] ix by blast
  have "dom ?h \<subseteq> set freed"
  proof
    fix p assume "p \<in> dom ?h"
    then obtain b where "?h p = Some b" by blast
    from vst_inv_place [OF inv this] obtain i where "i < N_PART" "p \<in> set (inorder (buckets (parts s ! i)))"
      by blast
    then show "p \<in> set freed" unfolding f(4) using vst_inv_parts [OF inv] by (metis UN_I nth_mem)
  qed
  then have e: "free_all freed ?h = Map.empty" by (auto simp: free_all_def restrict_map_def fun_eq_iff)
  have "buckets (vs' ! i) = NIL" if "i < N_PART" for i
    using f(2,3) that vst_inv_parts [OF inv] by simp
  then have "trees_inv (map buckets vs') Map.empty (vst_next s)"
    using f(2) vst_inv_parts [OF inv] by (simp add: trees_inv_def tree_ok_def index_ok_def rb_tree_def)
  with True f(1) e show ?thesis
    by (auto simp: vst_fini_def Let_def vst_life_def vst_inv_def)
qed

section \<open>Properties\<close>

text \<open>A hash function and a state for the witnesses.\<close>

definition demo_hash :: hash_api where
  "demo_hash = \<lparr>SHA256 = (\<lambda>x. take DIGEST_LEN (x @ replicate DIGEST_LEN 0)),
     mem_double = (\<lambda>x. le_bytes 8 (dtrunc x))\<rparr>"

lemma demo_hash_ok: "hash_ok demo_hash"
  by (auto simp: hash_ok_def demo_hash_def)

definition demo_vst :: vst where
  "demo_vst = vst_event_function True vst_initial"

lemma demo_vst_inv: "vst_inv demo_vst"
  using vst_event_function_life [of vst_initial True]
  by (simp add: demo_vst_def vst_life_def vst_initial_inv) (simp add: vst_initial_def)

lemma demo_vst_abs: "vst_abs demo_vst d = None"
  by (simp add: vst_abs_def demo_vst_def vst_initial_def vst_event_function_def Let_def part_of_less)

lemma demo_vst_gc: "gc_count (parts demo_vst ! part_of d) = 0"
  by (simp add: demo_vst_def vst_initial_def vst_event_function_def Let_def part_of_less)

text \<open>Twice at the same time: nothing to refill.\<close>

lemma calc_tokens_same:
  "last_used b = now \<Longrightarrow> tb_period b \<noteq> 0 \<Longrightarrow> tokens b \<le> capacity b \<Longrightarrow> in_long (tokens b) \<Longrightarrow>
   calc_tokens b now = Inr b"
  by (simp add: calc_tokens_def Let_def long_of_double_def long_add_def in_long_def LONG_MAX_def LONG_MIN_def)

lemma is_denied_from:
  fixes k :: string and limit :: int and period block now :: double
  assumes "vst_inv s" "hash_ok api" "d = do_digest api k limit period block"
    "calc_tokens (bucket_for s d limit period now) now = Inr b1" "deny_decision now block b1 = (r, b2)"
    "dsub now (last_used b2) \<le> tb_period b2"
  shows "\<exists>s'. vmod_is_denied api now s (Some k) limit period block = Inr (r, s') \<and> vst_inv s' \<and>
    vst_abs s' d = Some b2"
  using is_denied_correct [OF assms(1,2), where k = k and limit = limit and period = period
      and block = block and now = now] assms(3-6) length_do_digest [OF assms(2)]
  by (auto simp: denied_abs_def gc_dropped_def Let_def)

lemma in_long_small: "\<bar>n\<bar> \<le> 2 ^ 53 \<Longrightarrow> in_long n"
  by (auto simp: in_long_def LONG_MAX_def LONG_MIN_def)

text \<open>A limit of one, used up at time 5, and with \<open>block\<close> then also denied.\<close>

lemma demo_used_up:
  fixes block :: double
  assumes "d = do_digest demo_hash ''key'' 1 1 block"
  shows "\<exists>s. vmod_is_denied demo_hash 5 demo_vst (Some ''key'') 1 1 block = Inr (False, s) \<and> vst_inv s \<and>
    vst_abs s d = Some ((tb_alloc d 1 1 5)\<lparr>tokens := 0\<rparr>)"
proof (rule is_denied_from [OF demo_vst_inv demo_hash_ok assms])
  show "calc_tokens (bucket_for demo_vst d 1 1 5) 5 = Inr (tb_alloc d 1 1 5)"
    by (simp add: bucket_for_def demo_vst_abs calc_tokens_same tb_alloc_def in_long_small)
  show "deny_decision 5 block (tb_alloc d 1 1 5) = (False, (tb_alloc d 1 1 5)\<lparr>tokens := 0\<rparr>)"
    by (auto simp: deny_decision_def tb_alloc_def Let_def)
qed (simp add: tb_alloc_def)

text \<open>
  Claim C5. A call of \<open>is_denied\<close> from a state that satisfies the invariant does exactly what
  the specification on a table of buckets says: it refills the bucket of the digest
  (a new full one when there is none), takes a token or denies, maintains the block, writes the
  bucket back, and counts the call: when the counter of the partition reaches 1000 it drops the
  partition's expired buckets and starts again from 0, so that every 1000th call of a partition
  collects. The counters of the other partitions stay. The invariant is kept, no other digest is touched, and the only way for the call
  to fail is the refill itself (a clock that went backwards, or an arithmetic overflow); in
  particular the tree operations dereference no NULL or freed node and the assertion on
  \<open>VRB_INSERT\<close> holds.
\<close>

theorem vst_is_denied_refines:
  assumes "vst_inv s" and "hash_ok api"
  shows "let d = do_digest api k limit period block;
      gc = (gc_count (parts s ! part_of d) + 1 = GC_INTVL);
      b = (case vst_abs s d of None \<Rightarrow> tb_alloc d limit period now | Some b \<Rightarrow> b) in
    case calc_tokens b now of
      Inl e \<Rightarrow> vmod_is_denied api now s (Some k) limit period block = Inl e
    | Inr b1 \<Rightarrow> \<exists>s'. vmod_is_denied api now s (Some k) limit period block =
          Inr (fst (deny_decision now block b1), s') \<and> vst_inv s' \<and>
        (\<forall>d'. length d' = DIGEST_LEN \<longrightarrow>
          vst_abs s' d' = denied_abs (vst_abs s) gc now d (snd (deny_decision now block b1)) d') \<and>
        map gc_count (parts s') = (map gc_count (parts s))[part_of d := if gc then 0 else gc_count (parts s ! part_of d) + 1]"
  unfolding Let_def bucket_for_def [symmetric]
  using is_denied_correct [OF assms, where k = k and limit = limit and period = period and block = block and now = now]
    is_denied_counts [OF assms, where k = k and limit = limit and period = period and block = block and now = now]
  by (fastforce simp: Let_def split: sum.splits)

theorem vst_is_denied_refines_witness:
  "\<exists>s'. vmod_is_denied demo_hash 5 demo_vst (Some ''key'') 1 10 0 = Inr (False, s') \<and> vst_inv s' \<and>
    map gc_count (parts s') = (map gc_count (parts demo_vst))[part_of (do_digest demo_hash ''key'' 1 10 0) := 1]"
  using vst_is_denied_refines [OF demo_vst_inv demo_hash_ok, of "''key''" 1 10 0 5]
  by (auto simp: Let_def demo_vst_abs calc_tokens_same tb_alloc_def deny_decision_def in_long_def
      LONG_MAX_def LONG_MIN_def demo_vst_gc GC_INTVL_def)

text \<open>
  Claim C3. The rate limit. In any run of \<open>is_denied\<close> and \<open>blocked\<close> calls for any keys under a
  clock that does not go backwards, including the collections that happen on the way, the
  number of requests let through for one digest is at most the limit plus the refill rate times
  the length of the run. The rate is limit per period, up to the rounding of four
  floating-point operations (a factor \<open>(1 + 2\<^sup>-\<^sup>5\<^sup>3)\<^sup>4\<close>).
\<close>

theorem vst_rate_limit:
  assumes "vst_inv s" and "hash_ok api" and "length d = DIGEST_LEN" and "0 \<le> limit" and "0 < period"
    and "case vst_abs s d of None \<Rightarrow> True | Some b \<Rightarrow> bucket_ok limit period b \<and> last_used b \<le> fst (hd cs)"
    and "uniform api d limit period cs" and "sorted (map fst cs)" and "cs \<noteq> []"
    and "vst_admitted api d cs s = Inr (n, s')"
  shows "of_nat n \<le> of_int limit + (1 + eps) ^ 4 * of_int limit / period * (fst (last cs) - fst (hd cs))"
proof -
  have "rl_inv limit period (fst (hd cs)) 0 (fst (hd cs)) (vst_abs s d)"
    using assms(6) by (auto simp: rl_inv_def split: option.splits)
  moreover have "sorted (fst (hd cs) # map fst cs)" using assms(8,9) by (cases cs) auto
  ultimately have "rl_inv limit period (fst (hd cs)) n (fst (last cs)) (vst_abs s' d)"
    using rl_inv_run [OF assms(1-5) _ assms(7) _ assms(10), of "fst (hd cs)" 0 "fst (hd cs)"] assms(9)
    by (simp add: last_map)
  from rl_inv_bound [OF this assms(4,5)] show ?thesis by (simp add: refill_rate_def)
qed

theorem vst_rate_limit_witness:
  "\<exists>s'. vst_admitted demo_hash (do_digest demo_hash ''key'' 1 10 0)
      [(5, Is_denied (Some ''key'') 1 10 0), (5, Is_denied (Some ''key'') 1 10 0)] demo_vst = Inr (1, s') \<and>
    of_nat 1 \<le> of_int 1 + (1 + eps) ^ 4 * of_int 1 / 10 * ((5 :: rat) - 5)"
proof -
  let ?d = "do_digest demo_hash ''key'' 1 10 0" and ?c = "Is_denied (Some ''key'') 1 10 0"
  have l: "length ?d = DIGEST_LEN" by (rule length_do_digest [OF demo_hash_ok])
  have cd: "call_digest demo_hash ?c = Some ?d" by (simp add: call_digest_def)
  define b where "b = (tb_alloc ?d 1 10 5)\<lparr>tokens := 0\<rparr>"
  have one: "in_long 1" "in_long 0" by (simp_all add: in_long_def LONG_MAX_def LONG_MIN_def)
  have c1: "calc_tokens (bucket_for demo_vst ?d 1 10 5) 5 = Inr (tb_alloc ?d 1 10 5)"
    using one by (simp add: bucket_for_def demo_vst_abs calc_tokens_same tb_alloc_def)
  have r1: "deny_decision 5 0 (tb_alloc ?d 1 10 5) = (False, b)"
    by (simp add: deny_decision_def tb_alloc_def b_def)
  from is_denied_correct [OF demo_vst_inv demo_hash_ok, where k = "''key''" and limit = 1 and period = 10
      and block = 0 and now = 5] obtain s1 where
    s1: "vmod_is_denied demo_hash 5 demo_vst (Some ''key'') 1 10 0 = Inr (False, s1)" "vst_inv s1"
    "vst_abs s1 ?d = Some b"
    using l by (auto simp: c1 r1 demo_vst_gc denied_abs_def GC_INTVL_def)
  have "calc_tokens (bucket_for s1 ?d 1 10 5) 5 = Inr b"
    using one by (simp add: bucket_for_def s1(3) calc_tokens_same tb_alloc_def b_def)
  moreover have "fst (deny_decision 5 0 b) = True"
    by (simp add: deny_decision_def tb_alloc_def b_def)
  ultimately obtain s2 where s2: "vmod_is_denied demo_hash 5 s1 (Some ''key'') 1 10 0 = Inr (True, s2)"
    using is_denied_correct [OF s1(2) demo_hash_ok, where k = "''key''" and limit = 1 and period = 10
      and block = 0 and now = 5] by auto
  have run: "vst_admitted demo_hash ?d [(5, ?c), (5, ?c)] demo_vst = Inr (1, s2)"
    by (simp add: s1(1) s2 cd)
  have "uniform demo_hash ?d 1 10 [(5, ?c), (5, ?c)]" by (simp add: uniform_def)
  from vst_rate_limit [OF demo_vst_inv demo_hash_ok l _ _ _ this _ _ run]
  have "of_nat 1 \<le> of_int 1 + (1 + eps) ^ 4 * of_int 1 / 10 * ((5 :: rat) - 5)" by (simp add: demo_vst_abs)
  with run show ?thesis by blast
qed

text \<open>An expired bucket is full again when it is next used.\<close>

lemma calc_tokens_expired:
  assumes b: "bucket_ok limit period b" and per: "0 < period" and lim: "limit \<le> 2 ^ 53"
    and x: "period < dsub now0 (last_used b)" "now0 \<le> now" and c: "calc_tokens b now = Inr b1"
  shows "b1 = b\<lparr>tokens := limit\<rparr>"
proof -
  let ?n = "dtrunc (dmul (ddiv (dsub now (last_used b)) period) (double_of_long limit))"
  have l: "0 \<le> limit" using b by (auto simp: bucket_ok_def)
  then have dl: "double_of_long limit = of_int limit" using lim by (simp add: double_of_long_def)
  have "period \<le> dsub now (last_used b)" using x dsub_mono [OF x(2), of "last_used b"] by simp
  then have "1 \<le> ddiv (dsub now (last_used b)) period" using per by (intro ddiv_ge_1)
  then have "of_int limit \<le> ddiv (dsub now (last_used b)) period * of_int limit"
    using l by (simp add: mult_le_cancel_right1)
  then have "of_int limit \<le> dmul (ddiv (dsub now (last_used b)) period) (double_of_long limit)"
    unfolding dmul_def dl using fl_mono [of "of_int limit"] l lim by simp
  then have "limit \<le> ?n" using dtrunc_mono [of "of_int limit"] by simp
  moreover have "b1 = b\<lparr>tokens := min limit (tokens b + ?n)\<rparr>"
    using c b
    by (auto simp: calc_tokens_def bucket_ok_def Let_def long_of_double_def long_add_def min_def split: if_splits)
  ultimately show ?thesis using b by (simp add: bucket_ok_def)
qed

lemma run_gc_gc_count:
  assumes "vst_inv s" "part < N_PART" "run_gc now part s = Inr s'"
  shows "vst_inv s'" "gc_count (parts s' ! part_of d) = gc_count (parts s ! part_of d)"
    "length d = DIGEST_LEN \<Longrightarrow> vst_abs s' d = gc_dropped now part d (vst_abs s d)"
proof -
  have r: "vst_inv s'" "map gc_count (parts s') = map gc_count (parts s)"
    "length d = DIGEST_LEN \<Longrightarrow> vst_abs s' d = gc_dropped now part d (vst_abs s d)"
    using run_gc_correct [OF assms(1,2), of now] assms(3) by auto
  then show "vst_inv s'" "length d = DIGEST_LEN \<Longrightarrow> vst_abs s' d = gc_dropped now part d (vst_abs s d)"
    by auto
  show "gc_count (parts s' ! part_of d) = gc_count (parts s ! part_of d)"
    using arg_cong [OF r(2), of "\<lambda>xs. xs ! part_of d"] vst_inv_parts [OF assms(1)] vst_inv_parts [OF r(1)]
    by (simp add: part_of_less)
qed

text \<open>
  Claim C37. Collecting garbage does not change what the limiter decides: for a limit between 1 and
  \<open>2\<^sup>5\<^sup>3\<close>, a positive period and a bucket without a block, or with one that has run out, a call of
  \<open>is_denied\<close> after a run of the collector returns what it would have returned without it, and
  leaves the same bucket behind. An expired bucket that is forgotten is replaced by a full one;
  kept, it would have been refilled to the brim. (A block that still lasts is forgotten with its
  bucket, and a bucket of limit 0 is left with another time of last use.)
\<close>

theorem vst_gc_transparent:
  assumes "vst_inv s" and "hash_ok api" and "run_gc now0 part s = Inr s'" and "part < N_PART" and "now0 \<le> now"
    and "0 < limit" and "limit \<le> 2 ^ 53" and "0 < period"
    and "vst_abs s (do_digest api k limit period block) = Some b" and "bucket_ok limit period b"
    and "tb_block b = 0 \<or> 0 < block \<and> tb_block b \<le> now \<and> 0 \<le> now"
    and "vmod_is_denied api now s (Some k) limit period block = Inr (ret, s1)"
  shows "\<exists>s2. vmod_is_denied api now s' (Some k) limit period block = Inr (ret, s2) \<and>
    vst_abs s2 (do_digest api k limit period block) = vst_abs s1 (do_digest api k limit period block)"
proof -
  define d where "d = do_digest api k limit period block"
  have d: "length d = DIGEST_LEN" using assms(2) by (simp add: d_def length_do_digest)
  note q = is_denied_correct [OF assms(1,2), where k = k and limit = limit and period = period
      and block = block and now = now, folded d_def]
  have bf: "bucket_for s d limit period now = b" using assms(9) by (simp add: bucket_for_def d_def)
  with q assms(12) obtain b1 where b1: "calc_tokens b now = Inr b1"
    by (auto simp: bf split: sum.splits)
  note g = run_gc_gc_count [OF assms(1,4,3)]
  note q' = is_denied_correct [OF g(1) assms(2), where k = k and limit = limit and period = period
      and block = block and now = now, folded d_def, unfolded g(2) [of d]]
  show ?thesis
  proof (cases "vst_abs s' d = Some b")
    case True
    then have "bucket_for s' d limit period now = b" by (simp add: bucket_for_def)
    with q q' b1 assms(12) d show ?thesis by (auto simp: bf denied_abs_def simp flip: d_def)
  next
    case False
    then have x: "vst_abs s' d = None" "period < dsub now0 (last_used b)"
      using g(3) [OF d] assms(9,10)
      by (auto simp: gc_dropped_def bucket_ok_def d_def split: if_splits)
    then have b1': "b1 = b\<lparr>tokens := limit\<rparr>" using calc_tokens_expired [OF assms(10,8,7) x(2) assms(5) b1] by simp
    have c: "calc_tokens (tb_alloc d limit period now) now = Inr (tb_alloc d limit period now)"
      using assms(6-8) by (intro calc_tokens_same) (auto simp: tb_alloc_def in_long_def LONG_MAX_def LONG_MIN_def)
    have "tb_digest b = d" using assms(9) vst_abs_iff [OF assms(1) d] by (auto simp: d_def)
    then have same: "deny_decision now block (tb_alloc d limit period now) = deny_decision now block b1"
      using assms(6,10,11) by (cases b) (auto simp: deny_decision_def tb_alloc_def b1' bucket_ok_def Let_def)
    have "bucket_for s' d limit period now = tb_alloc d limit period now" by (simp add: bucket_for_def x)
    with q q' b1 assms(12) d c same show ?thesis by (auto simp: bf denied_abs_def simp flip: d_def)
  qed
qed

theorem vst_gc_transparent_witness:
  "\<exists>s s' s1 s2. run_gc 50 (part_of (do_digest demo_hash ''key'' 1 1 0)) s = Inr s' \<and>
     vmod_is_denied demo_hash 50 s (Some ''key'') 1 1 0 = Inr (False, s1) \<and>
     vmod_is_denied demo_hash 50 s' (Some ''key'') 1 1 0 = Inr (False, s2) \<and>
     vst_abs s2 (do_digest demo_hash ''key'' 1 1 0) = vst_abs s1 (do_digest demo_hash ''key'' 1 1 0)"
proof -
  let ?d = "do_digest demo_hash ''key'' 1 1 0" and ?b = "(tb_alloc (do_digest demo_hash ''key'' 1 1 0) 1 1 5)\<lparr>tokens := 0\<rparr>"
  obtain s where s: "vst_inv s" "vst_abs s ?d = Some ?b" using demo_used_up [OF refl] by blast
  obtain s' where s': "run_gc 50 (part_of ?d) s = Inr s'" using run_gc_correct [OF s(1) part_of_less] by blast
  have b: "bucket_ok 1 1 ?b" "tb_block ?b = 0 \<or> 0 < (0 :: double) \<and> tb_block ?b \<le> 50 \<and> 0 \<le> (50 :: double)"
    by (simp_all add: bucket_ok_def tb_alloc_def)
  have "\<exists>s1. vmod_is_denied demo_hash 50 s (Some ''key'') 1 1 0 = Inr (False, s1) \<and> vst_inv s1 \<and>
    vst_abs s1 ?d = Some (?b\<lparr>last_used := 50\<rparr>)"
  proof (rule is_denied_from [OF s(1) demo_hash_ok refl])
    show "calc_tokens (bucket_for s ?d 1 1 50) 50 = Inr (?b\<lparr>tokens := 1\<rparr>)"
      by (simp add: bucket_for_def s calc_tokens_def tb_alloc_def Let_def dsub_def ddiv_def dmul_def
          double_of_long_def long_of_double_def long_add_def in_long_small dtrunc_def)
    show "deny_decision 50 0 (?b\<lparr>tokens := 1\<rparr>) = (False, ?b\<lparr>last_used := 50\<rparr>)"
      by (simp add: deny_decision_def tb_alloc_def)
  qed (simp add: tb_alloc_def)
  then obtain s1 where s1: "vmod_is_denied demo_hash 50 s (Some ''key'') 1 1 0 = Inr (False, s1)" by blast
  from vst_gc_transparent [OF s(1) demo_hash_ok s' part_of_less _ _ _ _ s(2) b s1] s' s1 show ?thesis
    by auto
qed

text \<open>The bucket a successful call decides on and the one it leaves.\<close>

lemma is_denied_stored:
  fixes k :: string and limit :: int and period block now :: double
  assumes "vst_inv s" "hash_ok api" "d = do_digest api k limit period block" "vst_abs s d = Some b"
    "vmod_is_denied api now s (Some k) limit period block = Inr (ret, s')"
  obtains b1 b2 gc where "calc_tokens b now = Inr b1" "deny_decision now block b1 = (ret, b2)"
    "vst_abs s' d = denied_abs (vst_abs s) gc now d b2 d"
proof -
  have d: "length d = DIGEST_LEN" using assms(2,3) by (simp add: length_do_digest)
  note q = is_denied_correct [OF assms(1,2), where k = k and limit = limit and period = period
      and block = block and now = now, folded assms(3)]
  have bf: "bucket_for s d limit period now = b" using assms(4) by (simp add: bucket_for_def)
  with q assms(5) obtain b1 where b1: "calc_tokens b now = Inr b1" by (auto split: sum.splits)
  with q assms(5) d bf show thesis
    by (cases "deny_decision now block b1") (auto intro: that)
qed

text \<open>
  The block. While the block of a bucket lasts, every call is denied and the block's
  end does not move; a call denied outside a block starts one that lasts until \<open>now + block\<close>;
  a call that is let through leaves no block behind.
\<close>

theorem vst_block_lasts:
  assumes "vst_inv s" and "hash_ok api" and "0 < block" and "0 \<le> period"
    and "vst_abs s (do_digest api k limit period block) = Some b" and "tb_period b = period"
    and "vmod_is_denied api now s (Some k) limit period block = Inr (ret, s')"
  shows "let x = vst_abs s' (do_digest api k limit period block) in
    if now < tb_block b then ret \<and> (\<exists>b'. x = Some b' \<and> tb_block b' = tb_block b)
    else if ret then (case x of None \<Rightarrow> period < dsub now (last_used b) | Some b' \<Rightarrow> tb_block b' = dadd now block)
    else (\<exists>b'. x = Some b' \<and> tb_block b' = 0)"
proof -
  define d where "d = do_digest api k limit period block"
  obtain b1 b2 gc where b1: "calc_tokens b now = Inr b1" and dec: "deny_decision now block b1 = (ret, b2)"
    and x: "vst_abs s' d = denied_abs (vst_abs s) gc now d b2 d"
    by (rule is_denied_stored [OF assms(1,2) d_def assms(5) [folded d_def] assms(7)])
  note keep = calc_tokens_keeps [OF b1]
  show ?thesis
    using dec keep assms(3,4,6)
    by (auto simp: x Let_def d_def [symmetric] denied_abs_def gc_dropped_def deny_decision_def split: if_splits)
qed

theorem vst_block_lasts_witness:
  "\<exists>s s'. vmod_is_denied demo_hash 5 s (Some ''key'') 1 1 100 = Inr (True, s') \<and>
     (case vst_abs s' (do_digest demo_hash ''key'' 1 1 100) of None \<Rightarrow> False | Some b' \<Rightarrow> tb_block b' = dadd 5 100)"
proof -
  let ?d = "do_digest demo_hash ''key'' 1 1 100"
  let ?b = "(tb_alloc ?d 1 1 5)\<lparr>tokens := 0\<rparr>"
  obtain s where s: "vst_inv s" "vst_abs s ?d = Some ?b" using demo_used_up [OF refl] by blast
  have "\<exists>s1. vmod_is_denied demo_hash 5 s (Some ''key'') 1 1 100 = Inr (True, s1) \<and> vst_inv s1 \<and>
    vst_abs s1 ?d = Some (?b\<lparr>tb_block := dadd 5 100\<rparr>)"
  proof (rule is_denied_from [OF s(1) demo_hash_ok refl])
    show "calc_tokens (bucket_for s ?d 1 1 5) 5 = Inr ?b"
      by (simp add: bucket_for_def s calc_tokens_same tb_alloc_def in_long_small)
    show "deny_decision 5 100 ?b = (True, ?b\<lparr>tb_block := dadd 5 100\<rparr>)"
      by (simp add: deny_decision_def tb_alloc_def)
  qed (simp add: tb_alloc_def)
  then obtain s1 where s1: "vmod_is_denied demo_hash 5 s (Some ''key'') 1 1 100 = Inr (True, s1)" by blast
  from vst_block_lasts [OF s(1) demo_hash_ok _ _ s(2) _ s1]
  have "case vst_abs s1 ?d of None \<Rightarrow> False | Some b' \<Rightarrow> tb_block b' = dadd 5 100"
    by (simp add: tb_alloc_def split: option.splits)
  with s1 show ?thesis by blast
qed

text \<open>
  The collector forgets a block. When the bucket of a blocked key has not been used
  for longer than its period, which a block longer than the period makes possible, a run of
  the collector drops it although its block has not ended: the next call is let through,
  while without the collection it would have been denied.
\<close>

theorem vst_gc_forgets_block:
  assumes "vst_inv s" and "hash_ok api" and "0 < block" and "0 < period" and "0 < limit" and "limit \<le> 2 ^ 53"
    and "vst_abs s (do_digest api k limit period block) = Some b" and "tb_period b = period"
    and "0 \<le> now" and "now < tb_block b" and "period < dsub now (last_used b)"
    and "run_gc now (part_of (do_digest api k limit period block)) s = Inr s'"
  shows "(\<exists>s1. vmod_is_denied api now s' (Some k) limit period block = Inr (False, s1)) \<and>
    (\<nexists>s1. vmod_is_denied api now s (Some k) limit period block = Inr (False, s1))"
proof
  define d where "d = do_digest api k limit period block"
  have d: "length d = DIGEST_LEN" using assms(2) by (simp add: d_def length_do_digest)
  note g = run_gc_gc_count [OF assms(1) part_of_less assms(12)]
  have none: "vst_abs s' d = None" using g(3) [OF d] assms(7,8,11) by (simp add: gc_dropped_def d_def)
  have "\<exists>s1. vmod_is_denied api now s' (Some k) limit period block = Inr (False, s1) \<and> vst_inv s1 \<and>
    vst_abs s1 d = Some ((tb_alloc d limit period now)\<lparr>tokens := limit - 1\<rparr>)"
  proof (rule is_denied_from [OF g(1) assms(2) d_def])
    show "calc_tokens (bucket_for s' d limit period now) now = Inr (tb_alloc d limit period now)"
      using assms(4-6) by (simp add: bucket_for_def none calc_tokens_same tb_alloc_def in_long_small)
    show "deny_decision now block (tb_alloc d limit period now) = (False, (tb_alloc d limit period now)\<lparr>tokens := limit - 1\<rparr>)"
      using assms(5,9) by (simp add: deny_decision_def tb_alloc_def Let_def)
  qed (use assms(4) in \<open>simp add: tb_alloc_def\<close>)
  then show "\<exists>s1. vmod_is_denied api now s' (Some k) limit period block = Inr (False, s1)" by blast
  show "\<nexists>s1. vmod_is_denied api now s (Some k) limit period block = Inr (False, s1)"
  proof
    assume "\<exists>s1. vmod_is_denied api now s (Some k) limit period block = Inr (False, s1)"
    then obtain s1 where s1: "vmod_is_denied api now s (Some k) limit period block = Inr (False, s1)" by blast
    obtain b1 b2 gc where "calc_tokens b now = Inr b1" "deny_decision now block b1 = (False, b2)"
      by (rule is_denied_stored [OF assms(1,2) d_def assms(7) [folded d_def] s1])
    with assms(3,10) show False by (auto simp: deny_decision_def Let_def calc_tokens_keeps split: if_splits)
  qed
qed

theorem vst_gc_forgets_block_witness:
  "\<exists>s s' s1. run_gc 50 (part_of (do_digest demo_hash ''key'' 1 1 100)) s = Inr s' \<and>
     vmod_is_denied demo_hash 50 s' (Some ''key'') 1 1 100 = Inr (False, s1) \<and>
     (\<nexists>s1. vmod_is_denied demo_hash 50 s (Some ''key'') 1 1 100 = Inr (False, s1))"
proof -
  let ?d = "do_digest demo_hash ''key'' 1 1 100"
  let ?b = "(tb_alloc ?d 1 1 5)\<lparr>tokens := 0\<rparr>"
  obtain s where s: "vst_inv s" "vst_abs s ?d = Some ?b" using demo_used_up [OF refl] by blast
  have "\<exists>s1. vmod_is_denied demo_hash 5 s (Some ''key'') 1 1 100 = Inr (True, s1) \<and> vst_inv s1 \<and>
    vst_abs s1 ?d = Some (?b\<lparr>tb_block := 105\<rparr>)"
  proof (rule is_denied_from [OF s(1) demo_hash_ok refl])
    show "calc_tokens (bucket_for s ?d 1 1 5) 5 = Inr ?b"
      by (simp add: bucket_for_def s calc_tokens_same tb_alloc_def in_long_small)
    show "deny_decision 5 100 ?b = (True, ?b\<lparr>tb_block := 105\<rparr>)"
      by (simp add: deny_decision_def tb_alloc_def dadd_def)
  qed (simp add: tb_alloc_def)
  then obtain s1 where s1: "vst_inv s1" "vst_abs s1 ?d = Some (?b\<lparr>tb_block := 105\<rparr>)" by blast
  obtain s' where s': "run_gc 50 (part_of ?d) s1 = Inr s'" using run_gc_correct [OF s1(1) part_of_less] by blast
  from vst_gc_forgets_block [OF s1(1) demo_hash_ok _ _ _ _ s1(2) _ _ _ _ s'] s' show ?thesis
    by (auto simp: tb_alloc_def dsub_def)
qed

text \<open>
  Asking for the remaining tokens hands out tokens: \<open>remaining\<close> refills the bucket
  without recording when it did so, and a second call at the same instant credits the same
  elapsed time once more. With \<open>n\<close> tokens earned since the bucket was last used, the first
  call answers \<open>tokens + n\<close>, the second \<open>tokens + 2n\<close>, and that is what the bucket then holds.
\<close>

theorem vst_remaining_credits_twice:
  assumes "vst_inv s" and "hash_ok api"
    and "vst_abs s (do_digest api k limit period block) = Some b" and "bucket_ok limit period b"
    and "last_used b \<le> now" and "0 < period" and "limit < 2 ^ 32"
    and "n = dtrunc (dmul (ddiv (dsub now (last_used b)) period) (double_of_long limit))"
    and "tokens b + 2 * n \<le> limit"
  shows "\<exists>s1 s2. vmod_remaining api now s (Some k) limit period block = Inr (tokens b + n, s1) \<and>
    vmod_remaining api now s1 (Some k) limit period block = Inr (tokens b + 2 * n, s2) \<and>
    vst_abs s2 (do_digest api k limit period block) = Some (b\<lparr>tokens := tokens b + 2 * n\<rparr>)"
proof -
  define d where "d = do_digest api k limit period block"
  have d: "length d = DIGEST_LEN" using assms(2) by (simp add: d_def length_do_digest)
  have b: "capacity b = limit" "tb_period b = period" "0 \<le> tokens b" using assms(4) by (auto simp: bucket_ok_def)
  have n0: "0 \<le> n" unfolding assms(8)
    using refill_amount(1) [OF assms(5,6), of limit] assms(4) by (simp add: bucket_ok_def)
  have calc: "calc_tokens (b\<lparr>tokens := t\<rparr>) now = Inr (b\<lparr>tokens := t + n\<rparr>)" if "0 \<le> t" "t + n \<le> limit" for t
    using that b n0 assms(5-7) dsub_nonneg [OF assms(5)]
    by (simp add: calc_tokens_def Let_def assms(8) [symmetric] long_of_double_def long_add_def in_long_small)
  have u: "uint (of_int t :: u32) = t" if "0 \<le> t" "t \<le> limit" for t
    using that assms(7) by (simp add: unsigned_of_int take_bit_int_eq_self)
  note rem = vmod_remaining_correct [OF _ assms(2), where k = k and limit = limit and period = period
      and block = block and now = now, folded d_def]
  have "bucket_for s d limit period now = b" using assms(3) by (simp add: bucket_for_def d_def)
  with rem [OF assms(1)] calc [of "tokens b"] u [of "tokens b + n"] d n0 b assms(9)
  obtain s1 where s1: "vmod_remaining api now s (Some k) limit period block = Inr (tokens b + n, s1)"
    "vst_inv s1" "vst_abs s1 d = Some (b\<lparr>tokens := tokens b + n\<rparr>)" by auto
  have "bucket_for s1 d limit period now = b\<lparr>tokens := tokens b + n\<rparr>" by (simp add: bucket_for_def s1)
  with rem [OF s1(2)] calc [of "tokens b + n"] u [of "tokens b + 2 * n"] d n0 b assms(9)
  have "\<exists>s2. vmod_remaining api now s1 (Some k) limit period block = Inr (tokens b + 2 * n, s2) \<and>
    vst_abs s2 d = Some (b\<lparr>tokens := tokens b + 2 * n\<rparr>)" by (auto simp: algebra_simps)
  with s1(1) show ?thesis unfolding d_def by blast
qed

theorem vst_remaining_credits_twice_witness:
  "\<exists>s s1 s2. vmod_remaining demo_hash 5 s (Some ''key'') 2 2 0 = Inr (1, s1) \<and>
     vmod_remaining demo_hash 5 s1 (Some ''key'') 2 2 0 = Inr (2, s2)"
proof -
  let ?d = "do_digest demo_hash ''key'' 2 2 0"
  let ?b = "tb_alloc ?d 2 2 4"
  have "\<exists>s. vmod_is_denied demo_hash 4 demo_vst (Some ''key'') 2 2 0 = Inr (False, s) \<and> vst_inv s \<and>
    vst_abs s ?d = Some (?b\<lparr>tokens := 1\<rparr>)"
  proof (rule is_denied_from [OF demo_vst_inv demo_hash_ok refl])
    show "calc_tokens (bucket_for demo_vst ?d 2 2 4) 4 = Inr ?b"
      by (simp add: bucket_for_def demo_vst_abs calc_tokens_same tb_alloc_def in_long_small)
  qed (simp_all add: deny_decision_def tb_alloc_def)
  then obtain s where s: "vst_inv s" "vst_abs s ?d = Some (?b\<lparr>tokens := 1\<rparr>)" by blast
  have "\<exists>s'. vmod_is_denied demo_hash 4 s (Some ''key'') 2 2 0 = Inr (False, s') \<and> vst_inv s' \<and>
    vst_abs s' ?d = Some (?b\<lparr>tokens := 0\<rparr>)"
  proof (rule is_denied_from [OF s(1) demo_hash_ok refl])
    show "calc_tokens (bucket_for s ?d 2 2 4) 4 = Inr (?b\<lparr>tokens := 1\<rparr>)"
      by (simp add: bucket_for_def s calc_tokens_same tb_alloc_def in_long_small)
  qed (simp_all add: deny_decision_def tb_alloc_def)
  then obtain s' where s': "vst_inv s'" "vst_abs s' ?d = Some (?b\<lparr>tokens := 0\<rparr>)" by blast
  have "(1 :: int) = dtrunc (dmul (ddiv (dsub 5 (last_used (?b\<lparr>tokens := 0\<rparr>))) 2) (double_of_long 2))"
    using fl_dyadic [of 1 1] by (simp add: dsub_def ddiv_def dmul_def double_of_long_def tb_alloc_def dtrunc_def)
  from vst_remaining_credits_twice [OF s'(1) demo_hash_ok s'(2) _ _ _ _ this] show ?thesis
    by (auto simp: bucket_ok_def tb_alloc_def)
qed

text \<open>
  Different quadruples of key, limit, period and block feed different bytes to the hash:
  the concatenation is unambiguous, because only its first part has a variable length.
\<close>

theorem vst_digest_input_inj:
  assumes "(k, l, p, b) \<noteq> (k', l', p', b')"
    and "\<forall>x. length (mem_double api x) = 8" and "inj_on (mem_double api) {p, p', b, b'}"
    and "in_long l" and "in_long l'"
  shows "digest_input api k l p b \<noteq> digest_input api k' l' p' b'"
proof
  assume eq: "digest_input api k l p b = digest_input api k' l' p' b'"
  have e: "bytes_of k @ le_bytes 8 l @ mem_double api p @ mem_double api b =
    bytes_of k' @ le_bytes 8 l' @ mem_double api p' @ mem_double api b'"
    using eq by (simp add: digest_input_def)
  then have "length (bytes_of k) = length (bytes_of k')" using assms(2) by (auto dest: arg_cong [of _ _ length])
  with e have parts: "bytes_of k = bytes_of k'" "le_bytes 8 l = le_bytes 8 l'"
    "mem_double api p = mem_double api p'" "mem_double api b = mem_double api b'"
    using assms(2) by (simp_all add: append_eq_append_conv)
  have "l mod 2 ^ 64 = l' mod 2 ^ 64" using le_bytes_inj [OF parts(2)] by simp
  then have "(l + 2 ^ 63) mod 2 ^ 64 = (l' + 2 ^ 63) mod 2 ^ 64" by (rule mod_add_cong) (rule refl)
  moreover have "(x + 2 ^ 63) mod 2 ^ 64 = x + 2 ^ 63" if "in_long x" for x
    using that by (intro mod_pos_pos_trivial) (simp_all add: in_long_def LONG_MAX_def LONG_MIN_def)
  ultimately have "l = l'" using assms(4,5) by simp
  moreover have "p = p'" by (rule inj_onD [OF assms(3) parts(3)]) simp_all
  moreover have "b = b'" by (rule inj_onD [OF assms(3) parts(4)]) simp_all
  moreover have "k = k'" using parts(1) by (rule bytes_of_inj)
  ultimately show False using assms(1) by simp
qed

theorem vst_digest_input_inj_witness:
  "digest_input demo_hash ''key'' 1 10 0 \<noteq> digest_input demo_hash ''ke'' 1 10 0"
proof -
  have m: "\<forall>x. length (mem_double demo_hash x) = 8" by (simp add: demo_hash_def)
  have "mem_double demo_hash 10 \<noteq> mem_double demo_hash 0"
  proof
    assume "mem_double demo_hash 10 = mem_double demo_hash 0"
    then have "le_bytes 8 10 = le_bytes 8 0" by (simp add: demo_hash_def dtrunc_def)
    from le_bytes_inj [OF this] show False by simp
  qed
  then have i: "inj_on (mem_double demo_hash) {10, 10, 0, 0}" by (auto simp: inj_on_def)
  show ?thesis by (rule vst_digest_input_inj [OF _ m i]) (simp_all add: in_long_small)
qed

text \<open>
  Unloading a VCL decrements the load count; when the last one goes, every bucket of every
  partition is freed, exactly once, and nothing of the heap is left. From a state where buckets
  exist only while a VCL is loaded, unloading cannot fail, and the state stays of that kind.
\<close>

theorem vst_fini_frees:
  assumes "vst_inv s" and "vst_n_init s \<noteq> 0"
  shows "\<exists>s'. vst_fini s = Inr s' \<and> vst_inv s' \<and> vst_n_init s' = vst_n_init s - 1 \<and>
    vst_heap s' = (if vst_n_init s = 1 then Map.empty else vst_heap s)"
proof -
  have "vst_life s" using assms by (simp add: vst_life_def)
  from vst_fini_correct [OF this assms(2)] show ?thesis by (auto simp: vst_life_def)
qed

theorem vst_fini_frees_witness:
  "\<exists>s s'. vst_heap s \<noteq> Map.empty \<and> vst_n_init s = 1 \<and> vst_fini s = Inr s' \<and> vst_heap s' = Map.empty"
proof -
  let ?h = "[1 \<mapsto> tb_alloc (replicate DIGEST_LEN 0) 1 1 5]"
  define s where "s = demo_vst\<lparr>parts := (parts demo_vst)[0 := \<lparr>buckets = NODE NIL 1 VRB_BLACK NIL, gc_count = 0\<rparr>],
    vst_heap := ?h, vst_next := 2\<rparr>"
  have n: "vst_n_init s = 1" by (simp add: s_def demo_vst_def vst_event_function_def vst_initial_def)
  have ps: "map buckets (parts s) = (replicate N_PART NIL)[0 := NODE NIL 1 VRB_BLACK NIL]"
    by (simp add: s_def demo_vst_def vst_event_function_def vst_initial_def map_update)
  have "trees_inv ((replicate N_PART NIL)[0 := NODE NIL 1 VRB_BLACK NIL]) ?h 2"
  proof (rule trees_inv_update [of _ Map.empty 1])
    show "trees_inv (replicate N_PART NIL) Map.empty 1"
      using vst_initial_inv by (simp add: vst_inv_def vst_initial_def)
    show "tree_ok ?h 0 (NODE NIL 1 VRB_BLACK NIL)"
      by (simp add: tree_ok_def index_ok_def rb_tree_def tb_alloc_def part_of_def DIGEST_LEN_def)
  qed (simp_all add: N_PART_def)
  then have "vst_inv s" using ps by (simp add: vst_inv_def) (simp add: s_def)
  from vst_fini_frees [OF this] n obtain s' where "vst_fini s = Inr s'" "vst_heap s' = Map.empty" by auto
  moreover have "vst_heap s \<noteq> Map.empty" by (auto simp: s_def)
  ultimately show ?thesis using n by blast
qed

end
