(* ===== verification/Vsthrottle_Lock.thy ===== *)
theory Vsthrottle_Lock
  imports Vsthrottle
begin

text \<open>
  The locking of \<^verbatim>\<open>src/src/vmod_vsthrottle.c\<close>. Theory \<open>Vsthrottle\<close> takes a call as one step;
  here every call is a thread, each of its statements is a step, and the steps of all threads
  and the ticks of the clock interleave. A thread holds the mutex of the partition its digest
  selects from before it reads the clock until its bucket and the partition's counter are
  written. Here are the steps, the rest of a call from each of its statements on, and the
  invariants that the steps keep: who holds which mutex, what a thread has in hand, and that
  no bucket was used later than the clock shows. The theorems are in \<open>Vsthrottle_Threads\<close>.
\<close>

section \<open>Threads\<close>

datatype vst_fn = F_is_denied | F_remaining | F_blocked

record vst_args =
  a_fn :: vst_fn
  a_key :: "string option"
  a_limit :: int
  a_period :: double
  a_block :: double

datatype vst_ret = R_denied bool | R_remaining int | R_blocked double

text \<open>
  Where a thread is: before the statement of that name. What the later statements need of the
  local variables is in the program counter: \<open>now\<close>, the bucket \<open>b\<close>, the value to return.
\<close>

datatype vst_pc =
    Start | Wait | Clock
  | Get double | Tokens double addr | Decide double addr | Count double bool
  | Collect double bool | Reset bool | Read_tokens addr | Read_block double addr
  | Unlock vst_ret | Finish vst_ret

definition args_digest :: "hash_api \<Rightarrow> vst_args \<Rightarrow> digest" where
  "args_digest api c =
     do_digest api (case a_key c of None \<Rightarrow> [] | Some k \<Rightarrow> k) (a_limit c) (a_period c) (a_block c)"

definition args_part :: "hash_api \<Rightarrow> vst_args \<Rightarrow> nat" where
  "args_part api c = part_of (args_digest api c)"

text \<open>The result of a call without a key, and what the code does to a result after unlocking.\<close>

fun null_ret :: "vst_fn \<Rightarrow> vst_ret" where
  "null_ret F_is_denied = R_denied True"
| "null_ret F_remaining = R_remaining (- 1)"
| "null_ret F_blocked = R_blocked (- 1)"

fun final_ret :: "vst_ret \<Rightarrow> vst_ret" where
  "final_ret (R_blocked x) = R_blocked (if x \<le> 0 then 0 else x)"
| "final_ret r = r"

text \<open>One statement under the lock.\<close>

fun body_step :: "hash_api \<Rightarrow> vst_args \<Rightarrow> vst_pc \<Rightarrow> vst \<Rightarrow> (vst_pc \<times> vst) res" where
  "body_step api c (Get now) m =
     res_bind (get_bucket m (args_digest api c) (a_limit c) (a_period c) now) (\<lambda>(b, m1).
     Inr (if a_fn c = F_blocked then Read_block now b else Tokens now b, m1))"
| "body_step api c (Tokens now b) m =
     res_bind (deref (vst_heap m) b) (\<lambda>x.
     res_bind (calc_tokens x now) (\<lambda>x1.
     Inr (if a_fn c = F_is_denied then Decide now b else Read_tokens b,
       m\<lparr>vst_heap := (vst_heap m)(b \<mapsto> x1)\<rparr>)))"
| "body_step api c (Decide now b) m =
     res_bind (deref (vst_heap m) b) (\<lambda>x.
     let (ret, x1) = deny_decision now (a_block c) x in
     Inr (Count now ret, m\<lparr>vst_heap := (vst_heap m)(b \<mapsto> x1)\<rparr>))"
| "body_step api c (Count now ret) m =
     (let part = args_part api c; v = parts m ! part; n = gc_count v + 1 in
      Inr (if n = GC_INTVL then Collect now ret else Unlock (R_denied ret),
        m\<lparr>parts := (parts m)[part := v\<lparr>gc_count := n\<rparr>]\<rparr>))"
| "body_step api c (Collect now ret) m =
     res_bind (run_gc now (args_part api c) m) (\<lambda>m1. Inr (Reset ret, m1))"
| "body_step api c (Reset ret) m =
     (let part = args_part api c in
      Inr (Unlock (R_denied ret), m\<lparr>parts := (parts m)[part := (parts m ! part)\<lparr>gc_count := 0\<rparr>]\<rparr>))"
| "body_step api c (Read_tokens b) m =
     res_bind (deref (vst_heap m) b) (\<lambda>x. Inr (Unlock (R_remaining (uint (of_int (tokens x) :: u32))), m))"
| "body_step api c (Read_block now b) m =
     res_bind (deref (vst_heap m) b) (\<lambda>x. Inr (Unlock (R_blocked (dsub (tb_block x) now)), m))"
| "body_step api c pc m = Inr (pc, m)"

fun in_body :: "vst_pc \<Rightarrow> bool" where
  "in_body Start = False"
| "in_body Wait = False"
| "in_body Clock = False"
| "in_body (Unlock _) = False"
| "in_body (Finish _) = False"
| "in_body _ = True"

record vst_sys =
  vs_mem :: vst
  vs_mtx :: "nat \<Rightarrow> nat option"
  vs_clock :: double
  vs_pc :: "nat \<Rightarrow> vst_pc"

text \<open>
  One step of the system: the clock moves on, or thread \<open>i\<close> of \<open>n\<close>, which makes the call \<open>arg i\<close>,
  executes a statement. A statement that panics is no step; such a thread stays where it is.
\<close>

inductive vst_tstep :: "hash_api \<Rightarrow> (nat \<Rightarrow> vst_args) \<Rightarrow> nat \<Rightarrow> vst_sys \<Rightarrow> vst_sys \<Rightarrow> bool"
  for api arg n where
  tick: "vs_clock s \<le> t \<Longrightarrow> vst_tstep api arg n s (s\<lparr>vs_clock := t\<rparr>)"
| no_key: "i < n \<Longrightarrow> vs_pc s i = Start \<Longrightarrow> a_key (arg i) = None \<Longrightarrow>
    vst_tstep api arg n s (s\<lparr>vs_pc := (vs_pc s)(i := Finish (null_ret (a_fn (arg i))))\<rparr>)"
| digest: "i < n \<Longrightarrow> vs_pc s i = Start \<Longrightarrow> a_key (arg i) \<noteq> None \<Longrightarrow>
    vst_tstep api arg n s (s\<lparr>vs_pc := (vs_pc s)(i := Wait)\<rparr>)"
| lock: "i < n \<Longrightarrow> vs_pc s i = Wait \<Longrightarrow> vs_mtx s (args_part api (arg i)) = None \<Longrightarrow>
    vst_tstep api arg n s
      (s\<lparr>vs_mtx := (vs_mtx s)(args_part api (arg i) := Some i), vs_pc := (vs_pc s)(i := Clock)\<rparr>)"
| clock: "i < n \<Longrightarrow> vs_pc s i = Clock \<Longrightarrow>
    vst_tstep api arg n s (s\<lparr>vs_pc := (vs_pc s)(i := Get (vs_clock s))\<rparr>)"
| body: "i < n \<Longrightarrow> in_body (vs_pc s i) \<Longrightarrow> body_step api (arg i) (vs_pc s i) (vs_mem s) = Inr (pc, m) \<Longrightarrow>
    vst_tstep api arg n s (s\<lparr>vs_mem := m, vs_pc := (vs_pc s)(i := pc)\<rparr>)"
| unlock: "i < n \<Longrightarrow> vs_pc s i = Unlock ret \<Longrightarrow>
    vst_tstep api arg n s
      (s\<lparr>vs_mtx := (vs_mtx s)(args_part api (arg i) := None), vs_pc := (vs_pc s)(i := Finish (final_ret ret))\<rparr>)"

text \<open>The calls one after the other, as theory \<open>Vsthrottle\<close> has them.\<close>

definition seq_call :: "hash_api \<Rightarrow> double \<Rightarrow> vst_args \<Rightarrow> vst \<Rightarrow> (vst_ret \<times> vst) res" where
  "seq_call api now c m =
     (case a_fn c of
        F_is_denied \<Rightarrow> res_bind (vmod_is_denied api now m (a_key c) (a_limit c) (a_period c) (a_block c))
          (\<lambda>(r, m1). Inr (R_denied r, m1))
      | F_remaining \<Rightarrow> res_bind (vmod_remaining api now m (a_key c) (a_limit c) (a_period c) (a_block c))
          (\<lambda>(r, m1). Inr (R_remaining r, m1))
      | F_blocked \<Rightarrow> res_bind (vmod_blocked api now m (a_key c) (a_limit c) (a_period c) (a_block c))
          (\<lambda>(r, m1). Inr (R_blocked r, m1)))"

text \<open>\<open>h\<close> lists threads with the time at which they read the clock.\<close>

fun seq_run :: "hash_api \<Rightarrow> (nat \<Rightarrow> vst_args) \<Rightarrow> (nat \<times> double) list \<Rightarrow> vst \<Rightarrow> ((nat \<times> vst_ret) list \<times> vst) res" where
  "seq_run api arg [] m = Inr ([], m)"
| "seq_run api arg ((i, now) # h) m =
     res_bind (seq_call api now (arg i) m) (\<lambda>(r, m1).
     res_bind (seq_run api arg h m1) (\<lambda>(rs, m2). Inr ((i, r) # rs, m2)))"

section \<open>What is left of a call\<close>

text \<open>
  The part of the state that a partition's mutex protects, in terms of digests: its buckets and
  its counter. On this view the rest of a call from each of its statements on.
\<close>

type_synonym pview = "(digest \<Rightarrow> tbucket option) \<times> u32"

definition part_view :: "vst \<Rightarrow> nat \<Rightarrow> pview" where
  "part_view m p =
     (\<lambda>d. if length d = DIGEST_LEN \<and> part_of d = p then vst_abs m d else None, gc_count (parts m ! p))"

definition rest_collect :: "nat \<Rightarrow> double \<Rightarrow> bool \<Rightarrow> pview \<Rightarrow> vst_ret \<times> pview" where
  "rest_collect p now ret v = (R_denied ret, (\<lambda>d. gc_dropped now p d (fst v d), 0))"

definition rest_count :: "nat \<Rightarrow> double \<Rightarrow> bool \<Rightarrow> pview \<Rightarrow> vst_ret \<times> pview" where
  "rest_count p now ret v =
     (let n = snd v + 1 in if n = GC_INTVL then rest_collect p now ret (fst v, n) else (R_denied ret, (fst v, n)))"

definition rest_decide :: "hash_api \<Rightarrow> vst_args \<Rightarrow> double \<Rightarrow> pview \<Rightarrow> vst_ret \<times> pview" where
  "rest_decide api c now v =
     (let d = args_digest api c; (ret, x) = deny_decision now (a_block c) (the (fst v d)) in
      rest_count (part_of d) now ret ((fst v)(d \<mapsto> x), snd v))"

definition rest_read :: "hash_api \<Rightarrow> vst_args \<Rightarrow> pview \<Rightarrow> vst_ret \<times> pview" where
  "rest_read api c v = (R_remaining (uint (of_int (tokens (the (fst v (args_digest api c)))) :: u32)), v)"

definition rest_block :: "hash_api \<Rightarrow> vst_args \<Rightarrow> double \<Rightarrow> pview \<Rightarrow> vst_ret \<times> pview" where
  "rest_block api c now v = (R_blocked (dsub (tb_block (the (fst v (args_digest api c)))) now), v)"

definition rest_tokens :: "hash_api \<Rightarrow> vst_args \<Rightarrow> double \<Rightarrow> pview \<Rightarrow> (vst_ret \<times> pview) res" where
  "rest_tokens api c now v =
     (let d = args_digest api c in
      res_bind (calc_tokens (the (fst v d)) now) (\<lambda>x.
      let v1 = ((fst v)(d \<mapsto> x), snd v) in
      Inr (if a_fn c = F_is_denied then rest_decide api c now v1 else rest_read api c v1)))"

definition rest_get :: "hash_api \<Rightarrow> vst_args \<Rightarrow> double \<Rightarrow> pview \<Rightarrow> (vst_ret \<times> pview) res" where
  "rest_get api c now v =
     (let d = args_digest api c;
          x = (case fst v d of Some b \<Rightarrow> b | None \<Rightarrow> tb_alloc d (a_limit c) (a_period c) now);
          v1 = ((fst v)(d \<mapsto> x), snd v)
      in if a_fn c = F_blocked then Inr (rest_block api c now v1) else rest_tokens api c now v1)"

fun rest_call :: "hash_api \<Rightarrow> vst_args \<Rightarrow> vst_pc \<Rightarrow> pview \<Rightarrow> (vst_ret \<times> pview) res" where
  "rest_call api c (Get now) v = rest_get api c now v"
| "rest_call api c (Tokens now _) v = rest_tokens api c now v"
| "rest_call api c (Decide now _) v = Inr (rest_decide api c now v)"
| "rest_call api c (Count now ret) v = Inr (rest_count (args_part api c) now ret v)"
| "rest_call api c (Collect now ret) v = Inr (rest_collect (args_part api c) now ret v)"
| "rest_call api c (Reset ret) v = Inr (R_denied ret, (fst v, 0))"
| "rest_call api c (Read_tokens _) v = Inr (rest_read api c v)"
| "rest_call api c (Read_block now _) v = Inr (rest_block api c now v)"
| "rest_call api c (Unlock ret) v = Inr (ret, v)"
| "rest_call api c _ v = Inl AssertFail"

text \<open>The bucket a thread has in hand is the one stored for its digest.\<close>

definition bucket_at :: "vst \<Rightarrow> digest \<Rightarrow> addr \<Rightarrow> bool" where
  "bucket_at m d a \<longleftrightarrow> (\<exists>b. vst_heap m a = Some b \<and> tb_digest b = d)"

fun in_hand :: "vst \<Rightarrow> digest \<Rightarrow> vst_pc \<Rightarrow> bool" where
  "in_hand m d (Tokens _ a) = bucket_at m d a"
| "in_hand m d (Decide _ a) = bucket_at m d a"
| "in_hand m d (Read_tokens a) = bucket_at m d a"
| "in_hand m d (Read_block _ a) = bucket_at m d a"
| "in_hand m d _ = True"

text \<open>A step under the mutex of partition \<open>p\<close> leaves the other partitions and their buckets alone.\<close>

definition only_part :: "nat \<Rightarrow> vst \<Rightarrow> vst \<Rightarrow> bool" where
  "only_part p m m' \<longleftrightarrow> (\<forall>q. q < N_PART \<longrightarrow> q \<noteq> p \<longrightarrow> part_view m' q = part_view m q) \<and>
     (\<forall>a b. vst_heap m a = Some b \<longrightarrow> part_of (tb_digest b) \<noteq> p \<longrightarrow> vst_heap m' a = Some b)"

lemma part_view_eqI:
  assumes "\<And>d. length d = DIGEST_LEN \<Longrightarrow> part_of d = p \<Longrightarrow> vst_abs m d = f d"
    and "\<And>d. \<not> (length d = DIGEST_LEN \<and> part_of d = p) \<Longrightarrow> f d = None" and "gc_count (parts m ! p) = g"
  shows "part_view m p = (f, g)"
  using assms by (auto simp: part_view_def fun_eq_iff)

lemma gc_count_nth:
  "map gc_count (parts m') = map gc_count (parts m) \<Longrightarrow> vst_inv m \<Longrightarrow> vst_inv m' \<Longrightarrow> q < N_PART \<Longrightarrow>
   gc_count (parts m' ! q) = gc_count (parts m ! q)"
  by (metis nth_map vst_inv_parts)

lemma bucket_at_abs:
  assumes "vst_inv m" and "bucket_at m d a" and "length d = DIGEST_LEN"
  obtains b where "vst_heap m a = Some b" "tb_digest b = d" "vst_abs m d = Some b" "fst (part_view m (part_of d)) d = Some b"
  using assms vst_abs_iff [OF assms(1,3)] by (auto simp: bucket_at_def part_view_def)

lemma view_update:
  assumes inv: "vst_inv m" and a: "vst_heap m a = Some b" "tb_digest b' = tb_digest b"
  defines "m' \<equiv> m\<lparr>vst_heap := (vst_heap m)(a \<mapsto> b')\<rparr>"
  shows "vst_inv m'" and "bucket_at m' (tb_digest b) a"
    and "part_view m' (part_of (tb_digest b)) =
      ((fst (part_view m (part_of (tb_digest b))))(tb_digest b \<mapsto> b'), snd (part_view m (part_of (tb_digest b))))"
    and "only_part (part_of (tb_digest b)) m m'"
proof -
  note u = update_bucket [OF inv a, folded m'_def]
  have d: "length (tb_digest b) = DIGEST_LEN" by (rule vst_inv_digest(1) [OF inv a(1)])
  show "vst_inv m'" by (rule u(1))
  show "bucket_at m' (tb_digest b) a" using a by (simp add: bucket_at_def m'_def)
  have g: "parts m' = parts m" by (simp add: m'_def)
  show "part_view m' (part_of (tb_digest b)) =
      ((fst (part_view m (part_of (tb_digest b))))(tb_digest b \<mapsto> b'), snd (part_view m (part_of (tb_digest b))))"
    using u(2) d by (intro part_view_eqI) (auto simp: part_view_def g)
  have "part_view m' q = part_view m q" if "q \<noteq> part_of (tb_digest b)" for q
    using u(2) that by (auto simp: part_view_def g fun_eq_iff)
  then show "only_part (part_of (tb_digest b)) m m'" using a by (auto simp: only_part_def m'_def)
qed

lemma view_count:
  fixes g :: u32
  assumes inv: "vst_inv m" and p: "p < N_PART"
  defines "m' \<equiv> m\<lparr>parts := (parts m)[p := (parts m ! p)\<lparr>gc_count := g\<rparr>]\<rparr>"
  shows "vst_inv m'" and "part_view m' p = (fst (part_view m p), g)" and "only_part p m m'"
proof -
  have c: "map buckets (parts m') = map buckets (parts m)" "vst_heap m' = vst_heap m" "vst_next m' = vst_next m"
    by (simp_all add: m'_def)
  show "vst_inv m'" using vst_cong(1) [OF c] inv by simp
  note abs = vst_cong(2) [OF c inv]
  have l: "p < length (parts m)" using vst_inv_parts [OF inv] p by simp
  then have g: "gc_count (parts m' ! p) = g" by (simp add: m'_def)
  show "part_view m' p = (fst (part_view m p), g)"
    using abs g by (intro part_view_eqI) (auto simp: part_view_def)
  have "part_view m' q = part_view m q" if "q \<noteq> p" for q
    using abs that by (auto simp: part_view_def fun_eq_iff m'_def)
  then show "only_part p m m'" by (auto simp: only_part_def c)
qed

lemma view_get_bucket:
  fixes limit :: int and period now :: double
  assumes inv: "vst_inv m" and d: "length d = DIGEST_LEN"
  defines "b \<equiv> bucket_for m d limit period now"
  shows "\<exists>a m'. get_bucket m d limit period now = Inr (a, m') \<and> vst_inv m' \<and> bucket_at m' d a \<and>
    part_view m' (part_of d) = ((fst (part_view m (part_of d)))(d \<mapsto> b), snd (part_view m (part_of d))) \<and>
    only_part (part_of d) m m'"
proof -
  obtain a m' where g: "get_bucket m d limit period now = Inr (a, m')" "vst_inv m'" "vst_heap m' a = Some b"
      "tb_digest b = d"
      "\<forall>d'. length d' = DIGEST_LEN \<longrightarrow> vst_abs m' d' = (if d' = d then Some b else vst_abs m d')"
      "map gc_count (parts m') = map gc_count (parts m)"
    using get_bucket_correct [OF inv d, of limit period now] by (auto simp: b_def)
  have "vst_heap m (vst_next m) = None" using inv by (auto simp: vst_inv_def trees_inv_def)
  then have keep: "vst_heap m' q = Some c" if "vst_heap m q = Some c" for q c
    using g(1) that by (auto simp: get_bucket_def Let_def split: option.splits prod.splits)
  note gc = gc_count_nth [OF g(6) inv g(2)]
  have "part_view m' (part_of d) = ((fst (part_view m (part_of d)))(d \<mapsto> b), snd (part_view m (part_of d)))"
    using g(5) d gc [OF part_of_less] by (intro part_view_eqI) (auto simp: part_view_def)
  moreover have "part_view m' q = part_view m q" if "q \<noteq> part_of d" "q < N_PART" for q
    using g(5) that gc by (auto simp: part_view_def fun_eq_iff)
  ultimately show ?thesis using g keep by (auto simp: only_part_def bucket_at_def)
qed

lemma view_run_gc:
  assumes inv: "vst_inv m" and p: "p < N_PART"
  shows "\<exists>m'. run_gc now p m = Inr m' \<and> vst_inv m' \<and>
    part_view m' p = (\<lambda>d. gc_dropped now p d (fst (part_view m p) d), snd (part_view m p)) \<and> only_part p m m'"
proof -
  obtain m' where g: "run_gc now p m = Inr m'" "vst_inv m'" "map gc_count (parts m') = map gc_count (parts m)"
      "\<forall>d. length d = DIGEST_LEN \<longrightarrow> vst_abs m' d = gc_dropped now p d (vst_abs m d)"
    using run_gc_correct [OF inv p, of now] by blast
  note gc = gc_count_nth [OF g(3) inv g(2)]
  have "vst_heap m' a = Some b" if "vst_heap m a = Some b" "part_of (tb_digest b) \<noteq> p" for a b
  proof -
    note ab = that and len = vst_inv_digest(1) [OF inv that(1)]
    have "vst_abs m (tb_digest b) = Some b"
      using vst_abs_iff [OF inv len] ab(1) by blast
    then have "vst_abs m' (tb_digest b) = Some b"
      using g(4) len ab(2) by (simp add: gc_dropped_def)
    then obtain a' where a': "vst_heap m' a' = Some b"
      using vst_abs_iff [OF g(2) len] by blast
    then have "vst_heap m a' = Some b"
      using g(1) by (auto simp: run_gc_def Let_def free_all_def restrict_map_def split: option.splits if_splits)
    with digest_unique [OF inv ab(1)] a' show ?thesis by blast
  qed
  moreover have "part_view m' p = (\<lambda>d. gc_dropped now p d (fst (part_view m p) d), snd (part_view m p))"
    using g(4) gc [OF p] by (intro part_view_eqI) (auto simp: part_view_def gc_dropped_def)
  moreover have "part_view m' q = part_view m q" if "q \<noteq> p" "q < N_PART" for q
    using g(4) that gc by (auto simp: part_view_def fun_eq_iff gc_dropped_def split: option.splits)
  ultimately show ?thesis using g by (auto simp: only_part_def)
qed

text \<open>A statement does what the rest of the call, on the view of its partition, says it does.\<close>

definition step_refines :: "hash_api \<Rightarrow> vst_args \<Rightarrow> vst_pc \<Rightarrow> vst \<Rightarrow> (vst_pc \<times> vst) res \<Rightarrow> bool" where
  "step_refines api c pc m out =
     (let d = args_digest api c; rest = (\<lambda>pc m. rest_call api c pc (part_view m (part_of d))) in
      case out of
        Inl e \<Rightarrow> rest pc m = Inl e
      | Inr (pc', m') \<Rightarrow> vst_inv m' \<and> in_hand m' d pc' \<and> rest pc' m' = rest pc m \<and> only_part (part_of d) m m')"

lemma only_part_refl [simp]: "only_part p m m"
  by (simp add: only_part_def)

lemma length_args_digest: "hash_ok api \<Longrightarrow> length (args_digest api c) = DIGEST_LEN"
  by (simp add: args_digest_def length_do_digest)

lemma step_get:
  assumes inv: "vst_inv m" and api: "hash_ok api"
  shows "step_refines api c (Get now) m (body_step api c (Get now) m)"
proof -
  let ?d = "args_digest api c"
  note len = length_args_digest [OF api, of c]
  obtain a m' where g: "get_bucket m ?d (a_limit c) (a_period c) now = Inr (a, m')" "vst_inv m'" "bucket_at m' ?d a"
    "part_view m' (part_of ?d) = ((fst (part_view m (part_of ?d)))(?d \<mapsto> bucket_for m ?d (a_limit c) (a_period c) now),
       snd (part_view m (part_of ?d)))"
    "only_part (part_of ?d) m m'"
    using view_get_bucket [OF inv len] by blast
  have "fst (part_view m (part_of ?d)) ?d = vst_abs m ?d" using len by (simp add: part_view_def)
  then show ?thesis
    using g by (simp add: step_refines_def rest_get_def bucket_for_def Let_def)
qed

definition written :: "hash_api \<Rightarrow> vst_args \<Rightarrow> vst \<Rightarrow> addr \<Rightarrow> tbucket \<Rightarrow> bool" where
  "written api c m a b' =
     (let m' = m\<lparr>vst_heap := (vst_heap m)(a \<mapsto> b')\<rparr>; d = args_digest api c in
      vst_inv m' \<and> bucket_at m' d a \<and> only_part (part_of d) m m' \<and>
      part_view m' (part_of d) = ((fst (part_view m (part_of d)))(d \<mapsto> b'), snd (part_view m (part_of d))))"

lemma bucket_update_refines:
  assumes inv: "vst_inv m" and api: "hash_ok api" and hand: "bucket_at m (args_digest api c) a"
  shows "\<exists>b. vst_heap m a = Some b \<and> tb_digest b = args_digest api c \<and>
    fst (part_view m (part_of (args_digest api c))) (args_digest api c) = Some b \<and>
    (\<forall>b'. tb_digest b' = tb_digest b \<longrightarrow> written api c m a b')"
proof -
  obtain b where b: "vst_heap m a = Some b" "tb_digest b = args_digest api c"
      "fst (part_view m (part_of (args_digest api c))) (args_digest api c) = Some b"
    using bucket_at_abs [OF inv hand length_args_digest [OF api]] .
  then show ?thesis using view_update [OF inv b(1)] by (auto simp: written_def Let_def)
qed

lemma step_tokens:
  assumes inv: "vst_inv m" and api: "hash_ok api" and hand: "bucket_at m (args_digest api c) a"
  shows "step_refines api c (Tokens now a) m (body_step api c (Tokens now a) m)"
proof -
  obtain b where b: "vst_heap m a = Some b" "tb_digest b = args_digest api c"
      "fst (part_view m (part_of (args_digest api c))) (args_digest api c) = Some b"
      "\<forall>b'. tb_digest b' = tb_digest b \<longrightarrow> written api c m a b'"
    using bucket_update_refines [OF inv api hand] by blast
  show ?thesis
  proof (cases "calc_tokens b now")
    case (Inl e)
    with b(1,3) show ?thesis by (simp add: step_refines_def rest_tokens_def)
  next
    case (Inr b')
    then have "written api c m a b'" using b(4) calc_tokens_keeps(1) by blast
    with b(1,3) Inr show ?thesis
      by (auto simp: step_refines_def rest_tokens_def written_def Let_def)
  qed
qed

lemma step_decide:
  assumes inv: "vst_inv m" and api: "hash_ok api" and hand: "bucket_at m (args_digest api c) a"
  shows "step_refines api c (Decide now a) m (body_step api c (Decide now a) m)"
proof -
  obtain b where b: "vst_heap m a = Some b" "tb_digest b = args_digest api c"
      "fst (part_view m (part_of (args_digest api c))) (args_digest api c) = Some b"
      "\<forall>b'. tb_digest b' = tb_digest b \<longrightarrow> written api c m a b'"
    using bucket_update_refines [OF inv api hand] by blast
  obtain ret b' where dec: "deny_decision now (a_block c) b = (ret, b')" by fastforce
  then have "tb_digest b' = tb_digest b" using deny_decision_keeps(1) [of now "a_block c" b] by simp
  then have "written api c m a b'" using b(4) by blast
  with b(1,3) dec show ?thesis
    by (simp add: step_refines_def rest_decide_def written_def Let_def args_part_def)
qed

lemma step_count:
  assumes inv: "vst_inv m"
  shows "step_refines api c (Count now ret) m (body_step api c (Count now ret) m)"
proof -
  let ?p = "args_part api c"
  note v = view_count [OF inv part_of_less, of "args_digest api c", folded args_part_def]
  have "snd (part_view m ?p) = gc_count (parts m ! ?p)" by (simp add: part_view_def)
  with v [of "gc_count (parts m ! ?p) + 1"] show ?thesis
    by (simp add: step_refines_def rest_count_def Let_def args_part_def)
qed

lemma step_collect:
  assumes inv: "vst_inv m"
  shows "step_refines api c (Collect now ret) m (body_step api c (Collect now ret) m)"
proof -
  let ?p = "args_part api c"
  obtain m' where "run_gc now ?p m = Inr m'" "vst_inv m'"
      "part_view m' ?p = (\<lambda>d. gc_dropped now ?p d (fst (part_view m ?p) d), snd (part_view m ?p))" "only_part ?p m m'"
    using view_run_gc [OF inv part_of_less [of "args_digest api c"]] by (auto simp: args_part_def)
  then show ?thesis by (simp add: step_refines_def rest_collect_def args_part_def)
qed

lemma step_reset:
  assumes inv: "vst_inv m"
  shows "step_refines api c (Reset ret) m (body_step api c (Reset ret) m)"
  using view_count [OF inv part_of_less, of "args_digest api c", folded args_part_def]
  by (simp add: step_refines_def Let_def args_part_def)

lemma step_reads:
  assumes inv: "vst_inv m" and api: "hash_ok api" and hand: "bucket_at m (args_digest api c) a"
  shows "step_refines api c (Read_tokens a) m (body_step api c (Read_tokens a) m)"
    and "step_refines api c (Read_block now a) m (body_step api c (Read_block now a) m)"
  using bucket_at_abs [OF inv hand length_args_digest [OF api]] inv
  by (force simp: step_refines_def rest_read_def rest_block_def)+

lemma body_step_refines:
  assumes inv: "vst_inv m" and api: "hash_ok api" and body: "in_body pc" and hand: "in_hand m (args_digest api c) pc"
  shows "step_refines api c pc m (body_step api c pc m)"
  using body hand step_get [OF inv api] step_tokens [OF inv api] step_decide [OF inv api] step_count [OF inv]
    step_collect [OF inv] step_reset [OF inv] step_reads [OF inv api]
  by (cases pc) simp_all

section \<open>A call in one piece\<close>

text \<open>The statements of a call without interruption are the call of theory \<open>Vsthrottle\<close>.\<close>

fun pc_rank :: "vst_pc \<Rightarrow> nat" where
  "pc_rank (Get _) = 6"
| "pc_rank (Tokens _ _) = 5"
| "pc_rank (Decide _ _) = 4"
| "pc_rank (Count _ _) = 3"
| "pc_rank (Collect _ _) = 2"
| "pc_rank _ = 1"

primrec body_run :: "hash_api \<Rightarrow> vst_args \<Rightarrow> nat \<Rightarrow> vst_pc \<Rightarrow> vst \<Rightarrow> (vst_ret \<times> vst) res" where
  "body_run api c 0 pc m = (case pc of Unlock r \<Rightarrow> Inr (r, m) | _ \<Rightarrow> Inl AssertFail)"
| "body_run api c (Suc k) pc m =
     (if in_body pc then res_bind (body_step api c pc m) (\<lambda>(pc', m'). body_run api c k pc' m')
      else case pc of Unlock r \<Rightarrow> Inr (r, m) | _ \<Rightarrow> Inl AssertFail)"

lemma body_run_call:
  assumes "a_key c \<noteq> None"
  shows "seq_call api now c m = res_bind (body_run api c 6 (Get now) m) (\<lambda>(r, m'). Inr (final_ret r, m'))"
proof -
  obtain k where k: "a_key c = Some k" using assms by auto
  let ?d = "args_digest api c"
  have six: "(6 :: nat) = Suc (Suc (Suc (Suc (Suc (Suc 0)))))" by simp
  have d: "do_digest api k (a_limit c) (a_period c) (a_block c) = ?d" by (simp add: args_digest_def k)
  note defs = seq_call_def six k vmod_is_denied_def vmod_remaining_def vmod_blocked_def d args_part_def Let_def
  show ?thesis
  proof (cases "get_bucket m ?d (a_limit c) (a_period c) now")
    case (Inl e)
    then show ?thesis by (cases "a_fn c") (simp_all add: defs)
  next
    case (Inr out)
    obtain a m1 where out: "out = (a, m1)" by (cases out)
    show ?thesis
    proof (cases "vst_heap m1 a")
      case None
      with Inr out show ?thesis by (cases "a_fn c") (simp_all add: defs)
    next
      case (Some b)
      note got = Inr out Some
      show ?thesis
      proof (cases "calc_tokens b now")
        case (Inl e)
        with got show ?thesis by (cases "a_fn c") (simp_all add: defs)
      next
        case (Inr b1)
        obtain ret b2 where dec: "deny_decision now (a_block c) b1 = (ret, b2)" by fastforce
        show ?thesis
        proof (cases "a_fn c")
          case F_is_denied
          with got Inr dec show ?thesis
            by (simp add: defs) (cases "run_gc now (part_of ?d) (m1\<lparr>vst_heap := (vst_heap m1)(a \<mapsto> b2),
              parts := (parts m1)[part_of ?d := (parts m1 ! part_of ?d)\<lparr>gc_count := GC_INTVL\<rparr>]\<rparr>)"; simp add: args_part_def Let_def)
        qed (use got Inr in \<open>simp_all add: defs\<close>)
      qed
    qed
  qed
qed

lemma body_step_pc:
  assumes "in_body pc" and "body_step api c pc m = Inr (pc', m')"
  shows "in_body pc' \<and> pc_rank pc' < pc_rank pc \<or> (\<exists>r. pc' = Unlock r)"
  using assms by (cases pc) (auto simp: Let_def split_beta split: if_splits)

lemma only_part_trans: "only_part p m m1 \<Longrightarrow> only_part p m1 m2 \<Longrightarrow> only_part p m m2"
  unfolding only_part_def by metis

lemma body_run_refines:
  assumes "vst_inv m" and api: "hash_ok api" and "in_body pc \<or> (\<exists>r. pc = Unlock r)"
    and "in_hand m (args_digest api c) pc" and "in_body pc \<longrightarrow> pc_rank pc \<le> k"
  shows "case rest_call api c pc (part_view m (args_part api c)) of
      Inl e \<Rightarrow> body_run api c k pc m = Inl e
    | Inr (r, v) \<Rightarrow> \<exists>m'. body_run api c k pc m = Inr (r, m') \<and> vst_inv m' \<and>
        part_view m' (args_part api c) = v \<and> only_part (args_part api c) m m'"
  using assms(1,3,4,5)
proof (induction k arbitrary: pc m)
  case 0
  then obtain r where "pc = Unlock r" by (cases pc) auto
  with 0 show ?case by simp
next
  case (Suc k)
  show ?case
  proof (cases "in_body pc")
    case False
    with Suc(3) obtain r where "pc = Unlock r" by blast
    with Suc show ?thesis by simp
  next
    case True
    note step = body_step_refines [OF Suc(2) api True Suc(4)]
    show ?thesis
    proof (cases "body_step api c pc m")
      case (Inl e)
      with step True show ?thesis by (simp add: step_refines_def Let_def args_part_def)
    next
      case (Inr out)
      obtain pc' m' where out: "out = (pc', m')" by (cases out)
      with step Inr have s: "vst_inv m'" "in_hand m' (args_digest api c) pc'" "only_part (args_part api c) m m'"
        "rest_call api c pc' (part_view m' (args_part api c)) = rest_call api c pc (part_view m (args_part api c))"
        by (simp_all add: step_refines_def Let_def args_part_def)
      have "in_body pc' \<or> (\<exists>r. pc' = Unlock r)" "in_body pc' \<longrightarrow> pc_rank pc' \<le> k"
        using body_step_pc [OF True] Inr out Suc(5) True by fastforce+
      from Suc(1) [OF s(1) this(1) s(2) this(2)] show ?thesis
        using Inr out s(3,4) True only_part_trans by (fastforce split: sum.splits)
    qed
  qed
qed

lemma seq_call_refines:
  assumes "vst_inv m" and "hash_ok api" and "a_key c \<noteq> None"
  shows "case rest_get api c now (part_view m (args_part api c)) of
      Inl e \<Rightarrow> seq_call api now c m = Inl e
    | Inr (r, v) \<Rightarrow> \<exists>m'. seq_call api now c m = Inr (final_ret r, m') \<and> vst_inv m' \<and>
        part_view m' (args_part api c) = v \<and> only_part (args_part api c) m m'"
  using body_run_refines [OF assms(1,2), of "Get now" c 6] body_run_call [OF assms(3), of api now m]
  by (auto split: sum.splits)

section \<open>Time\<close>

definition used_by :: "double \<Rightarrow> pview \<Rightarrow> bool" where
  "used_by t v \<longleftrightarrow> (\<forall>d b. fst v d = Some b \<longrightarrow> last_used b \<le> t)"

fun pc_now :: "vst_pc \<Rightarrow> double option" where
  "pc_now (Get now) = Some now"
| "pc_now (Tokens now _) = Some now"
| "pc_now (Decide now _) = Some now"
| "pc_now (Count now _) = Some now"
| "pc_now (Collect now _) = Some now"
| "pc_now (Read_block now _) = Some now"
| "pc_now _ = None"

lemma deny_decision_last_used:
  "last_used (snd (deny_decision now block b)) = now \<or> last_used (snd (deny_decision now block b)) = last_used b"
  by (auto simp: deny_decision_def Let_def)

lemma body_step_times:
  assumes inv: "vst_inv m" and api: "hash_ok api" and hand: "in_hand m (args_digest api c) pc"
    and t: "used_by t (part_view m (args_part api c))" "\<And>now. pc_now pc = Some now \<Longrightarrow> now \<le> t"
    and step: "body_step api c pc m = Inr (pc', m')"
  shows "used_by t (part_view m' (args_part api c))"
proof -
  let ?d = "args_digest api c" and ?p = "part_of (args_digest api c)"
  note p = part_of_less [of ?d] and part = args_part_def [of api c]
  show ?thesis
  proof (cases pc)
    case (Get now)
    with view_get_bucket [OF inv length_args_digest [OF api], of c "a_limit c" "a_period c" now] step
    have "part_view m' ?p = ((fst (part_view m ?p))(?d \<mapsto> bucket_for m ?d (a_limit c) (a_period c) now), snd (part_view m ?p))"
      by auto
    moreover have "fst (part_view m ?p) ?d = vst_abs m ?d"
      using length_args_digest [OF api, of c] by (simp add: part_view_def)
    then have "last_used (bucket_for m ?d (a_limit c) (a_period c) now) \<le> t"
      using t Get by (auto simp: bucket_for_def tb_alloc_def used_by_def part split: option.splits)
    ultimately show ?thesis using t(1) by (auto simp: used_by_def part)
  next
    case (Tokens now a)
    obtain b where b: "vst_heap m a = Some b" "fst (part_view m ?p) ?d = Some b"
        "\<forall>b'. tb_digest b' = tb_digest b \<longrightarrow> written api c m a b'"
      using bucket_update_refines [OF inv api, of c a] hand Tokens by auto
    obtain b' where b': "calc_tokens b now = Inr b'" "m' = m\<lparr>vst_heap := (vst_heap m)(a \<mapsto> b')\<rparr>"
      using step Tokens b(1) by auto
    have "written api c m a b'" using b(3) calc_tokens_keeps(1) [OF b'(1)] by blast
    with b' b(2) t(1) calc_tokens_keeps(2) [OF b'(1)] show ?thesis
      by (auto simp: written_def Let_def used_by_def part)
  next
    case (Decide now a)
    obtain b where b: "vst_heap m a = Some b" "fst (part_view m ?p) ?d = Some b"
        "\<forall>b'. tb_digest b' = tb_digest b \<longrightarrow> written api c m a b'"
      using bucket_update_refines [OF inv api, of c a] hand Decide by auto
    define b' where "b' = snd (deny_decision now (a_block c) b)"
    have "m' = m\<lparr>vst_heap := (vst_heap m)(a \<mapsto> b')\<rparr>"
      using step Decide b(1) by (auto simp: b'_def split_beta)
    moreover have "written api c m a b'" using b(3) deny_decision_keeps(1) by (auto simp: b'_def)
    moreover have "last_used b' \<le> t"
      using deny_decision_last_used [of now "a_block c" b] t b(2) Decide by (auto simp: b'_def used_by_def part)
    ultimately show ?thesis using t(1) by (auto simp: written_def Let_def used_by_def part)
  next
    case (Count now ret)
    with step view_count(2) [OF inv p] t(1) show ?thesis by (auto simp: Let_def used_by_def part)
  next
    case (Collect now ret)
    with step view_run_gc [OF inv p, of now] t(1) show ?thesis
      by (auto simp: used_by_def part gc_dropped_def split: option.splits if_splits)
  next
    case (Reset ret)
    with step view_count(2) [OF inv p] t(1) show ?thesis by (auto simp: Let_def used_by_def part)
  qed (use step t(1) in auto)
qed

text \<open>The only way to fail is arithmetic without a defined result.\<close>

lemma calc_tokens_fails:
  assumes "calc_tokens b now = Inl e" and "last_used b \<le> now"
  shows "e = UndefBehav"
  using assms dsub_nonneg [OF assms(2)]
  by (auto simp: calc_tokens_def Let_def res_bind_eq_Inl guard_def long_of_double_def long_add_def split: if_splits)

section \<open>Invariants of the interleaving\<close>

fun holds :: "vst_pc \<Rightarrow> bool" where
  "holds Start = False"
| "holds Wait = False"
| "holds (Finish _) = False"
| "holds _ = True"

text \<open>The mutex of a partition is owned by the thread that is between its lock and its unlock.\<close>

definition lock_ok :: "hash_api \<Rightarrow> (nat \<Rightarrow> vst_args) \<Rightarrow> nat \<Rightarrow> vst_sys \<Rightarrow> bool" where
  "lock_ok api arg n s \<longleftrightarrow>
     (\<forall>i < n. holds (vs_pc s i) \<longrightarrow> vs_mtx s (args_part api (arg i)) = Some i) \<and>
     (\<forall>p i. vs_mtx s p = Some i \<longrightarrow> i < n \<and> holds (vs_pc s i) \<and> args_part api (arg i) = p) \<and>
     (\<forall>i < n. holds (vs_pc s i) \<or> vs_pc s i = Wait \<longrightarrow> a_key (arg i) \<noteq> None)"

definition mem_ok :: "hash_api \<Rightarrow> (nat \<Rightarrow> vst_args) \<Rightarrow> nat \<Rightarrow> vst_sys \<Rightarrow> bool" where
  "mem_ok api arg n s \<longleftrightarrow> vst_inv (vs_mem s) \<and>
     (\<forall>i < n. in_hand (vs_mem s) (args_digest api (arg i)) (vs_pc s i)) \<and>
     (\<forall>p < N_PART. used_by (vs_clock s) (part_view (vs_mem s) p)) \<and>
     (\<forall>i < n. \<forall>now. pc_now (vs_pc s i) = Some now \<longrightarrow>
        now \<le> vs_clock s \<and> used_by now (part_view (vs_mem s) (args_part api (arg i))))"

lemma holds_simps [simp]: "in_body pc \<Longrightarrow> holds pc"
  by (cases pc) auto

lemma lock_owner:
  assumes "lock_ok api arg n s" and "vs_mtx s p = Some i"
  shows "i < n" "holds (vs_pc s i)" "args_part api (arg i) = p"
  using assms unfolding lock_ok_def by blast+

lemma lock_held:
  "lock_ok api arg n s \<Longrightarrow> i < n \<Longrightarrow> holds (vs_pc s i) \<Longrightarrow> vs_mtx s (args_part api (arg i)) = Some i"
  by (simp add: lock_ok_def)

text \<open>Moving a thread on without touching a mutex.\<close>

lemma lock_ok_move:
  assumes "lock_ok api arg n s" and "i < n" "holds pc = holds (vs_pc s i)" "pc = Wait \<Longrightarrow> a_key (arg i) \<noteq> None"
  shows "lock_ok api arg n (s\<lparr>vs_pc := (vs_pc s)(i := pc)\<rparr>)"
    and "lock_ok api arg n (s\<lparr>vs_mem := m, vs_pc := (vs_pc s)(i := pc)\<rparr>)"
  using assms unfolding lock_ok_def by simp_all

lemma lock_ok_step:
  assumes "vst_tstep api arg n s t" and "lock_ok api arg n s"
  shows "lock_ok api arg n t"
  using assms
proof (induction rule: vst_tstep.induct)
  case (tick s t)
  then show ?case by (simp add: lock_ok_def)
next
  case (no_key i s)
  then show ?case by (intro lock_ok_move) auto
next
  case (digest i s)
  then show ?case by (intro lock_ok_move) auto
next
  case (lock i s)
  let ?p = "args_part api (arg i)"
  have "vs_mtx s p = Some j \<Longrightarrow> j \<noteq> i" for p j
    using lock(2) lock_owner(2) [OF lock(4), of p j] by auto
  moreover have "\<forall>j. j \<noteq> i \<longrightarrow> args_part api (arg j) = ?p \<longrightarrow> j < n \<longrightarrow> \<not> holds (vs_pc s j)"
    by (metis lock(3) lock_held [OF lock(4)] option.distinct(1))
  ultimately show ?case using lock unfolding lock_ok_def by simp
next
  case (clock i s)
  then show ?case by (intro lock_ok_move) auto
next
  case (body i s pc m)
  then have "holds pc" "pc \<noteq> Wait" using body_step_pc [OF body(2,3)] by auto
  with body show ?case by (intro lock_ok_move) auto
next
  case (unlock i s ret)
  let ?p = "args_part api (arg i)"
  have own: "vs_mtx s ?p = Some i" using lock_held [OF unlock(3,1)] unlock(2) by simp
  have "vs_mtx s p = Some j \<Longrightarrow> p \<noteq> ?p \<Longrightarrow> j \<noteq> i" for p j
    using lock_owner(3) [OF unlock(3), of p j] by auto
  moreover have "\<forall>j. j \<noteq> i \<longrightarrow> args_part api (arg j) = ?p \<longrightarrow> j < n \<longrightarrow> \<not> holds (vs_pc s j)"
    by (metis own lock_held [OF unlock(3)] option.inject)
  ultimately show ?case using unlock unfolding lock_ok_def by (simp del: final_ret.simps)
qed

lemma other_part:
  assumes "lock_ok api arg n s" and "i < n" "j < n" "i \<noteq> j" "holds (vs_pc s i)" "holds (vs_pc s j)"
  shows "args_part api (arg i) \<noteq> args_part api (arg j)"
  using assms unfolding lock_ok_def by (metis option.inject)

lemma used_by_mono: "used_by t v \<Longrightarrow> t \<le> t' \<Longrightarrow> used_by t' v"
  unfolding used_by_def by (meson order.trans)

lemma args_part_less: "args_part api c < N_PART"
  by (simp add: args_part_def part_of_less)

lemma bucket_at_other:
  "only_part p m m' \<Longrightarrow> part_of d \<noteq> p \<Longrightarrow> bucket_at m d a \<Longrightarrow> bucket_at m' d a"
  by (auto simp: only_part_def bucket_at_def)

lemma in_hand_other:
  "only_part p m m' \<Longrightarrow> part_of d \<noteq> p \<Longrightarrow> in_hand m d pc \<Longrightarrow> in_hand m' d pc"
  by (cases pc) (auto intro: bucket_at_other)

lemma view_other: "only_part p m m' \<Longrightarrow> q \<noteq> p \<Longrightarrow> q < N_PART \<Longrightarrow> part_view m' q = part_view m q"
  by (simp add: only_part_def)

lemma not_held [simp]: "\<not> holds pc \<Longrightarrow> in_hand m d pc" "\<not> holds pc \<Longrightarrow> pc_now pc = None"
  by (cases pc; simp)+

lemma mem_ok_move:
  assumes "mem_ok api arg n s" and "in_hand (vs_mem s) (args_digest api (arg i)) pc"
    and "\<And>now. pc_now pc = Some now \<Longrightarrow>
      now \<le> vs_clock s \<and> used_by now (part_view (vs_mem s) (args_part api (arg i)))"
  shows "mem_ok api arg n (s\<lparr>vs_pc := (vs_pc s)(i := pc)\<rparr>)"
    and "mem_ok api arg n (s\<lparr>vs_mtx := mtx, vs_pc := (vs_pc s)(i := pc)\<rparr>)"
  using assms unfolding mem_ok_def by simp_all

text \<open>What a statement under the lock leaves of memory and time.\<close>

lemma body_out:
  assumes api: "hash_ok api" and l: "lock_ok api arg n s" and m: "mem_ok api arg n s" and i: "i < n"
    and b: "in_body (vs_pc s i)" "body_step api (arg i) (vs_pc s i) (vs_mem s) = Inr (pc, m')"
  shows "vst_inv m'" "in_hand m' (args_digest api (arg i)) pc" "only_part (args_part api (arg i)) (vs_mem s) m'"
    "rest_call api (arg i) pc (part_view m' (args_part api (arg i))) =
      rest_call api (arg i) (vs_pc s i) (part_view (vs_mem s) (args_part api (arg i)))"
    "used_by t (part_view (vs_mem s) (args_part api (arg i))) \<Longrightarrow>
      (\<And>now. pc_now (vs_pc s i) = Some now \<Longrightarrow> now \<le> t) \<Longrightarrow> used_by t (part_view m' (args_part api (arg i)))"
proof -
  have inv: "vst_inv (vs_mem s)" and hand: "in_hand (vs_mem s) (args_digest api (arg i)) (vs_pc s i)"
    using m i by (simp_all add: mem_ok_def)
  show "vst_inv m'" "in_hand m' (args_digest api (arg i)) pc" "only_part (args_part api (arg i)) (vs_mem s) m'"
    "rest_call api (arg i) pc (part_view m' (args_part api (arg i))) =
      rest_call api (arg i) (vs_pc s i) (part_view (vs_mem s) (args_part api (arg i)))"
    using body_step_refines [OF inv api b(1) hand] b(2) by (simp_all add: step_refines_def Let_def args_part_def)
  show "used_by t (part_view m' (args_part api (arg i)))"
    if "used_by t (part_view (vs_mem s) (args_part api (arg i)))" "\<And>now. pc_now (vs_pc s i) = Some now \<Longrightarrow> now \<le> t"
    using body_step_times [OF inv api hand that b(2)] .
qed

lemma body_step_now:
  "in_body pc \<Longrightarrow> body_step api c pc m = Inr (pc', m') \<Longrightarrow> pc_now pc' = Some now \<Longrightarrow> pc_now pc = Some now"
  by (cases pc) (auto simp: Let_def split_beta split: if_splits)

lemma mem_ok_body:
  assumes api: "hash_ok api" and l: "lock_ok api arg n s" and m: "mem_ok api arg n s" and i: "i < n"
    and b: "in_body (vs_pc s i)" "body_step api (arg i) (vs_pc s i) (vs_mem s) = Inr (pc, m')"
  shows "mem_ok api arg n (s\<lparr>vs_mem := m', vs_pc := (vs_pc s)(i := pc)\<rparr>)"
proof -
  let ?p = "args_part api (arg i)"
  note out = body_out [OF assms]
  have now: "now \<le> vs_clock s \<and> used_by now (part_view (vs_mem s) ?p)" if "pc_now (vs_pc s i) = Some now" for now
    using m i that by (simp add: mem_ok_def)
  have other: "args_part api (arg j) \<noteq> ?p" if "j < n" "j \<noteq> i" "holds (vs_pc s j)" for j
    using other_part [OF l i that(1) that(2) [symmetric] holds_simps [OF b(1)] that(3)] by auto
  have "in_hand m' (args_digest api (arg j)) (((vs_pc s)(i := pc)) j)" if "j < n" for j
  proof (cases "j \<noteq> i \<and> holds (vs_pc s j)")
    case True
    with other [OF that] m that show ?thesis
      by (auto simp: mem_ok_def args_part_def intro: in_hand_other [OF out(3) [unfolded args_part_def]])
  qed (use out(2) in auto)
  moreover have "used_by (vs_clock s) (part_view m' q)" if q: "q < N_PART" for q
  proof (cases "q = ?p")
    case True
    have "used_by (vs_clock s) (part_view (vs_mem s) ?p)" using m args_part_less by (auto simp: mem_ok_def)
    with True out(5) now show ?thesis by blast
  next
    case False
    with m q view_other [OF out(3) False q] show ?thesis by (simp add: mem_ok_def)
  qed
  moreover have "t \<le> vs_clock s \<and> used_by t (part_view m' (args_part api (arg j)))"
    if j: "j < n" "pc_now (((vs_pc s)(i := pc)) j) = Some t" for j t
  proof (cases "j = i")
    case True
    then have "pc_now (vs_pc s i) = Some t" using body_step_now [OF b] j(2) by simp
    with now [OF this] out(5) [of t] True show ?thesis by auto
  next
    case False
    then have "holds (vs_pc s j)" using j not_held(2) by fastforce
    with view_other [OF out(3) other args_part_less] False j m show ?thesis by (auto simp: mem_ok_def)
  qed
  ultimately show ?thesis using out(1) unfolding mem_ok_def by simp
qed

lemma mem_ok_step:
  assumes "vst_tstep api arg n s t" and "hash_ok api" and "lock_ok api arg n s" and "mem_ok api arg n s"
  shows "mem_ok api arg n t"
  using assms
proof (induction rule: vst_tstep.induct)
  case (tick s t)
  then show ?case using used_by_mono unfolding mem_ok_def by (simp; meson order.trans)
next
  case (no_key i s)
  then show ?case by (intro mem_ok_move) auto
next
  case (digest i s)
  then show ?case by (intro mem_ok_move) auto
next
  case (lock i s)
  then show ?case by (intro mem_ok_move) auto
next
  case (clock i s)
  then have "used_by (vs_clock s) (part_view (vs_mem s) (args_part api (arg i)))"
    using args_part_less by (auto simp: mem_ok_def)
  with clock show ?case by (intro mem_ok_move) auto
next
  case (body i s pc m)
  then show ?case by (intro mem_ok_body)
next
  case (unlock i s ret)
  then show ?case by (intro mem_ok_move) auto
qed

end
