(* ===== verification/Vsthrottle_Threads.thy ===== *)
theory Vsthrottle_Threads
  imports Vsthrottle_Lock
begin

text \<open>
  What the threads of theory \<open>Vsthrottle_Lock\<close> do together: the invariant that relates every
  reachable state to a sequence of whole calls, progress, the rate limit, and the three
  properties that follow, on a run of two threads as their witness.
\<close>

section \<open>Every interleaving is a sequence of calls\<close>

lemma seq_run_append:
  "seq_run api arg (h @ [(i, now)]) m =
     res_bind (seq_run api arg h m) (\<lambda>(rs, m1).
     res_bind (seq_call api now (arg i) m1) (\<lambda>(r, m2). Inr (rs @ [(i, r)], m2)))"
proof (induction h arbitrary: m)
  case Nil
  show ?case by (cases "seq_call api now (arg i) m") auto
next
  case (Cons a h)
  obtain j t where a: "a = (j, t)" by (cases a)
  show ?case
  proof (cases "seq_call api t (arg j) m")
    case (Inr out)
    obtain r m1 where out: "out = (r, m1)" by (cases out)
    show ?thesis
    proof (cases "seq_run api arg h m1")
      case (Inr out2)
      obtain rs m2 where "out2 = (rs, m2)" by (cases out2)
      with a out Inr \<open>seq_call api t (arg j) m = Inr out\<close> Cons [of m1] show ?thesis
        by (cases "seq_call api now (arg i) m2") auto
    qed (use a out Inr Cons [of m1] in simp)
  qed (use a in simp)
qed

lemma seq_run_threads: "seq_run api arg h m = Inr (rs, m') \<Longrightarrow> map fst rs = map fst h"
  by (induction api arg h m arbitrary: rs rule: seq_run.induct) auto

fun clocked :: "vst_pc \<Rightarrow> bool" where
  "clocked Start = False"
| "clocked Wait = False"
| "clocked Clock = False"
| "clocked pc = True"

text \<open>
  The calls that have read the clock, in the order of reading it, are made one after the other
  on a memory \<open>M\<close> of their own. Partitions that are not locked look the same in both; the
  thread that holds a partition will, when it is through, have made it look like \<open>M\<close> does
  already. Here \<open>v\<close> and \<open>w\<close> are the views of the thread's partition in the two memories, and \<open>R\<close>
  are the results of the calls.
\<close>

definition thread_ok ::
  "hash_api \<Rightarrow> vst_args \<Rightarrow> nat \<Rightarrow> vst_pc \<Rightarrow> pview \<Rightarrow> pview \<Rightarrow> (nat \<times> vst_ret) set \<Rightarrow> bool" where
  "thread_ok api c i pc v w R \<longleftrightarrow>
     (pc = Clock \<longrightarrow> v = w) \<and>
     (holds pc \<longrightarrow> pc \<noteq> Clock \<longrightarrow>
        (\<forall>r v'. rest_call api c pc v = Inr (r, v') \<longrightarrow> v' = w \<and> (i, final_ret r) \<in> R)) \<and>
     (\<forall>r. pc = Finish r \<longrightarrow> a_key c \<noteq> None \<longrightarrow> (i, r) \<in> R)"

definition atomic_ok ::
  "hash_api \<Rightarrow> (nat \<Rightarrow> vst_args) \<Rightarrow> nat \<Rightarrow> double \<Rightarrow> vst \<Rightarrow> vst_sys \<Rightarrow> (nat \<times> double) list \<Rightarrow>
   (nat \<times> vst_ret) list \<Rightarrow> vst \<Rightarrow> bool" where
  "atomic_ok api arg n t0 m0 s h rs M \<longleftrightarrow>
     seq_run api arg h m0 = Inr (rs, M) \<and> vst_inv M \<and> sorted (t0 # map snd h @ [vs_clock s]) \<and>
     distinct (map fst h) \<and> (\<forall>i \<in> set (map fst h). i < n \<and> clocked (vs_pc s i)) \<and>
     (\<forall>p < N_PART. vs_mtx s p = None \<longrightarrow> part_view (vs_mem s) p = part_view M p) \<and>
     (\<forall>i < n. thread_ok api (arg i) i (vs_pc s i) (part_view (vs_mem s) (args_part api (arg i)))
        (part_view M (args_part api (arg i))) (set rs))"

lemma thread_ok_more: "thread_ok api c i pc v w R \<Longrightarrow> R \<subseteq> R' \<Longrightarrow> thread_ok api c i pc v w R'"
  unfolding thread_ok_def by blast

lemma thread_ok_free: "thread_ok api c i pc v w R \<Longrightarrow> \<not> holds pc \<Longrightarrow> thread_ok api c i pc v' w' R"
  unfolding thread_ok_def by auto

lemma thread_ok_Unlock: "thread_ok api c i (Unlock r) v w R \<longleftrightarrow> v = w \<and> (i, final_ret r) \<in> R"
  by (cases v) (auto simp: thread_ok_def)

text \<open>One thread moves on; the others hold other partitions, or none.\<close>

lemma atomic_ok_thread:
  assumes at: "atomic_ok api arg n t0 m0 s h rs M"
    and hist: "seq_run api arg h' m0 = Inr (rs', M')" "vst_inv M'" "sorted (t0 # map snd h' @ [vs_clock s])"
      "distinct (map fst h')" "set (map fst h') \<subseteq> insert i (set (map fst h))" "set rs \<subseteq> set rs'"
    and pc: "i < n" "clocked (vs_pc s i) \<longrightarrow> clocked pc" "i \<in> set (map fst h') \<longrightarrow> clocked pc"
    and free: "\<And>p. p < N_PART \<Longrightarrow> mtx p = None \<Longrightarrow> part_view m p = part_view M' p"
    and own: "thread_ok api (arg i) i pc (part_view m (args_part api (arg i))) (part_view M' (args_part api (arg i))) (set rs')"
    and other: "\<And>j. j < n \<Longrightarrow> j \<noteq> i \<Longrightarrow> holds (vs_pc s j) \<Longrightarrow>
      part_view m (args_part api (arg j)) = part_view (vs_mem s) (args_part api (arg j)) \<and>
      part_view M' (args_part api (arg j)) = part_view M (args_part api (arg j))"
  shows "atomic_ok api arg n t0 m0 (s\<lparr>vs_mem := m, vs_mtx := mtx, vs_pc := (vs_pc s)(i := pc)\<rparr>) h' rs' M'"
proof -
  have "thread_ok api (arg j) j (((vs_pc s)(i := pc)) j) (part_view m (args_part api (arg j)))
      (part_view M' (args_part api (arg j))) (set rs')" if j: "j < n" for j
  proof (cases "j = i")
    case True
    with own show ?thesis by simp
  next
    case False
    have "thread_ok api (arg j) j (vs_pc s j) (part_view (vs_mem s) (args_part api (arg j)))
        (part_view M (args_part api (arg j))) (set rs')"
      using at j thread_ok_more [OF _ hist(6)] by (auto simp: atomic_ok_def)
    then have "thread_ok api (arg j) j (vs_pc s j) (part_view m (args_part api (arg j)))
        (part_view M' (args_part api (arg j))) (set rs')"
      using other [OF j False] thread_ok_free by (cases "holds (vs_pc s j)") auto
    with False show ?thesis by simp
  qed
  moreover have "k < n \<and> clocked (((vs_pc s)(i := pc)) k)" if k: "k \<in> set (map fst h')" for k
  proof (cases "k = i")
    case True
    with k pc show ?thesis by simp
  next
    case False
    with k hist(5) have "k \<in> set (map fst h)" by blast
    moreover have "\<forall>k \<in> set (map fst h). k < n \<and> clocked (vs_pc s k)" using at unfolding atomic_ok_def by blast
    ultimately show ?thesis using False by fastforce
  qed
  ultimately show ?thesis using hist(1-4) free by (simp add: atomic_ok_def)
qed

lemma atomic_tick:
  assumes "atomic_ok api arg n t0 m0 s h rs M" and "vs_clock s \<le> t"
  shows "atomic_ok api arg n t0 m0 (s\<lparr>vs_clock := t\<rparr>) h rs M"
proof -
  have "sorted (t0 # map snd h @ [t])"
    using assms by (fastforce simp: atomic_ok_def sorted_append)
  with assms(1) show ?thesis by (simp add: atomic_ok_def)
qed

text \<open>A step that does not belong to a call that has read the clock.\<close>

lemma atomic_same:
  assumes at: "atomic_ok api arg n t0 m0 s h rs M" and pc: "i < n" "clocked (vs_pc s i) \<longrightarrow> clocked pc"
    and free: "\<And>p. p < N_PART \<Longrightarrow> mtx p = None \<Longrightarrow> part_view m p = part_view M p"
    and own: "thread_ok api (arg i) i pc (part_view m (args_part api (arg i))) (part_view M (args_part api (arg i))) (set rs)"
    and other: "\<And>j. j < n \<Longrightarrow> j \<noteq> i \<Longrightarrow> holds (vs_pc s j) \<Longrightarrow>
      part_view m (args_part api (arg j)) = part_view (vs_mem s) (args_part api (arg j))"
  shows "atomic_ok api arg n t0 m0 (s\<lparr>vs_mem := m, vs_mtx := mtx, vs_pc := (vs_pc s)(i := pc)\<rparr>) h rs M"
proof (rule atomic_ok_thread [OF at])
  show "i \<in> set (map fst h) \<longrightarrow> clocked pc" using at pc(2) by (auto simp: atomic_ok_def)
qed (use assms in \<open>auto simp: atomic_ok_def\<close>)

lemma atomic_free_view:
  "atomic_ok api arg n t0 m0 s h rs M \<Longrightarrow> p < N_PART \<Longrightarrow> vs_mtx s p = None \<Longrightarrow>
   part_view (vs_mem s) p = part_view M p"
  by (simp add: atomic_ok_def)

lemma atomic_thread:
  "atomic_ok api arg n t0 m0 s h rs M \<Longrightarrow> i < n \<Longrightarrow> vs_pc s i = pc \<Longrightarrow>
   thread_ok api (arg i) i pc (part_view (vs_mem s) (args_part api (arg i)))
     (part_view M (args_part api (arg i))) (set rs)"
  by (auto simp: atomic_ok_def)

lemma vst_sys_eta [simp]:
  "s\<lparr>vs_mem := vs_mem s, vs_mtx := vs_mtx s, vs_pc := f\<rparr> = s\<lparr>vs_pc := f\<rparr>"
  "s\<lparr>vs_mem := m, vs_mtx := vs_mtx s, vs_pc := f\<rparr> = s\<lparr>vs_mem := m, vs_pc := f\<rparr>"
  "s\<lparr>vs_mem := vs_mem s, vs_mtx := g, vs_pc := f\<rparr> = s\<lparr>vs_mtx := g, vs_pc := f\<rparr>"
  by simp_all

lemma atomic_clock:
  assumes at: "atomic_ok api arg n t0 m0 s h rs M" and api: "hash_ok api" and l: "lock_ok api arg n s"
    and i: "i < n" "vs_pc s i = Clock"
  shows "\<exists>h rs M. atomic_ok api arg n t0 m0 (s\<lparr>vs_pc := (vs_pc s)(i := Get (vs_clock s))\<rparr>) h rs M"
proof (cases "rest_get api (arg i) (vs_clock s) (part_view (vs_mem s) (args_part api (arg i)))")
  case (Inl e)
  then have "thread_ok api (arg i) i (Get (vs_clock s)) (part_view (vs_mem s) (args_part api (arg i)))
      (part_view M (args_part api (arg i))) (set rs)" by (simp add: thread_ok_def)
  then have "atomic_ok api arg n t0 m0
      (s\<lparr>vs_mem := vs_mem s, vs_mtx := vs_mtx s, vs_pc := (vs_pc s)(i := Get (vs_clock s))\<rparr>) h rs M"
    using atomic_free_view [OF at] i by (intro atomic_same [OF at]) simp_all
  then show ?thesis unfolding vst_sys_eta by blast
next
  case (Inr out)
  let ?p = "args_part api (arg i)"
  obtain r v where out: "out = (r, v)" by (cases out)
  have key: "a_key (arg i) \<noteq> None" using l i by (simp add: lock_ok_def)
  have M: "seq_run api arg h m0 = Inr (rs, M)" "vst_inv M" using at by (simp_all add: atomic_ok_def)
  have same: "part_view (vs_mem s) ?p = part_view M ?p"
    using atomic_thread [OF at i] by (simp add: thread_ok_def)
  from seq_call_refines [OF M(2) api key, of "vs_clock s"] Inr out same
  obtain M' where M': "seq_call api (vs_clock s) (arg i) M = Inr (final_ret r, M')" "vst_inv M'"
      "part_view M' ?p = v" "only_part ?p M M'"
    by auto
  have mtx: "vs_mtx s ?p = Some i" using lock_held [OF l i(1)] i(2) by simp
  then have free_part: "p \<noteq> ?p" if "vs_mtx s p = None" for p using that by auto
  have elsewhere: "args_part api (arg j) \<noteq> ?p" if "j < n" "j \<noteq> i" "holds (vs_pc s j)" for j
    using other_part [OF l that(1) i(1) that(2,3)] i(2) by simp
  have "atomic_ok api arg n t0 m0
      (s\<lparr>vs_mem := vs_mem s, vs_mtx := vs_mtx s, vs_pc := (vs_pc s)(i := Get (vs_clock s))\<rparr>)
      (h @ [(i, vs_clock s)]) (rs @ [(i, final_ret r)]) M'"
  proof (rule atomic_ok_thread [OF at])
    show "seq_run api arg (h @ [(i, vs_clock s)]) m0 = Inr (rs @ [(i, final_ret r)], M')"
      using M(1) M'(1) by (simp add: seq_run_append)
    show "sorted (t0 # map snd (h @ [(i, vs_clock s)]) @ [vs_clock s])"
      using at by (auto simp: atomic_ok_def sorted_append)
    show "distinct (map fst (h @ [(i, vs_clock s)]))" using at i(2) by (auto simp: atomic_ok_def)
    show "part_view (vs_mem s) p = part_view M' p" if "p < N_PART" "vs_mtx s p = None" for p
      using view_other [OF M'(4) free_part [OF that(2)] that(1)] atomic_free_view [OF at that] by simp
    show "part_view (vs_mem s) (args_part api (arg j)) = part_view (vs_mem s) (args_part api (arg j)) \<and>
        part_view M' (args_part api (arg j)) = part_view M (args_part api (arg j))"
      if j: "j < n" "j \<noteq> i" "holds (vs_pc s j)" for j
      using view_other [OF M'(4) elsewhere [OF j] args_part_less] by simp
    show "thread_ok api (arg i) i (Get (vs_clock s)) (part_view (vs_mem s) ?p) (part_view M' ?p)
        (set (rs @ [(i, final_ret r)]))"
      using Inr out M'(3) by (simp add: thread_ok_def)
  qed (use M'(2) i in auto)
  then show ?thesis unfolding vst_sys_eta by blast
qed

lemma atomic_body:
  assumes at: "atomic_ok api arg n t0 m0 s h rs M" and api: "hash_ok api" and l: "lock_ok api arg n s"
    and m: "mem_ok api arg n s" and i: "i < n"
    and b: "in_body (vs_pc s i)" "body_step api (arg i) (vs_pc s i) (vs_mem s) = Inr (pc, m')"
  shows "atomic_ok api arg n t0 m0 (s\<lparr>vs_mem := m', vs_pc := (vs_pc s)(i := pc)\<rparr>) h rs M"
proof -
  let ?p = "args_part api (arg i)"
  note out = body_out [OF api l m i b]
  have mtx: "vs_mtx s ?p = Some i" using lock_held [OF l i] b(1) by simp
  then have free_part: "p \<noteq> ?p" if "vs_mtx s p = None" for p using that by auto
  have elsewhere: "args_part api (arg j) \<noteq> ?p" if "j < n" "j \<noteq> i" "holds (vs_pc s j)" for j
    using other_part [OF l that(1) i that(2,3)] b(1) by simp
  have pc: "holds pc" "pc \<noteq> Clock" "clocked pc" "\<And>r. pc \<noteq> Finish r"
    using body_step_pc [OF b] by (cases pc; simp)+
  have pi: "holds (vs_pc s i)" "vs_pc s i \<noteq> Clock" using b(1) by auto
  have "atomic_ok api arg n t0 m0 (s\<lparr>vs_mem := m', vs_mtx := vs_mtx s, vs_pc := (vs_pc s)(i := pc)\<rparr>) h rs M"
  proof (rule atomic_same [OF at i])
    show "part_view m' p = part_view M p" if "p < N_PART" "vs_mtx s p = None" for p
      using view_other [OF out(3) free_part [OF that(2)] that(1)] atomic_free_view [OF at that] by simp
    show "thread_ok api (arg i) i pc (part_view m' ?p) (part_view M ?p) (set rs)"
      using atomic_thread [OF at i refl] pc pi out(4) by (simp add: thread_ok_def)
    show "part_view m' (args_part api (arg j)) = part_view (vs_mem s) (args_part api (arg j))"
      if j: "j < n" "j \<noteq> i" "holds (vs_pc s j)" for j
      using view_other [OF out(3) elsewhere [OF j] args_part_less] .
  qed (use pc in simp)
  then show ?thesis by simp
qed

lemma atomic_step:
  assumes "vst_tstep api arg n s t" and api: "hash_ok api" and "lock_ok api arg n s" and "mem_ok api arg n s"
    and "atomic_ok api arg n t0 m0 s h rs M"
  shows "\<exists>h rs M. atomic_ok api arg n t0 m0 t h rs M"
  using assms(1,3-5)
proof (induction rule: vst_tstep.induct)
  case (tick s t)
  then show ?case using atomic_tick by blast
next
  case (no_key i s)
  have "atomic_ok api arg n t0 m0 (s\<lparr>vs_mem := vs_mem s, vs_mtx := vs_mtx s,
      vs_pc := (vs_pc s)(i := Finish (null_ret (a_fn (arg i))))\<rparr>) h rs M"
    using no_key atomic_free_view [OF no_key(6)] by (intro atomic_same [OF no_key(6)]) (simp_all add: thread_ok_def)
  then show ?case unfolding vst_sys_eta by blast
next
  case (digest i s)
  have "atomic_ok api arg n t0 m0 (s\<lparr>vs_mem := vs_mem s, vs_mtx := vs_mtx s, vs_pc := (vs_pc s)(i := Wait)\<rparr>) h rs M"
    using digest atomic_free_view [OF digest(6)] by (intro atomic_same [OF digest(6)]) (simp_all add: thread_ok_def)
  then show ?case unfolding vst_sys_eta by blast
next
  case (lock i s)
  let ?p = "args_part api (arg i)"
  have "atomic_ok api arg n t0 m0 (s\<lparr>vs_mem := vs_mem s, vs_mtx := (vs_mtx s)(?p := Some i),
      vs_pc := (vs_pc s)(i := Clock)\<rparr>) h rs M"
  proof (rule atomic_same [OF lock(6,1)])
    show "part_view (vs_mem s) p = part_view M p" if "p < N_PART" "((vs_mtx s)(?p := Some i)) p = None" for p
      using atomic_free_view [OF lock(6) that(1)] that(2) by (simp split: if_splits)
  qed (use lock(2) atomic_free_view [OF lock(6) args_part_less lock(3)] in \<open>auto simp: thread_ok_def\<close>)
  then show ?case unfolding vst_sys_eta by blast
next
  case (clock i s)
  then show ?case using atomic_clock [OF clock(5) api clock(3,1,2)] by blast
next
  case (body i s pc m)
  then show ?case using atomic_body [OF body(6) api body(4,5,1,2,3)] by blast
next
  case (unlock i s ret)
  let ?p = "args_part api (arg i)"
  have own: "part_view (vs_mem s) ?p = part_view M ?p" "(i, final_ret ret) \<in> set rs"
    using atomic_thread [OF unlock(5,1,2)] by (simp_all add: thread_ok_Unlock)
  have "atomic_ok api arg n t0 m0 (s\<lparr>vs_mem := vs_mem s, vs_mtx := (vs_mtx s)(?p := None),
      vs_pc := (vs_pc s)(i := Finish (final_ret ret))\<rparr>) h rs M"
  proof (rule atomic_same [OF unlock(5,1)])
    show "part_view (vs_mem s) p = part_view M p" if "p < N_PART" "((vs_mtx s)(?p := None)) p = None" for p
      using own(1) atomic_free_view [OF unlock(5) that(1)] that(2) by (cases "p = ?p") auto
  qed (use own in \<open>auto simp: thread_ok_def\<close>)
  then show ?case unfolding vst_sys_eta by blast
qed

section \<open>Reachable states\<close>

text \<open>Before the first step: nobody holds a mutex, and no bucket was used after \<open>t0\<close>.\<close>

definition vst_start :: "vst \<Rightarrow> double \<Rightarrow> vst_sys" where
  "vst_start m t0 = \<lparr>vs_mem = m, vs_mtx = (\<lambda>_. None), vs_clock = t0, vs_pc = (\<lambda>_. Start)\<rparr>"

definition start_ok :: "vst \<Rightarrow> double \<Rightarrow> bool" where
  "start_ok m t0 \<longleftrightarrow> vst_inv m \<and> (\<forall>a b. vst_heap m a = Some b \<longrightarrow> last_used b \<le> t0)"

abbreviation vst_reach :: "hash_api \<Rightarrow> (nat \<Rightarrow> vst_args) \<Rightarrow> nat \<Rightarrow> vst \<Rightarrow> double \<Rightarrow> vst_sys \<Rightarrow> bool" where
  "vst_reach api arg n m t0 \<equiv> (vst_tstep api arg n)\<^sup>*\<^sup>* (vst_start m t0)"

lemma start_used_by:
  assumes "start_ok m t0"
  shows "used_by t0 (part_view m p)"
proof -
  have inv: "vst_inv m" using assms by (simp add: start_ok_def)
  have "last_used b \<le> t0" if "length d = DIGEST_LEN" "vst_abs m d = Some b" for d b
    using vst_abs_iff [OF inv that(1), of b] that(2) assms by (auto simp: start_ok_def)
  then show ?thesis by (auto simp: used_by_def part_view_def)
qed

lemma vst_reach_inv:
  assumes "vst_reach api arg n m t0 s" and api: "hash_ok api" and start: "start_ok m t0"
  shows "lock_ok api arg n s \<and> mem_ok api arg n s \<and> (\<exists>h rs M. atomic_ok api arg n t0 m s h rs M)"
  using assms(1)
proof (induction rule: rtranclp_induct)
  case base
  have "mem_ok api arg n (vst_start m t0)"
    using start start_used_by [OF start] by (simp add: mem_ok_def vst_start_def start_ok_def)
  moreover have "lock_ok api arg n (vst_start m t0)" by (simp add: lock_ok_def vst_start_def)
  moreover have "atomic_ok api arg n t0 m (vst_start m t0) [] [] m"
    using start by (simp add: atomic_ok_def thread_ok_def vst_start_def start_ok_def)
  ultimately show ?case by blast
next
  case (step s t)
  then show ?case using lock_ok_step mem_ok_step [OF _ api] atomic_step [OF _ api] by metis
qed

text \<open>A statement under the lock can only fail by arithmetic without a defined result.\<close>

lemma body_step_fails:
  assumes api: "hash_ok api" and m: "mem_ok api arg n s" and i: "i < n"
    and b: "in_body (vs_pc s i)" "body_step api (arg i) (vs_pc s i) (vs_mem s) = Inl e"
  shows "e = UndefBehav"
proof -
  let ?c = "arg i" and ?d = "args_digest api (arg i)" and ?m = "vs_mem s"
  have inv: "vst_inv ?m" and hand: "in_hand ?m ?d (vs_pc s i)" using m i by (simp_all add: mem_ok_def)
  have r: "rest_call api ?c (vs_pc s i) (part_view ?m (part_of ?d)) = Inl e"
    using body_step_refines [OF inv api b(1) hand] b(2) by (simp add: step_refines_def Let_def)
  have now: "used_by now (part_view ?m (part_of ?d))" if "pc_now (vs_pc s i) = Some now" for now
    using m i that by (simp add: mem_ok_def args_part_def)
  show ?thesis
  proof (cases "vs_pc s i")
    case (Get now)
    then have "calc_tokens (case fst (part_view ?m (part_of ?d)) ?d of Some b \<Rightarrow> b
        | None \<Rightarrow> tb_alloc ?d (a_limit ?c) (a_period ?c) now) now = Inl e"
      using r by (auto simp: rest_get_def rest_tokens_def Let_def res_bind_eq_Inl split: if_splits)
    then show ?thesis
      using now [of now] Get by (intro calc_tokens_fails) (auto simp: used_by_def tb_alloc_def split: option.splits)
  next
    case (Tokens now a)
    obtain b where b: "fst (part_view ?m (part_of ?d)) ?d = Some b"
      using bucket_update_refines [OF inv api, of ?c a] hand Tokens by auto
    with r Tokens have "calc_tokens b now = Inl e"
      by (auto simp: rest_tokens_def Let_def res_bind_eq_Inl)
    then show ?thesis using now [of now] Tokens b by (intro calc_tokens_fails) (auto simp: used_by_def)
  qed (use r b in auto)
qed

lemma vst_progress:
  assumes l: "lock_ok api arg n s" and i: "i < n" "\<And>r. vs_pc s i \<noteq> Finish r"
    and fine: "\<And>j e. j < n \<Longrightarrow> in_body (vs_pc s j) \<Longrightarrow> body_step api (arg j) (vs_pc s j) (vs_mem s) \<noteq> Inl e"
  shows "\<exists>j t. vst_tstep api arg n s t \<and> vs_pc t j \<noteq> vs_pc s j"
proof -
  have holder: "\<exists>t. vst_tstep api arg n s t \<and> vs_pc t j \<noteq> vs_pc s j" if j: "j < n" "holds (vs_pc s j)" for j
  proof -
    consider "vs_pc s j = Clock" | r where "vs_pc s j = Unlock r" | "in_body (vs_pc s j)"
      using j(2) by (cases "vs_pc s j") auto
    then show ?thesis
    proof cases
      case 1
      from vst_tstep.clock [where i = j and s = s and arg = arg and api = api, OF j(1) this] 1 show ?thesis by (intro exI conjI) auto
    next
      case (2 r)
      from vst_tstep.unlock [where i = j and s = s and arg = arg and api = api, OF j(1) this] 2 show ?thesis by (intro exI conjI) auto
    next
      case 3
      then obtain pc m where b: "body_step api (arg j) (vs_pc s j) (vs_mem s) = Inr (pc, m)"
        using fine [OF j(1) 3] by (cases "body_step api (arg j) (vs_pc s j) (vs_mem s)") auto
      have "pc \<noteq> vs_pc s j" using body_step_pc [OF 3 b] 3 by auto
      with vst_tstep.body [where i = j and s = s and arg = arg, OF j(1) 3 b] show ?thesis by (intro exI conjI) auto
    qed
  qed
  consider "vs_pc s i = Start" | "vs_pc s i = Wait" | "holds (vs_pc s i)" using i(2) by (cases "vs_pc s i") auto
  then show ?thesis
  proof cases
    case 1
    show ?thesis
    proof (cases "a_key (arg i)")
      case None
      from vst_tstep.no_key [where i = i and s = s and arg = arg and api = api, OF i(1) 1 this] 1 show ?thesis by (intro exI [of _ i] exI conjI) auto
    next
      case (Some k)
      then have "a_key (arg i) \<noteq> None" by simp
      from vst_tstep.digest [where i = i and s = s and arg = arg and api = api, OF i(1) 1 this] 1 show ?thesis by (intro exI [of _ i] exI conjI) auto
    qed
  next
    case 2
    show ?thesis
    proof (cases "vs_mtx s (args_part api (arg i))")
      case None
      from vst_tstep.lock [where i = i and s = s and arg = arg and api = api, OF i(1) 2 this] 2 show ?thesis by (intro exI [of _ i] exI conjI) auto
    next
      case (Some j)
      from holder [OF lock_owner(1,2) [OF l this]] show ?thesis by blast
    qed
  next
    case 3
    from holder [OF i(1) 3] show ?thesis by blast
  qed
qed

section \<open>The rate limit for threads\<close>

lemma seq_call_null:
  "a_key c = None \<Longrightarrow> seq_call api now c m = Inr (r, m1) \<Longrightarrow> m1 = m \<and> r \<noteq> R_denied False"
  by (cases "a_fn c") (auto simp: seq_call_def vmod_is_denied_def vmod_remaining_def vmod_blocked_def)

definition admitted :: "hash_api \<Rightarrow> (nat \<Rightarrow> vst_args) \<Rightarrow> digest \<Rightarrow> nat \<times> vst_ret \<Rightarrow> bool" where
  "admitted api arg d = (\<lambda>(i, r). r = R_denied False \<and> args_digest api (arg i) = d)"

text \<open>Calls for the digest \<open>d\<close> use one limit and period, and are not \<open>remaining\<close>, which credits tokens.\<close>

definition uniform_args :: "hash_api \<Rightarrow> digest \<Rightarrow> int \<Rightarrow> double \<Rightarrow> vst_args \<Rightarrow> bool" where
  "uniform_args api d limit period c \<longleftrightarrow>
     (a_key c \<noteq> None \<longrightarrow> args_digest api c = d \<longrightarrow>
        a_limit c = limit \<and> a_period c = period \<and> a_fn c \<noteq> F_remaining)"

lemma seq_call_rate:
  assumes inv: "vst_inv m" and api: "hash_ok api" and d: "length d = DIGEST_LEN"
    and r: "rl_inv limit period t0 a now (vst_abs m d)" and lp: "0 \<le> limit" "0 < period"
    and u: "uniform_args api d limit period (arg i)" and call: "seq_call api now (arg i) m = Inr (ret, m1)"
  shows "vst_inv m1 \<and>
    rl_inv limit period t0 (a + (if admitted api arg d (i, ret) then 1 else 0)) now (vst_abs m1 d)"
proof (cases "a_key (arg i)")
  case None
  with seq_call_null [OF None call] inv r show ?thesis by (simp add: admitted_def)
next
  case (Some k)
  let ?c = "arg i"
  have dig: "do_digest api k (a_limit ?c) (a_period ?c) (a_block ?c) = args_digest api ?c"
    using Some by (simp add: args_digest_def)
  have uni: "uniform api d limit period [(now, Is_denied (Some k) (a_limit ?c) (a_period ?c) (a_block ?c))]"
    "uniform api d limit period [(now, Blocked (Some k) (a_limit ?c) (a_period ?c) (a_block ?c))]"
    if "a_fn ?c \<noteq> F_remaining"
    using u that Some dig by (auto simp: uniform_def uniform_args_def call_digest_def)
  note step = rl_inv_step [OF inv api d r lp]
  show ?thesis
  proof (cases "a_fn ?c")
    case F_is_denied
    with call Some obtain x where x: "vmod_is_denied api now m (Some k) (a_limit ?c) (a_period ?c) (a_block ?c) = Inr (x, m1)"
      "ret = R_denied x" by (auto simp: seq_call_def)
    then have "vst_step api now (Is_denied (Some k) (a_limit ?c) (a_period ?c) (a_block ?c)) m = Inr (\<not> x, m1)" by simp
    from step [OF uni(1) this] F_is_denied x(2) dig show ?thesis
      by (auto simp: admitted_def call_digest_def split: if_splits)
  next
    case F_blocked
    with call Some obtain x where x: "vmod_blocked api now m (Some k) (a_limit ?c) (a_period ?c) (a_block ?c) = Inr (x, m1)"
      "ret = R_blocked x" by (auto simp: seq_call_def)
    then have "vst_step api now (Blocked (Some k) (a_limit ?c) (a_period ?c) (a_block ?c)) m = Inr (False, m1)" by simp
    from step [OF uni(2) this] F_blocked x(2) show ?thesis by (auto simp: admitted_def)
  next
    case F_remaining
    with call Some obtain x where x: "vmod_remaining api now m (Some k) (a_limit ?c) (a_period ?c) (a_block ?c) = Inr (x, m1)"
      "ret = R_remaining x" by (auto simp: seq_call_def)
    have "args_digest api ?c \<noteq> d" using u F_remaining Some by (auto simp: uniform_args_def)
    with vmod_remaining_correct [OF inv api, where k = k and limit = "a_limit ?c" and period = "a_period ?c"
        and block = "a_block ?c" and now = now] x dig d r show ?thesis
      by (auto simp: admitted_def split: sum.splits)
  qed
qed

lemma seq_run_rate:
  assumes "vst_inv m" and api: "hash_ok api" and d: "length d = DIGEST_LEN" and lp: "0 \<le> limit" "0 < period"
    and "rl_inv limit period t0 a t (vst_abs m d)" and u: "\<And>i. i \<in> set (map fst h) \<Longrightarrow> uniform_args api d limit period (arg i)"
    and "sorted (t # map snd h)" and "seq_run api arg h m = Inr (rs, m1)"
  shows "rl_inv limit period t0 (a + length (filter (admitted api arg d) rs)) (last (t # map snd h)) (vst_abs m1 d)"
  using assms(1,6-)
proof (induction h arbitrary: m a t rs)
  case (Cons x h)
  obtain i now where x: "x = (i, now)" by (cases x)
  from Cons.prems(5) x obtain r m2 rs' where run: "seq_call api now (arg i) m = Inr (r, m2)"
    "seq_run api arg h m2 = Inr (rs', m1)" "rs = (i, r) # rs'" by auto
  have "rl_inv limit period t0 a now (vst_abs m d)"
    using rl_inv_later [OF Cons.prems(2) _ lp] Cons.prems(4) x by simp
  have "uniform_args api d limit period (arg i)" using Cons.prems(3) x by simp
  from seq_call_rate [where arg = arg and i = i, OF Cons.prems(1) api d \<open>rl_inv limit period t0 a now (vst_abs m d)\<close> lp this run(1)]
  have "vst_inv m2" "rl_inv limit period t0 (a + (if admitted api arg d (i, r) then 1 else 0)) now (vst_abs m2 d)"
    by simp_all
  from Cons.IH [OF this _ _ run(2)] Cons.prems(3,4) x run(3) show ?case
    by (cases "admitted api arg d (i, r)"; cases h) (simp_all add: ac_simps)
qed simp

section \<open>A run for the witnesses\<close>

text \<open>The statements of one thread, without interruption.\<close>

lemma body_run_steps:
  assumes "body_run api (arg i) k (vs_pc s i) (vs_mem s) = Inr (r, m')" and "i < n"
  shows "(vst_tstep api arg n)\<^sup>*\<^sup>* s (s\<lparr>vs_mem := m', vs_pc := (vs_pc s)(i := Unlock r)\<rparr>)"
  using assms(1)
proof (induction k arbitrary: s)
  case 0
  then have "vs_pc s i = Unlock r \<and> vs_mem s = m'" by (cases "vs_pc s i") auto
  then have "s\<lparr>vs_mem := m', vs_pc := (vs_pc s)(i := Unlock r)\<rparr> = s" by (cases s) auto
  then show ?case by (simp only: rtranclp.rtrancl_refl)
next
  case (Suc k)
  show ?case
  proof (cases "in_body (vs_pc s i)")
    case False
    with Suc.prems have "vs_pc s i = Unlock r \<and> vs_mem s = m'" by (cases "vs_pc s i") auto
    then have "s\<lparr>vs_mem := m', vs_pc := (vs_pc s)(i := Unlock r)\<rparr> = s" by (cases s) auto
    then show ?thesis by (simp only: rtranclp.rtrancl_refl)
  next
    case True
    with Suc.prems obtain pc m1 where b: "body_step api (arg i) (vs_pc s i) (vs_mem s) = Inr (pc, m1)"
      "body_run api (arg i) k pc m1 = Inr (r, m')" by auto
    let ?s = "s\<lparr>vs_mem := m1, vs_pc := (vs_pc s)(i := pc)\<rparr>"
    have "vst_tstep api arg n s ?s"
      by (rule vst_tstep.body [where i = i and s = s and arg = arg and api = api, OF assms(2) True b(1)])
    moreover have "(vst_tstep api arg n)\<^sup>*\<^sup>* ?s (s\<lparr>vs_mem := m', vs_pc := (vs_pc s)(i := Unlock r)\<rparr>)"
    proof -
      have "?s\<lparr>vs_mem := m', vs_pc := (vs_pc ?s)(i := Unlock r)\<rparr> = s\<lparr>vs_mem := m', vs_pc := (vs_pc s)(i := Unlock r)\<rparr>"
        by (simp add: fun_eq_iff)
      moreover have "body_run api (arg i) k (vs_pc ?s i) (vs_mem ?s) = Inr (r, m')" using b(2) by simp
      ultimately show ?thesis using Suc.IH [of ?s] by (simp only:)
    qed
    ultimately show ?thesis by (rule converse_rtranclp_into_rtranclp)
  qed
qed

text \<open>Two threads ask for the same key; the first is through, the second waits for the mutex.\<close>

definition demo_args :: "nat \<Rightarrow> vst_args" where
  "demo_args i = \<lparr>a_fn = F_is_denied, a_key = Some ''key'', a_limit = 1, a_period = 10, a_block = 0\<rparr>"

lemma demo_call: "\<exists>m. body_run demo_hash (demo_args i) 6 (Get 5) demo_vst = Inr (R_denied False, m)"
proof -
  let ?d = "args_digest demo_hash (demo_args i)"
  let ?v = "part_view demo_vst (part_of ?d)"
  have v: "fst ?v ?d = None" "snd ?v = 0" by (simp_all add: part_view_def demo_vst_abs demo_vst_gc)
  have "calc_tokens (tb_alloc ?d 1 10 5) 5 = Inr (tb_alloc ?d 1 10 5)"
    by (simp add: calc_tokens_same tb_alloc_def in_long_def LONG_MAX_def LONG_MIN_def)
  moreover have "fst (deny_decision 5 0 (tb_alloc ?d 1 10 5)) = False"
    by (simp add: deny_decision_def tb_alloc_def)
  ultimately have "\<exists>w. rest_call demo_hash (demo_args i) (Get 5) (part_view demo_vst (args_part demo_hash (demo_args i))) =
      Inr (R_denied False, w)"
    using v by (simp add: rest_get_def rest_tokens_def rest_decide_def rest_count_def args_part_def Let_def
        split_beta GC_INTVL_def demo_args_def)
  then show ?thesis
    using body_run_refines [OF demo_vst_inv demo_hash_ok, of "Get 5" "demo_args i" 6] by auto
qed

lemma demo_reach:
  "\<exists>s. vst_reach demo_hash demo_args 2 demo_vst 5 s \<and> vs_pc s 0 = Finish (R_denied False) \<and>
     vs_pc s 1 = Wait \<and> vs_clock s = 5"
proof -
  obtain m where run: "body_run demo_hash (demo_args 0) 6 (Get 5) demo_vst = Inr (R_denied False, m)"
    using demo_call by blast
  let ?step = "vst_tstep demo_hash demo_args 2" and ?p = "args_part demo_hash (demo_args 0)"
  let ?pc = "(\<lambda>_. Start)(1 := Wait)"
  let ?s = "\<lambda>pc mtx m. \<lparr>vs_mem = m, vs_mtx = mtx, vs_clock = 5, vs_pc = ?pc(0 := pc)\<rparr>"
  have two: "(0 :: nat) < 2" "(1 :: nat) < 2" by simp_all
  have key: "a_key (demo_args i) \<noteq> None" for i by (simp add: demo_args_def)
  note at = vst_tstep.digest [where api = demo_hash and arg = demo_args] vst_tstep.lock [where api = demo_hash and arg = demo_args]
    vst_tstep.clock [where api = demo_hash and arg = demo_args] vst_tstep.unlock [where api = demo_hash and arg = demo_args]
  have 1: "?step (vst_start demo_vst 5) (?s Start (\<lambda>_. None) demo_vst)"
    using at(1) [of 1 2 "vst_start demo_vst 5"] key by (simp add: vst_start_def fun_upd_idem)
  have 2: "?step (?s Start (\<lambda>_. None) demo_vst) (?s Wait (\<lambda>_. None) demo_vst)"
    using at(1) [of 0 2 "?s Start (\<lambda>_. None) demo_vst"] key by simp
  have 3: "?step (?s Wait (\<lambda>_. None) demo_vst) (?s Clock ((\<lambda>_. None)(?p := Some 0)) demo_vst)"
    using at(2) [of 0 2 "?s Wait (\<lambda>_. None) demo_vst"] by simp
  have 4: "?step (?s Clock ((\<lambda>_. None)(?p := Some 0)) demo_vst) (?s (Get 5) ((\<lambda>_. None)(?p := Some 0)) demo_vst)"
    using at(3) [of 0 2 "?s Clock ((\<lambda>_. None)(?p := Some 0)) demo_vst"] by simp
  have 5: "?step\<^sup>*\<^sup>* (?s (Get 5) ((\<lambda>_. None)(?p := Some 0)) demo_vst) (?s (Unlock (R_denied False)) ((\<lambda>_. None)(?p := Some 0)) m)"
    using body_run_steps [of demo_hash demo_args 0 6 "?s (Get 5) ((\<lambda>_. None)(?p := Some 0)) demo_vst" "R_denied False" m 2] run
    by simp
  have 6: "?step (?s (Unlock (R_denied False)) ((\<lambda>_. None)(?p := Some 0)) m) (?s (Finish (R_denied False)) ((\<lambda>_. None)(?p := None)) m)"
    using at(4) [of 0 2 "?s (Unlock (R_denied False)) ((\<lambda>_. None)(?p := Some 0)) m" "R_denied False"] by simp
  have chain: "?step\<^sup>*\<^sup>* a g" if "?step a b" "?step b c" "?step c d" "?step d e" "?step\<^sup>*\<^sup>* e f" "?step f g"
    for a b c d e f g
    using that by (meson converse_rtranclp_into_rtranclp rtranclp.rtrancl_into_rtrancl)
  have "?step\<^sup>*\<^sup>* (vst_start demo_vst 5) (?s (Finish (R_denied False)) ((\<lambda>_. None)(?p := None)) m)"
    by (rule chain [OF 1 2 3 4 5 6])
  then show ?thesis
    by (rule exI [of _ "?s (Finish (R_denied False)) ((\<lambda>_. None)(?p := None)) m", OF conjI]) simp
qed

lemma demo_start_ok: "start_ok demo_vst 5"
  using demo_vst_inv by (simp add: start_ok_def) (simp add: demo_vst_def vst_event_function_def vst_initial_def Let_def)

section \<open>Properties\<close>

text \<open>
  Claim C2. However the threads and the clock interleave, the calls that have returned have the
  results they have when they are made one after the other, in the order in which they read
  the clock; and what an unlocked partition stores for a digest is what it stores after those
  calls. So each call acts as if it were a single step, which is how the other theorems about
  this module take it, and the times of those steps do not decrease.
\<close>

theorem vst_calls_atomic:
  assumes "hash_ok api" and "start_ok m t0" and "vst_reach api arg n m t0 s"
  shows "\<exists>h rs M. seq_run api arg h m = Inr (rs, M) \<and> sorted (t0 # map snd h @ [vs_clock s]) \<and>
    distinct (map fst h) \<and> set (map fst h) \<subseteq> {..<n} \<and>
    (\<forall>i < n. \<forall>r. vs_pc s i = Finish r \<longrightarrow> a_key (arg i) \<noteq> None \<longrightarrow> (i, r) \<in> set rs) \<and>
    (\<forall>d. length d = DIGEST_LEN \<longrightarrow> vs_mtx s (part_of d) = None \<longrightarrow> vst_abs (vs_mem s) d = vst_abs M d)"
proof -
  obtain h rs M where at: "atomic_ok api arg n t0 m s h rs M"
    using vst_reach_inv [OF assms(3,1,2)] by blast
  have "vst_abs (vs_mem s) d = vst_abs M d" if "length d = DIGEST_LEN" "vs_mtx s (part_of d) = None" for d
  proof -
    have "fst (part_view (vs_mem s) (part_of d)) d = fst (part_view M (part_of d)) d"
      using atomic_free_view [OF at part_of_less that(2)] by simp
    then show ?thesis using that(1) by (simp add: part_view_def)
  qed
  moreover have "(i, r) \<in> set rs" if "i < n" "vs_pc s i = Finish r" "a_key (arg i) \<noteq> None" for i r
    using atomic_thread [OF at that(1,2)] that(3) by (simp add: thread_ok_def)
  moreover have "set (map fst h) \<subseteq> {..<n}" using at by (auto simp: atomic_ok_def)
  ultimately show ?thesis using at unfolding atomic_ok_def by blast
qed

lemma vst_calls_atomic_witness:
  "\<exists>s h rs M. vst_reach demo_hash demo_args 2 demo_vst 5 s \<and> seq_run demo_hash demo_args h demo_vst = Inr (rs, M) \<and>
     (0, R_denied False) \<in> set rs"
proof -
  obtain s where s: "vst_reach demo_hash demo_args 2 demo_vst 5 s" "vs_pc s 0 = Finish (R_denied False)"
    using demo_reach by blast
  from vst_calls_atomic [OF demo_hash_ok demo_start_ok s(1)] obtain h rs M where
    run: "seq_run demo_hash demo_args h demo_vst = Inr (rs, M)" and
    fin: "\<forall>i < 2. \<forall>r. vs_pc s i = Finish r \<longrightarrow> a_key (demo_args i) \<noteq> None \<longrightarrow> (i, r) \<in> set rs"
    by blast
  have "(0, R_denied False) \<in> set rs" using fin s(2) by (simp add: demo_args_def)
  with s(1) run show ?thesis by blast
qed

text \<open>
  Claim C20. No two threads are inside the same partition; no statement fails, in particular neither
  \<open>assert(delta >= 0)\<close>, because the clock is read under the lock, nor \<open>AZ(VRB_INSERT(..))\<close>, nor an
  access to a freed bucket, but for arithmetic that C leaves undefined (a period of zero, a
  conversion or a sum out of range); and as long as that does not happen some thread can move
  until all have returned.
\<close>

theorem vst_threads_safe:
  assumes "hash_ok api" and "start_ok m t0" and "vst_reach api arg n m t0 s"
  shows "(\<forall>i < n. \<forall>j < n. i \<noteq> j \<longrightarrow> holds (vs_pc s i) \<longrightarrow> holds (vs_pc s j) \<longrightarrow>
       args_part api (arg i) \<noteq> args_part api (arg j)) \<and>
    (\<forall>i < n. \<forall>e. in_body (vs_pc s i) \<longrightarrow> body_step api (arg i) (vs_pc s i) (vs_mem s) = Inl e \<longrightarrow> e = UndefBehav) \<and>
    ((\<forall>i < n. \<exists>r. vs_pc s i = Finish r) \<or>
     (\<exists>i < n. in_body (vs_pc s i) \<and> body_step api (arg i) (vs_pc s i) (vs_mem s) = Inl UndefBehav) \<or>
     (\<exists>i t. vst_tstep api arg n s t \<and> vs_pc t i \<noteq> vs_pc s i))"
proof -
  have inv: "lock_ok api arg n s" "mem_ok api arg n s" using vst_reach_inv [OF assms(3,1,2)] by blast+
  have fails: "\<forall>i < n. \<forall>e. in_body (vs_pc s i) \<longrightarrow> body_step api (arg i) (vs_pc s i) (vs_mem s) = Inl e \<longrightarrow> e = UndefBehav"
    using body_step_fails [OF assms(1) inv(2)] by blast
  then have "(\<forall>i < n. \<exists>r. vs_pc s i = Finish r) \<or>
     (\<exists>i < n. in_body (vs_pc s i) \<and> body_step api (arg i) (vs_pc s i) (vs_mem s) = Inl UndefBehav) \<or>
     (\<exists>i t. vst_tstep api arg n s t \<and> vs_pc t i \<noteq> vs_pc s i)"
    using vst_progress [OF inv(1)] by metis
  with fails other_part [OF inv(1)] show ?thesis by blast
qed

lemma vst_threads_safe_witness:
  "\<exists>s t i. vst_reach demo_hash demo_args 2 demo_vst 5 s \<and> vs_pc s 1 = Wait \<and>
     vst_tstep demo_hash demo_args 2 s t \<and> vs_pc t i \<noteq> vs_pc s i"
proof -
  obtain s where s: "vst_reach demo_hash demo_args 2 demo_vst 5 s" "vs_pc s 0 = Finish (R_denied False)" "vs_pc s 1 = Wait"
    using demo_reach by blast
  have two: "i = 0 \<or> i = 1" if "i < 2" for i :: nat using that by auto
  have "\<not> (\<forall>i < 2. \<exists>r. vs_pc s i = Finish r)" using s(3) by (auto intro!: exI [of _ 1])
  moreover have "\<not> (\<exists>i < 2. in_body (vs_pc s i) \<and> body_step demo_hash (demo_args i) (vs_pc s i) (vs_mem s) = Inl UndefBehav)"
    using two s(2,3) by (metis in_body.simps(2,5))
  ultimately show ?thesis
    using vst_threads_safe [OF demo_hash_ok demo_start_ok s(1)] s(1,3) by blast
qed

text \<open>
  Claim C1. The rate limit, for threads: however the calls interleave, at most \<open>limit\<close> of them plus
  the refill rate times the time since the start, up to the rounding of four floating-point
  operations, have returned false for one digest. The limit is not negative and the period
  positive; the calls for that digest must agree on them, as the digest says they do, and must
  not be \<open>remaining\<close>, which credits the time since \<open>last_used\<close> without advancing it, so that
  with it the bound would not hold. Calls for other digests may be any.
\<close>

theorem vst_rate_limit_threads:
  assumes "hash_ok api" and "start_ok m t0" and "vst_reach api arg n m t0 s"
    and "length d = DIGEST_LEN" and "0 \<le> limit" and "0 < period"
    and "\<And>i. i < n \<Longrightarrow> uniform_args api d limit period (arg i)"
    and "\<And>b. vst_abs m d = Some b \<Longrightarrow> bucket_ok limit period b"
  shows "of_nat (card {i. i < n \<and> a_key (arg i) \<noteq> None \<and> args_digest api (arg i) = d \<and>
      vs_pc s i = Finish (R_denied False)})
    \<le> of_int limit + (1 + eps) ^ 4 * of_int limit / period * (vs_clock s - t0)"
proof -
  obtain h rs M where at: "atomic_ok api arg n t0 m s h rs M"
    using vst_reach_inv [OF assms(3,1,2)] by blast
  then have h: "seq_run api arg h m = Inr (rs, M)" "sorted (t0 # map snd h @ [vs_clock s])"
      "set (map fst h) \<subseteq> {..<n}"
    by (auto simp: atomic_ok_def)
  have inv: "vst_inv m" using assms(2) by (simp add: start_ok_def)
  have "last_used b \<le> t0" if "vst_abs m d = Some b" for b
    using vst_abs_iff [OF inv assms(4), of b] that assms(2) by (auto simp: start_ok_def)
  then have rl0: "rl_inv limit period t0 0 t0 (vst_abs m d)"
    using assms(8) by (auto simp: rl_inv_def split: option.splits)
  have uni: "uniform_args api d limit period (arg i)" if "i \<in> set (map fst h)" for i
    using assms(7) h(3) that by auto
  have so: "sorted (t0 # map snd h)" using h(2) by (simp add: sorted_append)
  have "rl_inv limit period t0 (length (filter (admitted api arg d) rs)) (last (t0 # map snd h)) (vst_abs M d)"
    using seq_run_rate [where h = h and arg = arg, OF inv assms(1,4,5,6) rl0 uni so h(1)] by simp
  moreover have "last (t0 # map snd h) \<le> vs_clock s"
    using h(2) by (cases "h = []") (auto simp: sorted_append last_map)
  ultimately have "of_nat (length (filter (admitted api arg d) rs)) \<le> of_int limit + refill_rate limit period * (vs_clock s - t0)"
    using rl_inv_bound [OF rl_inv_later assms(5,6)] assms(5,6) by blast
  moreover have "card {i. i < n \<and> a_key (arg i) \<noteq> None \<and> args_digest api (arg i) = d \<and> vs_pc s i = Finish (R_denied False)}
      \<le> length (filter (admitted api arg d) rs)" (is "card ?A \<le> _")
  proof -
    have "?A \<subseteq> fst ` set (filter (admitted api arg d) rs)"
    proof
      fix i assume "i \<in> ?A"
      then have i: "i < n" "a_key (arg i) \<noteq> None" "args_digest api (arg i) = d" "vs_pc s i = Finish (R_denied False)" by auto
      then have "(i, R_denied False) \<in> set rs" using atomic_thread [OF at i(1,4)] by (simp add: thread_ok_def)
      with i(3) have "(i, R_denied False) \<in> set (filter (admitted api arg d) rs)" by (simp add: admitted_def)
      then show "i \<in> fst ` set (filter (admitted api arg d) rs)" by force
    qed
    then have "card ?A \<le> card (fst ` set (filter (admitted api arg d) rs))" by (intro card_mono) auto
    also have "\<dots> \<le> length (filter (admitted api arg d) rs)"
      using card_image_le [of "set (filter (admitted api arg d) rs)" fst] card_length [of "filter (admitted api arg d) rs"]
      by simp
    finally show ?thesis .
  qed
  ultimately show ?thesis
    unfolding refill_rate_def by (meson of_nat_le_iff order_trans)
qed

lemma vst_rate_limit_threads_witness:
  "\<exists>s. vst_reach demo_hash demo_args 2 demo_vst 5 s \<and> vs_pc s 0 = Finish (R_denied False) \<and>
     card {i. i < 2 \<and> a_key (demo_args i) \<noteq> None \<and>
       args_digest demo_hash (demo_args i) = args_digest demo_hash (demo_args 0) \<and>
       vs_pc s i = Finish (R_denied False)} \<le> 1"
proof -
  let ?d = "args_digest demo_hash (demo_args 0)"
  obtain s where s: "vst_reach demo_hash demo_args 2 demo_vst 5 s" "vs_pc s 0 = Finish (R_denied False)" "vs_clock s = 5"
    using demo_reach by blast
  have d: "length ?d = DIGEST_LEN" unfolding args_digest_def by (rule length_do_digest [OF demo_hash_ok])
  have "uniform_args demo_hash ?d 1 10 (demo_args i)" for i by (simp add: uniform_args_def demo_args_def)
  then have "of_nat (card {i. i < 2 \<and> a_key (demo_args i) \<noteq> None \<and>
       args_digest demo_hash (demo_args i) = ?d \<and> vs_pc s i = Finish (R_denied False)})
    \<le> of_int 1 + (1 + eps) ^ 4 * of_int 1 / 10 * (vs_clock s - 5)"
    using vst_rate_limit_threads [OF demo_hash_ok demo_start_ok s(1) d, of 1 10] by (simp add: demo_vst_abs)
  with s show ?thesis by auto
qed

end
