(* ===== verification/Saintmode.thy ===== *)
theory Saintmode
  imports Doubles Digest
begin

text \<open>
  The saint-mode director, \<^verbatim>\<open>src/src/vmod_saintmode.c\<close>: a director that stands in front of a
  backend and keeps a list of objects ("trouble") the backend failed on. An object on the
  list makes the backend sick for requests for that object, and a list that reaches the
  threshold makes it sick for everything. Director objects live on the heap of a VCL; the
  list of all of them hangs off \<open>priv\<close>, which is NULL until the first is created. The mutex
  makes every operation on a list atomic.
\<close>

section \<open>Data\<close>

record trouble =
  tr_digest :: digest
  tr_timeout :: double

record vmod_saintmode_saintmode =
  sm_vcl_name :: string
  sm_be :: addr
  threshold :: u32
  n_trouble :: u32
  troublelist :: "trouble list"

text \<open>\<open>sm_objs\<close> is \<open>struct saintmode_objs\<close> behind \<open>priv->priv\<close>.\<close>

record sm_vcl =
  sm_heap :: "addr \<rightharpoonup> vmod_saintmode_saintmode"
  sm_objs :: "addr list option"
  sm_next :: addr

text \<open>What the module reads of a busy object and of a client request.\<close>

record busyobj =
  bo_digest :: digest
  bo_t_prev :: double
  director_resp :: "addr option"

record request =
  req_digest :: digest
  req_t_prev :: double

datatype vcl_method = VCL_MET_RECV | VCL_MET_HASH | VCL_MET_BACKEND_RESPONSE | VCL_MET_OTHER

record 'ws sm_ctx =
  sm_method :: vcl_method
  sm_bo :: "busyobj option"
  sm_req :: "request option"
  sm_cws :: 'ws
  sm_vsl :: vsl_log

text \<open>
  The backends are varnishd's: their names and health functions are parameters. The health
  function may look at the busy object; the pointer \<open>changed\<close> is only passed through.
\<close>

record backends =
  be_vcl_name :: "addr \<Rightarrow> string"
  be_healthy :: "addr \<Rightarrow> busyobj option \<Rightarrow> bool"

section \<open>Operations\<close>

definition vmod_saintmode_backend :: "addr \<Rightarrow> sm_vcl \<Rightarrow> addr res" where
  "vmod_saintmode_backend sm s = res_bind (deref (sm_heap s) sm) (\<lambda>_. Inr sm)"

fun find_sm_loop :: "(addr \<rightharpoonup> vmod_saintmode_saintmode) \<Rightarrow> addr list \<Rightarrow> addr \<Rightarrow> addr option res" where
  "find_sm_loop h [] be = Inr None"
| "find_sm_loop h (sm # sms) be =
     res_bind (deref h sm) (\<lambda>ob. if sm_be ob = be then Inr (Some sm) else find_sm_loop h sms be)"

text \<open>\<open>find_sm\<close> asserts that the backend pointer is not NULL.\<close>

definition find_sm :: "(addr \<rightharpoonup> vmod_saintmode_saintmode) \<Rightarrow> addr list \<Rightarrow> addr option \<Rightarrow> addr option res" where
  "find_sm h sms be = (case be of None \<Rightarrow> Inl AssertFail | Some b \<Rightarrow> find_sm_loop h sms b)"

definition vmod_blacklist ::
  "backends \<Rightarrow> 'ws sm_ctx \<Rightarrow> sm_vcl \<Rightarrow> double \<Rightarrow> ('ws sm_ctx \<times> sm_vcl) res" where
  "vmod_blacklist bes ctx s expires =
     (case sm_objs s of
        None \<Rightarrow> Inr (ctx\<lparr>sm_vsl := VSLb SLT_VCL_Error ''saintmode.blacklist(): Saintmode is not configured'' []
                 (sm_vsl ctx)\<rparr>, s)
      | Some sms \<Rightarrow>
        if sm_method ctx \<noteq> VCL_MET_BACKEND_RESPONSE then
          Inr (ctx\<lparr>sm_vsl := VSLb SLT_VCL_Error
                 ''saintmode.blacklist() called outside of vcl_backend_response'' [] (sm_vsl ctx)\<rparr>, s)
        else case sm_bo ctx of None \<Rightarrow> Inl AssertFail | Some bo \<Rightarrow>
          res_bind (find_sm (sm_heap s) sms (director_resp bo)) (\<lambda>r.
          case r of
            None \<Rightarrow> Inr (ctx\<lparr>sm_vsl := VSLb SLT_VCL_Error
                 ''Error: saintmode.blacklist(): Saintmode not configured for this backend.'' [] (sm_vsl ctx)\<rparr>, s)
          | Some sm \<Rightarrow>
              res_bind (deref (sm_heap s) sm) (\<lambda>ob.
              let tp = \<lparr>tr_digest = bo_digest bo, tr_timeout = dadd (bo_t_prev bo) expires\<rparr>;
                  ob1 = ob\<lparr>troublelist := tp # troublelist ob, n_trouble := n_trouble ob + 1\<rparr>
              in Inr (ctx\<lparr>sm_vsl := VSLb SLT_VCL_Log
                   ''saintmode: object put on blacklist for backend %s for %.2f seconds''
                   [ArgStr (be_vcl_name bes (sm_be ob)), ArgDbl expires] (sm_vsl ctx)\<rparr>,
                   s\<lparr>sm_heap := (sm_heap s)(sm \<mapsto> ob1)\<rparr>))))"

text \<open>The JSON line of one object; the separator goes in front of all but the last newline.\<close>

definition NL :: string where "NL = [CHR 0x0A]"
definition TAB :: string where "TAB = [CHR 0x09]"
definition DQ :: string where "DQ = [CHR 0x22]"

definition json_pair :: "string \<Rightarrow> string \<Rightarrow> string" where
  "json_pair k v = DQ @ k @ DQ @ '': '' @ DQ @ v @ DQ"

fun status_loop :: "backends \<Rightarrow> (addr \<rightharpoonup> vmod_saintmode_saintmode) \<Rightarrow> addr list \<Rightarrow> string res" where
  "status_loop bes h [] = Inr ''''"
| "status_loop bes h (sm # sms) =
     res_bind (deref h sm) (\<lambda>ob.
     res_bind (status_loop bes h sms) (\<lambda>rest.
     Inr (TAB @ TAB @ ''{ '' @
       json_pair ''name'' (sm_vcl_name ob) @ '', '' @
       json_pair ''backend'' (be_vcl_name bes (sm_be ob)) @ '', '' @
       json_pair ''count'' (itoa (unat (n_trouble ob))) @ '', '' @
       json_pair ''threshold'' (itoa (unat (threshold ob))) @ '' '' @ ''}'' @
       (if sms \<noteq> [] then '','' else '''') @ NL @ rest)))"

definition vmod_status ::
  "'ws ws_api \<Rightarrow> backends \<Rightarrow> 'ws sm_ctx \<Rightarrow> sm_vcl \<Rightarrow> (string option \<times> 'ws sm_ctx) res" where
  "vmod_status api bes ctx s =
     (case sm_objs s of None \<Rightarrow> Inl AssertFail
      | Some sms \<Rightarrow>
          res_bind (status_loop bes (sm_heap s) sms) (\<lambda>body.
          let (p, ws) = WS_Copy api (sm_cws ctx)
                (''{'' @ NL @ TAB @ DQ @ ''saintmode'' @ DQ @ '': ['' @ NL @ body @ TAB @ '']'' @ NL @ ''}'' @ NL);
              ctx1 = ctx\<lparr>sm_cws := ws\<rparr>
          in Inr (p, if p = None then
               ctx1\<lparr>sm_vsl := VSLb SLT_VCL_Log ''saintmode.vmod_status: workspace overflow'' [] (sm_vsl ctx1)\<rparr>
             else ctx1)))"

definition vmod_saintmode_blacklist_count :: "addr \<Rightarrow> sm_vcl \<Rightarrow> int res" where
  "vmod_saintmode_blacklist_count sm s = res_bind (deref (sm_heap s) sm) (\<lambda>ob. Inr (uint (n_trouble ob)))"

text \<open>
  The loop of \<open>is_digest_healthy\<close>: entries that timed out are taken off the list (they are
  freed after the lock is dropped); the loop stops at the first entry for the digest. The
  results are the list, the counter, and whether such an entry was met.
\<close>

fun trouble_scan :: "digest option \<Rightarrow> double \<Rightarrow> trouble list \<Rightarrow> u32 \<Rightarrow> trouble list \<times> u32 \<times> bool" where
  "trouble_scan dg now [] n = ([], n, False)"
| "trouble_scan dg now (tr # trs) n =
     (if tr_timeout tr < now then trouble_scan dg now trs (n - 1)
      else if (case dg of None \<Rightarrow> False | Some d \<Rightarrow> memcmp (tr_digest tr) d = 0) then (tr # trs, n, True)
      else (case trouble_scan dg now trs n of (l, n', bl) \<Rightarrow> (tr # l, n', bl)))"

definition is_digest_healthy ::
  "backends \<Rightarrow> addr \<Rightarrow> digest option \<Rightarrow> double \<Rightarrow> vsl_log option \<Rightarrow> sm_vcl \<Rightarrow>
    (bool \<times> vsl_log option \<times> sm_vcl) res" where
  "is_digest_healthy bes sm dg t_prev vsl s =
     res_bind (deref (sm_heap s) sm) (\<lambda>ob.
     let (l, n, bl) = trouble_scan dg t_prev (troublelist ob) (n_trouble ob);
         retval = (if threshold ob \<le> n then False else \<not> bl);
         name = ArgStr (be_vcl_name bes (sm_be ob));
         vsl1 = (case vsl of None \<Rightarrow> None | Some v \<Rightarrow>
           Some (if bl then VSLb SLT_VCL_Log ''saintmode: unhealthy: object blacklisted for backend %s'' [name] v
            else if \<not> retval then VSLb SLT_VCL_Log ''saintmode: unhealthy: hit threshold for backend %s'' [name] v
            else v))
     in Inr (retval, vsl1, s\<lparr>sm_heap := (sm_heap s)(sm \<mapsto> ob\<lparr>troublelist := l, n_trouble := n\<rparr>)\<rparr>))"

text \<open>\<open>healthy\<close>, the director's health callback; \<open>VTIM_real\<close> is the argument \<open>now\<close>.\<close>

definition sm_healthy ::
  "backends \<Rightarrow> double \<Rightarrow> addr \<Rightarrow> busyobj option \<Rightarrow> vsl_log \<Rightarrow> sm_vcl \<Rightarrow> (bool \<times> vsl_log \<times> sm_vcl) res" where
  "sm_healthy bes now sm bo vsl s =
     res_bind (deref (sm_heap s) sm) (\<lambda>ob.
     if threshold ob = 0 \<or> n_trouble ob = 0 then Inr (be_healthy bes (sm_be ob) bo, vsl, s)
     else
       res_bind (case bo of None \<Rightarrow> is_digest_healthy bes sm None now None s
                 | Some b \<Rightarrow> is_digest_healthy bes sm (Some (bo_digest b)) (bo_t_prev b) (Some vsl) s)
         (\<lambda>(retval, vsl1, s1).
            Inr (if retval then be_healthy bes (sm_be ob) bo else False,
                 case vsl1 of None \<Rightarrow> vsl | Some v \<Rightarrow> v, s1)))"

definition vmod_saintmode_is_healthy ::
  "backends \<Rightarrow> double \<Rightarrow> 'ws sm_ctx \<Rightarrow> addr \<Rightarrow> sm_vcl \<Rightarrow> (bool \<times> 'ws sm_ctx \<times> sm_vcl) res" where
  "vmod_saintmode_is_healthy bes now ctx sm s =
     res_bind (deref (sm_heap s) sm) (\<lambda>_.
     case sm_req ctx of
       Some req \<Rightarrow>
         let dg = (if sm_method ctx = VCL_MET_RECV \<or> sm_method ctx = VCL_MET_HASH then None
                   else Some (req_digest req))
         in res_bind (is_digest_healthy bes sm dg (req_t_prev req) (Some (sm_vsl ctx)) s)
              (\<lambda>(r, vsl1, s1). Inr (r, ctx\<lparr>sm_vsl := (case vsl1 of None \<Rightarrow> sm_vsl ctx | Some v \<Rightarrow> v)\<rparr>, s1))
     | None \<Rightarrow>
         res_bind (sm_healthy bes now sm (sm_bo ctx) (sm_vsl ctx) s)
           (\<lambda>(r, vsl1, s1). Inr (r, ctx\<lparr>sm_vsl := vsl1\<rparr>, s1)))"

definition resolve ::
  "backends \<Rightarrow> double \<Rightarrow> addr \<Rightarrow> busyobj option \<Rightarrow> vsl_log \<Rightarrow> sm_vcl \<Rightarrow> (addr option \<times> vsl_log \<times> sm_vcl) res" where
  "resolve bes now sm bo vsl s =
     res_bind (sm_healthy bes now sm bo vsl s) (\<lambda>(r, vsl1, s1).
     if \<not> r then Inr (None, vsl1, s1)
     else res_bind (deref (sm_heap s1) sm) (\<lambda>ob. Inr (Some (sm_be ob), vsl1, s1)))"

text \<open>
  \<open>vmod_saintmode__init\<close> is given the object variable \<open>*smp\<close>, which must be NULL, and sets it. The
  \<open>VCL_INT\<close> threshold is stored as an \<open>unsigned\<close>.
\<close>

definition vmod_saintmode__init ::
  "addr option \<Rightarrow> string \<Rightarrow> addr option \<Rightarrow> int \<Rightarrow> sm_vcl \<Rightarrow> (addr \<times> sm_vcl) res" where
  "vmod_saintmode__init smp vcl_name be thr s =
     res_bind (guard (smp = None) AssertFail) (\<lambda>_.
     case be of None \<Rightarrow> Inl AssertFail | Some b \<Rightarrow>
     let sm = sm_next s;
         ob = \<lparr>sm_vcl_name = vcl_name, sm_be = b, threshold = of_int thr, n_trouble = 0, troublelist = []\<rparr>;
         sms = (case sm_objs s of None \<Rightarrow> [] | Some l \<Rightarrow> l)
     in Inr (sm, s\<lparr>sm_heap := (sm_heap s)(sm \<mapsto> ob), sm_next := Suc sm, sm_objs := Some (sms @ [sm])\<rparr>))"

text \<open>The object stays on the list of all objects, as the code's comment says.\<close>

definition vmod_saintmode__fini :: "addr \<Rightarrow> sm_vcl \<Rightarrow> sm_vcl res" where
  "vmod_saintmode__fini sm s =
     res_bind (deref (sm_heap s) sm) (\<lambda>_. Inr (s\<lparr>sm_heap := (sm_heap s)(sm := None)\<rparr>))"

text \<open>The state when a VCL is loaded.\<close>

definition sm_initial :: sm_vcl where
  "sm_initial = \<lparr>sm_heap = Map.empty, sm_objs = None, sm_next = 1\<rparr>"

section \<open>The invariant\<close>

definition trouble_ok :: "trouble \<Rightarrow> bool" where
  "trouble_ok tr \<longleftrightarrow> length (tr_digest tr) = DIGEST_LEN"

definition obj_ok :: "vmod_saintmode_saintmode \<Rightarrow> bool" where
  "obj_ok ob \<longleftrightarrow> n_trouble ob = of_nat (length (troublelist ob)) \<and> list_all trouble_ok (troublelist ob)"

text \<open>
  Every object counts its list (modulo the width of the counter), the list of all objects
  has no duplicates, and addresses are fresh.
\<close>

definition sm_inv :: "sm_vcl \<Rightarrow> bool" where
  "sm_inv s \<longleftrightarrow> (\<forall>p ob. sm_heap s p = Some ob \<longrightarrow> obj_ok ob \<and> p < sm_next s) \<and>
     (case sm_objs s of None \<Rightarrow> sm_heap s = Map.empty
      | Some sms \<Rightarrow> distinct sms \<and> (\<forall>p \<in> set sms. p < sm_next s) \<and> dom (sm_heap s) \<subseteq> set sms)"

definition live :: "double \<Rightarrow> trouble \<Rightarrow> bool" where
  "live now tr \<longleftrightarrow> now \<le> tr_timeout tr"

definition about :: "digest option \<Rightarrow> trouble \<Rightarrow> bool" where
  "about dg tr \<longleftrightarrow> dg = Some (tr_digest tr)"

lemma memcmp_eq: "length a = length b \<Longrightarrow> memcmp a b = 0 \<longleftrightarrow> a = b"
  using memcmp_order [of a b] by (metis linorder_neqE_linordered_idom order_less_irrefl less_linear)

text \<open>The scan: what it keeps, what it counts and what it answers.\<close>

lemma trouble_scan_correct:
  assumes "trouble_scan dg now trs n = (l, n', bl)" "list_all trouble_ok trs"
    "case dg of None \<Rightarrow> True | Some d \<Rightarrow> length d = DIGEST_LEN"
  shows "bl \<longleftrightarrow> (\<exists>tr \<in> set trs. live now tr \<and> about dg tr)"
    and "filter (live now) l = filter (live now) trs"
    and "\<not> bl \<Longrightarrow> l = filter (live now) trs"
    and "n' = n - of_nat (length trs) + of_nat (length l)"
    and "set l \<subseteq> set trs" and "length l \<le> length trs"
proof -
  have "(bl \<longleftrightarrow> (\<exists>tr \<in> set trs. live now tr \<and> about dg tr)) \<and>
    filter (live now) l = filter (live now) trs \<and> (\<not> bl \<longrightarrow> l = filter (live now) trs) \<and>
    n' = n - of_nat (length trs) + of_nat (length l) \<and> set l \<subseteq> set trs \<and> length l \<le> length trs"
    using assms
  proof (induction trs arbitrary: n l n' bl)
    case (Cons tr trs)
    consider "tr_timeout tr < now" | "live now tr" "about dg tr" | "live now tr" "\<not> about dg tr"
      unfolding live_def by linarith
    then show ?case
    proof cases
      case 1
      then have "\<not> live now tr" by (simp add: live_def)
      with 1 Cons.IH [of "n - 1" l n' bl] Cons.prems show ?thesis by auto
    next
      case 2
      then have "\<not> tr_timeout tr < now" "case dg of None \<Rightarrow> False | Some d \<Rightarrow> memcmp (tr_digest tr) d = 0"
        by (auto simp: live_def about_def memcmp_eq)
      with 2 Cons.prems show ?thesis by auto
    next
      case 3
      then have "\<not> tr_timeout tr < now" "\<not> (case dg of None \<Rightarrow> False | Some d \<Rightarrow> memcmp (tr_digest tr) d = 0)"
        using Cons.prems by (auto simp: live_def about_def memcmp_eq trouble_ok_def split: option.splits)
      then obtain l1 where "trouble_scan dg now trs n = (l1, n', bl)" "l = tr # l1"
        using Cons.prems(1) by (auto split: prod.splits)
      with Cons.IH [of n l1 n' bl] Cons.prems 3 show ?thesis by auto
    qed
  qed auto
  then show "bl \<longleftrightarrow> (\<exists>tr \<in> set trs. live now tr \<and> about dg tr)"
    and "filter (live now) l = filter (live now) trs"
    and "\<not> bl \<Longrightarrow> l = filter (live now) trs"
    and "n' = n - of_nat (length trs) + of_nat (length l)"
    and "set l \<subseteq> set trs" and "length l \<le> length trs" by blast+
qed

definition dg_ok :: "digest option \<Rightarrow> bool" where
  "dg_ok dg \<longleftrightarrow> (case dg of None \<Rightarrow> True | Some d \<Rightarrow> length d = DIGEST_LEN)"

text \<open>The verdict in terms of the entries that are still live.\<close>

definition verdict :: "digest option \<Rightarrow> double \<Rightarrow> vmod_saintmode_saintmode \<Rightarrow> bool" where
  "verdict dg now ob \<longleftrightarrow> \<not> (\<exists>tr \<in> set (troublelist ob). live now tr \<and> about dg tr) \<and>
     length (filter (live now) (troublelist ob)) < unat (threshold ob)"

lemma is_digest_healthy_correct:
  assumes h: "sm_heap s sm = Some ob" and ok: "obj_ok ob" and dg: "dg_ok dg"
    and small: "length (troublelist ob) < 2 ^ 32"
  shows "\<exists>vsl' ob'. is_digest_healthy bes sm dg now vsl s =
      Inr (verdict dg now ob, vsl', s\<lparr>sm_heap := (sm_heap s)(sm \<mapsto> ob')\<rparr>) \<and> obj_ok ob' \<and>
    filter (live now) (troublelist ob') = filter (live now) (troublelist ob) \<and>
    (\<not> (\<exists>tr \<in> set (troublelist ob). live now tr \<and> about dg tr) \<longrightarrow> list_all (live now) (troublelist ob')) \<and>
    ob' = ob\<lparr>troublelist := troublelist ob', n_trouble := n_trouble ob'\<rparr> \<and> (vsl = None \<longrightarrow> vsl' = None)"
proof -
  obtain l n bl where sc: "trouble_scan dg now (troublelist ob) (n_trouble ob) = (l, n, bl)"
    by (metis prod_cases3)
  have ok': "list_all trouble_ok (troublelist ob)" "n_trouble ob = of_nat (length (troublelist ob))"
    using ok by (auto simp: obj_ok_def)
  note c = trouble_scan_correct [OF sc ok'(1) dg [unfolded dg_ok_def]]
  have n: "n = of_nat (length l)" using c(4) ok'(2) by simp
  have un: "unat n = length l" using n c(6) small by (simp add: unsigned_of_nat take_bit_nat_eq_self)
  let ?ob = "ob\<lparr>troublelist := l, n_trouble := n\<rparr>"
  have v: "(if threshold ob \<le> n then False else \<not> bl) = verdict dg now ob"
  proof (cases bl)
    case True
    then show ?thesis using c(1) by (auto simp: verdict_def)
  next
    case False
    then have "verdict dg now ob \<longleftrightarrow> length l < unat (threshold ob)" using c(1,3) by (auto simp: verdict_def)
    also have "\<dots> \<longleftrightarrow> \<not> threshold ob \<le> n" by (simp add: word_le_nat_alt un not_le)
    finally show ?thesis using False by simp
  qed
  have "obj_ok ?ob" using n c(5) ok'(1) by (auto simp: obj_ok_def list_all_iff)
  moreover have "list_all (live now) l" if "\<not> (\<exists>tr \<in> set (troublelist ob). live now tr \<and> about dg tr)"
    using that c(1,3) by (auto simp: list_all_iff)
  ultimately show ?thesis
    using h sc v c(2) by (auto simp: is_digest_healthy_def Let_def split: option.splits)
qed

lemma sm_inv_update:
  "sm_inv s \<Longrightarrow> sm_heap s p = Some ob \<Longrightarrow> obj_ok ob' \<Longrightarrow> sm_inv (s\<lparr>sm_heap := (sm_heap s)(p \<mapsto> ob')\<rparr>)"
  unfolding sm_inv_def by (auto split: option.splits if_splits)

lemma sm_inv_ok: "sm_inv s \<Longrightarrow> sm_heap s p = Some ob \<Longrightarrow> obj_ok ob"
  by (simp add: sm_inv_def)

lemma is_digest_healthy_inv [inv_intros]:
  assumes "sm_inv s" "dg_ok dg" "is_digest_healthy bes sm dg now vsl s = Inr (r, v, s')"
  shows "sm_inv s'"
proof -
  from assms(3) obtain ob where h: "sm_heap s sm = Some ob" by (auto simp: is_digest_healthy_def)
  obtain l n bl where sc: "trouble_scan dg now (troublelist ob) (n_trouble ob) = (l, n, bl)"
    by (metis prod_cases3)
  have ok: "list_all trouble_ok (troublelist ob)" "n_trouble ob = of_nat (length (troublelist ob))"
    using sm_inv_ok [OF assms(1) h] by (auto simp: obj_ok_def)
  note c = trouble_scan_correct [OF sc ok(1) assms(2) [unfolded dg_ok_def]]
  have "obj_ok (ob\<lparr>troublelist := l, n_trouble := n\<rparr>)" using c(4,5) ok by (auto simp: obj_ok_def list_all_iff)
  from sm_inv_update [OF assms(1) h this] assms(3) h sc show ?thesis
    by (auto simp: is_digest_healthy_def Let_def)
qed

definition bo_ok :: "busyobj option \<Rightarrow> bool" where
  "bo_ok bo \<longleftrightarrow> (case bo of None \<Rightarrow> True | Some b \<Rightarrow> length (bo_digest b) = DIGEST_LEN)"

definition req_ok :: "request option \<Rightarrow> bool" where
  "req_ok req \<longleftrightarrow> (case req of None \<Rightarrow> True | Some r \<Rightarrow> length (req_digest r) = DIGEST_LEN)"

lemma dg_ok_simps [simp]: "dg_ok None" "dg_ok (Some d) \<longleftrightarrow> length d = DIGEST_LEN"
  by (simp_all add: dg_ok_def)

lemma sm_healthy_inv [inv_intros]:
  assumes "sm_inv s" "bo_ok bo" "sm_healthy bes now sm bo vsl s = Inr (r, v, s')"
  shows "sm_inv s'"
  using assms
  by (cases bo)
    (auto simp: sm_healthy_def bo_ok_def split: if_splits intro: is_digest_healthy_inv [OF assms(1), rotated])

lemma is_healthy_inv [inv_intros]:
  assumes "sm_inv s" "bo_ok (sm_bo ctx)" "req_ok (sm_req ctx)"
    "vmod_saintmode_is_healthy bes now ctx sm s = Inr (r, ctx', s')"
  shows "sm_inv s'"
  using assms
  by (cases "sm_req ctx")
    (auto simp: vmod_saintmode_is_healthy_def req_ok_def Let_def split: if_splits
      intro: is_digest_healthy_inv [OF assms(1), rotated] sm_healthy_inv [OF assms(1,2)])

lemma resolve_inv [inv_intros]:
  assumes "sm_inv s" "bo_ok bo" "resolve bes now sm bo vsl s = Inr (r, v, s')"
  shows "sm_inv s'"
  using assms by (auto simp: resolve_def split: if_splits intro: sm_healthy_inv [OF assms(1,2)])

lemma blacklist_inv [inv_intros]:
  assumes "sm_inv s" "bo_ok (sm_bo ctx)" "vmod_blacklist bes ctx s e = Inr (ctx', s')"
  shows "sm_inv s'"
proof -
  consider "s' = s" | sm ob bo where "sm_bo ctx = Some bo" "sm_heap s sm = Some ob"
    "s' = s\<lparr>sm_heap := (sm_heap s)(sm \<mapsto> ob\<lparr>troublelist :=
       \<lparr>tr_digest = bo_digest bo, tr_timeout = dadd (bo_t_prev bo) e\<rparr> # troublelist ob, n_trouble := n_trouble ob + 1\<rparr>)\<rparr>"
  proof (cases "sm_objs s")
    case (Some sms)
    show ?thesis
    proof (cases "sm_method ctx = VCL_MET_BACKEND_RESPONSE")
      case True
      with Some assms(3) obtain bo where bo: "sm_bo ctx = Some bo"
        by (cases "sm_bo ctx") (simp_all add: vmod_blacklist_def)
      with True Some assms(3) obtain r where "find_sm (sm_heap s) sms (director_resp bo) = Inr r"
        by (auto simp: vmod_blacklist_def)
      note run = assms(3) [unfolded vmod_blacklist_def Some option.case True bo this res_bind_simps Let_def]
      show ?thesis
      proof (cases r)
        case None
        with run have "s' = s" by simp
        then show ?thesis by (rule that(1))
      next
        case (Some sm)
        with run obtain ob where "sm_heap s sm = Some ob"
          "s' = s\<lparr>sm_heap := (sm_heap s)(sm \<mapsto> ob\<lparr>troublelist :=
             \<lparr>tr_digest = bo_digest bo, tr_timeout = dadd (bo_t_prev bo) e\<rparr> # troublelist ob, n_trouble := n_trouble ob + 1\<rparr>)\<rparr>"
          by auto
        with bo show ?thesis by (rule that(2))
      qed
    next
      case False
      with Some assms(3) have "s' = s" by (simp add: vmod_blacklist_def)
      then show ?thesis by (rule that(1))
    qed
  next
    case None
    with assms(3) have "s' = s" by (simp add: vmod_blacklist_def)
    then show ?thesis by (rule that(1))
  qed
  then show ?thesis
  proof cases
    case 2
    have "obj_ok ob" by (rule sm_inv_ok [OF assms(1) 2(2)])
    then have "obj_ok (ob\<lparr>troublelist :=
       \<lparr>tr_digest = bo_digest bo, tr_timeout = dadd (bo_t_prev bo) e\<rparr> # troublelist ob, n_trouble := n_trouble ob + 1\<rparr>)"
      using assms(2) 2(1) by (simp add: obj_ok_def trouble_ok_def bo_ok_def)
    then show ?thesis unfolding 2(3) by (rule sm_inv_update [OF assms(1) 2(2)])
  qed (use assms in simp)
qed

lemma init_inv [inv_intros]:
  assumes "sm_inv s" "vmod_saintmode__init smp name be thr s = Inr (sm, s')"
  shows "sm_inv s'"
  using assms
  by (fastforce simp: vmod_saintmode__init_def sm_inv_def obj_ok_def Let_def less_Suc_eq split: option.splits if_splits)

lemma fini_inv [inv_intros]:
  assumes "sm_inv s" "vmod_saintmode__fini sm s = Inr s'"
  shows "sm_inv s'"
  using assms by (fastforce simp: vmod_saintmode__fini_def sm_inv_def split: option.splits if_splits)

section \<open>What the operations do\<close>

text \<open>
  \<open>sm\<close> is the object that \<open>blacklist\<close> works on: the first one on the list that was created for
  the backend of the response, in a call from \<open>vcl_backend_response\<close>.
\<close>

definition blacklist_target :: "'ws sm_ctx \<Rightarrow> sm_vcl \<Rightarrow> busyobj \<Rightarrow> addr \<Rightarrow> bool" where
  "blacklist_target ctx s bo sm \<longleftrightarrow> sm_method ctx = VCL_MET_BACKEND_RESPONSE \<and> sm_bo ctx = Some bo \<and>
     (\<exists>sms be. sm_objs s = Some sms \<and> set sms \<subseteq> dom (sm_heap s) \<and> director_resp bo = Some be \<and>
        find (\<lambda>p. map_option sm_be (sm_heap s p) = Some be) sms = Some sm)"

lemma find_sm_loop_find:
  "set sms \<subseteq> dom h \<Longrightarrow> find_sm_loop h sms be = Inr (find (\<lambda>p. map_option sm_be (h p) = Some be) sms)"
  by (induction sms) auto

lemma blacklist_correct:
  assumes "blacklist_target ctx s bo sm"
  shows "\<exists>ob v. sm_heap s sm = Some ob \<and>
    vmod_blacklist bes ctx s e = Inr (ctx\<lparr>sm_vsl := v\<rparr>, s\<lparr>sm_heap := (sm_heap s)(sm \<mapsto> ob\<lparr>troublelist :=
      \<lparr>tr_digest = bo_digest bo, tr_timeout = dadd (bo_t_prev bo) e\<rparr> # troublelist ob, n_trouble := n_trouble ob + 1\<rparr>)\<rparr>)"
proof -
  obtain sms be where t: "sm_method ctx = VCL_MET_BACKEND_RESPONSE" "sm_bo ctx = Some bo"
    "sm_objs s = Some sms" "set sms \<subseteq> dom (sm_heap s)" "director_resp bo = Some be"
    "find (\<lambda>p. map_option sm_be (sm_heap s p) = Some be) sms = Some sm"
    using assms by (auto simp: blacklist_target_def)
  have "find_sm (sm_heap s) sms (director_resp bo) = Inr (Some sm)"
    unfolding find_sm_def t(5) option.case find_sm_loop_find [OF t(4)] t(6) ..
  moreover obtain ob where "sm_heap s sm = Some ob" using t(6) by (auto simp: find_Some_iff)
  ultimately show ?thesis by (simp add: vmod_blacklist_def t(1-3) Let_def) (rule exI, rule refl)
qed

lemma blacklist_target_cong:
  assumes "sm_objs s' = sm_objs s" "\<And>p. map_option sm_be (sm_heap s' p) = map_option sm_be (sm_heap s p)"
    "sm_method ctx' = sm_method ctx" "sm_bo ctx' = sm_bo ctx"
  shows "blacklist_target ctx' s' bo sm = blacklist_target ctx s bo sm"
proof -
  have "dom (sm_heap s') = dom (sm_heap s)"
    using assms(2) by (auto simp: dom_def) (metis map_option_is_None not_Some_eq)+
  with assms show ?thesis by (simp add: blacklist_target_def)
qed

text \<open>Server side: a request for a backend with a threshold goes through \<open>is_digest_healthy\<close>.\<close>

lemma sm_healthy_correct:
  fixes now :: double
  assumes h: "sm_heap s sm = Some ob" and ok: "obj_ok ob" and bo: "bo_ok bo"
    and small: "length (troublelist ob) < 2 ^ 32" and thr: "threshold ob \<noteq> 0"
  defines "dg \<equiv> map_option bo_digest bo" and "t \<equiv> (case bo of None \<Rightarrow> now | Some b \<Rightarrow> bo_t_prev b)"
  shows "\<exists>v s'. sm_healthy bes now sm bo vsl s = Inr (verdict dg t ob \<and> be_healthy bes (sm_be ob) bo, v, s') \<and>
    map_option sm_be (sm_heap s' sm) = Some (sm_be ob)"
proof (cases "n_trouble ob = 0")
  case True
  have un: "unat (n_trouble ob) = length (troublelist ob)"
    using ok small by (simp add: obj_ok_def unsigned_of_nat take_bit_nat_eq_self)
  with True have "troublelist ob = []" by simp
  moreover have "0 < unat (threshold ob)" using thr by (simp add: unat_gt_0)
  ultimately have "verdict dg t ob" by (simp add: verdict_def)
  with True h show ?thesis by (simp add: sm_healthy_def)
next
  case False
  have "dg_ok dg" using bo by (simp add: dg_def dg_ok_def bo_ok_def split: option.splits)
  from is_digest_healthy_correct [OF h ok this small, of bes t "case bo of None \<Rightarrow> None | Some _ \<Rightarrow> Some vsl"]
  obtain v ob' where "is_digest_healthy bes sm dg t (case bo of None \<Rightarrow> None | Some _ \<Rightarrow> Some vsl) s =
      Inr (verdict dg t ob, v, s\<lparr>sm_heap := (sm_heap s)(sm \<mapsto> ob')\<rparr>)"
    "ob' = ob\<lparr>troublelist := troublelist ob', n_trouble := n_trouble ob'\<rparr>" by blast
  moreover from this(2) have "sm_be ob' = sm_be ob" by (metis vmod_saintmode_saintmode.ext_inject vmod_saintmode_saintmode.surjective vmod_saintmode_saintmode.update_convs(4,5))
  ultimately show ?thesis using h False thr
    by (cases bo) (auto simp: sm_healthy_def dg_def t_def)
qed

lemma resolve_correct:
  assumes "sm_heap s sm = Some ob" "obj_ok ob" "bo_ok bo" "length (troublelist ob) < 2 ^ 32" "threshold ob \<noteq> 0"
  shows "\<exists>v s'. resolve bes now sm bo vsl s =
    Inr (if verdict (map_option bo_digest bo) (case bo of None \<Rightarrow> now | Some b \<Rightarrow> bo_t_prev b) ob \<and>
           be_healthy bes (sm_be ob) bo then Some (sm_be ob) else None, v, s')"
proof -
  let ?r = "verdict (map_option bo_digest bo) (case bo of None \<Rightarrow> now | Some b \<Rightarrow> bo_t_prev b) ob \<and>
    be_healthy bes (sm_be ob) bo"
  obtain v s' where "sm_healthy bes now sm bo vsl s = Inr (?r, v, s')"
    "map_option sm_be (sm_heap s' sm) = Some (sm_be ob)"
    using sm_healthy_correct [OF assms, of bes now vsl] by blast
  then show ?thesis by (cases ?r) (auto simp: resolve_def res_bind_def deref_def split: option.splits)
qed

text \<open>The threshold 0 takes the list out of the decision.\<close>

lemma resolve_disabled:
  assumes "sm_heap s sm = Some ob" "threshold ob = 0"
  shows "resolve bes now sm bo vsl s = Inr (if be_healthy bes (sm_be ob) bo then Some (sm_be ob) else None, vsl, s)"
  using assms by (simp add: resolve_def sm_healthy_def)

text \<open>Blacklisting one object again and again.\<close>

fun blacklist_times :: "backends \<Rightarrow> 'ws sm_ctx \<Rightarrow> double \<Rightarrow> nat \<Rightarrow> sm_vcl \<Rightarrow> sm_vcl res" where
  "blacklist_times bes ctx e 0 s = Inr s"
| "blacklist_times bes ctx e (Suc k) s =
     res_bind (vmod_blacklist bes ctx s e) (\<lambda>(ctx', s'). blacklist_times bes ctx e k s')"

lemma blacklist_times_correct:
  assumes "blacklist_target ctx s bo sm" "sm_heap s sm = Some ob"
  shows "\<exists>s' ob'. blacklist_times bes ctx e k s = Inr s' \<and> sm_heap s' sm = Some ob' \<and>
    troublelist ob' = replicate k \<lparr>tr_digest = bo_digest bo, tr_timeout = dadd (bo_t_prev bo) e\<rparr> @ troublelist ob \<and>
    threshold ob' = threshold ob \<and> sm_be ob' = sm_be ob"
  using assms
proof (induction k arbitrary: s ob)
  case (Suc k)
  let ?ob = "ob\<lparr>troublelist := \<lparr>tr_digest = bo_digest bo, tr_timeout = dadd (bo_t_prev bo) e\<rparr> # troublelist ob,
    n_trouble := n_trouble ob + 1\<rparr>"
  let ?s = "s\<lparr>sm_heap := (sm_heap s)(sm \<mapsto> ?ob)\<rparr>"
  obtain v where b: "vmod_blacklist bes ctx s e = Inr (ctx\<lparr>sm_vsl := v\<rparr>, ?s)"
    using blacklist_correct [OF Suc.prems(1), of bes e] Suc.prems(2) by auto
  have "blacklist_target ctx ?s bo sm = blacklist_target ctx s bo sm"
    using Suc.prems(2) by (intro blacklist_target_cong) auto
  with Suc.prems(1) Suc.IH [of ?s ?ob] b show ?case
    by (auto simp: replicate_append_same replicate_app_Cons_same)
qed auto

text \<open>The states a VCL can reach: any sequence of calls, whatever the backends answer.\<close>

inductive sm_reach :: "backends \<Rightarrow> sm_vcl \<Rightarrow> bool" for bes where
  start: "sm_reach bes sm_initial"
| new: "sm_reach bes s \<Longrightarrow> vmod_saintmode__init smp name be thr s = Inr (sm, s') \<Longrightarrow> sm_reach bes s'"
| blacklist: "sm_reach bes s \<Longrightarrow> bo_ok (sm_bo ctx) \<Longrightarrow>
    vmod_blacklist bes (ctx :: unit sm_ctx) s e = Inr (ctx', s') \<Longrightarrow> sm_reach bes s'"
| is_healthy: "sm_reach bes s \<Longrightarrow> bo_ok (sm_bo ctx) \<Longrightarrow> req_ok (sm_req ctx) \<Longrightarrow>
    vmod_saintmode_is_healthy bes now (ctx :: unit sm_ctx) sm s = Inr (r, ctx', s') \<Longrightarrow> sm_reach bes s'"
| resolve: "sm_reach bes s \<Longrightarrow> bo_ok bo \<Longrightarrow> resolve bes now sm bo vsl s = Inr (d, v, s') \<Longrightarrow> sm_reach bes s'"
| fini: "sm_reach bes s \<Longrightarrow> vmod_saintmode__fini sm s = Inr s' \<Longrightarrow> sm_reach bes s'"

lemma sm_initial_inv: "sm_inv sm_initial"
  by (simp add: sm_inv_def sm_initial_def)

lemma sm_reach_inv: "sm_reach bes s \<Longrightarrow> sm_inv s"
  by (induction rule: sm_reach.induct) (blast intro: sm_initial_inv inv_intros)+

section \<open>Properties\<close>

text \<open>Two backends and a VCL with one director object in front of the first of them.\<close>

definition demo_backends :: backends where
  "demo_backends = \<lparr>be_vcl_name = (\<lambda>b. if b = 1 then ''foo'' else ''bar''), be_healthy = (\<lambda>b _. b = 1)\<rparr>"

definition demo_sm :: sm_vcl where
  "demo_sm = \<lparr>sm_heap = [1 \<mapsto> \<lparr>sm_vcl_name = ''sm1'', sm_be = 1, threshold = 2, n_trouble = 0, troublelist = []\<rparr>],
     sm_objs = Some [1], sm_next = 2\<rparr>"

lemma demo_sm_reach: "sm_reach demo_backends demo_sm"
  by (rule sm_reach.new [OF sm_reach.start, of None "''sm1''" "Some 1" 2 1])
    (simp add: vmod_saintmode__init_def sm_initial_def demo_sm_def)

definition demo_digest :: "u8 \<Rightarrow> digest" where
  "demo_digest x = replicate DIGEST_LEN x"

definition demo_bo :: "u8 \<Rightarrow> double \<Rightarrow> busyobj" where
  "demo_bo x t = \<lparr>bo_digest = demo_digest x, bo_t_prev = t, director_resp = Some 1\<rparr>"

definition demo_sm_ctx :: "unit sm_ctx" where
  "demo_sm_ctx = \<lparr>sm_method = VCL_MET_BACKEND_RESPONSE, sm_bo = Some (demo_bo 7 5), sm_req = None, sm_cws = (),
     sm_vsl = []\<rparr>"

text \<open>
  Claim C29. In every state a VCL can reach, the counter of each director object is the number of
  entries on its list (as \<open>blacklist_count\<close> reports it, modulo its 32 bits), whatever mix of
  blacklisting, health checks, resolutions, creations and deletions led there.
\<close>

theorem sm_count_invariant:
  assumes "sm_reach bes s" and "sm_heap s sm = Some ob"
  shows "vmod_saintmode_blacklist_count sm s = Inr (int (length (troublelist ob)) mod 2 ^ 32)"
  using sm_inv_ok [OF sm_reach_inv [OF assms(1)] assms(2)] assms(2)
  by (simp add: vmod_saintmode_blacklist_count_def obj_ok_def unsigned_of_nat take_bit_eq_mod zmod_int)

theorem sm_count_invariant_witness: "vmod_saintmode_blacklist_count 1 demo_sm = Inr 0"
  using sm_count_invariant [OF demo_sm_reach, of 1] by (simp add: demo_sm_def)

text \<open>
  Claim C9. What the director decides. For a reachable object with a threshold other than 0, a fetch is
  given the backend exactly when no entry for its object is still running, fewer entries than
  the threshold are still running, and the backend itself is healthy; otherwise it gets NULL.
  Entries that timed out never count, also when the scan stopped before removing them. With the
  threshold 0, which disables saintmode, the list plays no part: a fetch is given the backend
  exactly when that is healthy.
\<close>

theorem sm_resolve_iff:
  assumes "sm_reach bes s" and "sm_heap s sm = Some ob" and "length (bo_digest bo) = DIGEST_LEN"
    and "length (troublelist ob) < 2 ^ 32"
  shows "\<exists>v s'. resolve bes now sm (Some bo) vsl s = Inr (
    if (threshold ob = 0 \<or>
         (\<forall>tr \<in> set (troublelist ob). bo_t_prev bo \<le> tr_timeout tr \<longrightarrow> tr_digest tr \<noteq> bo_digest bo) \<and>
         length (filter (\<lambda>tr. bo_t_prev bo \<le> tr_timeout tr) (troublelist ob)) < unat (threshold ob)) \<and>
       be_healthy bes (sm_be ob) (Some bo)
    then Some (sm_be ob) else None, v, s')"
proof -
  have "verdict (Some (bo_digest bo)) (bo_t_prev bo) ob \<longleftrightarrow>
    (\<forall>tr \<in> set (troublelist ob). bo_t_prev bo \<le> tr_timeout tr \<longrightarrow> tr_digest tr \<noteq> bo_digest bo) \<and>
    length (filter (\<lambda>tr. bo_t_prev bo \<le> tr_timeout tr) (troublelist ob)) < unat (threshold ob)"
    by (auto simp: verdict_def live_def [abs_def] about_def)
  with resolve_correct [OF assms(2) sm_inv_ok [OF sm_reach_inv [OF assms(1)] assms(2)] _ assms(4), of "Some bo" bes now vsl]
    resolve_disabled [OF assms(2), of bes now "Some bo" vsl] assms(3)
  show ?thesis by (cases "threshold ob = 0") (simp_all add: bo_ok_def)
qed

theorem sm_resolve_iff_witness:
  "\<exists>v s'. resolve demo_backends 0 1 (Some (demo_bo 7 5)) [] demo_sm = Inr (Some 1, v, s')"
  using sm_resolve_iff [OF demo_sm_reach, of 1 _ "demo_bo 7 5" 0 "[]"]
  by (simp add: demo_sm_def demo_bo_def demo_digest_def demo_backends_def)

text \<open>
  Blacklisting works. After \<open>blacklist(expires)\<close> from \<open>vcl_backend_response\<close>, the director
  in front of that backend hands out no backend to a fetch of the same object until
  \<open>expires\<close> seconds have passed, whatever else is on the list.
\<close>

theorem sm_blacklist_enforced:
  assumes "sm_reach bes s" and "blacklist_target (ctx :: unit sm_ctx) s bo sm" and "length (bo_digest bo) = DIGEST_LEN"
    and "sm_heap s sm = Some ob" and "threshold ob \<noteq> 0" and "length (troublelist ob) < 2 ^ 32 - 1"
    and "vmod_blacklist bes ctx s expires = Inr (ctx', s')"
    and "bo_digest bo' = bo_digest bo" and "bo_t_prev bo' \<le> dadd (bo_t_prev bo) expires"
  shows "\<exists>v s''. resolve bes now sm (Some bo') vsl s' = Inr (None, v, s'')"
proof -
  let ?tr = "\<lparr>tr_digest = bo_digest bo, tr_timeout = dadd (bo_t_prev bo) expires\<rparr>"
  let ?ob = "ob\<lparr>troublelist := ?tr # troublelist ob, n_trouble := n_trouble ob + 1\<rparr>"
  have s': "sm_heap s' sm = Some ?ob"
    using blacklist_correct [OF assms(2), of bes expires] assms(4,7) by auto
  have "sm_inv s'"
    using assms(1-3,7) by (intro blacklist_inv [OF sm_reach_inv]) (auto simp: bo_ok_def blacklist_target_def)
  then have "obj_ok ?ob" using s' by (rule sm_inv_ok)
  moreover have "\<not> verdict (Some (bo_digest bo')) (bo_t_prev bo') ?ob"
    using assms(8,9) by (simp add: verdict_def live_def about_def)
  ultimately show ?thesis using resolve_correct [OF s', of "Some bo'" bes now vsl] assms(3,5,6,8)
    by (simp add: bo_ok_def)
qed

lemma demo_target: "blacklist_target demo_sm_ctx demo_sm (demo_bo 7 5) 1"
  by (simp add: blacklist_target_def demo_sm_ctx_def demo_sm_def demo_bo_def)

theorem sm_blacklist_enforced_witness:
  "\<exists>ctx s' v s''. vmod_blacklist demo_backends demo_sm_ctx demo_sm 20 = Inr (ctx, s') \<and>
     resolve demo_backends 0 1 (Some (demo_bo 7 24)) [] s' = Inr (None, v, s'')"
proof -
  obtain ctx s' where b: "vmod_blacklist demo_backends demo_sm_ctx demo_sm 20 = Inr (ctx, s')"
    using blacklist_correct [OF demo_target, of demo_backends 20] by blast
  have "\<exists>v s''. resolve demo_backends 0 1 (Some (demo_bo 7 24)) [] s' = Inr (None, v, s'')"
    by (rule sm_blacklist_enforced [OF demo_sm_reach demo_target _ _ _ _ b])
      (auto simp: demo_sm_def demo_bo_def demo_digest_def dadd_def)
  with b show ?thesis by blast
qed

text \<open>
  The threshold counts blacklist calls, not objects: blacklisting one and the same object
  \<open>threshold\<close> times makes the backend sick for every other object as well.
\<close>

theorem sm_threshold_counts_calls:
  assumes "sm_reach bes s" and "blacklist_target (ctx :: unit sm_ctx) s bo sm" and "length (bo_digest bo) = DIGEST_LEN"
    and "sm_heap s sm = Some ob" and "threshold ob \<noteq> 0" and "unat (threshold ob) \<le> k"
    and "k + length (troublelist ob) < 2 ^ 32"
    and "blacklist_times bes ctx expires k s = Inr s'"
    and "length (bo_digest bo') = DIGEST_LEN" and "bo_t_prev bo' \<le> dadd (bo_t_prev bo) expires"
  shows "\<exists>v s''. resolve bes now sm (Some bo') vsl s' = Inr (None, v, s'')"
proof -
  obtain ob' where ob': "sm_heap s' sm = Some ob'" "threshold ob' = threshold ob"
    "troublelist ob' = replicate k \<lparr>tr_digest = bo_digest bo, tr_timeout = dadd (bo_t_prev bo) expires\<rparr> @ troublelist ob"
    using blacklist_times_correct [OF assms(2,4), of bes expires k] assms(8) by auto
  have bo: "bo_ok (sm_bo ctx)" using assms(2,3) by (auto simp: bo_ok_def blacklist_target_def)
  have "sm_inv s \<Longrightarrow> blacklist_times bes ctx expires n s = Inr s' \<Longrightarrow> sm_inv s'" for n s
    by (induction n arbitrary: s) (auto dest: blacklist_inv [OF _ bo])
  then have "sm_inv s'" using sm_reach_inv [OF assms(1)] assms(8) by blast
  then have "obj_ok ob'" using ob'(1) by (rule sm_inv_ok)
  moreover have "\<not> verdict (Some (bo_digest bo')) (bo_t_prev bo') ob'"
    using assms(6,10) by (simp add: verdict_def live_def ob')
  ultimately show ?thesis using resolve_correct [OF ob'(1), of "Some bo'" bes now vsl] assms(5,7,9)
    by (simp add: bo_ok_def ob')
qed

theorem sm_threshold_counts_calls_witness:
  "\<exists>s' v s''. blacklist_times demo_backends demo_sm_ctx 20 2 demo_sm = Inr s' \<and>
     resolve demo_backends 0 1 (Some (demo_bo 8 24)) [] s' = Inr (None, v, s'')"
proof -
  obtain s' where b: "blacklist_times demo_backends demo_sm_ctx 20 2 demo_sm = Inr s'"
    using blacklist_times_correct [OF demo_target, of _ demo_backends 20 2] by (auto simp: demo_sm_def)
  have "\<exists>v s''. resolve demo_backends 0 1 (Some (demo_bo 8 24)) [] s' = Inr (None, v, s'')"
    by (rule sm_threshold_counts_calls [OF demo_sm_reach demo_target _ _ _ _ _ b])
      (auto simp: demo_sm_def demo_bo_def demo_digest_def dadd_def)
  with b show ?thesis by blast
qed

text \<open>
  A threshold of zero. For a fetch it switches the director off: the answer is the
  backend's own. For a client request \<open>is_healthy\<close> does not look at that: it compares zero with
  the counter and always answers that the backend is sick, without asking the backend.
\<close>

theorem sm_threshold_zero:
  assumes "sm_heap s sm = Some ob" and "threshold ob = 0"
  shows "(\<exists>v s'. resolve bes now sm bo vsl s = Inr (if be_healthy bes (sm_be ob) bo then Some (sm_be ob) else None, v, s')) \<and>
    (sm_req (ctx :: unit sm_ctx) \<noteq> None \<longrightarrow>
      (\<exists>ctx' s'. vmod_saintmode_is_healthy bes now ctx sm s = Inr (False, ctx', s')))"
  using assms
  by (auto simp: resolve_def sm_healthy_def vmod_saintmode_is_healthy_def is_digest_healthy_def Let_def split: prod.splits)

theorem sm_threshold_zero_witness:
  "\<exists>s v s1 ctx' s2. resolve demo_backends 0 1 None [] s = Inr (Some 1, v, s1) \<and>
     vmod_saintmode_is_healthy demo_backends 0 (demo_sm_ctx\<lparr>sm_req := Some \<lparr>req_digest = demo_digest 7, req_t_prev = 5\<rparr>\<rparr>)
       1 s = Inr (False, ctx', s2)"
proof -
  let ?ob = "\<lparr>sm_vcl_name = ''sm1'', sm_be = 1, threshold = 0, n_trouble = 0, troublelist = []\<rparr>"
  let ?s = "demo_sm\<lparr>sm_heap := [1 \<mapsto> ?ob]\<rparr>"
  let ?ctx = "demo_sm_ctx\<lparr>sm_req := Some \<lparr>req_digest = demo_digest 7, req_t_prev = 5\<rparr>\<rparr>"
  have "sm_heap ?s 1 = Some ?ob" "threshold ?ob = 0" by simp_all
  from sm_threshold_zero [OF this, of demo_backends 0 None "[]" ?ctx]
  show ?thesis by (auto simp: demo_backends_def)
qed

text \<open>
  Without any director object in the VCL, \<open>blacklist\<close> says so in the log and does nothing,
  but \<open>status\<close> aborts the process.
\<close>

theorem sm_unconfigured:
  "vmod_status api bes (ctx :: 'ws sm_ctx) sm_initial = Inl AssertFail \<and>
   vmod_blacklist bes ctx sm_initial e =
     Inr (ctx\<lparr>sm_vsl := sm_vsl ctx @ [(SLT_VCL_Error, ''saintmode.blacklist(): Saintmode is not configured'', [])]\<rparr>,
       sm_initial)"
  by (simp add: vmod_status_def vmod_blacklist_def sm_initial_def VSLb_def)

text \<open>
  For a client request \<open>is_healthy\<close> never consults the backend: its answer is that of the
  list and the threshold alone, also from \<open>vcl_recv\<close>, where there is no object to look up.
\<close>

theorem sm_client_ignores_backend:
  assumes "sm_req ctx = Some req"
  shows "vmod_saintmode_is_healthy (bes\<lparr>be_healthy := f\<rparr>) now ctx sm s = vmod_saintmode_is_healthy bes now ctx sm s"
  using assms by (simp add: vmod_saintmode_is_healthy_def is_digest_healthy_def Let_def)

theorem sm_client_ignores_backend_witness:
  "\<exists>ctx' s'. vmod_saintmode_is_healthy (demo_backends\<lparr>be_healthy := \<lambda>_ _. False\<rparr>) 0
     (demo_sm_ctx\<lparr>sm_method := VCL_MET_RECV, sm_req := Some \<lparr>req_digest = demo_digest 7, req_t_prev = 5\<rparr>\<rparr>) 1 demo_sm =
     Inr (True, ctx', s')"
proof -
  let ?ctx = "demo_sm_ctx\<lparr>sm_method := VCL_MET_RECV, sm_req := Some \<lparr>req_digest = demo_digest 7, req_t_prev = 5\<rparr>\<rparr>"
  have "\<exists>ctx' s'. vmod_saintmode_is_healthy demo_backends 0 ?ctx 1 demo_sm = Inr (True, ctx', s')"
    by (simp add: vmod_saintmode_is_healthy_def is_digest_healthy_def Let_def demo_sm_def)
  moreover have "sm_req ?ctx = Some \<lparr>req_digest = demo_digest 7, req_t_prev = 5\<rparr>" by simp
  ultimately show ?thesis by (simp only: sm_client_ignores_backend [of ?ctx])
qed

end
