(* ===== verification/Traces.thy ===== *)
theory Traces
  imports Prelude
begin

text \<open>
  Systems whose steps carry the events an observer sees, an empty list for a silent step, and
  the simulation argument: when every step of one system can be matched by steps of another
  with the same events, every sequence of events of the first is one of the second.
\<close>

inductive traced :: "('s \<Rightarrow> 'e list \<Rightarrow> 's \<Rightarrow> bool) \<Rightarrow> 's \<Rightarrow> 'e list \<Rightarrow> 's \<Rightarrow> bool" for step s where
  traced_nil: "traced step s [] s"
| traced_step: "traced step s es t \<Longrightarrow> step t e u \<Longrightarrow> traced step s (es @ e) u"

declare traced_nil [simp, intro]

lemma traced_one: "step s e t \<Longrightarrow> traced step s e t"
  using traced_step [OF traced_nil] by force

lemma traced_silent: "traced step s es t \<Longrightarrow> step t [] u \<Longrightarrow> traced step s es u"
  using traced_step by force

lemma traced_append: "traced step t es' u \<Longrightarrow> traced step s es t \<Longrightarrow> traced step s (es @ es') u"
  by (induction rule: traced.induct) (auto simp flip: append_assoc intro: traced_step)

lemma traced_invariant:
  assumes "traced step s es t" "I s" "\<And>s e t. I s \<Longrightarrow> step s e t \<Longrightarrow> I t"
  shows "I t"
  using assms by (induction rule: traced.induct) blast+

lemma traced_split:
  assumes "traced step s es t" "es = xs @ ys" "\<And>s e t. step s e t \<Longrightarrow> length e \<le> 1"
  shows "\<exists>u. traced step s xs u \<and> traced step u ys t"
  using assms(1,2)
proof (induction arbitrary: ys rule: traced.induct)
  case (traced_step es t e u)
  have st: "traced step s (es @ e) u" by (rule traced.traced_step [OF traced_step.hyps])
  show ?case
  proof (cases ys rule: rev_cases)
    case Nil
    with st traced_step.prems show ?thesis by auto
  next
    case (snoc ys' y)
    from assms(3) [OF traced_step.hyps(2)] consider "e = []" | z where "e = [z]"
      by (cases e) auto
    then show ?thesis
    proof cases
      case 1
      with traced_step.IH [of ys] traced_step.prems traced_step.hyps(2) show ?thesis
        by (auto intro: traced_silent)
    next
      case 2
      with traced_step.prems snoc have "es = xs @ ys'" "e = [y]" by auto
      with traced_step.IH [of ys'] traced_step.hyps(2) snoc show ?thesis
        by (auto intro: traced.traced_step)
    qed
  qed
qed auto

locale simulation =
  fixes cstep :: "'c \<Rightarrow> 'e list \<Rightarrow> 'c \<Rightarrow> bool" and astep :: "'a \<Rightarrow> 'e list \<Rightarrow> 'a \<Rightarrow> bool"
    and related :: "'c \<Rightarrow> 'a \<Rightarrow> bool"
  assumes match: "related c a \<Longrightarrow> cstep c e c' \<Longrightarrow> \<exists>a'. traced astep a e a' \<and> related c' a'"
begin

lemma trace_inclusion:
  "traced cstep c es c' \<Longrightarrow> related c a \<Longrightarrow> \<exists>a'. traced astep a es a' \<and> related c' a'"
proof (induction rule: traced.induct)
  case (traced_step es c1 e c2)
  then obtain a1 where "traced astep a es a1" "related c1 a1" by blast
  with match [OF this(2) traced_step.hyps(2)] show ?case by (blast intro: traced_append)
qed blast

end

end
