(* ===== verification/Saintmode_Lock.thy ===== *)
theory Saintmode_Lock
  imports Saintmode Traces "HOL-Library.Multiset"
begin

text \<open>
  The locking of \<^verbatim>\<open>src/src/vmod_saintmode.c\<close>. Theory \<open>Saintmode\<close> takes a call as one step on lists
  of trouble entries; here every call is a thread, each of its statements is a step, and the
  entries are on a heap of their own: \<open>blacklist\<close> allocates one, the loop of \<open>is_digest_healthy\<close>
  moves those that timed out to a list of its own, and frees them when it has dropped the
  lock. Each director object has a mutex; \<open>healthy\<close> tests the counter without it. The
  theorems are in \<open>Saintmode_Threads\<close>. Creating and deleting director objects is left out, as
  varnishd does both while no task uses the VCL, and \<open>status\<close>, which reads one object after
  the other and so describes no single moment.
\<close>

section \<open>Threads\<close>

record sm_obj =
  so_vcl_name :: string
  so_be :: addr
  so_threshold :: u32
  so_n_trouble :: u32
  so_troublelist :: "addr list"

record sm_mem =
  mm_objs :: "addr \<rightharpoonup> sm_obj"
  mm_sm_list :: "addr list option"
  mm_obj_next :: addr
  mm_trouble :: "addr \<rightharpoonup> trouble"
  mm_next :: addr

text \<open>
  The calls and what they return. The queries are those that go through \<open>is_digest_healthy\<close>, the
  callback \<open>healthy\<close> of varnishd among them.
\<close>

datatype sm_query =
    Is_healthy double "unit sm_ctx" addr
  | Healthy double addr "busyobj option" vsl_log
  | Resolve double addr "busyobj option" vsl_log

datatype sm_call = C_blacklist "unit sm_ctx" double | C_count addr | C_query sm_query

datatype sm_ret =
    R_blacklist "unit sm_ctx"
  | R_count int
  | R_is_healthy bool "unit sm_ctx"
  | R_healthy bool vsl_log
  | R_resolve "addr option" vsl_log

text \<open>
  Where a thread is: before the statement of that name, with the director object it works on
  and the local variables it still needs: the entry that was allocated; in the loop, the next
  entry \<open>tr\<close> and the list of those that timed out; then the verdict.
\<close>

datatype sm_pc =
    Idle | Enter
  | B_Alloc addr | B_Lock addr addr | B_Insert addr addr | B_Count addr | B_Log addr
  | Q_Lock addr | Q_Read addr
  | H_Test addr | H_Lock addr | H_First addr | H_Scan addr "addr option" "addr list"
  | H_Count addr "addr option" "addr list" | H_Decide addr bool "addr list"
  | H_Unlock addr bool bool "addr list" | H_Free addr bool bool "addr list"
  | Unlocking addr sm_ret | Leave sm_ret | Left

fun query_obj :: "sm_query \<Rightarrow> addr" where
  "query_obj (Is_healthy _ _ sm) = sm"
| "query_obj (Healthy _ sm _ _) = sm"
| "query_obj (Resolve _ sm _ _) = sm"

text \<open>
  \<open>is_healthy\<close> calls \<open>is_digest_healthy\<close> for a client request; otherwise, as \<open>resolve\<close> does, it goes
  through \<open>healthy\<close>, which tests the counter first.
\<close>

fun tests_first :: "sm_query \<Rightarrow> bool" where
  "tests_first (Is_healthy _ ctx _) = (sm_req ctx = None)"
| "tests_first _ = True"

definition bo_scan :: "double \<Rightarrow> busyobj option \<Rightarrow> digest option \<times> double" where
  "bo_scan now bo = (case bo of None \<Rightarrow> (None, now) | Some b \<Rightarrow> (Some (bo_digest b), bo_t_prev b))"

text \<open>The arguments \<open>digest\<close> and \<open>t_prev\<close> of \<open>is_digest_healthy\<close>.\<close>

fun scan_args :: "sm_query \<Rightarrow> digest option \<times> double" where
  "scan_args (Is_healthy now ctx _) =
     (case sm_req ctx of
        Some req \<Rightarrow>
          (if sm_method ctx = VCL_MET_RECV \<or> sm_method ctx = VCL_MET_HASH then None else Some (req_digest req),
           req_t_prev req)
      | None \<Rightarrow> bo_scan now (sm_bo ctx))"
| "scan_args (Healthy now _ bo _) = bo_scan now bo"
| "scan_args (Resolve now _ bo _) = bo_scan now bo"

text \<open>What \<open>is_digest_healthy\<close> logs, and what its callers make of the verdict.\<close>

definition log_verdict :: "backends \<Rightarrow> addr \<Rightarrow> bool \<Rightarrow> bool \<Rightarrow> vsl_log \<Rightarrow> vsl_log" where
  "log_verdict bes be retval bl v =
     (let name = ArgStr (be_vcl_name bes be) in
      if bl then VSLb SLT_VCL_Log ''saintmode: unhealthy: object blacklisted for backend %s'' [name] v
      else if \<not> retval then VSLb SLT_VCL_Log ''saintmode: unhealthy: hit threshold for backend %s'' [name] v
      else v)"

definition log_bo :: "backends \<Rightarrow> addr \<Rightarrow> busyobj option \<Rightarrow> bool \<Rightarrow> bool \<Rightarrow> vsl_log \<Rightarrow> vsl_log" where
  "log_bo bes be bo retval bl v = (if bo = None then v else log_verdict bes be retval bl v)"

fun health_ret :: "backends \<Rightarrow> sm_query \<Rightarrow> addr \<Rightarrow> bool \<Rightarrow> bool \<Rightarrow> sm_ret" where
  "health_ret bes (Is_healthy now ctx _) be retval bl =
     (if sm_req ctx \<noteq> None then
        R_is_healthy retval (ctx\<lparr>sm_vsl := log_verdict bes be retval bl (sm_vsl ctx)\<rparr>)
      else R_is_healthy (retval \<and> be_healthy bes be (sm_bo ctx))
        (ctx\<lparr>sm_vsl := log_bo bes be (sm_bo ctx) retval bl (sm_vsl ctx)\<rparr>))"
| "health_ret bes (Resolve now _ bo v) be retval bl =
     R_resolve (if retval \<and> be_healthy bes be bo then Some be else None) (log_bo bes be bo retval bl v)"
| "health_ret bes (Healthy now _ bo v) be retval bl =
     R_healthy (retval \<and> be_healthy bes be bo) (log_bo bes be bo retval bl v)"

fun find_sm_obj :: "(addr \<rightharpoonup> sm_obj) \<Rightarrow> addr list \<Rightarrow> addr \<Rightarrow> addr option res" where
  "find_sm_obj h [] be = Inr None"
| "find_sm_obj h (sm # sms) be =
     res_bind (deref h sm) (\<lambda>ob. if so_be ob = be then Inr (Some sm) else find_sm_obj h sms be)"

text \<open>\<open>blacklist\<close> up to the allocation: the early returns and the search for the object.\<close>

definition enter_blacklist :: "unit sm_ctx \<Rightarrow> sm_mem \<Rightarrow> sm_pc res" where
  "enter_blacklist ctx m =
     (let fail = (\<lambda>msg. Leave (R_blacklist (ctx\<lparr>sm_vsl := VSLb SLT_VCL_Error msg [] (sm_vsl ctx)\<rparr>))) in
      case mm_sm_list m of
        None \<Rightarrow> Inr (fail ''saintmode.blacklist(): Saintmode is not configured'')
      | Some sms \<Rightarrow>
        if sm_method ctx \<noteq> VCL_MET_BACKEND_RESPONSE then
          Inr (fail ''saintmode.blacklist() called outside of vcl_backend_response'')
        else case sm_bo ctx of None \<Rightarrow> Inl AssertFail | Some bo \<Rightarrow>
          case director_resp bo of None \<Rightarrow> Inl AssertFail | Some be \<Rightarrow>
          res_bind (find_sm_obj (mm_objs m) sms be) (\<lambda>r.
          case r of
            None \<Rightarrow> Inr (fail ''Error: saintmode.blacklist(): Saintmode not configured for this backend.'')
          | Some sm \<Rightarrow> Inr (B_Alloc sm)))"

definition blacklist_ret :: "backends \<Rightarrow> unit sm_ctx \<Rightarrow> double \<Rightarrow> addr \<Rightarrow> sm_ret" where
  "blacklist_ret bes ctx expires be =
     R_blacklist (ctx\<lparr>sm_vsl := VSLb SLT_VCL_Log
       ''saintmode: object put on blacklist for backend %s for %.2f seconds''
       [ArgStr (be_vcl_name bes be), ArgDbl expires] (sm_vsl ctx)\<rparr>)"

text \<open>\<open>VTAILQ_NEXT\<close>\<close>

definition next_of :: "addr \<Rightarrow> addr list \<Rightarrow> addr option" where
  "next_of a xs = (case dropWhile (\<lambda>x. x \<noteq> a) xs of _ # b # _ \<Rightarrow> Some b | _ \<Rightarrow> None)"

definition about_digest :: "digest option \<Rightarrow> trouble \<Rightarrow> bool" where
  "about_digest dg tr = (case dg of None \<Rightarrow> False | Some d \<Rightarrow> memcmp (tr_digest tr) d = 0)"

abbreviation upd_obj :: "addr \<Rightarrow> sm_obj \<Rightarrow> sm_mem \<Rightarrow> sm_mem" where
  "upd_obj sm ob m \<equiv> m\<lparr>mm_objs := (mm_objs m)(sm \<mapsto> ob)\<rparr>"

text \<open>One statement that is not an operation on a mutex.\<close>

fun sm_stmt :: "backends \<Rightarrow> sm_call \<Rightarrow> sm_pc \<Rightarrow> sm_mem \<Rightarrow> (sm_pc \<times> sm_mem) res" where
  "sm_stmt bes (C_blacklist ctx _) Enter m = res_bind (enter_blacklist ctx m) (\<lambda>pc. Inr (pc, m))"
| "sm_stmt bes (C_count sm) Enter m = res_bind (deref (mm_objs m) sm) (\<lambda>_. Inr (Q_Lock sm, m))"
| "sm_stmt bes (C_query q) Enter m =
     res_bind (deref (mm_objs m) (query_obj q)) (\<lambda>_.
     Inr (if tests_first q then H_Test (query_obj q) else H_Lock (query_obj q), m))"
| "sm_stmt bes (C_blacklist ctx expires) (B_Alloc sm) m =
     (case sm_bo ctx of None \<Rightarrow> Inl NullDeref | Some bo \<Rightarrow>
      let tp = mm_next m; x = \<lparr>tr_digest = bo_digest bo, tr_timeout = dadd (bo_t_prev bo) expires\<rparr> in
      Inr (B_Lock sm tp, m\<lparr>mm_trouble := (mm_trouble m)(tp \<mapsto> x), mm_next := Suc tp\<rparr>))"
| "sm_stmt bes c (B_Insert sm tp) m =
     res_bind (deref (mm_objs m) sm) (\<lambda>ob.
     Inr (B_Count sm, upd_obj sm (ob\<lparr>so_troublelist := tp # so_troublelist ob\<rparr>) m))"
| "sm_stmt bes c (B_Count sm) m =
     res_bind (deref (mm_objs m) sm) (\<lambda>ob.
     Inr (B_Log sm, upd_obj sm (ob\<lparr>so_n_trouble := so_n_trouble ob + 1\<rparr>) m))"
| "sm_stmt bes (C_blacklist ctx expires) (B_Log sm) m =
     res_bind (deref (mm_objs m) sm) (\<lambda>ob. Inr (Unlocking sm (blacklist_ret bes ctx expires (so_be ob)), m))"
| "sm_stmt bes c (Q_Read sm) m =
     res_bind (deref (mm_objs m) sm) (\<lambda>ob. Inr (Unlocking sm (R_count (uint (so_n_trouble ob))), m))"
| "sm_stmt bes (C_query q) (H_Test sm) m =
     res_bind (deref (mm_objs m) sm) (\<lambda>ob.
     Inr (if so_threshold ob = 0 \<or> so_n_trouble ob = 0 then Leave (health_ret bes q (so_be ob) True False)
          else H_Lock sm, m))"
| "sm_stmt bes c (H_First sm) m =
     res_bind (deref (mm_objs m) sm) (\<lambda>ob.
     Inr (H_Scan sm (case so_troublelist ob of [] \<Rightarrow> None | tr # _ \<Rightarrow> Some tr) [], m))"
| "sm_stmt bes c (H_Scan sm None gone) m = Inr (H_Decide sm False gone, m)"
| "sm_stmt bes (C_query q) (H_Scan sm (Some tr) gone) m =
     res_bind (deref (mm_objs m) sm) (\<lambda>ob.
     res_bind (deref (mm_trouble m) tr) (\<lambda>x.
     let tr2 = next_of tr (so_troublelist ob) in
     if tr_timeout x < snd (scan_args q) then
       Inr (H_Count sm tr2 (tr # gone), upd_obj sm (ob\<lparr>so_troublelist := remove1 tr (so_troublelist ob)\<rparr>) m)
     else if about_digest (fst (scan_args q)) x then Inr (H_Decide sm True gone, m)
     else Inr (H_Scan sm tr2 gone, m)))"
| "sm_stmt bes c (H_Count sm tr gone) m =
     res_bind (deref (mm_objs m) sm) (\<lambda>ob.
     Inr (H_Scan sm tr gone, upd_obj sm (ob\<lparr>so_n_trouble := so_n_trouble ob - 1\<rparr>) m))"
| "sm_stmt bes c (H_Decide sm bl gone) m =
     res_bind (deref (mm_objs m) sm) (\<lambda>ob.
     Inr (H_Unlock sm (if so_threshold ob \<le> so_n_trouble ob then False else \<not> bl) bl gone, m))"
| "sm_stmt bes c (H_Free sm retval bl (tr # gone)) m =
     res_bind (deref (mm_trouble m) tr) (\<lambda>_.
     Inr (H_Free sm retval bl gone, m\<lparr>mm_trouble := (mm_trouble m)(tr := None)\<rparr>))"
| "sm_stmt bes (C_query q) (H_Free sm retval bl []) m =
     res_bind (deref (mm_objs m) sm) (\<lambda>ob. Inr (Leave (health_ret bes q (so_be ob) retval bl), m))"
| "sm_stmt bes c pc m = Inl UndefBehav"

fun is_stmt :: "sm_pc \<Rightarrow> bool" where
  "is_stmt Idle = False"
| "is_stmt (B_Lock _ _) = False"
| "is_stmt (Q_Lock _) = False"
| "is_stmt (H_Lock _) = False"
| "is_stmt (H_Unlock _ _ _ _) = False"
| "is_stmt (Unlocking _ _) = False"
| "is_stmt (Leave _) = False"
| "is_stmt Left = False"
| "is_stmt _ = True"

text \<open>Locking and unlocking: the object whose mutex it is and the next statement.\<close>

fun locks :: "sm_pc \<Rightarrow> (addr \<times> sm_pc) option" where
  "locks (B_Lock sm tp) = Some (sm, B_Insert sm tp)"
| "locks (Q_Lock sm) = Some (sm, Q_Read sm)"
| "locks (H_Lock sm) = Some (sm, H_First sm)"
| "locks _ = None"

fun unlocks :: "sm_pc \<Rightarrow> (addr \<times> sm_pc) option" where
  "unlocks (Unlocking sm r) = Some (sm, Leave r)"
| "unlocks (H_Unlock sm retval bl gone) = Some (sm, H_Free sm retval bl gone)"
| "unlocks _ = None"

record sm_sys =
  ss_mem :: sm_mem
  ss_mtx :: "addr \<Rightarrow> nat option"
  ss_pc :: "nat \<Rightarrow> sm_pc"

datatype sm_event = Call nat | Return nat sm_ret

inductive sm_tstep :: "backends \<Rightarrow> (nat \<Rightarrow> sm_call) \<Rightarrow> nat \<Rightarrow> sm_sys \<Rightarrow> sm_event list \<Rightarrow> sm_sys \<Rightarrow> bool"
  for bes arg n where
  call: "i < n \<Longrightarrow> ss_pc s i = Idle \<Longrightarrow> sm_tstep bes arg n s [Call i] (s\<lparr>ss_pc := (ss_pc s)(i := Enter)\<rparr>)"
| stmt: "i < n \<Longrightarrow> is_stmt (ss_pc s i) \<Longrightarrow> sm_stmt bes (arg i) (ss_pc s i) (ss_mem s) = Inr (pc, m) \<Longrightarrow>
    sm_tstep bes arg n s [] (s\<lparr>ss_mem := m, ss_pc := (ss_pc s)(i := pc)\<rparr>)"
| lock: "i < n \<Longrightarrow> locks (ss_pc s i) = Some (sm, pc) \<Longrightarrow> ss_mtx s sm = None \<Longrightarrow>
    sm_tstep bes arg n s [] (s\<lparr>ss_mtx := (ss_mtx s)(sm := Some i), ss_pc := (ss_pc s)(i := pc)\<rparr>)"
| unlock: "i < n \<Longrightarrow> unlocks (ss_pc s i) = Some (sm, pc) \<Longrightarrow>
    sm_tstep bes arg n s [] (s\<lparr>ss_mtx := (ss_mtx s)(sm := None), ss_pc := (ss_pc s)(i := pc)\<rparr>)"
| return: "i < n \<Longrightarrow> ss_pc s i = Leave r \<Longrightarrow>
    sm_tstep bes arg n s [Return i r] (s\<lparr>ss_pc := (ss_pc s)(i := Left)\<rparr>)"

section \<open>Invariants of the threads\<close>

fun holds :: "sm_pc \<Rightarrow> addr option" where
  "holds (B_Insert sm _) = Some sm"
| "holds (B_Count sm) = Some sm"
| "holds (B_Log sm) = Some sm"
| "holds (Q_Read sm) = Some sm"
| "holds (H_First sm) = Some sm"
| "holds (H_Scan sm _ _) = Some sm"
| "holds (H_Count sm _ _) = Some sm"
| "holds (H_Decide sm _ _) = Some sm"
| "holds (H_Unlock sm _ _ _) = Some sm"
| "holds (Unlocking sm _) = Some sm"
| "holds _ = None"

text \<open>The entries that only this thread knows: not yet inserted, or taken off the list.\<close>

fun mine :: "sm_pc \<Rightarrow> addr list" where
  "mine (B_Lock _ tp) = [tp]"
| "mine (B_Insert _ tp) = [tp]"
| "mine (H_Scan _ _ gone) = gone"
| "mine (H_Count _ _ gone) = gone"
| "mine (H_Decide _ _ gone) = gone"
| "mine (H_Unlock _ _ _ gone) = gone"
| "mine (H_Free _ _ _ gone) = gone"
| "mine _ = []"

text \<open>By how much the counter differs from the length of the list in the middle of an update.\<close>

fun skew :: "sm_pc \<Rightarrow> u32" where
  "skew (B_Count _) = - 1"
| "skew (H_Count _ _ _) = 1"
| "skew _ = 0"

fun may_alloc :: "sm_pc \<Rightarrow> nat" where
  "may_alloc Idle = 1"
| "may_alloc Enter = 1"
| "may_alloc (B_Alloc _) = 1"
| "may_alloc _ = 0"

definition on_list :: "sm_mem \<Rightarrow> addr \<Rightarrow> addr option \<Rightarrow> bool" where
  "on_list m sm cur \<longleftrightarrow>
     (\<forall>a ob. cur = Some a \<longrightarrow> mm_objs m sm = Some ob \<longrightarrow> a \<in> set (so_troublelist ob))"

definition query_at :: "sm_call \<Rightarrow> sm_mem \<Rightarrow> addr \<Rightarrow> bool" where
  "query_at c m sm \<longleftrightarrow> (\<exists>q. c = C_query q \<and> query_obj q = sm) \<and> sm \<in> dom (mm_objs m)"

definition past_test :: "sm_call \<Rightarrow> sm_mem \<Rightarrow> addr \<Rightarrow> bool" where
  "past_test c m sm \<longleftrightarrow> query_at c m sm \<and>
     (\<forall>q ob. c = C_query q \<longrightarrow> tests_first q \<longrightarrow> mm_objs m sm = Some ob \<longrightarrow> so_threshold ob \<noteq> 0)"

definition blacklist_at :: "sm_call \<Rightarrow> sm_mem \<Rightarrow> addr \<Rightarrow> bool" where
  "blacklist_at c m sm \<longleftrightarrow> (\<exists>ctx e. c = C_blacklist ctx e \<and> enter_blacklist ctx m = Inr (B_Alloc sm))"

definition entry_of :: "sm_call \<Rightarrow> sm_mem \<Rightarrow> addr \<Rightarrow> bool" where
  "entry_of c m tp \<longleftrightarrow> (\<exists>ctx e bo. c = C_blacklist ctx e \<and> sm_bo ctx = Some bo \<and>
     mm_trouble m tp = Some \<lparr>tr_digest = bo_digest bo, tr_timeout = dadd (bo_t_prev bo) e\<rparr>)"

definition count_at :: "sm_call \<Rightarrow> sm_mem \<Rightarrow> addr \<Rightarrow> bool" where
  "count_at c m sm \<longleftrightarrow> c = C_count sm \<and> sm \<in> dom (mm_objs m)"

fun pc_fits :: "sm_call \<Rightarrow> sm_mem \<Rightarrow> sm_pc \<Rightarrow> bool" where
  "pc_fits c m (B_Alloc sm) = blacklist_at c m sm"
| "pc_fits c m (B_Lock sm tp) = (blacklist_at c m sm \<and> entry_of c m tp)"
| "pc_fits c m (B_Insert sm tp) = (blacklist_at c m sm \<and> entry_of c m tp)"
| "pc_fits c m (B_Count sm) = (blacklist_at c m sm \<and>
     (\<forall>ob. mm_objs m sm = Some ob \<longrightarrow> so_troublelist ob \<noteq> [] \<and> entry_of c m (hd (so_troublelist ob))))"
| "pc_fits c m (B_Log sm) = blacklist_at c m sm"
| "pc_fits c m (Q_Lock sm) = count_at c m sm"
| "pc_fits c m (Q_Read sm) = count_at c m sm"
| "pc_fits c m (H_Test sm) = (query_at c m sm \<and> (\<forall>q. c = C_query q \<longrightarrow> tests_first q))"
| "pc_fits c m (H_Lock sm) = past_test c m sm"
| "pc_fits c m (H_First sm) = past_test c m sm"
| "pc_fits c m (H_Scan sm cur _) = (past_test c m sm \<and> on_list m sm cur)"
| "pc_fits c m (H_Count sm cur _) = (past_test c m sm \<and> on_list m sm cur)"
| "pc_fits c m (H_Decide sm _ _) = past_test c m sm"
| "pc_fits c m (H_Unlock sm _ _ _) = past_test c m sm"
| "pc_fits c m (H_Free sm _ _ _) = past_test c m sm"
| "pc_fits c m pc = True"

text \<open>Every allocated entry is on the list of one object or in the hands of one thread, once.\<close>

definition all_listed :: "(addr \<rightharpoonup> sm_obj) \<Rightarrow> addr multiset" where
  "all_listed objs = (\<Sum>sm \<in> dom objs. mset (so_troublelist (the (objs sm))))"

definition owned :: "nat \<Rightarrow> sm_sys \<Rightarrow> bool" where
  "owned n s \<longleftrightarrow> finite (dom (mm_objs (ss_mem s))) \<and> finite (dom (mm_trouble (ss_mem s))) \<and>
     all_listed (mm_objs (ss_mem s)) + (\<Sum>i < n. mset (mine (ss_pc s i))) = mset_set (dom (mm_trouble (ss_mem s))) \<and>
     (\<forall>a \<in> dom (mm_trouble (ss_mem s)). a < mm_next (ss_mem s))"

definition mutexed :: "nat \<Rightarrow> sm_sys \<Rightarrow> bool" where
  "mutexed n s \<longleftrightarrow> (\<forall>i sm. holds (ss_pc s i) = Some sm \<longleftrightarrow> ss_mtx s sm = Some i) \<and> (\<forall>i. n \<le> i \<longrightarrow> ss_pc s i = Idle)"

definition holder_pc :: "sm_sys \<Rightarrow> addr \<Rightarrow> sm_pc" where
  "holder_pc s sm = (case ss_mtx s sm of None \<Rightarrow> Idle | Some i \<Rightarrow> ss_pc s i)"

definition counted :: "sm_sys \<Rightarrow> bool" where
  "counted s \<longleftrightarrow> (\<forall>sm ob. mm_objs (ss_mem s) sm = Some ob \<longrightarrow>
     so_n_trouble ob = of_nat (length (so_troublelist ob)) + skew (holder_pc s sm))"

definition few :: "nat \<Rightarrow> nat \<Rightarrow> sm_sys \<Rightarrow> bool" where
  "few n B s \<longleftrightarrow> card (dom (mm_trouble (ss_mem s))) + (\<Sum>i < n. may_alloc (ss_pc s i)) \<le> B"

definition sm_ok :: "(nat \<Rightarrow> sm_call) \<Rightarrow> nat \<Rightarrow> nat \<Rightarrow> sm_sys \<Rightarrow> bool" where
  "sm_ok arg n B s \<longleftrightarrow> owned n s \<and> mutexed n s \<and> counted s \<and> few n B s \<and>
     (\<forall>i. pc_fits (arg i) (ss_mem s) (ss_pc s i))"

subsection \<open>Sums over threads and objects\<close>

lemma sum_part:
  fixes f :: "'b \<Rightarrow> 'a :: comm_monoid_add"
  shows "finite A \<Longrightarrow> x \<in> A \<Longrightarrow> sum f A = f x + sum f (A - {x})"
  by (rule sum.remove)

lemma sum_thread:
  fixes f :: "'b \<Rightarrow> 'a :: comm_monoid_add" and n :: nat
  assumes "i < n"
  shows "(\<Sum>j < n. f ((p(i := x)) j)) + f (p i) = (\<Sum>j < n. f (p j)) + f x"
proof -
  have i: "finite {..<n}" "i \<in> {..<n}" using assms by auto
  have eq: "(\<Sum>j \<in> {..<n} - {i}. f ((p(i := x)) j)) = (\<Sum>j \<in> {..<n} - {i}. f (p j))"
    by (rule sum.cong) auto
  show ?thesis
    unfolding sum_part [OF i, of "\<lambda>j. f ((p(i := x)) j)"] sum_part [OF i, of "\<lambda>j. f (p j)"] eq
    by (simp add: ac_simps)
qed

lemma all_listed_part:
  assumes "finite (dom objs)" "objs sm = Some ob"
  shows "all_listed objs = mset (so_troublelist ob) + all_listed (objs(sm := None))"
proof -
  have "sm \<in> dom objs" using assms(2) by auto
  from sum_part [OF assms(1) this, of "\<lambda>x. mset (so_troublelist (the (objs x)))"]
  have "all_listed objs = mset (so_troublelist ob) + (\<Sum>x \<in> dom objs - {sm}. mset (so_troublelist (the (objs x))))"
    by (simp add: all_listed_def assms(2))
  moreover have "(\<Sum>x \<in> dom objs - {sm}. mset (so_troublelist (the (objs x)))) = all_listed (objs(sm := None))"
    unfolding all_listed_def by (rule sum.cong) auto
  ultimately show ?thesis by simp
qed

lemma all_listed_upd:
  assumes "finite (dom objs)" "objs sm = Some ob"
  shows "all_listed (objs(sm \<mapsto> ob')) + mset (so_troublelist ob) = all_listed objs + mset (so_troublelist ob')"
  using all_listed_part [OF assms] all_listed_part [of "objs(sm \<mapsto> ob')" sm ob'] assms(1) by simp

lemma all_listed_same:
  assumes "finite (dom objs)" "objs sm = Some ob" "so_troublelist ob' = so_troublelist ob"
  shows "all_listed (objs(sm \<mapsto> ob')) = all_listed objs"
  using all_listed_upd [OF assms(1,2), of ob'] assms(3) by simp

subsection \<open>What the distribution of the entries means\<close>

lemma distinct_of_mset: "finite D \<Longrightarrow> mset xs \<subseteq># mset_set D \<Longrightarrow> distinct xs \<and> set xs \<subseteq> D"
proof
  assume D: "finite D" "mset xs \<subseteq># mset_set D"
  show "set xs \<subseteq> D" using D set_mset_mono [OF D(2)] by simp
  have "count (mset xs) a \<le> 1" for a
    using mset_subset_eq_count [OF D(2), of a] by (auto intro: order_trans simp: count_mset_set')
  then show "distinct xs" by (metis distinct_count_atmost_1 count_mset_0_iff le_less_Suc_eq less_one linorder_not_less nless_le One_nat_def)
qed

lemma owned_lists:
  assumes "owned n s" "mm_objs (ss_mem s) sm = Some ob"
  shows "distinct (so_troublelist ob)" and "set (so_troublelist ob) \<subseteq> dom (mm_trouble (ss_mem s))"
    and "length (so_troublelist ob) \<le> card (dom (mm_trouble (ss_mem s)))"
proof -
  have "mset (so_troublelist ob) \<subseteq># mset_set (dom (mm_trouble (ss_mem s)))"
    using assms(1) all_listed_part [where objs = "mm_objs (ss_mem s)", OF _ assms(2)] unfolding owned_def
    by (metis mset_subset_eq_add_left add.assoc)
  moreover have fin: "finite (dom (mm_trouble (ss_mem s)))" using assms(1) by (simp add: owned_def)
  ultimately show l: "distinct (so_troublelist ob)" "set (so_troublelist ob) \<subseteq> dom (mm_trouble (ss_mem s))"
    using distinct_of_mset by blast+
  show "length (so_troublelist ob) \<le> card (dom (mm_trouble (ss_mem s)))"
    using card_mono [OF fin l(2)] distinct_card [OF l(1)] by simp
qed

lemma owned_mine:
  assumes "owned n s" "i < n"
  shows "distinct (mine (ss_pc s i))" and "set (mine (ss_pc s i)) \<subseteq> dom (mm_trouble (ss_mem s))"
proof -
  have "(\<Sum>j < n. mset (mine (ss_pc s j))) = mset (mine (ss_pc s i)) + (\<Sum>j \<in> {..<n} - {i}. mset (mine (ss_pc s j)))"
    using assms(2) by (intro sum_part) auto
  then have "mset (mine (ss_pc s i)) \<subseteq># mset_set (dom (mm_trouble (ss_mem s)))"
    using assms(1) unfolding owned_def by (metis mset_subset_eq_add_left add.left_commute)
  then show "distinct (mine (ss_pc s i))" "set (mine (ss_pc s i)) \<subseteq> dom (mm_trouble (ss_mem s))"
    using distinct_of_mset assms(1) by (auto simp: owned_def)
qed

lemma owned_apart:
  assumes "owned n s" "i < n" "mm_objs (ss_mem s) sm = Some ob"
  shows "set (mine (ss_pc s i)) \<inter> set (so_troublelist ob) = {}"
proof -
  have "(\<Sum>j < n. mset (mine (ss_pc s j))) = mset (mine (ss_pc s i)) + (\<Sum>j \<in> {..<n} - {i}. mset (mine (ss_pc s j)))"
    using assms(2) by (intro sum_part) auto
  moreover have "all_listed (mm_objs (ss_mem s)) = mset (so_troublelist ob) + all_listed ((mm_objs (ss_mem s))(sm := None))"
    using assms(1,3) by (intro all_listed_part) (auto simp: owned_def)
  ultimately have "mset (so_troublelist ob @ mine (ss_pc s i)) \<subseteq># mset_set (dom (mm_trouble (ss_mem s)))"
    using assms(1) unfolding owned_def
    by (metis (no_types, lifting) mset_append mset_subset_eq_add_left add.assoc add.left_commute)
  from distinct_of_mset [OF _ this] assms(1) show ?thesis by (auto simp: owned_def)
qed

lemma owned_other:
  assumes "owned n s" "i < n" "j < n" "i \<noteq> j"
  shows "set (mine (ss_pc s i)) \<inter> set (mine (ss_pc s j)) = {}"
proof -
  let ?f = "\<lambda>j. mset (mine (ss_pc s j))"
  have "(\<Sum>j < n. ?f j) = ?f i + (\<Sum>k \<in> {..<n} - {i}. ?f k)" using assms(2) by (intro sum_part) auto
  moreover have "(\<Sum>k \<in> {..<n} - {i}. ?f k) = ?f j + (\<Sum>k \<in> {..<n} - {i} - {j}. ?f k)"
    using assms(3,4) by (intro sum_part) auto
  ultimately have "mset (mine (ss_pc s i) @ mine (ss_pc s j)) \<subseteq># mset_set (dom (mm_trouble (ss_mem s)))"
    using assms(1) unfolding owned_def
    by (metis (no_types, lifting) mset_append mset_subset_eq_add_left add.assoc add.left_commute)
  from distinct_of_mset [OF _ this] assms(1) show ?thesis by (auto simp: owned_def)
qed

subsection \<open>The statements, one by one\<close>

lemma enter_blacklist_pc:
  assumes "enter_blacklist ctx m = Inr pc"
  obtains r where "pc = Leave r"
  | sm bo where "pc = B_Alloc sm" "sm_bo ctx = Some bo" "sm \<in> dom (mm_objs m)"
proof -
  have find: "find_sm_obj h sms be = Inr (Some sm) \<Longrightarrow> \<exists>ob. h sm = Some ob" for h sms be sm
    by (induction sms) (auto split: if_splits)
  show thesis
  proof (cases "\<exists>r. pc = Leave r")
    case False
    with assms have "\<exists>sm bo. pc = B_Alloc sm \<and> sm_bo ctx = Some bo \<and> sm \<in> dom (mm_objs m)"
      by (auto simp: enter_blacklist_def Let_def split: option.splits if_splits intro!: find)
    then show thesis using that(2) by blast
  qed (use that(1) in blast)
qed

lemma sm_stmt_cases:
  assumes "is_stmt pc" "sm_stmt bes c pc m = Inr (pc', m')"
  obtains
    (refused) ctx e r where "c = C_blacklist ctx e" "pc = Enter" "enter_blacklist ctx m = Inr (Leave r)"
      "pc' = Leave r" "m' = m"
  | (accepted) ctx e sm where "c = C_blacklist ctx e" "pc = Enter" "enter_blacklist ctx m = Inr (B_Alloc sm)"
      "pc' = B_Alloc sm" "m' = m"
  | (enter_count) sm where "c = C_count sm" "pc = Enter" "sm \<in> dom (mm_objs m)" "pc' = Q_Lock sm" "m' = m"
  | (enter_query) q where "c = C_query q" "pc = Enter" "query_obj q \<in> dom (mm_objs m)" "m' = m"
      "pc' = (if tests_first q then H_Test (query_obj q) else H_Lock (query_obj q))"
  | (alloc) ctx e sm bo where "c = C_blacklist ctx e" "pc = B_Alloc sm" "sm_bo ctx = Some bo" "pc' = B_Lock sm (mm_next m)"
      "m' = m\<lparr>mm_trouble := (mm_trouble m)(mm_next m \<mapsto> \<lparr>tr_digest = bo_digest bo, tr_timeout = dadd (bo_t_prev bo) e\<rparr>),
         mm_next := Suc (mm_next m)\<rparr>"
  | (insert) sm tp ob where "pc = B_Insert sm tp" "mm_objs m sm = Some ob" "pc' = B_Count sm"
      "m' = upd_obj sm (ob\<lparr>so_troublelist := tp # so_troublelist ob\<rparr>) m"
  | (incr) sm ob where "pc = B_Count sm" "mm_objs m sm = Some ob" "pc' = B_Log sm"
      "m' = upd_obj sm (ob\<lparr>so_n_trouble := so_n_trouble ob + 1\<rparr>) m"
  | (log) ctx e sm ob where "c = C_blacklist ctx e" "pc = B_Log sm" "mm_objs m sm = Some ob"
      "pc' = Unlocking sm (blacklist_ret bes ctx e (so_be ob))" "m' = m"
  | (read) sm ob where "pc = Q_Read sm" "mm_objs m sm = Some ob"
      "pc' = Unlocking sm (R_count (uint (so_n_trouble ob)))" "m' = m"
  | (test) q sm ob where "c = C_query q" "pc = H_Test sm" "mm_objs m sm = Some ob" "m' = m"
      "pc' = (if so_threshold ob = 0 \<or> so_n_trouble ob = 0 then Leave (health_ret bes q (so_be ob) True False) else H_Lock sm)"
  | (first) sm ob where "pc = H_First sm" "mm_objs m sm = Some ob" "m' = m"
      "pc' = H_Scan sm (case so_troublelist ob of [] \<Rightarrow> None | tr # _ \<Rightarrow> Some tr) []"
  | (scanned) sm gone where "pc = H_Scan sm None gone" "pc' = H_Decide sm False gone" "m' = m"
  | (expired) q sm tr gone ob x where "c = C_query q" "pc = H_Scan sm (Some tr) gone" "mm_objs m sm = Some ob"
      "mm_trouble m tr = Some x" "tr_timeout x < snd (scan_args q)" "pc' = H_Count sm (next_of tr (so_troublelist ob)) (tr # gone)"
      "m' = upd_obj sm (ob\<lparr>so_troublelist := remove1 tr (so_troublelist ob)\<rparr>) m"
  | (hit) q sm tr gone ob x where "c = C_query q" "pc = H_Scan sm (Some tr) gone" "mm_objs m sm = Some ob"
      "mm_trouble m tr = Some x" "\<not> tr_timeout x < snd (scan_args q)" "about_digest (fst (scan_args q)) x"
      "pc' = H_Decide sm True gone" "m' = m"
  | (keep) q sm tr gone ob x where "c = C_query q" "pc = H_Scan sm (Some tr) gone" "mm_objs m sm = Some ob"
      "mm_trouble m tr = Some x" "\<not> tr_timeout x < snd (scan_args q)" "\<not> about_digest (fst (scan_args q)) x"
      "pc' = H_Scan sm (next_of tr (so_troublelist ob)) gone" "m' = m"
  | (decr) sm cur gone ob where "pc = H_Count sm cur gone" "mm_objs m sm = Some ob" "pc' = H_Scan sm cur gone"
      "m' = upd_obj sm (ob\<lparr>so_n_trouble := so_n_trouble ob - 1\<rparr>) m"
  | (decide) sm bl gone ob where "pc = H_Decide sm bl gone" "mm_objs m sm = Some ob" "m' = m"
      "pc' = H_Unlock sm (if so_threshold ob \<le> so_n_trouble ob then False else \<not> bl) bl gone"
  | (free) sm retval bl tr gone where "pc = H_Free sm retval bl (tr # gone)" "pc' = H_Free sm retval bl gone"
      "mm_trouble m tr \<noteq> None" "m' = m\<lparr>mm_trouble := (mm_trouble m)(tr := None)\<rparr>"
  | (freed) q sm retval bl ob where "c = C_query q" "pc = H_Free sm retval bl []" "mm_objs m sm = Some ob"
      "pc' = Leave (health_ret bes q (so_be ob) retval bl)" "m' = m"
proof (cases pc)
  case Enter
  show thesis
  proof (cases c)
    case (C_blacklist ctx e)
    with assms Enter have e: "enter_blacklist ctx m = Inr pc'" "m' = m" by auto
    from e(1) show thesis
      by (cases rule: enter_blacklist_pc) (use e C_blacklist Enter that(1,2) in blast)+
  next
    case (C_count sm)
    show thesis by (rule that(3) [OF C_count Enter]) (use assms(2) C_count Enter in auto)
  next
    case (C_query q)
    show thesis by (rule that(4) [OF C_query Enter]) (use assms(2) C_query Enter in auto)
  qed
next
  case (B_Alloc sm)
  with assms(2) that(5) show thesis by (cases c) (auto simp: Let_def split: option.splits)
next
  case (B_Log sm)
  with assms(2) that(8) show thesis by (cases c) auto
next
  case (H_Test sm)
  with assms(2) show thesis by (cases c) (auto intro: that(10))
next
  case (H_Scan sm cur gone)
  show thesis
  proof (cases cur)
    case (Some tr)
    then obtain q where q: "c = C_query q" using H_Scan assms(2) by (cases c) auto
    note pc = H_Scan [unfolded Some]
    from assms(2) pc q obtain ob x where x: "mm_objs m sm = Some ob" "mm_trouble m tr = Some x"
      by (auto simp: Let_def)
    consider "tr_timeout x < snd (scan_args q)"
      | "\<not> tr_timeout x < snd (scan_args q)" "about_digest (fst (scan_args q)) x"
      | "\<not> tr_timeout x < snd (scan_args q)" "\<not> about_digest (fst (scan_args q)) x" by blast
    then show thesis
    proof cases
      case 1
      show thesis by (rule that(13) [OF q pc x 1]) (use assms(2) pc q x 1 in \<open>simp_all add: Let_def\<close>)
    next
      case 2
      show thesis by (rule that(14) [OF q pc x 2]) (use assms(2) pc q x 2 in \<open>simp_all add: Let_def\<close>)
    next
      case 3
      show thesis by (rule that(15) [OF q pc x 3]) (use assms(2) pc q x 3 in \<open>simp_all add: Let_def\<close>)
    qed
  next
    case None
    note pc = H_Scan [unfolded None]
    show thesis by (rule that(12) [OF pc]) (use assms(2) pc in simp_all)
  qed
next
  case (H_Free sm retval bl gone)
  with assms(2) that(18,19) show thesis by (cases gone; cases c) auto
next
  case (B_Insert sm tp)
  with assms(2) that(6) show thesis by auto
next
  case (B_Count sm)
  with assms(2) that(7) show thesis by auto
next
  case (Q_Read sm)
  with assms(2) that(9) show thesis by auto
next
  case (H_First sm)
  with assms(2) that(11) show thesis by auto
next
  case (H_Count sm cur gone)
  with assms(2) that(16) show thesis by auto
next
  case (H_Decide sm bl gone)
  with assms(2) that(17) show thesis by auto
qed (use assms(1) in simp_all)

subsection \<open>What a statement leaves alone\<close>

definition same_shape :: "sm_mem \<Rightarrow> sm_mem \<Rightarrow> bool" where
  "same_shape m m' \<longleftrightarrow> mm_sm_list m' = mm_sm_list m \<and> mm_obj_next m' = mm_obj_next m \<and>
     (\<forall>sm. map_option (\<lambda>ob. (so_vcl_name ob, so_be ob, so_threshold ob)) (mm_objs m' sm) =
       map_option (\<lambda>ob. (so_vcl_name ob, so_be ob, so_threshold ob)) (mm_objs m sm))"

lemma same_shape_refl [simp]: "same_shape m m"
  by (simp add: same_shape_def)

lemma same_shape_upd:
  "mm_objs m sm = Some ob \<Longrightarrow> so_vcl_name ob' = so_vcl_name ob \<Longrightarrow> so_be ob' = so_be ob \<Longrightarrow>
   so_threshold ob' = so_threshold ob \<Longrightarrow> same_shape m (upd_obj sm ob' m)"
  by (simp add: same_shape_def)

lemma same_shape_obj:
  assumes "same_shape m m'" "mm_objs m' sm = Some ob'"
  obtains ob where "mm_objs m sm = Some ob" "so_vcl_name ob' = so_vcl_name ob" "so_be ob' = so_be ob"
    "so_threshold ob' = so_threshold ob"
proof -
  have "map_option (\<lambda>ob. (so_vcl_name ob, so_be ob, so_threshold ob)) (mm_objs m' sm) =
      map_option (\<lambda>ob. (so_vcl_name ob, so_be ob, so_threshold ob)) (mm_objs m sm)"
    using assms(1) unfolding same_shape_def by blast
  with assms(2) that show thesis by (cases "mm_objs m sm") auto
qed

lemma same_shape_dom: "same_shape m m' \<Longrightarrow> dom (mm_objs m') = dom (mm_objs m)"
proof -
  assume sh: "same_shape m m'"
  have "mm_objs m' sm = None \<longleftrightarrow> mm_objs m sm = None" for sm
  proof -
    have "map_option (\<lambda>ob. (so_vcl_name ob, so_be ob, so_threshold ob)) (mm_objs m' sm) =
        map_option (\<lambda>ob. (so_vcl_name ob, so_be ob, so_threshold ob)) (mm_objs m sm)"
      using sh unfolding same_shape_def by blast
    then show ?thesis by (cases "mm_objs m' sm"; cases "mm_objs m sm") simp_all
  qed
  then show ?thesis by (auto simp: dom_def)
qed

lemma find_sm_obj_shape:
  assumes "same_shape m m'"
  shows "find_sm_obj (mm_objs m') sms be = find_sm_obj (mm_objs m) sms be"
proof (induction sms)
  case (Cons sm sms)
  show ?case
  proof (cases "mm_objs m' sm")
    case None
    then have "mm_objs m sm = None" using same_shape_dom [OF assms] by blast
    with None show ?thesis by (simp add: deref_def)
  next
    case (Some ob')
    from same_shape_obj [OF assms this] obtain ob where "mm_objs m sm = Some ob" "so_be ob' = so_be ob" by blast
    with Some Cons.IH show ?thesis by simp
  qed
qed simp

lemma enter_blacklist_shape: "same_shape m m' \<Longrightarrow> enter_blacklist ctx m' = enter_blacklist ctx m"
  unfolding enter_blacklist_def by (simp only: find_sm_obj_shape) (simp only: same_shape_def)

lemma stmt_shape: "is_stmt pc \<Longrightarrow> sm_stmt bes c pc m = Inr (pc', m') \<Longrightarrow> same_shape m m'"
  by (erule (1) sm_stmt_cases) (auto intro: same_shape_upd simp: same_shape_def)

lemma stmt_holds:
  assumes "is_stmt pc" "sm_stmt bes c pc m = Inr (pc', m')"
  shows "holds pc' = holds pc"
  using assms by (cases rule: sm_stmt_cases) auto

lemma stmt_objs:
  assumes "is_stmt pc" "sm_stmt bes c pc m = Inr (pc', m')" "holds pc \<noteq> Some sm"
  shows "mm_objs m' sm = mm_objs m sm"
  using assms(3) by (cases rule: sm_stmt_cases [OF assms(1,2)]) auto

lemma stmt_trouble:
  assumes "is_stmt pc" "sm_stmt bes c pc m = Inr (pc', m')" "a \<notin> set (mine pc)" "a \<noteq> mm_next m"
  shows "mm_trouble m' a = mm_trouble m a"
  using assms(3,4) by (cases rule: sm_stmt_cases [OF assms(1,2)]) auto

lemma locks_holds: "locks pc = Some (sm, pc') \<Longrightarrow> holds pc = None \<and> holds pc' = Some sm \<and> mine pc' = mine pc \<and>
    skew pc = 0 \<and> skew pc' = 0 \<and> may_alloc pc = 0 \<and> may_alloc pc' = 0"
  by (cases pc) auto

lemma unlocks_holds: "unlocks pc = Some (sm, pc') \<Longrightarrow> holds pc = Some sm \<and> holds pc' = None \<and> mine pc' = mine pc \<and>
    skew pc = 0 \<and> skew pc' = 0 \<and> may_alloc pc = 0 \<and> may_alloc pc' = 0"
  by (cases pc) auto

text \<open>The facts about a thread survive when nobody touches the object it holds and its entries.\<close>

definition unchanged_for :: "sm_pc \<Rightarrow> sm_mem \<Rightarrow> sm_mem \<Rightarrow> bool" where
  "unchanged_for pc m m' \<longleftrightarrow> same_shape m m' \<and> (\<forall>a \<in> set (mine pc). mm_trouble m' a = mm_trouble m a) \<and>
     (\<forall>sm. holds pc = Some sm \<longrightarrow> mm_objs m' sm = mm_objs m sm \<and>
        (\<forall>ob. mm_objs m sm = Some ob \<longrightarrow> (\<forall>a \<in> set (so_troublelist ob). mm_trouble m' a = mm_trouble m a)))"

lemma at_shape:
  assumes "same_shape m m'"
  shows "query_at c m' sm = query_at c m sm" and "blacklist_at c m' sm = blacklist_at c m sm"
    and "count_at c m' sm = count_at c m sm" and "past_test c m sm \<Longrightarrow> past_test c m' sm"
proof -
  show q: "query_at c m' sm = query_at c m sm" by (simp add: query_at_def same_shape_dom [OF assms])
  show "blacklist_at c m' sm = blacklist_at c m sm" by (simp add: blacklist_at_def enter_blacklist_shape [OF assms])
  show "count_at c m' sm = count_at c m sm" by (simp add: count_at_def same_shape_dom [OF assms])
  assume "past_test c m sm"
  then show "past_test c m' sm"
    unfolding past_test_def q by (metis same_shape_obj [OF assms])
qed

lemma pc_fits_unchanged:
  assumes "unchanged_for pc m m'" "pc_fits c m pc"
  shows "pc_fits c m' pc"
proof -
  have sh: "same_shape m m'" using assms(1) by (simp add: unchanged_for_def)
  show ?thesis
    using assms at_shape [OF sh]
    by (cases pc) (auto simp: unchanged_for_def entry_of_def on_list_def)
qed

end
