(* ===== verification/Saintmode_Threads.thy ===== *)
theory Saintmode_Threads
  imports Saintmode_Lock
begin

text \<open>
  The invariants of theory \<open>Saintmode_Lock\<close> hold in every reachable state: who holds which
  mutex, where every trouble entry is, how the counters relate to the lists. It follows that
  no statement touches memory that was freed, that every run ends, and that nothing is leaked.
\<close>

section \<open>Statements keep the invariants\<close>

lemma next_of_split:
  "a \<notin> set xs \<Longrightarrow> next_of a (xs @ a # ys) = (case ys of [] \<Rightarrow> None | y # _ \<Rightarrow> Some y)"
  by (simp add: next_of_def dropWhile_append dropWhile_eq_self_iff split: list.splits)

lemma next_of_in:
  assumes "distinct l" "a \<in> set l" "next_of a l = Some b"
  shows "b \<in> set (remove1 a l)" and "b \<in> set l"
proof -
  obtain xs ys where l: "l = xs @ a # ys" "a \<notin> set xs" using assms(2) by (meson split_list_first)
  with assms(3) have "b \<in> set ys" by (simp add: next_of_split split: list.splits)
  with assms(1) l show "b \<in> set (remove1 a l)" "b \<in> set l" by (auto simp: remove1_append)
qed

lemma owned_trans:
  assumes "owned n s" "i < n" "finite (dom (mm_objs m))" "finite (dom (mm_trouble m))"
    and "all_listed (mm_objs m) + mset (mine pc) + mset_set (dom (mm_trouble (ss_mem s))) =
      all_listed (mm_objs (ss_mem s)) + mset (mine (ss_pc s i)) + mset_set (dom (mm_trouble m))"
    and "\<And>a. a \<in> dom (mm_trouble m) \<Longrightarrow> a < mm_next m"
  shows "owned n (s\<lparr>ss_mem := m, ss_pc := (ss_pc s)(i := pc)\<rparr>)"
proof -
  let ?S = "\<Sum>j < n. mset (mine (ss_pc s j))" and ?S' = "\<Sum>j < n. mset (mine (((ss_pc s)(i := pc)) j))"
  have "?S' + mset (mine (ss_pc s i)) = ?S + mset (mine pc)" by (rule sum_thread [OF assms(2)])
  moreover have "all_listed (mm_objs (ss_mem s)) + ?S = mset_set (dom (mm_trouble (ss_mem s)))"
    using assms(1) by (simp add: owned_def)
  ultimately have "all_listed (mm_objs m) + ?S' = mset_set (dom (mm_trouble m))"
    using assms(5) by (smt (verit, ccfv_threshold) add.assoc add.commute add_left_cancel)
  with assms(3,4,6) show ?thesis by (auto simp: owned_def)
qed

lemma owned_same:
  assumes "owned n s" "i < n" "m = ss_mem s" "mset (mine pc) = mset (mine (ss_pc s i))"
  shows "owned n (s\<lparr>ss_mem := m, ss_pc := (ss_pc s)(i := pc)\<rparr>)"
  by (rule owned_trans [OF assms(1,2)]) (use assms in \<open>auto simp: owned_def\<close>)

lemma stmt_owned:
  assumes ow: "owned n s" and i: "i < n" and fits: "pc_fits c (ss_mem s) (ss_pc s i)"
    and st: "is_stmt (ss_pc s i)" "sm_stmt bes c (ss_pc s i) (ss_mem s) = Inr (pc, m)"
  shows "owned n (s\<lparr>ss_mem := m, ss_pc := (ss_pc s)(i := pc)\<rparr>)"
proof -
  have fin: "finite (dom (mm_objs (ss_mem s)))" "finite (dom (mm_trouble (ss_mem s)))"
    and lt: "\<And>a. a \<in> dom (mm_trouble (ss_mem s)) \<Longrightarrow> a < mm_next (ss_mem s)"
    using ow by (auto simp: owned_def)
  note T = owned_trans [OF ow i]
  from st show ?thesis
  proof (cases rule: sm_stmt_cases)
    case (alloc ctx e sm bo)
    have "mm_next (ss_mem s) \<notin> dom (mm_trouble (ss_mem s))" using lt by blast
    with alloc fin lt show ?thesis by (intro T) (auto simp: less_Suc_eq)
  next
    case (insert sm tp ob)
    have "all_listed (mm_objs m) + mset (so_troublelist ob) =
        add_mset tp (all_listed (mm_objs (ss_mem s))) + mset (so_troublelist ob)"
      using all_listed_upd [OF fin(1) insert(2), of "ob\<lparr>so_troublelist := tp # so_troublelist ob\<rparr>"] insert(4) by simp
    then have "all_listed (mm_objs m) = add_mset tp (all_listed (mm_objs (ss_mem s)))" by (simp only: add_right_cancel)
    then show ?thesis using fin lt by (intro T) (simp_all add: insert)
  next
    case (expired q sm tr gone ob x)
    have tr: "tr \<in> set (so_troublelist ob)" using fits expired(2,3) by (simp add: on_list_def)
    have "all_listed (mm_objs m) + mset (so_troublelist ob) = all_listed (mm_objs (ss_mem s)) + mset (remove1 tr (so_troublelist ob))"
      using all_listed_upd [OF fin(1) expired(3), of "ob\<lparr>so_troublelist := remove1 tr (so_troublelist ob)\<rparr>"] expired(7) by simp
    moreover have "mset (so_troublelist ob) = add_mset tr (mset (remove1 tr (so_troublelist ob)))" using tr by simp
    ultimately have "add_mset tr (all_listed (mm_objs m)) + mset (remove1 tr (so_troublelist ob)) =
        all_listed (mm_objs (ss_mem s)) + mset (remove1 tr (so_troublelist ob))"
      by (simp only: union_mset_add_mset_left union_mset_add_mset_right)
    then have "all_listed (mm_objs (ss_mem s)) = add_mset tr (all_listed (mm_objs m))" by (simp only: add_right_cancel)
    then show ?thesis using fin lt by (intro T) (simp_all add: expired)
  next
    case (free sm retval bl tr gone)
    have "insert tr (dom (mm_trouble (ss_mem s)) - {tr}) = dom (mm_trouble (ss_mem s))" using free(3) by auto
    then have "mset_set (dom (mm_trouble (ss_mem s))) = add_mset tr (mset_set (dom (mm_trouble (ss_mem s)) - {tr}))"
      using fin(2) by (metis finite_Diff mset_set.insert Diff_iff insertI1)
    with free fin lt show ?thesis by (intro T) auto
  next
    case (incr sm ob)
    then show ?thesis using fin lt by (intro T) (auto simp: all_listed_same)
  next
    case (decr sm cur gone ob)
    then show ?thesis using fin lt by (intro T) (auto simp: all_listed_same)
  qed (rule owned_same [OF ow i]; simp)+
qed
lemma stmt_mutexed:
  assumes "mutexed n s" "i < n" "is_stmt (ss_pc s i)" "sm_stmt bes c (ss_pc s i) (ss_mem s) = Inr (pc, m)"
  shows "mutexed n (s\<lparr>ss_mem := m, ss_pc := (ss_pc s)(i := pc)\<rparr>)"
  using assms(1,2) stmt_holds [OF assms(3,4)] by (auto simp: mutexed_def)

lemma holder_pc_stmt:
  assumes "mutexed n s"
  shows "holder_pc (s\<lparr>ss_mem := m, ss_pc := (ss_pc s)(i := pc)\<rparr>) sm =
    (if holds (ss_pc s i) = Some sm then pc else holder_pc s sm)"
  using assms by (auto simp: holder_pc_def mutexed_def split: option.splits)

lemma holder_pc_holds: "mutexed n s \<Longrightarrow> holds (ss_pc s i) = Some sm \<Longrightarrow> holder_pc s sm = ss_pc s i"
  by (auto simp: holder_pc_def mutexed_def)

lemma stmt_counted:
  assumes "counted s" and mu: "mutexed n s" and fits: "pc_fits c (ss_mem s) (ss_pc s i)"
    and st: "is_stmt (ss_pc s i)" "sm_stmt bes c (ss_pc s i) (ss_mem s) = Inr (pc, m)"
  shows "counted (s\<lparr>ss_mem := m, ss_pc := (ss_pc s)(i := pc)\<rparr>)"
  unfolding counted_def
proof (intro allI impI)
  fix sm ob'
  let ?s = "s\<lparr>ss_mem := m, ss_pc := (ss_pc s)(i := pc)\<rparr>"
  assume "mm_objs (ss_mem ?s) sm = Some ob'"
  then have ob': "mm_objs m sm = Some ob'" by simp
  show "so_n_trouble ob' = of_nat (length (so_troublelist ob')) + skew (holder_pc ?s sm)"
  proof (cases "holds (ss_pc s i) = Some sm")
    case False
    then have "mm_objs (ss_mem s) sm = Some ob'" using stmt_objs [OF st False] ob' by simp
    then show ?thesis using assms(1) False by (simp add: counted_def holder_pc_stmt [OF mu])
  next
    case True
    then have h: "holder_pc s sm = ss_pc s i" by (rule holder_pc_holds [OF mu])
    from st have "so_n_trouble ob' = of_nat (length (so_troublelist ob')) + skew pc"
    proof (cases rule: sm_stmt_cases)
      case (expired q sm' tr gone ob x)
      have "tr \<in> set (so_troublelist ob)" using fits expired(2,3) by (simp add: on_list_def)
      then have "length (so_troublelist ob) = Suc (length (remove1 tr (so_troublelist ob)))"
        using length_pos_if_in_set [of tr "so_troublelist ob"] by (simp add: length_remove1)
      moreover have "so_n_trouble ob = of_nat (length (so_troublelist ob))"
        using assms(1) h True expired by (auto simp: counted_def)
      ultimately show ?thesis using True ob' expired by auto
    next
      case (insert sm' tp ob)
      then show ?thesis using True ob' assms(1) h by (auto simp: counted_def)
    next
      case (incr sm' ob)
      then show ?thesis using True ob' assms(1) h by (auto simp: counted_def)
    next
      case (decr sm' cur gone ob)
      then show ?thesis using True ob' assms(1) h by (auto simp: counted_def)
    qed (use True ob' assms(1) h in \<open>auto simp: counted_def\<close>)
    then show ?thesis using True by (simp add: holder_pc_stmt [OF mu])
  qed
qed

lemma stmt_few:
  assumes "few n B s" and ow: "owned n s" and i: "i < n"
    and st: "is_stmt (ss_pc s i)" "sm_stmt bes c (ss_pc s i) (ss_mem s) = Inr (pc, m)"
  shows "few n B (s\<lparr>ss_mem := m, ss_pc := (ss_pc s)(i := pc)\<rparr>)"
proof -
  have fin: "finite (dom (mm_trouble (ss_mem s)))" using ow by (simp add: owned_def)
  have le: "card (dom (mm_trouble m)) + may_alloc pc \<le> card (dom (mm_trouble (ss_mem s))) + may_alloc (ss_pc s i)"
    using st
  proof (cases rule: sm_stmt_cases)
    case (alloc ctx e sm bo)
    then show ?thesis using card_insert_le_m1 [of "Suc (card (dom (mm_trouble (ss_mem s))))"]
      by (simp add: card_insert_if fin)
  next
    case (free sm retval bl tr gone)
    then show ?thesis using card_Diff1_le [of "dom (mm_trouble (ss_mem s))" tr] by simp
  qed auto
  moreover have "(\<Sum>j < n. may_alloc (((ss_pc s)(i := pc)) j)) + may_alloc (ss_pc s i) =
      (\<Sum>j < n. may_alloc (ss_pc s j)) + may_alloc pc"
    by (rule sum_thread [OF i])
  moreover have "card (dom (mm_trouble (ss_mem s))) + (\<Sum>j < n. may_alloc (ss_pc s j)) \<le> B"
    using assms(1) by (simp add: few_def)
  ultimately show ?thesis unfolding few_def by simp
qed

lemma stmt_fits:
  assumes ow: "owned n s" and i: "i < n" and fits: "pc_fits c (ss_mem s) (ss_pc s i)"
    and st: "is_stmt (ss_pc s i)" "sm_stmt bes c (ss_pc s i) (ss_mem s) = Inr (pc, m)"
  shows "pc_fits c m pc"
proof -
  have sh: "same_shape (ss_mem s) m" by (rule stmt_shape [OF st])
  note at = at_shape [OF sh]
  from st show ?thesis
  proof (cases rule: sm_stmt_cases)
    case (alloc ctx e sm bo)
    with fits at show ?thesis by (auto simp: entry_of_def)
  next
    case (insert sm tp ob)
    with fits at show ?thesis by (auto simp: entry_of_def)
  next
    case (expired q sm tr gone ob x)
    have "tr \<in> set (so_troublelist ob)" using fits expired(2,3) by (simp add: on_list_def)
    then have "on_list m sm (next_of tr (so_troublelist ob))"
      using next_of_in(1) [OF owned_lists(1) [OF ow expired(3)]] unfolding on_list_def expired(7) by simp
    moreover have "past_test c m sm" using fits at(4) by (simp add: expired(2))
    ultimately show ?thesis by (simp only: expired(6) pc_fits.simps)
  next
    case (keep q sm tr gone ob x)
    have "tr \<in> set (so_troublelist ob)" using fits keep(2,3) by (simp add: on_list_def)
    then have "on_list m sm (next_of tr (so_troublelist ob))"
      using next_of_in(2) [OF owned_lists(1) [OF ow keep(3)]] keep(3) unfolding on_list_def keep(8) by simp
    moreover have "past_test c m sm" using fits at(4) by (simp add: keep(2))
    ultimately show ?thesis by (simp only: keep(7) pc_fits.simps)
  next
    case (decr sm cur gone ob)
    with fits at(4) show ?thesis by (auto simp: on_list_def)
  next
    case (test q sm ob)
    with fits show ?thesis by (auto simp: past_test_def)
  next
    case (enter_query q)
    then show ?thesis by (auto simp: past_test_def query_at_def)
  qed (use fits at in \<open>auto simp: blacklist_at_def count_at_def on_list_def split: list.splits\<close>)
qed

lemma stmt_other_fits:
  assumes ow: "owned n s" and mu: "mutexed n s" and ij: "i < n" "j < n" "i \<noteq> j"
    and st: "is_stmt (ss_pc s i)" "sm_stmt bes c (ss_pc s i) (ss_mem s) = Inr (pc, m)"
  shows "unchanged_for (ss_pc s j) (ss_mem s) m"
proof -
  have apart: "set (mine (ss_pc s i)) \<inter> set (mine (ss_pc s j)) = {}" by (rule owned_other [OF ow ij])
  have fresh: "a \<noteq> mm_next (ss_mem s)" if "a \<in> dom (mm_trouble (ss_mem s))" for a
    using ow that unfolding owned_def by blast
  have "mm_trouble m a = mm_trouble (ss_mem s) a" if "a \<in> set (mine (ss_pc s j))" for a
    using stmt_trouble [OF st] that apart owned_mine(2) [OF ow ij(2)] fresh by blast
  moreover have "mm_trouble m a = mm_trouble (ss_mem s) a"
    if "mm_objs (ss_mem s) sm = Some ob" "a \<in> set (so_troublelist ob)" for sm ob a
    using stmt_trouble [OF st] that owned_apart [OF ow ij(1) that(1)] owned_lists(2) [OF ow that(1)] fresh by blast
  moreover have "mm_objs m sm = mm_objs (ss_mem s) sm" if "holds (ss_pc s j) = Some sm" for sm
    using stmt_objs [OF st] mu that ij(3) unfolding mutexed_def by (metis option.inject)
  ultimately show ?thesis using stmt_shape [OF st] by (simp add: unchanged_for_def)
qed

section \<open>Reachable states\<close>

lemma stmt_ok:
  assumes "sm_ok arg n B s" and i: "i < n"
    and st: "is_stmt (ss_pc s i)" "sm_stmt bes (arg i) (ss_pc s i) (ss_mem s) = Inr (pc, m)"
  shows "sm_ok arg n B (s\<lparr>ss_mem := m, ss_pc := (ss_pc s)(i := pc)\<rparr>)"
proof -
  have ok: "owned n s" "mutexed n s" "counted s" "few n B s" "\<And>j. pc_fits (arg j) (ss_mem s) (ss_pc s j)"
    using assms(1) by (simp_all add: sm_ok_def)
  have "pc_fits (arg j) m (((ss_pc s)(i := pc)) j)" for j
  proof (cases "j < n \<and> j \<noteq> i")
    case True
    then have "unchanged_for (ss_pc s j) (ss_mem s) m"
      using stmt_other_fits [OF ok(1,2) i _ _ st] by blast
    with True pc_fits_unchanged ok(5) [of j] show ?thesis by simp
  next
    case False
    then have "j = i \<or> ss_pc s j = Idle" using ok(2) by (auto simp: mutexed_def)
    then show ?thesis using stmt_fits [OF ok(1) i ok(5) st] by auto
  qed
  with stmt_owned [OF ok(1) i ok(5) st] stmt_mutexed [OF ok(2) i st] stmt_counted [OF ok(3,2,5) st]
    stmt_few [OF ok(4,1) i st] show ?thesis by (simp add: sm_ok_def)
qed

text \<open>A step that does not touch the memory: mutexes may change hands between the thread and nobody.\<close>

lemma mutexed_none: "mutexed n s \<Longrightarrow> holds (ss_pc s i) = None \<Longrightarrow> ss_mtx s sm \<noteq> Some i"
  unfolding mutexed_def by (metis option.distinct(1))

lemma mutexed_quiet:
  assumes "mutexed n s" "i < n" "holds (ss_pc s i) = None" "holds pc = None"
  shows "mutexed n (s\<lparr>ss_pc := (ss_pc s)(i := pc)\<rparr>)"
proof -
  have "ss_mtx s sm \<noteq> Some i" for sm by (rule mutexed_none [OF assms(1,3)])
  with assms show ?thesis by (auto simp: mutexed_def)
qed

lemma quiet_ok:
  assumes "sm_ok arg n B s" and i: "i < n" and "mset (mine pc) = mset (mine (ss_pc s i))"
    and "may_alloc pc \<le> may_alloc (ss_pc s i)" "pc_fits (arg i) (ss_mem s) pc"
    and skew: "skew (ss_pc s i) = 0" "skew pc = 0"
    and mu: "mutexed n (s\<lparr>ss_mtx := x, ss_pc := (ss_pc s)(i := pc)\<rparr>)"
    and x: "\<And>sm. holds (ss_pc s i) \<noteq> Some sm \<Longrightarrow> holds pc \<noteq> Some sm \<Longrightarrow> x sm = ss_mtx s sm"
  shows "sm_ok arg n B (s\<lparr>ss_mtx := x, ss_pc := (ss_pc s)(i := pc)\<rparr>)"
proof -
  let ?s = "s\<lparr>ss_mtx := x, ss_pc := (ss_pc s)(i := pc)\<rparr>"
  have ok: "owned n s" "mutexed n s" "counted s" "few n B s" "\<And>j. pc_fits (arg j) (ss_mem s) (ss_pc s j)"
    using assms(1) by (simp_all add: sm_ok_def)
  have "owned n ?s" using owned_same [OF ok(1) i refl assms(3)] by (simp add: owned_def)
  moreover have "few n B ?s"
    using ok(4) assms(4) sum_thread [OF i, of may_alloc "ss_pc s" pc] by (simp add: few_def)
  moreover have "counted ?s"
  proof -
    have "skew (holder_pc ?s sm) = skew (holder_pc s sm)" for sm
    proof (cases "holds (ss_pc s i) = Some sm \<or> holds pc = Some sm")
      case True
      have "skew (holder_pc ?s sm) = 0"
      proof (cases "holds pc = Some sm")
        case True
        then have "holder_pc ?s sm = pc" using holder_pc_holds [OF mu, of i sm] by simp
        with skew show ?thesis by simp
      next
        case False
        with \<open>holds (ss_pc s i) = Some sm \<or> holds pc = Some sm\<close> have h: "holds (ss_pc s i) = Some sm" by simp
        have "ss_mtx ?s sm = None"
        proof (rule ccontr)
          assume "ss_mtx ?s sm \<noteq> None"
          then obtain j where j: "ss_mtx ?s sm = Some j" by blast
          then have "holds (ss_pc ?s j) = Some sm" using mu unfolding mutexed_def by blast
          moreover have "j \<noteq> i" using False calculation by auto
          ultimately have "holds (ss_pc s j) = Some sm" by simp
          with h ok(2) \<open>j \<noteq> i\<close> show False unfolding mutexed_def by (metis option.inject)
        qed
        then show ?thesis by (simp add: holder_pc_def)
      qed
      moreover have "skew (holder_pc s sm) = 0"
      proof (cases "holds (ss_pc s i) = Some sm")
        case True
        then show ?thesis using holder_pc_holds [OF ok(2), of i sm] skew by simp
      next
        case False
        with True have h: "holds pc = Some sm" by simp
        have "ss_mtx s sm = None"
        proof (rule ccontr)
          assume "ss_mtx s sm \<noteq> None"
          then obtain j where "ss_mtx s sm = Some j" by blast
          then have j: "holds (ss_pc s j) = Some sm" using ok(2) unfolding mutexed_def by blast
          with False have "j \<noteq> i" by auto
          then have "holds (ss_pc ?s j) = Some sm" "holds (ss_pc ?s i) = Some sm" using j h by simp_all
          with mu \<open>j \<noteq> i\<close> show False unfolding mutexed_def by (metis option.inject)
        qed
        then show ?thesis by (simp add: holder_pc_def)
      qed
      ultimately show ?thesis by simp
    next
      case False
      then show ?thesis using x [of sm] ok(2) by (auto simp: holder_pc_def mutexed_def split: option.splits)
    qed
    with ok(3) show ?thesis by (simp add: counted_def)
  qed
  moreover have "pc_fits (arg j) (ss_mem ?s) (ss_pc ?s j)" for j using ok(5) assms(5) by simp
  ultimately show ?thesis using mu by (simp add: sm_ok_def)
qed

lemma step_ok:
  assumes "sm_tstep bes arg n s e t" "sm_ok arg n B s"
  shows "sm_ok arg n B t"
  using assms
proof cases
  case (call i)
  have "sm_ok arg n B (s\<lparr>ss_mtx := ss_mtx s, ss_pc := (ss_pc s)(i := Enter)\<rparr>)"
    by (rule quiet_ok [OF assms(2) call(3)])
      (use mutexed_quiet [of n s i Enter] assms(2) call(3,4) in \<open>auto simp: sm_ok_def\<close>)
  with call show ?thesis by simp
next
  case (stmt i pc m)
  with stmt_ok [OF assms(2)] show ?thesis by simp
next
  case (lock i sm pc)
  note h = locks_holds [OF lock(4)]
  have fits: "pc_fits (arg i) (ss_mem s) (ss_pc s i)" and mu: "mutexed n s" using assms(2) by (simp_all add: sm_ok_def)
  have "pc_fits (arg i) (ss_mem s) pc" using lock(4) fits by (cases "ss_pc s i") auto
  moreover have "mutexed n (s\<lparr>ss_mtx := (ss_mtx s)(sm := Some i), ss_pc := (ss_pc s)(i := pc)\<rparr>)"
    using mu lock(3,5) h mutexed_none [OF mu] by (auto simp: mutexed_def)
  ultimately show ?thesis unfolding lock(2) by (intro quiet_ok [OF assms(2) lock(3)]) (use h in auto)
next
  case (unlock i sm pc)
  note h = unlocks_holds [OF unlock(4)]
  have fits: "pc_fits (arg i) (ss_mem s) (ss_pc s i)" and mu: "mutexed n s" using assms(2) by (simp_all add: sm_ok_def)
  have only: "x = sm" if "ss_mtx s x = Some i" for x using mu h that unfolding mutexed_def by (metis option.inject)
  have "pc_fits (arg i) (ss_mem s) pc" using unlock(4) fits by (cases "ss_pc s i") auto
  moreover have "mutexed n (s\<lparr>ss_mtx := (ss_mtx s)(sm := None), ss_pc := (ss_pc s)(i := pc)\<rparr>)"
    using mu unlock(3) h only by (auto simp: mutexed_def)
  ultimately show ?thesis unfolding unlock(2) by (intro quiet_ok [OF assms(2) unlock(3)]) (use h in auto)
next
  case (return i r)
  have "sm_ok arg n B (s\<lparr>ss_mtx := ss_mtx s, ss_pc := (ss_pc s)(i := Left)\<rparr>)"
    by (rule quiet_ok [OF assms(2) return(3)])
      (use mutexed_quiet [of n s i Left] assms(2) return(3,4) in \<open>auto simp: sm_ok_def\<close>)
  with return show ?thesis by simp
qed

definition sm_start :: "sm_mem \<Rightarrow> sm_sys" where
  "sm_start m = \<lparr>ss_mem = m, ss_mtx = \<lambda>_. None, ss_pc = \<lambda>_. Idle\<rparr>"

text \<open>
  Before the first call every entry is on one list, the counters are the lengths, and \<open>n\<close> more
  entries fit into a 32-bit counter.
\<close>

definition sm_start_ok :: "nat \<Rightarrow> sm_mem \<Rightarrow> bool" where
  "sm_start_ok n m \<longleftrightarrow> finite (dom (mm_objs m)) \<and> finite (dom (mm_trouble m)) \<and>
     all_listed (mm_objs m) = mset_set (dom (mm_trouble m)) \<and> (\<forall>a \<in> dom (mm_trouble m). a < mm_next m) \<and>
     (\<forall>sm ob. mm_objs m sm = Some ob \<longrightarrow> so_n_trouble ob = of_nat (length (so_troublelist ob))) \<and>
     card (dom (mm_trouble m)) + n < 2 ^ 32 - 1"

lemma sm_start_inv: "sm_start_ok n m \<Longrightarrow> sm_ok arg n (card (dom (mm_trouble m)) + n) (sm_start m)"
  by (simp add: sm_start_ok_def sm_ok_def sm_start_def owned_def mutexed_def counted_def few_def holder_pc_def)

lemma traced_ok: "traced (sm_tstep bes arg n) s es t \<Longrightarrow> sm_ok arg n B s \<Longrightarrow> sm_ok arg n B t"
  by (erule traced_invariant) (auto intro: step_ok)

section \<open>No statement fails\<close>

lemma stmt_succeeds:
  assumes ok: "sm_ok arg n B s" and i: "i < n" and st: "is_stmt (ss_pc s i)" "ss_pc s i \<noteq> Enter"
  shows "\<exists>x. sm_stmt bes (arg i) (ss_pc s i) (ss_mem s) = Inr x"
proof -
  have ow: "owned n s" and fits: "pc_fits (arg i) (ss_mem s) (ss_pc s i)" using ok by (simp_all add: sm_ok_def)
  have bl: "\<exists>ctx e bo ob. c = C_blacklist ctx e \<and> sm_bo ctx = Some bo \<and> mm_objs m sm = Some ob"
    if "blacklist_at c m sm" for c m sm
    using that by (auto simp: blacklist_at_def elim!: enter_blacklist_pc)
  have q: "\<exists>q ob. c = C_query q \<and> mm_objs m sm = Some ob" if "past_test c m sm" for c m sm
    using that by (auto simp: past_test_def query_at_def)
  show ?thesis
  proof (cases "ss_pc s i")
    case (H_Scan sm cur gone)
    with fits q obtain qq ob where ob: "arg i = C_query qq" "mm_objs (ss_mem s) sm = Some ob" by fastforce
    show ?thesis
    proof (cases cur)
      case (Some tr)
      have "tr \<in> set (so_troublelist ob)" using fits ob(2) by (simp add: H_Scan Some on_list_def)
      with owned_lists(2) [OF ow ob(2)] obtain x where "mm_trouble (ss_mem s) tr = Some x" by blast
      with ob show ?thesis by (simp add: H_Scan Some Let_def)
    qed (simp add: H_Scan)
  next
    case (H_Free sm retval bl gone)
    with fits q obtain qq ob where ob: "arg i = C_query qq" "mm_objs (ss_mem s) sm = Some ob" by fastforce
    show ?thesis
    proof (cases gone)
      case (Cons tr gone')
      with owned_mine(2) [OF ow i] obtain x where "mm_trouble (ss_mem s) tr = Some x" by (auto simp: H_Free)
      then show ?thesis by (simp add: H_Free Cons)
    qed (simp add: H_Free ob)
  qed (use fits st bl q in \<open>fastforce simp: count_at_def query_at_def Let_def\<close>)+
qed

lemma sm_progress:
  assumes ok: "sm_ok arg n B s"
  shows "(\<forall>i < n. ss_pc s i = Left) \<or>
    (\<exists>i < n. \<exists>e. ss_pc s i = Enter \<and> sm_stmt bes (arg i) Enter (ss_mem s) = Inl e) \<or>
    (\<exists>e t. sm_tstep bes arg n s e t)"
proof -
  have mu: "mutexed n s" using ok by (simp add: sm_ok_def)
  have move: "(\<exists>e. ss_pc s i = Enter \<and> sm_stmt bes (arg i) Enter (ss_mem s) = Inl e) \<or> (\<exists>e t. sm_tstep bes arg n s e t)"
    if i: "i < n" and pc: "ss_pc s i \<noteq> Left" "locks (ss_pc s i) = None" for i
  proof -
    consider "ss_pc s i = Idle" | "is_stmt (ss_pc s i)" | sm pc where "unlocks (ss_pc s i) = Some (sm, pc)"
      | r where "ss_pc s i = Leave r"
      using pc by (cases "ss_pc s i") auto
    then show ?thesis
    proof cases
      case 2
      show ?thesis
      proof (cases "sm_stmt bes (arg i) (ss_pc s i) (ss_mem s)")
        case (Inl e)
        with stmt_succeeds [OF ok i 2, of bes] show ?thesis by (cases "ss_pc s i = Enter") auto
      next
        case (Inr x)
        then show ?thesis using sm_tstep.stmt [where arg = arg and s = s, OF i 2] by (cases x) blast
      qed
    qed (use i in \<open>blast intro: sm_tstep.intros\<close>)+
  qed
  show ?thesis
  proof (cases "\<exists>i < n. ss_pc s i \<noteq> Left \<and> locks (ss_pc s i) = None")
    case True
    with move show ?thesis by blast
  next
    case False
    show ?thesis
    proof (cases "\<forall>i < n. ss_pc s i = Left")
      case False
      then obtain i sm pc where i: "i < n" "locks (ss_pc s i) = Some (sm, pc)"
        using \<open>\<not> (\<exists>i < n. ss_pc s i \<noteq> Left \<and> locks (ss_pc s i) = None)\<close> by (metis option.exhaust surj_pair)
      have "ss_mtx s sm = None"
      proof (rule ccontr)
        assume "ss_mtx s sm \<noteq> None"
        then obtain j where "ss_mtx s sm = Some j" by blast
        then have j: "holds (ss_pc s j) = Some sm" using mu unfolding mutexed_def by blast
        then have "j < n" using mu unfolding mutexed_def by (metis holds.simps(11) linorder_not_less option.distinct(1))
        with j \<open>\<not> (\<exists>i < n. ss_pc s i \<noteq> Left \<and> locks (ss_pc s i) = None)\<close> show False
          by (cases "locks (ss_pc s j)") (auto dest: locks_holds)
      qed
      with i show ?thesis by (blast intro: sm_tstep.lock)
    qed blast
  qed
qed

section \<open>Every run ends\<close>

text \<open>The entries before the cursor of the loop, and from it on.\<close>

definition before_cur :: "addr option \<Rightarrow> addr list \<Rightarrow> addr list" where
  "before_cur cur l = (case cur of None \<Rightarrow> l | Some a \<Rightarrow> takeWhile (\<lambda>x. x \<noteq> a) l)"

definition from_cur :: "addr option \<Rightarrow> addr list \<Rightarrow> addr list" where
  "from_cur cur l = (case cur of None \<Rightarrow> [] | Some a \<Rightarrow> dropWhile (\<lambda>x. x \<noteq> a) l)"

lemma before_from_cur [simp]: "before_cur cur l @ from_cur cur l = l"
  by (simp add: before_cur_def from_cur_def split: option.splits)

lemma cur_None [simp]: "before_cur None l = l" "from_cur None l = []"
  by (simp_all add: before_cur_def from_cur_def)

lemma cur_split:
  assumes "a \<notin> set xs"
  shows "before_cur (Some a) (xs @ a # ys) = xs" and "from_cur (Some a) (xs @ a # ys) = a # ys"
  using assms by (simp_all add: before_cur_def from_cur_def takeWhile_append takeWhile_eq_all_conv dropWhile_append)

lemma cur_first:
  "before_cur (case l of [] \<Rightarrow> None | a # _ \<Rightarrow> Some a) l = []"
  "from_cur (case l of [] \<Rightarrow> None | a # _ \<Rightarrow> Some a) l = l"
  by (simp_all add: before_cur_def from_cur_def split: list.splits)

lemma cur_next:
  assumes "distinct l" "a \<in> set l"
  shows "from_cur (Some a) l = a # from_cur (next_of a l) l"
    and "before_cur (next_of a l) l = before_cur (Some a) l @ [a]"
    and "from_cur (next_of a l) (remove1 a l) = from_cur (next_of a l) l"
    and "before_cur (next_of a l) (remove1 a l) = before_cur (Some a) l"
proof -
  obtain xs ys where l: "l = xs @ a # ys" "a \<notin> set xs" using assms(2) by (meson split_list_first)
  have r: "remove1 a l = xs @ ys" using l by (simp add: remove1_append)
  have "from_cur (Some a) l = a # from_cur (next_of a l) l \<and> before_cur (next_of a l) l = before_cur (Some a) l @ [a] \<and>
    from_cur (next_of a l) (remove1 a l) = from_cur (next_of a l) l \<and>
    before_cur (next_of a l) (remove1 a l) = before_cur (Some a) l"
  proof (cases ys)
    case Nil
    then show ?thesis unfolding r unfolding l(1) using l(2) by (simp add: next_of_split cur_split)
  next
    case (Cons y zs)
    have y: "y \<notin> set xs" "y \<notin> set (xs @ [a])" using assms(1) l Cons by auto
    have "from_cur (Some y) ((xs @ [a]) @ y # zs) = y # zs" "before_cur (Some y) ((xs @ [a]) @ y # zs) = xs @ [a]"
      by (simp_all only: cur_split [OF y(2)])
    then show ?thesis unfolding r unfolding l(1) using l(2) y
      by (simp add: Cons next_of_split cur_split)
  qed
  then show "from_cur (Some a) l = a # from_cur (next_of a l) l"
    and "before_cur (next_of a l) l = before_cur (Some a) l @ [a]"
    and "from_cur (next_of a l) (remove1 a l) = from_cur (next_of a l) l"
    and "before_cur (next_of a l) (remove1 a l) = before_cur (Some a) l" by blast+
qed

definition left_to_scan :: "sm_mem \<Rightarrow> addr \<Rightarrow> addr option \<Rightarrow> nat" where
  "left_to_scan m sm cur = (case mm_objs m sm of None \<Rightarrow> 0 | Some ob \<Rightarrow> length (from_cur cur (so_troublelist ob)))"

text \<open>How many more steps a thread makes at most, when no list is longer than \<open>B\<close>.\<close>

fun weight :: "nat \<Rightarrow> sm_mem \<Rightarrow> sm_pc \<Rightarrow> nat" where
  "weight B m Idle = 3 * B + 10"
| "weight B m Enter = 3 * B + 9"
| "weight B m (B_Alloc _) = 7"
| "weight B m (B_Lock _ _) = 6"
| "weight B m (B_Insert _ _) = 5"
| "weight B m (B_Count _) = 4"
| "weight B m (B_Log _) = 3"
| "weight B m (Q_Lock _) = 4"
| "weight B m (Q_Read _) = 3"
| "weight B m (H_Test _) = 3 * B + 8"
| "weight B m (H_Lock _) = 3 * B + 7"
| "weight B m (H_First _) = 3 * B + 6"
| "weight B m (H_Scan sm cur gone) = 3 * left_to_scan m sm cur + length gone + 5"
| "weight B m (H_Count sm cur gone) = 3 * left_to_scan m sm cur + length gone + 6"
| "weight B m (H_Decide _ _ gone) = length gone + 4"
| "weight B m (H_Unlock _ _ _ gone) = length gone + 3"
| "weight B m (H_Free _ _ _ gone) = length gone + 2"
| "weight B m (Unlocking _ _) = 2"
| "weight B m (Leave _) = 1"
| "weight B m Left = 0"

lemma weight_unchanged: "unchanged_for pc m m' \<Longrightarrow> weight B m' pc = weight B m pc"
  by (cases pc) (auto simp: unchanged_for_def left_to_scan_def)

lemma weight_lock: "locks pc = Some (sm, pc') \<Longrightarrow> weight B m pc' < weight B m pc"
  by (cases pc) auto

lemma weight_unlock: "unlocks pc = Some (sm, pc') \<Longrightarrow> weight B m pc' < weight B m pc"
  by (cases pc) auto

lemma weight_stmt:
  assumes ow: "owned n s" and fw: "few n B s" and fits: "pc_fits c (ss_mem s) (ss_pc s i)"
    and st: "is_stmt (ss_pc s i)" "sm_stmt bes c (ss_pc s i) (ss_mem s) = Inr (pc, m)"
  shows "weight B m pc < weight B (ss_mem s) (ss_pc s i)"
  using st
proof (cases rule: sm_stmt_cases)
  case (first sm ob)
  have "length (so_troublelist ob) \<le> B"
    using owned_lists(3) [OF ow first(2)] fw by (simp add: few_def)
  with first show ?thesis by (simp add: left_to_scan_def cur_first)
next
  case (expired q sm tr gone ob x)
  have "tr \<in> set (so_troublelist ob)" using fits expired(2,3) by (simp add: on_list_def)
  note c = cur_next [OF owned_lists(1) [OF ow expired(3)] this]
  show ?thesis using c(1,3) by (simp add: expired left_to_scan_def)
next
  case (keep q sm tr gone ob x)
  have "tr \<in> set (so_troublelist ob)" using fits keep(2,3) by (simp add: on_list_def)
  note c = cur_next [OF owned_lists(1) [OF ow keep(3)] this]
  show ?thesis using c(1) by (simp add: keep left_to_scan_def)
qed (auto simp: left_to_scan_def)

definition steps_left :: "nat \<Rightarrow> nat \<Rightarrow> sm_sys \<Rightarrow> nat" where
  "steps_left n B s = (\<Sum>i < n. weight B (ss_mem s) (ss_pc s i))"

lemma steps_left_less:
  assumes "i < n" "weight B m pc < weight B (ss_mem s) (ss_pc s i)"
    and "\<And>j. j < n \<Longrightarrow> j \<noteq> i \<Longrightarrow> weight B m (ss_pc s j) = weight B (ss_mem s) (ss_pc s j)"
  shows "(\<Sum>j < n. weight B m (((ss_pc s)(i := pc)) j)) < steps_left n B s"
  unfolding steps_left_def by (rule sum_strict_mono_ex1) (use assms in \<open>auto simp: le_less\<close>)

lemma step_ends:
  assumes "sm_tstep bes arg n s e t" "sm_ok arg n B s"
  shows "steps_left n B t < steps_left n B s"
proof -
  have ok: "owned n s" "mutexed n s" "few n B s" "\<And>j. pc_fits (arg j) (ss_mem s) (ss_pc s j)"
    using assms(2) by (simp_all add: sm_ok_def)
  from assms(1) show ?thesis
  proof cases
    case (call i)
    then show ?thesis using steps_left_less [OF call(3), of B "ss_mem s" Enter s] by (simp add: steps_left_def)
  next
    case (stmt i pc m)
    have "weight B m (ss_pc s j) = weight B (ss_mem s) (ss_pc s j)" if "j < n" "j \<noteq> i" for j
      by (rule weight_unchanged, rule stmt_other_fits [OF ok(1,2) stmt(3) that(1) _ stmt(4,5)]) (use that in simp)
    from steps_left_less [OF stmt(3) weight_stmt [OF ok(1,3,4) stmt(4,5)] this] show ?thesis
      by (simp add: stmt(2) steps_left_def)
  next
    case (lock i sm pc)
    then show ?thesis using steps_left_less [OF lock(3) weight_lock [OF lock(4)]] by (simp add: steps_left_def)
  next
    case (unlock i sm pc)
    then show ?thesis using steps_left_less [OF unlock(3) weight_unlock [OF unlock(4)]] by (simp add: steps_left_def)
  next
    case (return i r)
    then show ?thesis using steps_left_less [OF return(3), of B "ss_mem s" Left s] by (simp add: steps_left_def)
  qed
qed

lemma steps_ok: "((\<lambda>s t. \<exists>e. sm_tstep bes arg n s e t) ^^ k) s t \<Longrightarrow> sm_ok arg n B s \<Longrightarrow>
    sm_ok arg n B t \<and> k + steps_left n B t \<le> steps_left n B s"
proof (induction k arbitrary: t)
  case (Suc k)
  then obtain u e where "((\<lambda>s t. \<exists>e. sm_tstep bes arg n s e t) ^^ k) s u" "sm_tstep bes arg n u e t" by auto
  with Suc.IH [OF this(1) Suc.prems(2)] step_ok step_ends show ?case by fastforce
qed simp

section \<open>A run for the witnesses\<close>

text \<open>The next step of thread \<open>i\<close>, and a run under a schedule, a list of threads.\<close>

definition run_thread :: "backends \<Rightarrow> (nat \<Rightarrow> sm_call) \<Rightarrow> nat \<Rightarrow> sm_sys \<Rightarrow> (sm_event list \<times> sm_sys) option" where
  "run_thread bes arg i s =
     (let pc = ss_pc s i; go = (\<lambda>pc'. s\<lparr>ss_pc := (ss_pc s)(i := pc')\<rparr>) in
      if pc = Idle then Some ([Call i], go Enter)
      else if is_stmt pc then
        (case sm_stmt bes (arg i) pc (ss_mem s) of Inl _ \<Rightarrow> None | Inr (pc', m) \<Rightarrow> Some ([], (go pc')\<lparr>ss_mem := m\<rparr>))
      else case locks pc of
        Some (sm, pc') \<Rightarrow> if ss_mtx s sm = None then Some ([], (go pc')\<lparr>ss_mtx := (ss_mtx s)(sm := Some i)\<rparr>) else None
      | None \<Rightarrow> (case unlocks pc of
          Some (sm, pc') \<Rightarrow> Some ([], (go pc')\<lparr>ss_mtx := (ss_mtx s)(sm := None)\<rparr>)
        | None \<Rightarrow> (case pc of Leave r \<Rightarrow> Some ([Return i r], go Left) | _ \<Rightarrow> None)))"

fun run_schedule :: "backends \<Rightarrow> (nat \<Rightarrow> sm_call) \<Rightarrow> nat list \<Rightarrow> sm_sys \<Rightarrow> (sm_event list \<times> sm_sys) option" where
  "run_schedule bes arg [] s = Some ([], s)"
| "run_schedule bes arg (i # is) s =
     (case run_thread bes arg i s of None \<Rightarrow> None
      | Some (e, t) \<Rightarrow> map_option (\<lambda>(es, u). (e @ es, u)) (run_schedule bes arg is t))"

lemma run_thread_step:
  assumes "run_thread bes arg i s = Some (e, t)" "i < n"
  shows "sm_tstep bes arg n s e t"
proof -
  have eq: "(s\<lparr>ss_pc := p\<rparr>)\<lparr>ss_mem := m\<rparr> = s\<lparr>ss_mem := m, ss_pc := p\<rparr>"
    "(s\<lparr>ss_pc := p\<rparr>)\<lparr>ss_mtx := x\<rparr> = s\<lparr>ss_mtx := x, ss_pc := p\<rparr>" for p m x by simp_all
  consider "ss_pc s i = Idle" | "is_stmt (ss_pc s i)" | sm pc where "locks (ss_pc s i) = Some (sm, pc)"
    | sm pc where "unlocks (ss_pc s i) = Some (sm, pc)" | r where "ss_pc s i = Leave r" | "ss_pc s i = Left"
    by (cases "ss_pc s i") auto
  then show ?thesis
  proof cases
    case 1
    with assms sm_tstep.call [where s = s and arg = arg, OF assms(2) 1] show ?thesis by (simp add: run_thread_def Let_def)
  next
    case 2
    then have "ss_pc s i \<noteq> Idle" by auto
    with 2 assms obtain pc m where st: "sm_stmt bes (arg i) (ss_pc s i) (ss_mem s) = Inr (pc, m)"
      "e = []" "t = s\<lparr>ss_mem := m, ss_pc := (ss_pc s)(i := pc)\<rparr>"
      by (auto simp: run_thread_def Let_def split: sum.splits)
    show ?thesis unfolding st(2,3) by (rule sm_tstep.stmt [where s = s and arg = arg, OF assms(2) 2 st(1)])
  next
    case (3 sm pc)
    then have "ss_pc s i \<noteq> Idle" "\<not> is_stmt (ss_pc s i)" by (cases "ss_pc s i"; simp)+
    with 3 assms have l: "ss_mtx s sm = None" "e = []" "t = s\<lparr>ss_mtx := (ss_mtx s)(sm := Some i), ss_pc := (ss_pc s)(i := pc)\<rparr>"
      by (auto simp: run_thread_def Let_def split: if_splits)
    show ?thesis unfolding l(2,3) by (rule sm_tstep.lock [where s = s, OF assms(2) 3 l(1)])
  next
    case (4 sm pc)
    then have "ss_pc s i \<noteq> Idle" "\<not> is_stmt (ss_pc s i)" "locks (ss_pc s i) = None" by (cases "ss_pc s i"; simp)+
    with 4 assms have l: "e = []" "t = s\<lparr>ss_mtx := (ss_mtx s)(sm := None), ss_pc := (ss_pc s)(i := pc)\<rparr>"
      by (auto simp: run_thread_def Let_def split: if_splits)
    show ?thesis unfolding l by (rule sm_tstep.unlock [where s = s, OF assms(2) 4])
  next
    case (5 r)
    with assms sm_tstep.return [where s = s and arg = arg, OF assms(2) 5] show ?thesis by (simp add: run_thread_def Let_def)
  qed (use assms in \<open>simp add: run_thread_def Let_def\<close>)
qed

lemma run_schedule_steps:
  "run_schedule bes arg is s = Some (es, t) \<Longrightarrow> set is \<subseteq> {..<n} \<Longrightarrow>
   traced (sm_tstep bes arg n) s es t \<and> ((\<lambda>s t. \<exists>e. sm_tstep bes arg n s e t) ^^ length is) s t"
proof (induction "is" arbitrary: s es)
  case (Cons i "is")
  then obtain e u es' where u: "run_thread bes arg i s = Some (e, u)" "run_schedule bes arg is u = Some (es', t)" "es = e @ es'"
    by (auto split: option.splits)
  have st: "sm_tstep bes arg n s e u" by (rule run_thread_step [OF u(1)]) (use Cons.prems(2) in simp)
  have IH: "traced (sm_tstep bes arg n) u es' t \<and> ((\<lambda>s t. \<exists>e. sm_tstep bes arg n s e t) ^^ length is) u t"
    by (rule Cons.IH [OF u(2)]) (use Cons.prems(2) in simp)
  show ?case
  proof
    show "traced (sm_tstep bes arg n) s es t" unfolding u(3) by (rule traced_append [OF _ traced_one]) (use IH st in simp_all)
    show "((\<lambda>s t. \<exists>e. sm_tstep bes arg n s e t) ^^ length (i # is)) s t"
      unfolding list.size(4) add_0_right add_Suc_right using IH st by (intro relpowp_Suc_I2) blast+
  qed
qed simp

text \<open>
  A director object in front of backend 1 with an entry that times out at 3. Thread 0 resolves
  it for a fetch at time 5; thread 1 asks for the count and has to wait for the mutex.
\<close>

definition demo_mem :: sm_mem where
  "demo_mem = \<lparr>mm_objs = [1 \<mapsto> \<lparr>so_vcl_name = ''sm1'', so_be = 1, so_threshold = 2, so_n_trouble = 1, so_troublelist = [7]\<rparr>],
     mm_sm_list = Some [1], mm_obj_next = 2,
     mm_trouble = [7 \<mapsto> \<lparr>tr_digest = demo_digest 7, tr_timeout = 3\<rparr>], mm_next = 8\<rparr>"

definition demo_call :: "nat \<Rightarrow> sm_call" where
  "demo_call i = (if i = 0 then C_query (Resolve 0 1 (Some (demo_bo 7 5)) []) else C_count 1)"

definition demo_schedule :: "nat list" where
  "demo_schedule = [0, 1, 0, 1, 0, 0, 0, 0, 0, 0, 0, 0, 1, 1, 1, 1, 0, 0, 0]"

lemma demo_schedule_len: "set demo_schedule \<subseteq> {..<2}" "length demo_schedule = 19"
  by (simp_all add: demo_schedule_def)

lemma demo_mem_ok: "sm_start_ok 2 demo_mem"
  by (simp add: sm_start_ok_def demo_mem_def all_listed_def)

lemma demo_sm_run:
  "\<exists>s. run_schedule demo_backends demo_call demo_schedule (sm_start demo_mem) =
     Some ([Call 0, Call 1, Return 1 (R_count 0), Return 0 (R_resolve (Some 1) [])], s) \<and>
     (\<forall>i < 2. ss_pc s i = Left) \<and> mm_trouble (ss_mem s) = Map.empty"
  by (simp add: demo_schedule_def run_thread_def Let_def sm_start_def demo_mem_def demo_call_def demo_bo_def bo_scan_def
      demo_backends_def log_bo_def log_verdict_def next_of_def less_2_cases_iff)

section \<open>Properties\<close>

text \<open>
  Claim C21. However the threads interleave, no two of them are inside the same director object; no
  statement fails but the assertions at the entry of a call, so none reads or frees a trouble
  entry that was freed; and when all calls have returned every mutex is free, the entries
  still allocated are those on the lists, each on one list once, and every counter is the length
  of its list.
\<close>

theorem sm_threads_safe:
  assumes "sm_start_ok n m" and "traced (sm_tstep bes arg n) (sm_start m) es s"
  shows "(\<forall>i j sm. holds (ss_pc s i) = Some sm \<longrightarrow> holds (ss_pc s j) = Some sm \<longrightarrow> i = j) \<and>
    (\<forall>i < n. \<forall>e. is_stmt (ss_pc s i) \<longrightarrow> sm_stmt bes (arg i) (ss_pc s i) (ss_mem s) = Inl e \<longrightarrow> ss_pc s i = Enter) \<and>
    ((\<forall>i < n. ss_pc s i = Left) \<longrightarrow> ss_mtx s = (\<lambda>_. None) \<and>
       all_listed (mm_objs (ss_mem s)) = mset_set (dom (mm_trouble (ss_mem s))) \<and>
       (\<forall>sm ob. mm_objs (ss_mem s) sm = Some ob \<longrightarrow> so_n_trouble ob = of_nat (length (so_troublelist ob))))"
proof (intro conjI impI)
  have ok: "sm_ok arg n (card (dom (mm_trouble m)) + n) s"
    by (rule traced_ok [OF assms(2) sm_start_inv [OF assms(1)]])
  then have inv: "owned n s" "mutexed n s" "counted s" by (simp_all add: sm_ok_def)
  show "\<forall>i j sm. holds (ss_pc s i) = Some sm \<longrightarrow> holds (ss_pc s j) = Some sm \<longrightarrow> i = j"
    using inv(2) unfolding mutexed_def by (metis option.inject)
  show "\<forall>i < n. \<forall>e. is_stmt (ss_pc s i) \<longrightarrow> sm_stmt bes (arg i) (ss_pc s i) (ss_mem s) = Inl e \<longrightarrow> ss_pc s i = Enter"
    using stmt_succeeds [OF ok] by (metis Inl_Inr_False)
  assume left: "\<forall>i < n. ss_pc s i = Left"
  then have none: "holds (ss_pc s i) = None" "mine (ss_pc s i) = []" for i
    using inv(2) unfolding mutexed_def by (cases "i < n"; simp)+
  show mtx: "ss_mtx s = (\<lambda>_. None)"
  proof
    fix sm
    show "ss_mtx s sm = None" using inv(2) none(1) unfolding mutexed_def by (metis option.exhaust option.distinct(1))
  qed
  show "all_listed (mm_objs (ss_mem s)) = mset_set (dom (mm_trouble (ss_mem s)))"
    using inv(1) by (simp add: owned_def none(2))
  show "\<forall>sm ob. mm_objs (ss_mem s) sm = Some ob \<longrightarrow> so_n_trouble ob = of_nat (length (so_troublelist ob))"
    using inv(3) by (simp add: counted_def holder_pc_def mtx)
qed

lemma sm_threads_safe_witness:
  "\<exists>es s. traced (sm_tstep demo_backends demo_call 2) (sm_start demo_mem) es s \<and> (\<forall>i < 2. ss_pc s i = Left) \<and>
     ss_mtx s = (\<lambda>_. None) \<and> all_listed (mm_objs (ss_mem s)) = {#}"
proof -
  obtain es s where s: "run_schedule demo_backends demo_call demo_schedule (sm_start demo_mem) = Some (es, s)"
    "\<forall>i < 2. ss_pc s i = Left" "mm_trouble (ss_mem s) = Map.empty"
    using demo_sm_run by blast
  have "traced (sm_tstep demo_backends demo_call 2) (sm_start demo_mem) es s"
    using run_schedule_steps [OF s(1) demo_schedule_len(1)] by blast
  with sm_threads_safe [OF demo_mem_ok this] s(2,3) show ?thesis by auto
qed

text \<open>
  Claim C22. Every run of \<open>n\<close> threads ends after a number of steps that is linear in \<open>n\<close> for each thread,
  whatever the schedule; and a run that cannot go on has all calls returned, unless one
  stopped the process by an assertion at its entry. So no thread waits for a mutex for good and
  no scan loops while others add to the list.
\<close>

theorem sm_threads_end:
  assumes "sm_start_ok n m" and "((\<lambda>s t. \<exists>e. sm_tstep bes arg n s e t) ^^ k) (sm_start m) s"
  shows "k \<le> n * (3 * (card (dom (mm_trouble m)) + n) + 10) \<and>
    ((\<nexists>e t. sm_tstep bes arg n s e t) \<longrightarrow> (\<forall>i < n. ss_pc s i = Left) \<or>
       (\<exists>i < n. \<exists>e. ss_pc s i = Enter \<and> sm_stmt bes (arg i) Enter (ss_mem s) = Inl e))"
proof -
  let ?B = "card (dom (mm_trouble m)) + n"
  have "sm_ok arg n ?B s \<and> k + steps_left n ?B s \<le> steps_left n ?B (sm_start m)"
    by (rule steps_ok [OF assms(2) sm_start_inv [OF assms(1)]])
  moreover have "steps_left n ?B (sm_start m) = n * (3 * ?B + 10)" by (simp add: steps_left_def sm_start_def)
  ultimately have "k \<le> n * (3 * ?B + 10)" "sm_ok arg n ?B s" by linarith+
  with sm_progress [OF this(2), of bes] show ?thesis by blast
qed

lemma sm_threads_end_witness:
  "\<exists>s. ((\<lambda>s t. \<exists>e. sm_tstep demo_backends demo_call 2 s e t) ^^ 19) (sm_start demo_mem) s \<and> (19 :: nat) \<le> 2 * (3 * (1 + 2) + 10)"
proof -
  obtain es s where s: "run_schedule demo_backends demo_call demo_schedule (sm_start demo_mem) = Some (es, s)"
    using demo_sm_run by blast
  have run: "((\<lambda>s t. \<exists>e. sm_tstep demo_backends demo_call 2 s e t) ^^ 19) (sm_start demo_mem) s"
    using run_schedule_steps [OF s demo_schedule_len(1)] demo_schedule_len(2) by simp
  have "(19 :: nat) \<le> 2 * (3 * (card (dom (mm_trouble demo_mem)) + 2) + 10)"
    using sm_threads_end [OF demo_mem_ok run] by (rule conjunct1)
  then have "(19 :: nat) \<le> 2 * (3 * (1 + 2) + 10)" by (simp add: demo_mem_def)
  with run show ?thesis by blast
qed

end
