(* ===== verification/Saintmode_Atomic.thy ===== *)
theory Saintmode_Atomic
  imports Saintmode_Threads
begin

text \<open>
  The calls of theory \<open>Saintmode\<close>, each one step, between the events of being called and of
  returning; and the proof that the threads of \<open>Saintmode_Lock\<close> produce no other sequence of
  events. A call takes effect when it increments the counter, when it takes the lock for its
  scan, or when it reads the counter, with the lock or without.
\<close>

section \<open>Calls as single steps\<close>

fun sm_seq :: "backends \<Rightarrow> sm_call \<Rightarrow> sm_vcl \<Rightarrow> (sm_ret \<times> sm_vcl) res" where
  "sm_seq bes (C_blacklist ctx e) s = res_bind (vmod_blacklist bes ctx s e) (\<lambda>(ctx1, s1). Inr (R_blacklist ctx1, s1))"
| "sm_seq bes (C_count sm) s = res_bind (vmod_saintmode_blacklist_count sm s) (\<lambda>k. Inr (R_count k, s))"
| "sm_seq bes (C_query (Is_healthy now ctx sm)) s =
     res_bind (vmod_saintmode_is_healthy bes now ctx sm s) (\<lambda>(r, ctx1, s1). Inr (R_is_healthy r ctx1, s1))"
| "sm_seq bes (C_query (Healthy now sm bo v)) s =
     res_bind (sm_healthy bes now sm bo v s) (\<lambda>(r, v1, s1). Inr (R_healthy r v1, s1))"
| "sm_seq bes (C_query (Resolve now sm bo v)) s =
     res_bind (resolve bes now sm bo v s) (\<lambda>(r, v1, s1). Inr (R_resolve r v1, s1))"

datatype am_pc = A_Idle | A_Called | A_Done sm_ret | A_Left

record sm_atom =
  am_mem :: sm_vcl
  am_pc :: "nat \<Rightarrow> am_pc"

inductive sm_astep :: "backends \<Rightarrow> (nat \<Rightarrow> sm_call) \<Rightarrow> nat \<Rightarrow> sm_atom \<Rightarrow> sm_event list \<Rightarrow> sm_atom \<Rightarrow> bool"
  for bes arg n where
  a_call: "i < n \<Longrightarrow> am_pc a i = A_Idle \<Longrightarrow> sm_astep bes arg n a [Call i] (a\<lparr>am_pc := (am_pc a)(i := A_Called)\<rparr>)"
| a_commit: "i < n \<Longrightarrow> am_pc a i = A_Called \<Longrightarrow> sm_seq bes (arg i) (am_mem a) = Inr (r, s) \<Longrightarrow>
    sm_astep bes arg n a [] (a\<lparr>am_mem := s, am_pc := (am_pc a)(i := A_Done r)\<rparr>)"
| a_return: "i < n \<Longrightarrow> am_pc a i = A_Done r \<Longrightarrow>
    sm_astep bes arg n a [Return i r] (a\<lparr>am_pc := (am_pc a)(i := A_Left)\<rparr>)"

section \<open>The memory as the calls see it\<close>

definition entries :: "sm_mem \<Rightarrow> addr list \<Rightarrow> trouble list" where
  "entries m l = map (\<lambda>a. the (mm_trouble m a)) l"

definition seq_obj :: "sm_obj \<Rightarrow> trouble list \<Rightarrow> u32 \<Rightarrow> vmod_saintmode_saintmode" where
  "seq_obj ob l k = \<lparr>sm_vcl_name = so_vcl_name ob, sm_be = so_be ob, threshold = so_threshold ob, n_trouble = k,
     troublelist = l\<rparr>"

text \<open>The memory when no call is under way.\<close>

definition seq_mem :: "sm_mem \<Rightarrow> sm_vcl" where
  "seq_mem m = \<lparr>sm_heap = (\<lambda>sm. map_option (\<lambda>ob. seq_obj ob (entries m (so_troublelist ob)) (so_n_trouble ob)) (mm_objs m sm)),
     sm_objs = mm_sm_list m, sm_next = mm_obj_next m\<rparr>"

text \<open>What the rest of a scan from the cursor on will give: the list, the counter, the verdict.\<close>

definition scan_rest :: "sm_query \<Rightarrow> sm_mem \<Rightarrow> addr option \<Rightarrow> addr list \<Rightarrow> u32 \<Rightarrow> trouble list \<times> u32 \<times> bool" where
  "scan_rest q m cur l k = trouble_scan (fst (scan_args q)) (snd (scan_args q)) (entries m (from_cur cur l)) k"

definition after_scan :: "sm_query \<Rightarrow> sm_mem \<Rightarrow> addr option \<Rightarrow> sm_obj \<Rightarrow> u32 \<Rightarrow> vmod_saintmode_saintmode" where
  "after_scan q m cur ob k =
     (case scan_rest q m cur (so_troublelist ob) k of
        (l, k', bl) \<Rightarrow> seq_obj ob (entries m (before_cur cur (so_troublelist ob)) @ l) k')"

definition scan_ret :: "backends \<Rightarrow> sm_query \<Rightarrow> sm_mem \<Rightarrow> addr option \<Rightarrow> sm_obj \<Rightarrow> u32 \<Rightarrow> sm_ret" where
  "scan_ret bes q m cur ob k =
     (case scan_rest q m cur (so_troublelist ob) k of
        (l, k', bl) \<Rightarrow> health_ret bes q (so_be ob) (if so_threshold ob \<le> k' then False else \<not> bl) bl)"

definition first_cur :: "addr list \<Rightarrow> addr option" where
  "first_cur l = (case l of [] \<Rightarrow> None | a # _ \<Rightarrow> Some a)"

text \<open>An object as it is before or after the call of the thread that holds it.\<close>

fun settled :: "sm_call \<Rightarrow> sm_mem \<Rightarrow> sm_pc \<Rightarrow> sm_obj \<Rightarrow> vmod_saintmode_saintmode" where
  "settled c m (B_Count _) ob = seq_obj ob (entries m (tl (so_troublelist ob))) (so_n_trouble ob)"
| "settled (C_query q) m (H_First _) ob = after_scan q m (first_cur (so_troublelist ob)) ob (so_n_trouble ob)"
| "settled (C_query q) m (H_Scan _ cur _) ob = after_scan q m cur ob (so_n_trouble ob)"
| "settled (C_query q) m (H_Count _ cur _) ob = after_scan q m cur ob (so_n_trouble ob - 1)"
| "settled c m pc ob = seq_obj ob (entries m (so_troublelist ob)) (so_n_trouble ob)"

text \<open>Where a call is in the atomic system, and the result it has got already.\<close>

fun promised :: "backends \<Rightarrow> sm_call \<Rightarrow> sm_mem \<Rightarrow> sm_pc \<Rightarrow> am_pc" where
  "promised bes c m Idle = A_Idle"
| "promised bes c m Left = A_Left"
| "promised bes c m (Leave r) = A_Done r"
| "promised bes c m (Unlocking _ r) = A_Done r"
| "promised bes (C_blacklist ctx e) m (B_Log sm) = A_Done (blacklist_ret bes ctx e (so_be (the (mm_objs m sm))))"
| "promised bes (C_query q) m (H_First sm) =
     (let ob = the (mm_objs m sm) in A_Done (scan_ret bes q m (first_cur (so_troublelist ob)) ob (so_n_trouble ob)))"
| "promised bes (C_query q) m (H_Scan sm cur _) =
     (let ob = the (mm_objs m sm) in A_Done (scan_ret bes q m cur ob (so_n_trouble ob)))"
| "promised bes (C_query q) m (H_Count sm cur _) =
     (let ob = the (mm_objs m sm) in A_Done (scan_ret bes q m cur ob (so_n_trouble ob - 1)))"
| "promised bes (C_query q) m (H_Decide sm bl _) =
     (let ob = the (mm_objs m sm) in
      A_Done (health_ret bes q (so_be ob) (if so_threshold ob \<le> so_n_trouble ob then False else \<not> bl) bl))"
| "promised bes (C_query q) m (H_Unlock sm retval bl _) = A_Done (health_ret bes q (so_be (the (mm_objs m sm))) retval bl)"
| "promised bes (C_query q) m (H_Free sm retval bl _) = A_Done (health_ret bes q (so_be (the (mm_objs m sm))) retval bl)"
| "promised bes c m pc = A_Called"

definition view :: "(nat \<Rightarrow> sm_call) \<Rightarrow> sm_sys \<Rightarrow> addr \<Rightarrow> vmod_saintmode_saintmode option" where
  "view arg s sm = map_option
     (case ss_mtx s sm of
        None \<Rightarrow> (\<lambda>ob. seq_obj ob (entries (ss_mem s) (so_troublelist ob)) (so_n_trouble ob))
      | Some i \<Rightarrow> settled (arg i) (ss_mem s) (ss_pc s i))
     (mm_objs (ss_mem s) sm)"

definition atom_of :: "backends \<Rightarrow> (nat \<Rightarrow> sm_call) \<Rightarrow> sm_sys \<Rightarrow> sm_atom" where
  "atom_of bes arg s =
     \<lparr>am_mem = \<lparr>sm_heap = view arg s, sm_objs = mm_sm_list (ss_mem s), sm_next = mm_obj_next (ss_mem s)\<rparr>,
      am_pc = (\<lambda>i. promised bes (arg i) (ss_mem s) (ss_pc s i))\<rparr>"

section \<open>What the calls of theory \<open>Saintmode\<close> do, in the terms of the threads\<close>

definition heap_fits :: "sm_mem \<Rightarrow> sm_vcl \<Rightarrow> bool" where
  "heap_fits m s \<longleftrightarrow> sm_objs s = mm_sm_list m \<and> (\<forall>sm. map_option sm_be (sm_heap s sm) = map_option so_be (mm_objs m sm))"

lemma find_sm_loop_fits:
  assumes "heap_fits m s"
  shows "find_sm_loop (sm_heap s) sms be = find_sm_obj (mm_objs m) sms be"
proof (induction sms)
  case (Cons sm sms)
  have "map_option sm_be (sm_heap s sm) = map_option so_be (mm_objs m sm)" using assms by (simp add: heap_fits_def)
  then show ?case using Cons by (cases "sm_heap s sm"; cases "mm_objs m sm") (auto simp: deref_def)
qed simp

lemma seq_refused:
  assumes "heap_fits m s" "enter_blacklist ctx m = Inr (Leave r)"
  shows "sm_seq bes (C_blacklist ctx e) s = Inr (r, s)"
  using assms(2) assms(1)
  by (auto simp: enter_blacklist_def vmod_blacklist_def heap_fits_def find_sm_def Let_def find_sm_loop_fits [OF assms(1)]
      split: option.splits if_splits)

lemma seq_blacklist:
  assumes "heap_fits m s" "enter_blacklist ctx m = Inr (B_Alloc sm)" "sm_heap s sm = Some ob" "sm_bo ctx = Some bo"
  shows "sm_seq bes (C_blacklist ctx e) s = Inr (blacklist_ret bes ctx e (sm_be ob), s\<lparr>sm_heap := (sm_heap s)(sm \<mapsto>
    ob\<lparr>troublelist := \<lparr>tr_digest = bo_digest bo, tr_timeout = dadd (bo_t_prev bo) e\<rparr> # troublelist ob, n_trouble := n_trouble ob + 1\<rparr>)\<rparr>)"
  using assms(2-4) assms(1)
  by (auto simp: enter_blacklist_def vmod_blacklist_def heap_fits_def find_sm_def Let_def find_sm_loop_fits [OF assms(1)]
      blacklist_ret_def split: option.splits if_splits)

lemma is_digest_healthy_scan:
  assumes "sm_heap s sm = Some ob" "trouble_scan dg t (troublelist ob) (n_trouble ob) = (l, k, bl)"
  shows "is_digest_healthy bes sm dg t vsl s =
    Inr (if threshold ob \<le> k then False else \<not> bl,
      map_option (log_verdict bes (sm_be ob) (if threshold ob \<le> k then False else \<not> bl) bl) vsl,
      s\<lparr>sm_heap := (sm_heap s)(sm \<mapsto> ob\<lparr>troublelist := l, n_trouble := k\<rparr>)\<rparr>)"
  using assms by (cases vsl) (simp_all add: is_digest_healthy_def log_verdict_def Let_def)

lemma seq_test:
  assumes "sm_heap s (query_obj q) = Some ob" "tests_first q" "threshold ob = 0 \<or> n_trouble ob = 0"
  shows "sm_seq bes (C_query q) s = Inr (health_ret bes q (sm_be ob) True False, s)"
  using assms
  by (cases q) (auto simp: sm_healthy_def vmod_saintmode_is_healthy_def resolve_def log_bo_def log_verdict_def)

lemma sm_healthy_scan:
  assumes "sm_heap s sm = Some ob" "threshold ob \<noteq> 0" "n_trouble ob \<noteq> 0"
    and "trouble_scan (fst (bo_scan now bo)) (snd (bo_scan now bo)) (troublelist ob) (n_trouble ob) = (l, k, bl)"
  shows "sm_healthy bes now sm bo v s =
    Inr ((if threshold ob \<le> k then False else \<not> bl) \<and> be_healthy bes (sm_be ob) bo,
      log_bo bes (sm_be ob) bo (if threshold ob \<le> k then False else \<not> bl) bl v,
      s\<lparr>sm_heap := (sm_heap s)(sm \<mapsto> ob\<lparr>troublelist := l, n_trouble := k\<rparr>)\<rparr>)"
  using assms
  by (cases bo) (simp_all add: sm_healthy_def bo_scan_def log_bo_def is_digest_healthy_scan [OF assms(1)])

lemma seq_scan:
  assumes "sm_heap s (query_obj q) = Some ob" "tests_first q \<longrightarrow> threshold ob \<noteq> 0 \<and> n_trouble ob \<noteq> 0"
    and "trouble_scan (fst (scan_args q)) (snd (scan_args q)) (troublelist ob) (n_trouble ob) = (l, k, bl)"
  shows "sm_seq bes (C_query q) s =
    Inr (health_ret bes q (sm_be ob) (if threshold ob \<le> k then False else \<not> bl) bl,
      s\<lparr>sm_heap := (sm_heap s)(query_obj q \<mapsto> ob\<lparr>troublelist := l, n_trouble := k\<rparr>)\<rparr>)"
proof (cases q)
  case (Is_healthy now ctx sm)
  show ?thesis
  proof (cases "sm_req ctx")
    case None
    with assms Is_healthy show ?thesis by (simp add: vmod_saintmode_is_healthy_def sm_healthy_scan)
  next
    case (Some req)
    with assms Is_healthy show ?thesis
      by (simp add: vmod_saintmode_is_healthy_def is_digest_healthy_scan Let_def)
  qed
next
  case (Healthy now sm bo v)
  with assms show ?thesis by (simp add: sm_healthy_scan)
next
  case (Resolve now sm bo v)
  with assms show ?thesis by (simp add: resolve_def sm_healthy_scan)
qed

section \<open>The simulation\<close>

lemma seq_obj_sel [simp]:
  "sm_be (seq_obj ob l k) = so_be ob" "threshold (seq_obj ob l k) = so_threshold ob"
  "n_trouble (seq_obj ob l k) = k" "troublelist (seq_obj ob l k) = l"
  "seq_obj ob l k\<lparr>troublelist := l', n_trouble := k'\<rparr> = seq_obj ob l' k'"
  "seq_obj (ob\<lparr>so_n_trouble := k'\<rparr>) l k = seq_obj ob l k" "seq_obj (ob\<lparr>so_troublelist := as\<rparr>) l k = seq_obj ob l k"
  by (simp_all add: seq_obj_def)

lemma entries_simps [simp]:
  "entries m [] = []" "entries m (a # l) = the (mm_trouble m a) # entries m l" "entries m (l @ l') = entries m l @ entries m l'"
  "entries (upd_obj sm ob m) l = entries m l"
  by (simp_all add: entries_def)

lemma entries_cong: "(\<And>a. a \<in> set l \<Longrightarrow> mm_trouble m' a = mm_trouble m a) \<Longrightarrow> entries m' l = entries m l"
  by (simp add: entries_def)

lemma set_cur: "set (before_cur cur l) \<subseteq> set l" "set (from_cur cur l) \<subseteq> set l"
  by (auto simp: before_cur_def from_cur_def split: option.splits dest: set_takeWhileD set_dropWhileD)

lemma scan_rest_cong:
  "(\<And>a. a \<in> set l \<Longrightarrow> mm_trouble m' a = mm_trouble m a) \<Longrightarrow> scan_rest q m' cur l k = scan_rest q m cur l k"
  using set_cur(2) [of cur l] by (simp add: scan_rest_def entries_cong [of "from_cur cur l" m' m] subset_iff)

lemma after_scan_cong:
  "(\<And>a. a \<in> set (so_troublelist ob) \<Longrightarrow> mm_trouble m' a = mm_trouble m a) \<Longrightarrow> after_scan q m' cur ob k = after_scan q m cur ob k"
  using set_cur(1) [of cur "so_troublelist ob"]
  by (simp add: after_scan_def scan_rest_cong [of "so_troublelist ob" m' m]
      entries_cong [of "before_cur cur (so_troublelist ob)" m' m] subset_iff)

lemma settled_cong:
  assumes "\<And>a. a \<in> set (so_troublelist ob) \<Longrightarrow> mm_trouble m' a = mm_trouble m a"
  shows "settled c m' pc ob = settled c m pc ob"
proof -
  have "entries m' (tl (so_troublelist ob)) = entries m (tl (so_troublelist ob))"
    using assms by (cases "so_troublelist ob") (auto intro: entries_cong)
  then show ?thesis
    using entries_cong [OF assms] after_scan_cong [OF assms] by (cases pc; cases c) simp_all
qed

lemma settled_fresh:
  "settled c m (B_Insert sm tp) = (\<lambda>ob. seq_obj ob (entries m (so_troublelist ob)) (so_n_trouble ob))"
  "settled c m (Q_Read sm) = (\<lambda>ob. seq_obj ob (entries m (so_troublelist ob)) (so_n_trouble ob))"
  by (rule ext, cases c; simp)+

lemma settled_be: "sm_be (settled c m pc ob) = so_be ob" "threshold (settled c m pc ob) = so_threshold ob"
  by (cases pc; cases c; simp add: after_scan_def split: prod.splits)+

lemma view_be: "map_option sm_be (view arg s sm) = map_option so_be (mm_objs (ss_mem s) sm)"
  by (auto simp: view_def option.map_comp settled_be comp_def split: option.splits)

lemma atom_fits: "heap_fits (ss_mem s) (am_mem (atom_of bes arg s))"
  by (simp add: heap_fits_def atom_of_def view_be)

lemma promised_unchanged:
  assumes "unchanged_for pc m m'" "pc_fits c m pc"
  shows "promised bes c m' pc = promised bes c m pc"
proof -
  have sh: "same_shape m m'" using assms(1) by (simp add: unchanged_for_def)
  have be: "so_be (the (mm_objs m' sm)) = so_be (the (mm_objs m sm))" if "past_test c m sm" for sm
  proof -
    have "sm \<in> dom (mm_objs m')" using that same_shape_dom [OF sh] by (auto simp: past_test_def query_at_def)
    then obtain ob' where ob': "mm_objs m' sm = Some ob'" by blast
    obtain ob where "mm_objs m sm = Some ob" "so_be ob' = so_be ob" by (rule same_shape_obj [OF sh ob'])
    with ob' show ?thesis by simp
  qed
  have sc: "scan_ret bes q m' cur (the (mm_objs m sm)) k = scan_ret bes q m cur (the (mm_objs m sm)) k"
    if "holds pc = Some sm" "past_test c m sm" for q cur k sm
  proof -
    have "sm \<in> dom (mm_objs m)" using that(2) by (simp add: past_test_def query_at_def)
    then obtain ob where ob: "mm_objs m sm = Some ob" by blast
    with assms(1) that(1) have "\<And>a. a \<in> set (so_troublelist ob) \<Longrightarrow> mm_trouble m' a = mm_trouble m a"
      by (simp add: unchanged_for_def)
    then show ?thesis using ob by (simp add: scan_ret_def scan_rest_cong [of "so_troublelist ob" m' m])
  qed
  have ob: "mm_objs m' sm = mm_objs m sm" if "holds pc = Some sm" for sm
    using assms(1) that by (simp add: unchanged_for_def)
  show ?thesis using assms(2) be sc ob by (cases pc; cases c) (simp_all add: Let_def)
qed

lemma view_not_held:
  assumes ow: "owned n s" and mu: "mutexed n s" and i: "i < n"
    and st: "is_stmt (ss_pc s i)" "sm_stmt bes c (ss_pc s i) (ss_mem s) = Inr (pc, m)"
    and other: "holds (ss_pc s i) \<noteq> Some sm"
  shows "view arg (s\<lparr>ss_mem := m, ss_pc := (ss_pc s)(i := pc)\<rparr>) sm = view arg s sm"
proof (cases "mm_objs (ss_mem s) sm")
  case None
  then show ?thesis using stmt_objs [OF st other] by (simp add: view_def)
next
  case (Some ob)
  have tr: "mm_trouble m a = mm_trouble (ss_mem s) a" if "a \<in> set (so_troublelist ob)" for a
  proof -
    have "a \<in> dom (mm_trouble (ss_mem s))" using owned_lists(2) [OF ow Some] that by blast
    then have "a \<noteq> mm_next (ss_mem s)" using ow unfolding owned_def by blast
    moreover have "a \<notin> set (mine (ss_pc s i))" using owned_apart [OF ow i Some] that by blast
    ultimately show ?thesis using stmt_trouble [OF st] by blast
  qed
  have "ss_mtx s sm \<noteq> Some i" using mu other unfolding mutexed_def by blast
  then show ?thesis using Some stmt_objs [OF st other] entries_cong [OF tr] settled_cong [OF tr]
    by (auto simp: view_def split: option.splits)
qed

text \<open>The atomic state after a statement.\<close>

definition am_set :: "sm_atom \<Rightarrow> nat \<Rightarrow> am_pc \<Rightarrow> (addr \<Rightarrow> vmod_saintmode_saintmode option) \<Rightarrow> sm_atom" where
  "am_set a i x h = a\<lparr>am_mem := (am_mem a)\<lparr>sm_heap := h\<rparr>, am_pc := (am_pc a)(i := x)\<rparr>"

lemma am_set_same: "x = am_pc a i \<Longrightarrow> h = sm_heap (am_mem a) \<Longrightarrow> am_set a i x h = a"
  by (simp add: am_set_def)

lemma atom_stmt:
  assumes ok: "sm_ok arg n B s" and i: "i < n"
    and st: "is_stmt (ss_pc s i)" "sm_stmt bes (arg i) (ss_pc s i) (ss_mem s) = Inr (pc, m)"
  defines "h \<equiv> (\<lambda>sm. if holds (ss_pc s i) = Some sm then map_option (settled (arg i) m pc) (mm_objs m sm) else view arg s sm)"
  shows "atom_of bes arg (s\<lparr>ss_mem := m, ss_pc := (ss_pc s)(i := pc)\<rparr>) = am_set (atom_of bes arg s) i (promised bes (arg i) m pc) h"
proof -
  have ok': "owned n s" "mutexed n s" "\<And>j. pc_fits (arg j) (ss_mem s) (ss_pc s j)" using ok by (simp_all add: sm_ok_def)
  have "promised bes (arg j) m (((ss_pc s)(i := pc)) j) =
      ((\<lambda>i. promised bes (arg i) (ss_mem s) (ss_pc s i))(i := promised bes (arg i) m pc)) j" for j
  proof (cases "j < n \<and> j \<noteq> i")
    case True
    then show ?thesis
      using promised_unchanged [OF stmt_other_fits [OF ok'(1,2) i _ _ st] ok'(3)] by simp
  next
    case False
    then have "j = i \<or> ss_pc s j = Idle" using ok'(2) by (auto simp: mutexed_def)
    then show ?thesis by auto
  qed
  moreover have "view arg (s\<lparr>ss_mem := m, ss_pc := (ss_pc s)(i := pc)\<rparr>) = h"
  proof
    fix sm
    show "view arg (s\<lparr>ss_mem := m, ss_pc := (ss_pc s)(i := pc)\<rparr>) sm = h sm"
    proof (cases "holds (ss_pc s i) = Some sm")
      case True
      then have "ss_mtx s sm = Some i" using ok'(2) unfolding mutexed_def by blast
      with True show ?thesis by (simp add: h_def view_def)
    next
      case False
      then show ?thesis using view_not_held [OF ok'(1,2) i st False] by (simp add: h_def)
    qed
  qed
  moreover have "mm_sm_list m = mm_sm_list (ss_mem s)" "mm_obj_next m = mm_obj_next (ss_mem s)"
    using stmt_shape [OF st] by (simp_all add: same_shape_def)
  ultimately show ?thesis by (simp add: atom_of_def am_set_def fun_eq_iff)
qed

lemma view_held:
  assumes "mutexed n s" "holds (ss_pc s i) = Some sm"
  shows "view arg s sm = map_option (settled (arg i) (ss_mem s) (ss_pc s i)) (mm_objs (ss_mem s) sm)"
proof -
  have "ss_mtx s sm = Some i" using assms unfolding mutexed_def by blast
  then show ?thesis by (simp add: view_def)
qed

lemma scan_rest_next:
  assumes "distinct l" "tr \<in> set l" "mm_trouble m tr = Some x"
  shows "scan_rest q m (Some tr) l k =
    (if tr_timeout x < snd (scan_args q) then scan_rest q m (next_of tr l) (remove1 tr l) (k - 1)
     else if about_digest (fst (scan_args q)) x then (x # entries m (from_cur (next_of tr l) l), k, True)
     else case scan_rest q m (next_of tr l) l k of (l', k', bl) \<Rightarrow> (x # l', k', bl))"
  using cur_next [OF assms(1,2)] assms(3) by (simp add: scan_rest_def about_digest_def)

lemma entries_cur: "entries m l = entries m (before_cur cur l) @ entries m (from_cur cur l)"
  unfolding entries_simps(3) [symmetric] before_from_cur ..

text \<open>Statements in the middle of a scan do not change what the scan will come to.\<close>

lemma scan_silent:
  assumes ow: "owned n s" and fits: "pc_fits c (ss_mem s) (ss_pc s i)" and h: "holds (ss_pc s i) = Some sm"
    and q: "c = C_query q" and ob: "mm_objs (ss_mem s) sm = Some ob"
    and st: "is_stmt (ss_pc s i)" "sm_stmt bes c (ss_pc s i) (ss_mem s) = Inr (pc, m)"
  shows "map_option (settled c m pc) (mm_objs m sm) = Some (settled c (ss_mem s) (ss_pc s i) ob) \<and>
    promised bes c m pc = promised bes c (ss_mem s) (ss_pc s i)"
  using st
proof (cases rule: sm_stmt_cases)
  case (first sm' ob')
  with h q ob show ?thesis by (simp add: first_cur_def)
next
  case (scanned sm' gone)
  with h q ob show ?thesis by (simp add: after_scan_def scan_ret_def scan_rest_def)
next
  case (expired q' sm' tr gone ob' x)
  have tr: "tr \<in> set (so_troublelist ob)" using fits expired(2) h ob by (simp add: on_list_def)
  have d: "distinct (so_troublelist ob)" by (rule owned_lists(1) [OF ow ob])
  have eq: "sm' = sm" "ob' = ob" "q' = q" using expired(1-3) h ob q by simp_all
  note e = expired [unfolded eq]
  have "after_scan q m (next_of tr (so_troublelist ob)) (ob\<lparr>so_troublelist := remove1 tr (so_troublelist ob)\<rparr>) (so_n_trouble ob - 1) =
      after_scan q (ss_mem s) (Some tr) ob (so_n_trouble ob)"
    using scan_rest_next [OF d tr e(4), of q "so_n_trouble ob"] e(5,7) cur_next(4) [OF d tr]
    by (simp add: after_scan_def scan_rest_def split: prod.splits)
  moreover have "scan_ret bes q m (next_of tr (so_troublelist ob)) (ob\<lparr>so_troublelist := remove1 tr (so_troublelist ob)\<rparr>) (so_n_trouble ob - 1) =
      scan_ret bes q (ss_mem s) (Some tr) ob (so_n_trouble ob)"
    using scan_rest_next [OF d tr e(4), of q "so_n_trouble ob"] e(5,7)
    by (simp add: scan_ret_def scan_rest_def split: prod.splits)
  ultimately show ?thesis using e q ob by (simp add: Let_def)
next
  case (hit q' sm' tr gone ob' x)
  have tr: "tr \<in> set (so_troublelist ob)" using fits hit(2) h ob by (simp add: on_list_def)
  have d: "distinct (so_troublelist ob)" by (rule owned_lists(1) [OF ow ob])
  have eq: "sm' = sm" "ob' = ob" "q' = q" using hit(1-3) h ob q by simp_all
  note e = hit [unfolded eq]
  have sc: "scan_rest q (ss_mem s) (Some tr) (so_troublelist ob) (so_n_trouble ob) =
      (x # entries (ss_mem s) (from_cur (next_of tr (so_troublelist ob)) (so_troublelist ob)), so_n_trouble ob, True)"
    using scan_rest_next [OF d tr e(4), of q "so_n_trouble ob"] e(5,6) by simp
  have "entries (ss_mem s) (so_troublelist ob) = entries (ss_mem s) (before_cur (Some tr) (so_troublelist ob)) @
      x # entries (ss_mem s) (from_cur (next_of tr (so_troublelist ob)) (so_troublelist ob))"
    using entries_cur [of "ss_mem s" "so_troublelist ob" "Some tr"] cur_next(1) [OF d tr] e(4) by simp
  with sc show ?thesis using e q ob by (simp add: after_scan_def scan_ret_def Let_def)
next
  case (keep q' sm' tr gone ob' x)
  have tr: "tr \<in> set (so_troublelist ob)" using fits keep(2) h ob by (simp add: on_list_def)
  have d: "distinct (so_troublelist ob)" by (rule owned_lists(1) [OF ow ob])
  have eq: "sm' = sm" "ob' = ob" "q' = q" using keep(1-3) h ob q by simp_all
  note e = keep [unfolded eq]
  obtain l k bl where sc: "scan_rest q (ss_mem s) (next_of tr (so_troublelist ob)) (so_troublelist ob) (so_n_trouble ob) = (l, k, bl)"
    by (metis prod_cases3)
  have sc2: "scan_rest q (ss_mem s) (Some tr) (so_troublelist ob) (so_n_trouble ob) = (x # l, k, bl)"
    using scan_rest_next [OF d tr e(4), of q "so_n_trouble ob"] e(5,6) sc by simp
  show ?thesis using e q ob sc sc2 cur_next(2) [OF d tr] by (simp add: after_scan_def scan_ret_def Let_def)
next
  case (decr sm' cur gone ob')
  with h q ob show ?thesis by (simp add: after_scan_def scan_ret_def scan_rest_def Let_def)
next
  case (decide sm' bl gone ob')
  with h q ob show ?thesis by (simp add: Let_def)
qed (use h q fits in \<open>auto simp: blacklist_at_def count_at_def\<close>)

lemma zero_length: "of_nat (length l) = (0 :: u32) \<Longrightarrow> length l < 2 ^ 32 - 1 \<Longrightarrow> l = []"
proof -
  assume l: "of_nat (length l) = (0 :: u32)" "length l < 2 ^ 32 - 1"
  have "unat (of_nat (length l) :: u32) = length l" using l(2) by (simp add: unsigned_of_nat take_bit_nat_eq_self)
  then have "length l = 0" unfolding l(1) by simp
  then show "l = []" by simp
qed

lemma few_listed:
  assumes "sm_ok arg n B s" "B < 2 ^ 32 - 1" "mm_objs (ss_mem s) sm = Some ob"
  shows "length (so_troublelist ob) < 2 ^ 32 - 1"
proof -
  have "owned n s" "few n B s" using assms(1) by (simp_all add: sm_ok_def)
  with owned_lists(3) [OF _ assms(3)] assms(2) show ?thesis by (fastforce simp: few_def)
qed

lemma view_zero:
  assumes ok: "sm_ok arg n B s" and B: "B < 2 ^ 32 - 1" and ob: "mm_objs (ss_mem s) sm = Some ob" "so_n_trouble ob = 0"
  shows "\<exists>v. view arg s sm = Some v \<and> n_trouble v = 0"
proof -
  have ok': "mutexed n s" "counted s" using ok by (simp_all add: sm_ok_def)
  have len: "length (so_troublelist ob) < 2 ^ 32 - 1" by (rule few_listed [OF ok B ob(1)])
  have cnt: "of_nat (length (so_troublelist ob)) + skew (holder_pc s sm) = (0 :: u32)"
    using ok'(2) ob by (simp add: counted_def)
  show ?thesis
  proof (cases "ss_mtx s sm")
    case None
    then show ?thesis using ob by (simp add: view_def)
  next
    case (Some i)
    then have h: "holds (ss_pc s i) = Some sm" using ok'(1) unfolding mutexed_def by blast
    have fits: "pc_fits (arg i) (ss_mem s) (ss_pc s i)" using ok by (simp add: sm_ok_def)
    note hp = holder_pc_holds [OF ok'(1) h]
    have nil: "so_troublelist ob = []" if "skew (ss_pc s i) = 0"
      by (rule zero_length) (use cnt hp that len in simp_all)
    have nc: "skew (ss_pc s i) \<noteq> 1"
    proof
      assume "skew (ss_pc s i) = 1"
      with cnt hp have "of_nat (Suc (length (so_troublelist ob))) = (0 :: u32)" by (simp add: add.commute)
      then have "unat (of_nat (Suc (length (so_troublelist ob))) :: u32) = 0" by (simp del: of_nat_Suc)
      moreover have "unat (of_nat (Suc (length (so_troublelist ob))) :: u32) = Suc (length (so_troublelist ob))"
        using len by (simp add: unsigned_of_nat take_bit_nat_eq_self del: of_nat_Suc)
      ultimately show False by simp
    qed
    have "n_trouble (settled (arg i) (ss_mem s) (ss_pc s i) ob) = 0"
      using ob(2) nil nc
      by (cases "ss_pc s i"; cases "arg i") (auto simp: after_scan_def scan_rest_def first_cur_def from_cur_def split: option.splits)
    with Some ob(1) show ?thesis by (simp add: view_def)
  qed
qed

lemma commit:
  assumes "i < n" "am_pc a i = A_Called" "sm_seq bes (arg i) (am_mem a) = Inr (r, (am_mem a)\<lparr>sm_heap := h\<rparr>)"
  shows "traced (sm_astep bes arg n) a [] (am_set a i (A_Done r) h)"
  unfolding am_set_def by (rule traced_one, rule sm_astep.a_commit [where a = a and arg = arg, OF assms])

lemma atom_sel [simp]:
  "am_pc (atom_of bes arg s) i = promised bes (arg i) (ss_mem s) (ss_pc s i)"
  "sm_heap (am_mem (atom_of bes arg s)) = view arg s"
  by (simp_all add: atom_of_def)

lemma stmt_sim:
  assumes ok: "sm_ok arg n B s" and B: "B < 2 ^ 32 - 1" and i: "i < n"
    and st: "is_stmt (ss_pc s i)" "sm_stmt bes (arg i) (ss_pc s i) (ss_mem s) = Inr (pc, m)"
  shows "traced (sm_astep bes arg n) (atom_of bes arg s) [] (atom_of bes arg (s\<lparr>ss_mem := m, ss_pc := (ss_pc s)(i := pc)\<rparr>))"
proof -
  let ?a = "atom_of bes arg s" and ?c = "arg i"
  define h where "h = (\<lambda>sm. if holds (ss_pc s i) = Some sm then map_option (settled ?c m pc) (mm_objs m sm) else view arg s sm)"
  have after: "atom_of bes arg (s\<lparr>ss_mem := m, ss_pc := (ss_pc s)(i := pc)\<rparr>) = am_set ?a i (promised bes ?c m pc) h"
    unfolding h_def by (rule atom_stmt [OF ok i st])
  have ow: "owned n s" and mu: "mutexed n s" and fits: "pc_fits ?c (ss_mem s) (ss_pc s i)" using ok by (simp_all add: sm_ok_def)
  note held = view_held [OF mu, of i]
  have h_none: "h = view arg s" if "holds (ss_pc s i) = None" using that by (simp add: h_def)
  have h_some: "h = (view arg s)(sm := map_option (settled ?c m pc) (mm_objs m sm))" if "holds (ss_pc s i) = Some sm" for sm
    using that by (auto simp: h_def fun_eq_iff)
  have silent: ?thesis if "promised bes ?c m pc = promised bes ?c (ss_mem s) (ss_pc s i)" "h = view arg s"
    unfolding after using that am_set_same [of _ ?a i h] by simp
  have quiet: ?thesis if sm: "holds (ss_pc s i) = Some sm" and ob: "mm_objs (ss_mem s) sm = Some ob"
    and eq: "map_option (settled ?c m pc) (mm_objs m sm) = Some (settled ?c (ss_mem s) (ss_pc s i) ob)"
      "promised bes ?c m pc = promised bes ?c (ss_mem s) (ss_pc s i)" for sm ob
    using silent [OF eq(2)] h_some [OF sm] held [OF sm] ob eq(1) by (simp add: fun_upd_idem)
  have committed: ?thesis if "promised bes ?c (ss_mem s) (ss_pc s i) = A_Called" "promised bes ?c m pc = A_Done r"
      "sm_seq bes ?c (am_mem ?a) = Inr (r, (am_mem ?a)\<lparr>sm_heap := h\<rparr>)" for r
    unfolding after that(2) using that(1,3) i by (intro commit) simp_all
  have scan: ?thesis if sm: "holds (ss_pc s i) = Some sm" and past: "past_test ?c (ss_mem s) sm" for sm
  proof -
    obtain q ob where q: "?c = C_query q" and ob: "mm_objs (ss_mem s) sm = Some ob"
      using past unfolding past_test_def query_at_def by blast
    show ?thesis using scan_silent [OF ow fits sm q ob st] by (intro quiet [OF sm ob]) simp_all
  qed
  have same_mem: "(am_mem ?a)\<lparr>sm_heap := view arg s\<rparr> = am_mem ?a" by (simp add: atom_of_def)
  note fit = atom_fits [of s bes arg]
  from st show ?thesis
  proof (cases rule: sm_stmt_cases)
    case (refused ctx e r)
    with seq_refused [OF fit refused(3), of bes e] show ?thesis by (intro committed) (simp_all add: h_none same_mem)
  next
    case (alloc ctx e sm bo)
    then show ?thesis by (intro silent) (simp_all add: h_none)
  next
    case (insert sm tp ob)
    then show ?thesis using fits by (intro quiet) (auto simp: blacklist_at_def)
  next
    case (incr sm ob)
    obtain ctx e bo l where c: "?c = C_blacklist ctx e" "sm_bo ctx = Some bo" "enter_blacklist ctx (ss_mem s) = Inr (B_Alloc sm)"
      and l: "so_troublelist ob = hd (so_troublelist ob) # l"
        "mm_trouble (ss_mem s) (hd (so_troublelist ob)) = Some \<lparr>tr_digest = bo_digest bo, tr_timeout = dadd (bo_t_prev bo) e\<rparr>"
      using fits incr(1,2) by (auto simp: blacklist_at_def entry_of_def) (metis list.collapse)
    have t: "tl (so_troublelist ob) = l" using l(1) by (metis list.sel(3))
    have v: "view arg s sm = Some (seq_obj ob (entries (ss_mem s) l) (so_n_trouble ob))"
      using held [of sm] incr(1,2) t by simp
    have "entries (ss_mem s) (so_troublelist ob) = \<lparr>tr_digest = bo_digest bo, tr_timeout = dadd (bo_t_prev bo) e\<rparr> # entries (ss_mem s) l"
      by (subst l(1)) (simp add: l(2))
    then have "h = (view arg s)(sm \<mapsto> seq_obj ob (\<lparr>tr_digest = bo_digest bo, tr_timeout = dadd (bo_t_prev bo) e\<rparr> # entries (ss_mem s) l)
        (so_n_trouble ob + 1))"
      using h_some [of sm] incr by simp
    with seq_blacklist [OF fit c(3) _ c(2), of "seq_obj ob (entries (ss_mem s) l) (so_n_trouble ob)" bes e] v incr c(1)
    show ?thesis by (intro committed) simp_all
  next
    case (log ctx e sm ob)
    show ?thesis by (rule quiet [of sm ob]) (use log in simp_all)
  next
    case (read sm ob)
    have c: "?c = C_count sm" using fits read(1) by (simp add: count_at_def)
    have "h = view arg s" using h_some [of sm] held [of sm] read c by (simp add: fun_upd_idem)
    with c read held [of sm] same_mem show ?thesis
      by (intro committed) (simp_all add: vmod_saintmode_blacklist_count_def)
  next
    case (test q sm ob)
    show ?thesis
    proof (cases "so_threshold ob = 0 \<or> so_n_trouble ob = 0")
      case True
      have sm: "query_obj q = sm" "tests_first q" using fits test(1,2) by (auto simp: query_at_def)
      have "map_option sm_be (view arg s sm) = Some (so_be ob)" using view_be [of arg s sm] test(3) by simp
      moreover have "map_option threshold (view arg s sm) = Some (so_threshold ob)"
        using test(3) by (auto simp: view_def option.map_comp settled_be split: option.splits)
      ultimately obtain v where v: "view arg s sm = Some v" "sm_be v = so_be ob" "threshold v = so_threshold ob" by auto
      moreover have "threshold v = 0 \<or> n_trouble v = 0"
        using True view_zero [OF ok B test(3)] v by auto
      ultimately have "sm_seq bes ?c (am_mem ?a) = Inr (health_ret bes q (so_be ob) True False, am_mem ?a)"
        using seq_test [of "am_mem ?a" q v bes] sm test(1) by simp
      with test True same_mem show ?thesis by (intro committed) (simp_all add: h_none)
    next
      case False
      with test show ?thesis by (intro silent) (simp_all add: h_none)
    qed
  next
    case (free sm retval bl tr gone)
    then show ?thesis using fits by (intro silent) (auto simp: h_none past_test_def query_at_def)
  next
    case (freed q sm retval bl ob)
    then show ?thesis by (intro silent) (simp_all add: h_none)
  next
    case (accepted ctx e sm)
    then show ?thesis by (intro silent) (simp_all add: h_none)
  next
    case (enter_count sm)
    then show ?thesis by (intro silent) (simp_all add: h_none)
  next
    case (enter_query q)
    then show ?thesis by (intro silent) (simp_all add: h_none)
  next
    case (first sm ob)
    show ?thesis by (rule scan [of sm]) (use fits first in simp_all)
  next
    case (scanned sm gone)
    show ?thesis by (rule scan [of sm]) (use fits scanned in simp_all)
  next
    case (expired q sm tr gone ob x)
    show ?thesis by (rule scan [of sm]) (use fits expired(2) in simp_all)
  next
    case (hit q sm tr gone ob x)
    show ?thesis by (rule scan [of sm]) (use fits hit(2) in simp_all)
  next
    case (keep q sm tr gone ob x)
    show ?thesis by (rule scan [of sm]) (use fits keep(2) in simp_all)
  next
    case (decr sm cur gone ob)
    show ?thesis by (rule scan [of sm]) (use fits decr in simp_all)
  next
    case (decide sm bl gone ob)
    show ?thesis by (rule scan [of sm]) (use fits decide in simp_all)
  qed
qed

lemma quiet_atom:
  assumes mu: "mutexed n s" and pr: "promised bes (arg i) (ss_mem s) pc = x"
    and hp: "holds (ss_pc s i) = None \<Longrightarrow> holds pc = None \<Longrightarrow> y = ss_mtx s"
    and hl: "\<And>sm. holds (ss_pc s i) = None \<Longrightarrow> holds pc = Some sm \<Longrightarrow> ss_mtx s sm = None \<and> y = (ss_mtx s)(sm := Some i)"
    and hu: "\<And>sm. holds (ss_pc s i) = Some sm \<Longrightarrow> holds pc = None \<and> y = (ss_mtx s)(sm := None) \<and>
      (\<forall>ob. settled (arg i) (ss_mem s) (ss_pc s i) ob = seq_obj ob (entries (ss_mem s) (so_troublelist ob)) (so_n_trouble ob))"
  shows "atom_of bes arg (s\<lparr>ss_mtx := y, ss_pc := (ss_pc s)(i := pc)\<rparr>) = am_set (atom_of bes arg s) i x
    (case holds pc of None \<Rightarrow> view arg s
     | Some sm \<Rightarrow> (view arg s)(sm := map_option (settled (arg i) (ss_mem s) pc) (mm_objs (ss_mem s) sm)))"
proof -
  let ?s = "s\<lparr>ss_mtx := y, ss_pc := (ss_pc s)(i := pc)\<rparr>"
  have other: "view arg ?s sm = view arg s sm" if "y sm = ss_mtx s sm" "ss_mtx s sm \<noteq> Some i" for sm
    using that by (simp add: view_def split: option.splits)
  have "view arg ?s = (case holds pc of None \<Rightarrow> view arg s
     | Some sm \<Rightarrow> (view arg s)(sm := map_option (settled (arg i) (ss_mem s) pc) (mm_objs (ss_mem s) sm)))"
  proof (cases "holds (ss_pc s i)")
    case None
    note no = mutexed_none [OF mu None]
    show ?thesis
    proof (cases "holds pc")
      case None
      with hp \<open>holds (ss_pc s i) = None\<close> other no show ?thesis by (simp add: fun_eq_iff)
    next
      case (Some sm)
      note l = hl [OF \<open>holds (ss_pc s i) = None\<close> Some]
      then have "view arg ?s sm = map_option (settled (arg i) (ss_mem s) pc) (mm_objs (ss_mem s) sm)"
        by (simp add: view_def)
      with Some l other no show ?thesis by (auto simp: fun_eq_iff)
    qed
  next
    case (Some sm)
    note u = hu [OF Some]
    have "ss_mtx s sm = Some i" using mu Some unfolding mutexed_def by blast
    moreover have "settled (arg i) (ss_mem s) (ss_pc s i) =
        (\<lambda>ob. seq_obj ob (entries (ss_mem s) (so_troublelist ob)) (so_n_trouble ob))"
      using u by (simp add: fun_eq_iff)
    ultimately have "view arg ?s sm = view arg s sm" using u by (simp add: view_def)
    moreover have "ss_mtx s x \<noteq> Some i" if "x \<noteq> sm" for x
      using mu Some that unfolding mutexed_def by (metis option.inject)
    ultimately have "view arg ?s x = view arg s x" for x using u other [of x] by (cases "x = sm") simp_all
    with u show ?thesis by (simp add: fun_eq_iff)
  qed
  then show ?thesis using pr by (simp add: atom_of_def am_set_def fun_eq_iff)
qed

lemma lock_sim:
  assumes ok: "sm_ok arg n B s" and B: "B < 2 ^ 32 - 1" and i: "i < n" and lk: "locks (ss_pc s i) = Some (sm, pc)" "ss_mtx s sm = None"
  shows "traced (sm_astep bes arg n) (atom_of bes arg s) []
    (atom_of bes arg (s\<lparr>ss_mtx := (ss_mtx s)(sm := Some i), ss_pc := (ss_pc s)(i := pc)\<rparr>))"
proof -
  let ?a = "atom_of bes arg s" and ?c = "arg i"
  let ?h = "(view arg s)(sm := map_option (settled ?c (ss_mem s) pc) (mm_objs (ss_mem s) sm))"
  have mu: "mutexed n s" and fits: "pc_fits ?c (ss_mem s) (ss_pc s i)" and cnt: "counted s" using ok by (simp_all add: sm_ok_def)
  note h = locks_holds [OF lk(1)]
  have after: "atom_of bes arg (s\<lparr>ss_mtx := (ss_mtx s)(sm := Some i), ss_pc := (ss_pc s)(i := pc)\<rparr>) =
      am_set ?a i (promised bes ?c (ss_mem s) pc) ?h"
    by (subst quiet_atom [where y = "(ss_mtx s)(sm := Some i)" and pc = pc and arg = arg and bes = bes and i = i, OF mu refl])
      (use h lk(2) in simp_all)
  have v: "view arg s sm = map_option (\<lambda>ob. seq_obj ob (entries (ss_mem s) (so_troublelist ob)) (so_n_trouble ob)) (mm_objs (ss_mem s) sm)"
    using lk(2) by (simp add: view_def)
  show ?thesis
  proof (cases "ss_pc s i")
    case (H_Lock sm')
    with lk(1) have pc: "sm' = sm" "pc = H_First sm" by auto
    have past: "past_test ?c (ss_mem s) sm" using fits by (simp add: H_Lock pc)
    then obtain q ob where q: "?c = C_query q" "query_obj q = sm" and ob: "mm_objs (ss_mem s) sm = Some ob"
      unfolding past_test_def query_at_def by blast
    have thr: "tests_first q \<longrightarrow> so_threshold ob \<noteq> 0" using past q ob by (auto simp: past_test_def)
    let ?v = "seq_obj ob (entries (ss_mem s) (so_troublelist ob)) (so_n_trouble ob)"
    obtain l k bl where sc: "scan_rest q (ss_mem s) (first_cur (so_troublelist ob)) (so_troublelist ob) (so_n_trouble ob) = (l, k, bl)"
      by (metis prod_cases3)
    have sc': "trouble_scan (fst (scan_args q)) (snd (scan_args q)) (troublelist ?v) (n_trouble ?v) = (l, k, bl)"
      using sc cur_first(2) by (simp add: scan_rest_def first_cur_def)
    let ?r = "health_ret bes q (so_be ob) (if so_threshold ob \<le> k then False else \<not> bl) bl"
    have p: "promised bes ?c (ss_mem s) pc = A_Done ?r" using q ob sc by (simp add: pc scan_ret_def Let_def)
    have h: "?h = (view arg s)(sm \<mapsto> seq_obj ob l k)"
      using q ob sc cur_first(1) [of "so_troublelist ob"] by (simp add: pc after_scan_def first_cur_def)
    have vs: "sm_heap (am_mem ?a) (query_obj q) = Some ?v" using v ob q by simp
    have "sm_seq bes ?c (am_mem ?a) = Inr (?r, (am_mem ?a)\<lparr>sm_heap := ?h\<rparr>)"
    proof (cases "tests_first q \<and> so_n_trouble ob = 0")
      case False
      then have "tests_first q \<longrightarrow> threshold ?v \<noteq> 0 \<and> n_trouble ?v \<noteq> 0" using thr by simp
      from seq_scan [OF vs this sc', of bes] show ?thesis unfolding h by (simp add: q)
    next
      case True
      have "so_troublelist ob = []"
      proof (rule zero_length)
        have "holder_pc s sm = Idle" using lk(2) by (simp add: holder_pc_def)
        with cnt ob True show "of_nat (length (so_troublelist ob)) = (0 :: u32)" by (simp add: counted_def)
        show "length (so_troublelist ob) < 2 ^ 32 - 1" by (rule few_listed [OF ok B ob])
      qed
      then have "l = [] \<and> k = 0 \<and> \<not> bl" using sc' True by simp
      moreover have "\<not> so_threshold ob \<le> 0" using thr True by simp
      moreover have "?h = view arg s" unfolding h using vs q \<open>so_troublelist ob = []\<close> True calculation(1)
        by (simp add: fun_upd_idem)
      ultimately show ?thesis using seq_test [OF vs, of bes] True q by (simp add: atom_of_def)
    qed
    then show ?thesis unfolding after p by (intro commit [OF i]) (simp_all add: H_Lock)
  next
    case (B_Lock sm' tp)
    with lk(1) have pc: "sm' = sm" "pc = B_Insert sm tp" by auto
    have "?h = view arg s" using v by (simp add: pc settled_fresh fun_upd_idem)
    then show ?thesis unfolding after by (simp add: am_set_same B_Lock pc)
  next
    case (Q_Lock sm')
    with lk(1) have pc: "sm' = sm" "pc = Q_Read sm" by auto
    have "?h = view arg s" using v by (simp add: pc settled_fresh fun_upd_idem)
    then show ?thesis unfolding after by (simp add: am_set_same Q_Lock pc)
  qed (use lk(1) in simp_all)
qed

lemma unlock_sim:
  assumes ok: "sm_ok arg n B s" and ul: "unlocks (ss_pc s i) = Some (sm, pc)"
  shows "atom_of bes arg (s\<lparr>ss_mtx := (ss_mtx s)(sm := None), ss_pc := (ss_pc s)(i := pc)\<rparr>) = atom_of bes arg s"
proof -
  have mu: "mutexed n s" and fits: "pc_fits (arg i) (ss_mem s) (ss_pc s i)" using ok by (simp_all add: sm_ok_def)
  note h = unlocks_holds [OF ul]
  have "promised bes (arg i) (ss_mem s) pc = promised bes (arg i) (ss_mem s) (ss_pc s i)"
    using ul fits by (cases "ss_pc s i") (auto simp: past_test_def query_at_def)
  moreover have "settled (arg i) (ss_mem s) (ss_pc s i) ob = seq_obj ob (entries (ss_mem s) (so_troublelist ob)) (so_n_trouble ob)" for ob
    using ul by (cases "ss_pc s i") auto
  ultimately show ?thesis
    by (subst quiet_atom [where y = "(ss_mtx s)(sm := None)" and pc = pc and arg = arg and bes = bes and i = i, OF mu refl])
      (use h in \<open>simp_all add: am_set_same\<close>)
qed

lemma event_sim:
  assumes "sm_ok arg n B s" "i < n" "holds (ss_pc s i) = None" "holds pc = None"
  shows "atom_of bes arg (s\<lparr>ss_pc := (ss_pc s)(i := pc)\<rparr>) =
    (atom_of bes arg s)\<lparr>am_pc := (am_pc (atom_of bes arg s))(i := promised bes (arg i) (ss_mem s) pc)\<rparr>"
proof -
  have mu: "mutexed n s" using assms(1) by (simp add: sm_ok_def)
  have "s\<lparr>ss_pc := (ss_pc s)(i := pc)\<rparr> = s\<lparr>ss_mtx := ss_mtx s, ss_pc := (ss_pc s)(i := pc)\<rparr>" by simp
  then show ?thesis
    by (simp only:) (subst quiet_atom [where y = "ss_mtx s" and pc = pc and arg = arg and bes = bes and i = i, OF mu refl],
      use assms in \<open>simp_all add: am_set_def atom_of_def\<close>)
qed

lemma step_sim:
  assumes "sm_tstep bes arg n s e t" "sm_ok arg n B s" "B < 2 ^ 32 - 1"
  shows "traced (sm_astep bes arg n) (atom_of bes arg s) e (atom_of bes arg t)"
  using assms(1)
proof cases
  case (call i)
  have "sm_astep bes arg n (atom_of bes arg s) [Call i] (atom_of bes arg t)"
    using sm_astep.a_call [of i n "atom_of bes arg s" bes arg] call event_sim [OF assms(2) call(3), of Enter bes] by simp
  then show ?thesis using call by (simp add: traced_one)
next
  case (stmt i pc m)
  with stmt_sim [OF assms(2,3)] show ?thesis by simp
next
  case (lock i sm pc)
  with lock_sim [OF assms(2,3)] show ?thesis by simp
next
  case (unlock i sm pc)
  with unlock_sim [OF assms(2) unlock(4), of bes] show ?thesis by simp
next
  case (return i r)
  have "sm_astep bes arg n (atom_of bes arg s) [Return i r] (atom_of bes arg t)"
    using sm_astep.a_return [of i n "atom_of bes arg s" r bes arg] return event_sim [OF assms(2) return(3), of Left bes] by simp
  then show ?thesis using return by (simp add: traced_one)
qed

interpretation sm_sim: simulation "sm_tstep bes arg n" "sm_astep bes arg n"
  "\<lambda>s a. (\<exists>B < 2 ^ 32 - 1. sm_ok arg n B s) \<and> a = atom_of bes arg s" for bes arg n
  by unfold_locales (blast intro: step_sim step_ok)

lemma threads_simulated:
  assumes "sm_start_ok n m" and "traced (sm_tstep bes arg n) (sm_start m) es s"
  shows "traced (sm_astep bes arg n) \<lparr>am_mem = seq_mem m, am_pc = (\<lambda>_. A_Idle)\<rparr> es (atom_of bes arg s)"
proof -
  have start: "atom_of bes arg (sm_start m) = \<lparr>am_mem = seq_mem m, am_pc = (\<lambda>_. A_Idle)\<rparr>"
    by (simp add: atom_of_def sm_start_def seq_mem_def view_def fun_eq_iff)
  have "card (dom (mm_trouble m)) + n < 2 ^ 32 - 1" using assms(1) by (simp add: sm_start_ok_def)
  then have "\<exists>B < 2 ^ 32 - 1. sm_ok arg n B (sm_start m)" using sm_start_inv [OF assms(1)] by blast
  with sm_sim.trace_inclusion [OF assms(2)] start
  show "traced (sm_astep bes arg n) \<lparr>am_mem = seq_mem m, am_pc = (\<lambda>_. A_Idle)\<rparr> es (atom_of bes arg s)" by auto
qed

section \<open>Properties\<close>

text \<open>
  Claim C6. The threads are linearizable: every sequence of calls and returns that they show, results
  included, is one that the calls show when each takes effect in a single step between its
  call and its return, by the definitions of theory \<open>Saintmode\<close>; and an object whose mutex is
  free is in the state those steps leave it in. This covers the test of the counter that
  \<open>healthy\<close> makes without the lock.
\<close>

theorem sm_threads_atomic:
  assumes "sm_start_ok n m" and "traced (sm_tstep bes arg n) (sm_start m) es s"
  shows "\<exists>a. traced (sm_astep bes arg n) \<lparr>am_mem = seq_mem m, am_pc = (\<lambda>_. A_Idle)\<rparr> es a \<and>
    (\<forall>sm. ss_mtx s sm = None \<longrightarrow> sm_heap (am_mem a) sm = sm_heap (seq_mem (ss_mem s)) sm)"
proof -
  have "traced (sm_astep bes arg n) \<lparr>am_mem = seq_mem m, am_pc = (\<lambda>_. A_Idle)\<rparr> es (atom_of bes arg s)"
    by (rule threads_simulated [OF assms])
  moreover have "sm_heap (am_mem (atom_of bes arg s)) sm = sm_heap (seq_mem (ss_mem s)) sm" if "ss_mtx s sm = None" for sm
    using that by (simp add: view_def seq_mem_def)
  ultimately show ?thesis by blast
qed

lemma sm_threads_atomic_witness:
  "\<exists>a. traced (sm_astep demo_backends demo_call 2) \<lparr>am_mem = seq_mem demo_mem, am_pc = (\<lambda>_. A_Idle)\<rparr>
     [Call 0, Call 1, Return 1 (R_count 0), Return 0 (R_resolve (Some 1) [])] a"
proof -
  obtain s where s: "run_schedule demo_backends demo_call demo_schedule (sm_start demo_mem) =
      Some ([Call 0, Call 1, Return 1 (R_count 0), Return 0 (R_resolve (Some 1) [])], s)"
    using demo_sm_run by blast
  have "traced (sm_tstep demo_backends demo_call 2) (sm_start demo_mem)
      [Call 0, Call 1, Return 1 (R_count 0), Return 0 (R_resolve (Some 1) [])] s"
    using run_schedule_steps [OF s demo_schedule_len(1)] by blast
  from sm_threads_atomic [OF demo_mem_ok this] show ?thesis by blast
qed

end
