(* ===== verification/Saintmode_Enforced.thy ===== *)
theory Saintmode_Enforced
  imports Saintmode_Atomic
begin

text \<open>
  What linearizability gives for the users of a director: a blacklisting that has returned is
  seen by every resolution that is called after that, whatever other threads do meanwhile.
\<close>

section \<open>The effect of a call\<close>

lemma trouble_scan_keeps:
  assumes "trouble_scan dg t trs k = (l, k', bl)"
  shows "k' = k - of_nat (length trs) + of_nat (length l)" and "length l \<le> length trs"
    and "\<And>tr. tr \<in> set trs \<Longrightarrow> t \<le> tr_timeout tr \<Longrightarrow> tr \<in> set l"
    and "\<And>tr. tr \<in> set trs \<Longrightarrow> t \<le> tr_timeout tr \<Longrightarrow> about_digest dg tr \<Longrightarrow> bl"
proof -
  have "k' = k - of_nat (length trs) + of_nat (length l) \<and> length l \<le> length trs \<and>
    (\<forall>tr \<in> set trs. t \<le> tr_timeout tr \<longrightarrow> tr \<in> set l) \<and> (\<forall>tr \<in> set trs. t \<le> tr_timeout tr \<longrightarrow> about_digest dg tr \<longrightarrow> bl)"
    using assms
  proof (induction trs arbitrary: k l)
    case (Cons tr trs)
    consider "tr_timeout tr < t" | "\<not> tr_timeout tr < t" "about_digest dg tr"
      | "\<not> tr_timeout tr < t" "\<not> about_digest dg tr" by blast
    then show ?case
    proof cases
      case 1
      with Cons.prems have "trouble_scan dg t trs (k - 1) = (l, k', bl)" by simp
      from Cons.IH [OF this] 1 show ?thesis by auto
    next
      case 2
      with Cons.prems show ?thesis by (simp add: about_digest_def)
    next
      case 3
      with Cons.prems obtain l' where "trouble_scan dg t trs k = (l', k', bl)" "l = tr # l'"
        by (auto simp: about_digest_def split: prod.splits)
      with Cons.IH [OF this(1)] 3 show ?thesis by auto
    qed
  qed simp
  then show "k' = k - of_nat (length trs) + of_nat (length l)" and "length l \<le> length trs"
    and "\<And>tr. tr \<in> set trs \<Longrightarrow> t \<le> tr_timeout tr \<Longrightarrow> tr \<in> set l"
    and "\<And>tr. tr \<in> set trs \<Longrightarrow> t \<le> tr_timeout tr \<Longrightarrow> about_digest dg tr \<Longrightarrow> bl" by blast+
qed

lemma seq_query_obj:
  assumes "sm_seq bes (C_query q) s = Inr (r, s')"
  obtains ob where "sm_heap s (query_obj q) = Some ob"
  using assms
  by (cases q) (auto simp: sm_healthy_def vmod_saintmode_is_healthy_def resolve_def)

lemma seq_query_effect:
  assumes "sm_seq bes (C_query q) s = Inr (r, s')"
  obtains "s' = s"
  | ob l k bl where "sm_heap s (query_obj q) = Some ob"
      "trouble_scan (fst (scan_args q)) (snd (scan_args q)) (troublelist ob) (n_trouble ob) = (l, k, bl)"
      "s' = s\<lparr>sm_heap := (sm_heap s)(query_obj q \<mapsto> ob\<lparr>troublelist := l, n_trouble := k\<rparr>)\<rparr>"
proof -
  from assms obtain ob where ob: "sm_heap s (query_obj q) = Some ob" by (rule seq_query_obj)
  obtain l k bl where sc: "trouble_scan (fst (scan_args q)) (snd (scan_args q)) (troublelist ob) (n_trouble ob) = (l, k, bl)"
    by (metis prod_cases3)
  show thesis
  proof (cases "tests_first q \<and> (threshold ob = 0 \<or> n_trouble ob = 0)")
    case True
    with seq_test [OF ob, of bes] assms that(1) show thesis by auto
  next
    case False
    with seq_scan [OF ob _ sc, of bes] assms that(2) [OF ob sc] show thesis by auto
  qed
qed

lemma seq_blacklist_effect:
  assumes "sm_seq bes (C_blacklist ctx e) s = Inr (r, s')"
  obtains "s' = s"
  | sm ob tr where "sm_heap s sm = Some ob"
      "s' = s\<lparr>sm_heap := (sm_heap s)(sm \<mapsto> ob\<lparr>troublelist := tr # troublelist ob, n_trouble := n_trouble ob + 1\<rparr>)\<rparr>"
proof (cases "s' = s")
  case False
  with assms have "\<exists>sm ob tr. sm_heap s sm = Some ob \<and>
      s' = s\<lparr>sm_heap := (sm_heap s)(sm \<mapsto> ob\<lparr>troublelist := tr # troublelist ob, n_trouble := n_trouble ob + 1\<rparr>)\<rparr>"
    by (auto simp: vmod_blacklist_def Let_def split: option.splits if_splits) (intro exI conjI, assumption, rule refl)
  with that(2) show thesis by blast
qed (rule that(1))

text \<open>No call changes which objects there are, their backends and their thresholds.\<close>

definition sm_alike :: "sm_vcl \<Rightarrow> sm_vcl \<Rightarrow> bool" where
  "sm_alike s s' \<longleftrightarrow> sm_objs s' = sm_objs s \<and>
     (\<forall>p. map_option (\<lambda>ob. (sm_be ob, threshold ob)) (sm_heap s' p) = map_option (\<lambda>ob. (sm_be ob, threshold ob)) (sm_heap s p))"

lemma seq_alike:
  assumes "sm_seq bes c s = Inr (r, s')"
  shows "sm_alike s s'"
proof (cases c)
  case (C_blacklist ctx e)
  from assms [unfolded C_blacklist] show ?thesis
    by (cases rule: seq_blacklist_effect) (auto simp: sm_alike_def)
next
  case (C_count sm)
  with assms show ?thesis by (auto simp: sm_alike_def)
next
  case (C_query q)
  from assms [unfolded C_query] show ?thesis
    by (cases rule: seq_query_effect) (auto simp: sm_alike_def)
qed

section \<open>Invariants of the atomic system\<close>

definition pend :: "am_pc \<Rightarrow> nat" where
  "pend x = (if x = A_Idle \<or> x = A_Called then 1 else 0)"

definition bounded :: "nat \<Rightarrow> nat \<Rightarrow> sm_atom \<Rightarrow> bool" where
  "bounded n B a \<longleftrightarrow> (\<forall>sm ob. sm_heap (am_mem a) sm = Some ob \<longrightarrow> n_trouble ob = of_nat (length (troublelist ob)) \<and>
     length (troublelist ob) + (\<Sum>i < n. pend (am_pc a i)) \<le> B)"

lemma sum_pend:
  fixes n :: nat
  assumes "i < n"
  shows "(\<Sum>j < n. pend ((p(i := x)) j)) + pend (p i) = (\<Sum>j < n. pend (p j)) + pend x"
  by (rule sum_thread [OF assms])

lemma bounded_step:
  assumes "sm_astep bes arg n a e b" "bounded n B a"
  shows "bounded n B b"
  using assms(1)
proof cases
  case (a_call i)
  with assms(2) sum_pend [OF a_call(3), of "am_pc a" A_Called] show ?thesis by (simp add: bounded_def pend_def)
next
  case (a_return i r)
  with assms(2) sum_pend [OF a_return(3), of "am_pc a" A_Left] show ?thesis by (simp add: bounded_def pend_def)
next
  case (a_commit i r s)
  have sum: "Suc (\<Sum>j < n. pend (((am_pc a)(i := A_Done r)) j)) = (\<Sum>j < n. pend (am_pc a j))"
    using sum_pend [OF a_commit(3), of "am_pc a" "A_Done r"] a_commit(4) by (simp add: pend_def)
  have old: "n_trouble ob = of_nat (length (troublelist ob))" "Suc (length (troublelist ob)) + (\<Sum>j < n. pend (((am_pc a)(i := A_Done r)) j)) \<le> B"
    if "sm_heap (am_mem a) sm = Some ob" for sm ob
    using assms(2) that sum unfolding bounded_def by (blast, fastforce)
  show ?thesis
  proof (cases "arg i")
    case (C_blacklist ctx e)
    from a_commit(5) [unfolded C_blacklist] show ?thesis
      by (cases rule: seq_blacklist_effect) (use old a_commit(2) in \<open>fastforce simp: bounded_def\<close>)+
  next
    case (C_count sm)
    with a_commit(5) have "s = am_mem a" by auto
    with old a_commit(2) show ?thesis by (fastforce simp: bounded_def)
  next
    case (C_query q)
    from a_commit(5) [unfolded C_query] show ?thesis
    proof (cases rule: seq_query_effect)
      case 1
      with old a_commit(2) show ?thesis by (fastforce simp: bounded_def)
    next
      case (2 ob l k bl)
      have "k = of_nat (length l)" using trouble_scan_keeps(1) [OF 2(2)] old(1) [OF 2(1)] by simp
      moreover have "length l + (\<Sum>j < n. pend (((am_pc a)(i := A_Done r)) j)) \<le> B"
        using trouble_scan_keeps(2) [OF 2(2)] old(2) [OF 2(1)] by simp
      ultimately show ?thesis using old 2(3) a_commit(2) by (fastforce simp: bounded_def)
    qed
  qed
qed

text \<open>Thread \<open>j\<close> has put \<open>tr\<close> on the list of \<open>sm\<close>, and there it stays.\<close>

definition listed :: "addr \<Rightarrow> trouble \<Rightarrow> sm_vcl \<Rightarrow> bool" where
  "listed sm tr s \<longleftrightarrow> (\<exists>ob. sm_heap s sm = Some ob \<and> tr \<in> set (troublelist ob))"

fun committed_pc :: "am_pc \<Rightarrow> bool" where
  "committed_pc (A_Done _) = True"
| "committed_pc A_Left = True"
| "committed_pc _ = False"

lemma seq_listed:
  assumes "sm_seq bes c s = Inr (r, s')" "listed sm tr s"
    and "\<And>q. c = C_query q \<Longrightarrow> query_obj q = sm \<Longrightarrow> snd (scan_args q) \<le> tr_timeout tr"
  shows "listed sm tr s'"
proof (cases c)
  case (C_blacklist ctx e)
  from assms(1) [unfolded C_blacklist] assms(2) show ?thesis
    by (cases rule: seq_blacklist_effect) (auto simp: listed_def)
next
  case (C_count p)
  with assms(1,2) show ?thesis by auto
next
  case (C_query q)
  from assms(1) [unfolded C_query] show ?thesis
  proof (cases rule: seq_query_effect)
    case 1
    with assms(2) show ?thesis by simp
  next
    case (2 ob l k bl)
    show ?thesis
    proof (cases "query_obj q = sm")
      case True
      with assms(2) 2(1) trouble_scan_keeps(3) [OF 2(2)] assms(3) [OF C_query] 2(3) show ?thesis by (auto simp: listed_def)
    qed (use assms(2) 2(3) in \<open>auto simp: listed_def\<close>)
  qed
qed

lemma target_alike:
  assumes "sm_alike s s'"
  shows "blacklist_target ctx s' bo sm = blacklist_target ctx s bo sm"
proof (rule blacklist_target_cong)
  show "map_option sm_be (sm_heap s' p) = map_option sm_be (sm_heap s p)" for p
  proof -
    have "map_option (\<lambda>ob. (sm_be ob, threshold ob)) (sm_heap s' p) = map_option (\<lambda>ob. (sm_be ob, threshold ob)) (sm_heap s p)"
      using assms by (simp add: sm_alike_def)
    then show ?thesis by (cases "sm_heap s' p"; cases "sm_heap s p") auto
  qed
qed (use assms in \<open>simp_all add: sm_alike_def\<close>)

lemma sm_alike_trans: "sm_alike s t \<Longrightarrow> sm_alike t u \<Longrightarrow> sm_alike s u"
  by (simp add: sm_alike_def)

definition sees :: "sm_vcl \<Rightarrow> nat \<Rightarrow> nat \<Rightarrow> nat \<Rightarrow> addr \<Rightarrow> trouble \<Rightarrow> sm_atom \<Rightarrow> bool" where
  "sees s0 n B j sm tr a \<longleftrightarrow> sm_alike s0 (am_mem a) \<and> bounded n B a \<and>
     (committed_pc (am_pc a j) \<longrightarrow> listed sm tr (am_mem a))"

lemma sees_step:
  assumes "sm_astep bes arg n a ev b" "sees s0 n B j sm tr a"
    and j: "arg j = C_blacklist ctx e" "blacklist_target ctx s0 bo sm"
    and tr: "tr = \<lparr>tr_digest = bo_digest bo, tr_timeout = dadd (bo_t_prev bo) e\<rparr>"
    and others: "\<And>i q. i < n \<Longrightarrow> arg i = C_query q \<Longrightarrow> query_obj q = sm \<Longrightarrow> snd (scan_args q) \<le> tr_timeout tr"
  shows "sees s0 n B j sm tr b"
proof -
  have b: "bounded n B b" using bounded_step [OF assms(1)] assms(2) by (simp add: sees_def)
  from assms(1) show ?thesis
  proof cases
    case (a_call i)
    with b assms(2) show ?thesis by (auto simp: sees_def)
  next
    case (a_return i r)
    with b assms(2) show ?thesis by (auto simp: sees_def)
  next
    case (a_commit i r s)
    have alike: "sm_alike s0 (am_mem a)" using assms(2) by (simp add: sees_def)
    have "sm_alike s0 s" by (rule sm_alike_trans [OF alike seq_alike [OF a_commit(5)]])
    moreover have "listed sm tr s" if c: "committed_pc (am_pc b j)"
    proof (cases "i = j")
      case True
      have "blacklist_target ctx (am_mem a) bo sm" using j(2) by (simp add: target_alike [OF alike])
      from blacklist_correct [OF this, of bes e] a_commit(5) j(1) True tr show ?thesis
        by (auto simp: listed_def)
    next
      case False
      with c a_commit(2) assms(2) have "listed sm tr (am_mem a)" by (simp add: sees_def)
      with seq_listed [OF a_commit(5) this] others [OF a_commit(3)] show ?thesis by blast
    qed
    ultimately show ?thesis using b a_commit(2) by (simp add: sees_def)
  qed
qed

text \<open>A resolution for the same object finds the entry.\<close>

lemma seq_resolve_listed:
  assumes "sm_seq bes (C_query (Resolve now sm (Some bo') v)) s = Inr (r, s')" "listed sm tr s"
    and "tr_digest tr = bo_digest bo'" "bo_t_prev bo' \<le> tr_timeout tr"
    and "\<And>ob. sm_heap s sm = Some ob \<Longrightarrow> threshold ob \<noteq> 0 \<and> n_trouble ob \<noteq> 0"
  shows "\<exists>v'. r = R_resolve None v'"
proof -
  let ?q = "Resolve now sm (Some bo') v"
  obtain ob where ob: "sm_heap s sm = Some ob" "tr \<in> set (troublelist ob)" using assms(2) by (auto simp: listed_def)
  obtain l k bl where sc: "trouble_scan (fst (scan_args ?q)) (snd (scan_args ?q)) (troublelist ob) (n_trouble ob) = (l, k, bl)"
    by (metis prod_cases3)
  have "bl"
    using trouble_scan_keeps(4) [OF sc ob(2)] assms(3,4) by (simp add: bo_scan_def about_digest_def memcmp_eq)
  moreover have "sm_seq bes (C_query ?q) s =
      Inr (health_ret bes ?q (sm_be ob) (if threshold ob \<le> k then False else \<not> bl) bl,
        s\<lparr>sm_heap := (sm_heap s)(query_obj ?q \<mapsto> ob\<lparr>troublelist := l, n_trouble := k\<rparr>)\<rparr>)"
    by (rule seq_scan [OF _ _ sc]) (use ob assms(5) in simp_all)
  ultimately have "r = health_ret bes ?q (sm_be ob) False True" using assms(1) by (simp del: sm_seq.simps health_ret.simps)
  then show ?thesis by simp
qed

text \<open>What happens to the resolution by thread \<open>i\<close> when it is called after thread \<open>j\<close> is through.\<close>

definition denied :: "am_pc \<Rightarrow> bool" where
  "denied x \<longleftrightarrow> (\<forall>r. x = A_Done r \<longrightarrow> (\<exists>v. r = R_resolve None v))"

lemma nonzero_length:
  assumes "l \<noteq> []" "length l \<le> B" "B < 2 ^ 32 - 1"
  shows "(of_nat (length l) :: u32) \<noteq> 0"
  using zero_length [of l] assms by auto

lemma denied_step:
  assumes "sm_astep bes arg n a ev b" "sees s0 n B j sm tr a" "committed_pc (am_pc a j)" "denied (am_pc a i)"
    and i: "arg i = C_query (Resolve now sm (Some bo') v)"
    and tr: "tr_digest tr = bo_digest bo'" "bo_t_prev bo' \<le> tr_timeout tr"
    and thr: "\<And>ob. sm_heap s0 sm = Some ob \<Longrightarrow> threshold ob \<noteq> 0" and B: "B < 2 ^ 32 - 1"
  shows "denied (am_pc b i) \<and> committed_pc (am_pc b j) \<and> (\<forall>r. Return i r \<in> set ev \<longrightarrow> (\<exists>v. r = R_resolve None v))"
  using assms(1)
proof cases
  case (a_commit k r s)
  have "\<exists>v. r = R_resolve None v" if "k = i"
  proof (rule seq_resolve_listed)
    show "sm_seq bes (C_query (Resolve now sm (Some bo') v)) (am_mem a) = Inr (r, s)" using a_commit(5) i that by simp
    show "listed sm tr (am_mem a)" using assms(2,3) by (simp add: sees_def)
    then show "threshold ob \<noteq> 0 \<and> n_trouble ob \<noteq> 0" if ob: "sm_heap (am_mem a) sm = Some ob" for ob
    proof -
      have al: "map_option (\<lambda>ob. (sm_be ob, threshold ob)) (sm_heap (am_mem a) sm) = map_option (\<lambda>ob. (sm_be ob, threshold ob)) (sm_heap s0 sm)"
        using assms(2) by (simp add: sees_def sm_alike_def)
      obtain ob0 where "sm_heap s0 sm = Some ob0" "threshold ob0 = threshold ob" using al ob by (cases "sm_heap s0 sm") auto
      moreover have "troublelist ob \<noteq> []" using \<open>listed sm tr (am_mem a)\<close> ob by (auto simp: listed_def)
      moreover have "n_trouble ob = of_nat (length (troublelist ob))" "length (troublelist ob) \<le> B"
        using assms(2) ob unfolding sees_def bounded_def by (blast, metis add_leD1)
      ultimately show ?thesis using thr nonzero_length [OF _ _ B] by metis
    qed
  qed (use tr in simp_all)
  with a_commit assms(3,4) show ?thesis by (auto simp: denied_def)
qed (use assms(3,4) in \<open>auto simp: denied_def\<close>)

lemma event_len: "sm_astep bes arg n a e b \<Longrightarrow> length e \<le> 1"
  by (cases rule: sm_astep.cases) auto

lemma returned_left:
  "traced (sm_astep bes arg n) a es b \<Longrightarrow> Return j r \<in> set es \<Longrightarrow> am_pc b j = A_Left"
proof (induction rule: traced.induct)
  case (traced_step es t e u)
  from traced_step.hyps(2) traced_step.prems traced_step.IH show ?case by cases auto
qed simp

lemma called_idle:
  assumes "traced (sm_astep bes arg n) a es b" "am_pc a i \<noteq> A_Idle"
  shows "Call i \<notin> set es \<and> am_pc b i \<noteq> A_Idle"
  using assms
proof (induction rule: traced.induct)
  case (traced_step es t e u)
  then have "Call i \<notin> set es" "am_pc t i \<noteq> A_Idle" by blast+
  with traced_step.hyps(2) show ?case by cases auto
qed simp

section \<open>Properties\<close>

text \<open>
  Claim C7. Blacklisting holds against all threads: when \<open>blacklist(expires)\<close> has returned and a fetch of
  the same object then asks the director for its backend, the fetch gets none, however the
  other calls interleave, as long as the times that the queries on this director compare with
  have not passed the end of the entry, and the threshold of the director is not 0; the
  threshold 0 disables saintmode, and then the list is not consulted.
\<close>

theorem sm_blacklist_enforced_threads:
  assumes "sm_start_ok n m" and "traced (sm_tstep bes arg n) (sm_start m) (xs @ ys) s"
    and "arg j = C_blacklist ctx expires" and "blacklist_target ctx (seq_mem m) bo sm"
    and "arg i = C_query (Resolve now sm (Some bo') v)" and "bo_digest bo' = bo_digest bo"
    and "Return j r \<in> set xs" and "Call i \<in> set ys" and "Return i r' \<in> set ys"
    and "\<And>ob. mm_objs m sm = Some ob \<Longrightarrow> so_threshold ob \<noteq> 0"
    and "\<And>k q. k < n \<Longrightarrow> arg k = C_query q \<Longrightarrow> query_obj q = sm \<Longrightarrow> snd (scan_args q) \<le> dadd (bo_t_prev bo) expires"
    and "bo_t_prev bo' \<le> dadd (bo_t_prev bo) expires"
  shows "\<exists>v'. r' = R_resolve None v'"
proof -
  define B where "B = card (dom (mm_trouble m)) + n"
  let ?a = "\<lparr>am_mem = seq_mem m, am_pc = (\<lambda>_. A_Idle)\<rparr>"
  let ?tr = "\<lparr>tr_digest = bo_digest bo, tr_timeout = dadd (bo_t_prev bo) expires\<rparr>"
  have B: "B < 2 ^ 32 - 1" using assms(1) by (simp add: sm_start_ok_def B_def)
  have ok: "sm_ok arg n B (sm_start m)" unfolding B_def by (rule sm_start_inv [OF assms(1)])
  have run: "traced (sm_astep bes arg n) ?a (xs @ ys) (atom_of bes arg s)" by (rule threads_simulated [OF assms(1,2)])
  obtain u where u: "traced (sm_astep bes arg n) ?a xs u" "traced (sm_astep bes arg n) u ys (atom_of bes arg s)"
    using traced_split [OF run refl] event_len by blast
  have ow: "owned n (sm_start m)" using ok by (simp add: sm_ok_def)
  have keep: "sees (seq_mem m) n B j sm ?tr d" if "sees (seq_mem m) n B j sm ?tr c" "sm_astep bes arg n c ev d" for c ev d
    by (rule sees_step [where arg = arg and j = j and ctx = ctx and e = expires and bo = bo and bes = bes, OF that(2,1) assms(3,4)])
      (use assms(11) in auto)
  have "length (so_troublelist ob) \<le> card (dom (mm_trouble m))" if "mm_objs m p = Some ob" for p ob
    using owned_lists(3) [OF ow] that by (simp add: sm_start_def)
  moreover have "so_n_trouble ob = of_nat (length (so_troublelist ob))" if "mm_objs m p = Some ob" for p ob
    using assms(1) that unfolding sm_start_ok_def by blast
  moreover have "(\<Sum>i < n. pend (am_pc ?a i)) = n" by (simp add: pend_def)
  ultimately have "bounded n B ?a"
    unfolding bounded_def by (auto simp: seq_mem_def entries_def B_def)
  then have "sees (seq_mem m) n B j sm ?tr ?a" by (simp add: sees_def sm_alike_def)
  then have sees: "sees (seq_mem m) n B j sm ?tr u"
    by (rule traced_invariant [OF u(1)]) (rule keep)
  have left: "am_pc u j = A_Left" by (rule returned_left [OF u(1) assms(7)])
  have idle: "am_pc u i = A_Idle" using called_idle [OF u(2)] assms(8) by blast
  have thr: "\<And>ob. sm_heap (seq_mem m) sm = Some ob \<Longrightarrow> threshold ob \<noteq> 0"
    using assms(10) by (auto simp: seq_mem_def)
  have "(sees (seq_mem m) n B j sm ?tr (atom_of bes arg s) \<and> committed_pc (am_pc (atom_of bes arg s) j) \<and> denied (am_pc (atom_of bes arg s) i)) \<and>
      (\<forall>r. Return i r \<in> set ys \<longrightarrow> (\<exists>v. r = R_resolve None v))"
    using u(2) sees left idle
  proof (induction rule: traced.induct)
    case (traced_step es a1 e a2)
    then have IH: "sees (seq_mem m) n B j sm ?tr a1" "committed_pc (am_pc a1 j)" "denied (am_pc a1 i)"
      "\<forall>r. Return i r \<in> set es \<longrightarrow> (\<exists>v. r = R_resolve None v)" by blast+
    have "sees (seq_mem m) n B j sm ?tr a2"
      by (rule keep [OF IH(1) traced_step.hyps(2)])
    with denied_step [where arg = arg and i = i and now = now and v = v and bo' = bo' and bes = bes,
        OF traced_step.hyps(2) IH(1-3) assms(5) _ _ thr B] assms(6,12) IH(4)
    show ?case by auto
  qed (simp add: denied_def)
  with assms(9) show ?thesis by blast
qed

text \<open>Thread 0 blacklists an object for 20 seconds at time 5; then thread 1 resolves for it at time 24.\<close>

definition demo_mem2 :: sm_mem where
  "demo_mem2 = \<lparr>mm_objs = [1 \<mapsto> \<lparr>so_vcl_name = ''sm1'', so_be = 1, so_threshold = 2, so_n_trouble = 0, so_troublelist = []\<rparr>],
     mm_sm_list = Some [1], mm_obj_next = 2, mm_trouble = Map.empty, mm_next = 0\<rparr>"

definition demo_call2 :: "nat \<Rightarrow> sm_call" where
  "demo_call2 i = (if i = 0 then C_blacklist demo_sm_ctx 20 else C_query (Resolve 0 1 (Some (demo_bo 7 24)) []))"

lemma demo_timeout: "24 \<le> dadd 5 20"
  by (simp add: dadd_def)

lemma demo_run2:
  "\<exists>r t r' s. run_schedule demo_backends demo_call2 [0, 0, 0, 0, 0, 0, 0, 0, 0] (sm_start demo_mem2) = Some ([Call 0, Return 0 r], t) \<and>
     run_schedule demo_backends demo_call2 [1, 1, 1, 1, 1, 1, 1, 1, 1, 1] t = Some ([Call 1, Return 1 r'], s)"
proof -
  have "memcmp (demo_digest 7) (demo_digest 7) = 0" by (simp add: memcmp_eq)
  moreover have "\<not> dadd 5 20 < 24" using demo_timeout by simp
  ultimately show ?thesis
    by (simp add: run_thread_def Let_def sm_start_def demo_mem2_def demo_call2_def demo_bo_def bo_scan_def demo_sm_ctx_def
        enter_blacklist_def demo_backends_def log_bo_def log_verdict_def next_of_def about_digest_def blacklist_ret_def)
qed

lemma sm_blacklist_enforced_threads_witness:
  "\<exists>r v' s. traced (sm_tstep demo_backends demo_call2 2) (sm_start demo_mem2)
     [Call 0, Return 0 r, Call 1, Return 1 (R_resolve None v')] s"
proof -
  obtain r t r' s where
    1: "run_schedule demo_backends demo_call2 [0, 0, 0, 0, 0, 0, 0, 0, 0] (sm_start demo_mem2) = Some ([Call 0, Return 0 r], t)" and
    2: "run_schedule demo_backends demo_call2 [1, 1, 1, 1, 1, 1, 1, 1, 1, 1] t = Some ([Call 1, Return 1 r'], s)"
    using demo_run2 by blast
  have "traced (sm_tstep demo_backends demo_call2 2) (sm_start demo_mem2) ([Call 0, Return 0 r] @ [Call 1, Return 1 r']) s"
    by (rule traced_append) (use run_schedule_steps [OF 1, of 2] run_schedule_steps [OF 2, of 2] in auto)
  moreover have "\<exists>v'. r' = R_resolve None v'"
  proof (rule sm_blacklist_enforced_threads [OF _ calculation])
    show "sm_start_ok 2 demo_mem2" by (simp add: sm_start_ok_def demo_mem2_def all_listed_def)
    show "demo_call2 0 = C_blacklist demo_sm_ctx 20" by (simp add: demo_call2_def)
    show "blacklist_target demo_sm_ctx (seq_mem demo_mem2) (demo_bo 7 5) 1"
      by (simp add: blacklist_target_def seq_mem_def demo_mem2_def demo_sm_ctx_def demo_bo_def dom_def)
    show "demo_call2 1 = C_query (Resolve 0 1 (Some (demo_bo 7 24)) [])" by (simp add: demo_call2_def)
    show "snd (scan_args q) \<le> dadd (bo_t_prev (demo_bo 7 5)) 20" if "demo_call2 k = C_query q" for k q
      using that demo_timeout by (auto simp: demo_call2_def demo_bo_def bo_scan_def split: if_splits)
  qed (use demo_timeout in \<open>auto simp: demo_bo_def demo_mem2_def\<close>)
  ultimately show ?thesis by auto
qed

end
