(* ===== verification/Var.thy ===== *)
theory Var
  imports KV_Store Doubles
begin

text \<open>
  The variable module, \<^verbatim>\<open>src/src/vmod_var.c\<close>: typed variables of a task, on a list that hangs
  off the task's \<open>priv\<close> pointer and lives in the workspace, and global string variables on
  a list of their own, guarded by a mutex and allocated with \<open>malloc\<close>.
\<close>

section \<open>Data\<close>

text \<open>
  The type tag and the union are two fields. Of the union the model keeps which member was
  written last, with its value: \<open>u_INT\<close> is the 32-bit \<open>int\<close>, a \<open>u_IP\<close> is the memory of a
  \<open>struct suckaddr\<close>, and \<open>u_STRING\<close> and \<open>u_IP\<close> may be NULL, because the code stores what
  \<open>WS_Copy\<close> returned without looking at it. In a variable just allocated both fields are
  indeterminate, \<open>None\<close>. Reading an indeterminate field, or another member of the union than
  the one written last, is \<open>UndefBehav\<close>.
\<close>

datatype VAR_TYPE = STRING | INT' | REAL | DURATION | IP | BACKEND

datatype var_value =
    u_STRING "string option"
  | u_INT u32
  | u_REAL double
  | u_DURATION double
  | u_IP "string option"
  | u_BACKEND "addr option"

record var =
  var_name :: string
  var_ty :: "VAR_TYPE option"
  var_val :: "var_value option"

type_synonym var_head = "var list"

type_synonym 'ws var_task = "'ws vrt_ctx \<times> var_head option"

definition sizeof_var :: nat where "sizeof_var = 48"

section \<open>Operations on a task's variables\<close>

text \<open>\<open>ALLOC_OBJ\<close> zeroes the new head; an empty list is all that is later read of it.\<close>

definition vh_init :: "var_head \<Rightarrow> var_head" where
  "vh_init vh = []"

definition get_vh :: "var_head option \<Rightarrow> var_head" where
  "get_vh priv = (case priv of None \<Rightarrow> [] | Some vh \<Rightarrow> vh)"

definition vh_get_var :: "var_head \<Rightarrow> string \<Rightarrow> nat option" where
  "vh_get_var vh name = find_index (\<lambda>v. var_name v = name) vh"

definition vh_get_var_alloc ::
  "'ws ws_api \<Rightarrow> 'ws vrt_ctx \<Rightarrow> var_head \<Rightarrow> string \<Rightarrow> (nat \<times> 'ws vrt_ctx \<times> var_head) res" where
  "vh_get_var_alloc api ctx vh name =
     (case vh_get_var vh name of
        Some i \<Rightarrow> Inr (i, ctx, vh)
      | None \<Rightarrow>
          let (v, w1) = WS_Alloc api (ctx_ws ctx) sizeof_var in
          res_bind (guard v AssertFail) (\<lambda>_.
          let (n, w2) = WS_Copy api w1 name in
          case n of None \<Rightarrow> Inl AssertFail
          | Some n' \<Rightarrow> Inr (0, ctx\<lparr>ctx_ws := w2\<rparr>, \<lparr>var_name = n', var_ty = None, var_val = None\<rparr> # vh)))"

text \<open>The two assignments of a setter, \<open>v->type = ty\<close> and \<open>v->value.X = x\<close>.\<close>

definition write_var :: "nat \<Rightarrow> VAR_TYPE \<Rightarrow> var_value \<Rightarrow> var_head \<Rightarrow> var_head" where
  "write_var i ty x vh = vh[i := (vh ! i)\<lparr>var_ty := Some ty, var_val := Some x\<rparr>]"

definition var_vmod_set_string ::
  "'ws ws_api \<Rightarrow> 'ws var_task \<Rightarrow> string option \<Rightarrow> string option \<Rightarrow> 'ws var_task res" where
  "var_vmod_set_string api t name value =
     (let (ctx, priv) = t in
      case name of None \<Rightarrow> Inr t | Some n \<Rightarrow>
      res_bind (vh_get_var_alloc api ctx (get_vh priv) n) (\<lambda>(i, ctx1, vh).
      let (p, w) = WS_Copy api (ctx_ws ctx1) (case value of None \<Rightarrow> '''' | Some v \<Rightarrow> v)
      in Inr (ctx1\<lparr>ctx_ws := w\<rparr>, Some (write_var i STRING (u_STRING p) vh))))"

definition var_vmod_set ::
  "'ws ws_api \<Rightarrow> 'ws var_task \<Rightarrow> string option \<Rightarrow> string option \<Rightarrow> 'ws var_task res" where
  "var_vmod_set api t name value = var_vmod_set_string api t name value"

definition var_vmod_set_ip ::
  "'ws ws_api \<Rightarrow> 'ws var_task \<Rightarrow> string option \<Rightarrow> string option \<Rightarrow> 'ws var_task res" where
  "var_vmod_set_ip api t name ip =
     (let (ctx, priv) = t in
      case name of None \<Rightarrow> Inr t | Some n \<Rightarrow>
      res_bind (vh_get_var_alloc api ctx (get_vh priv) n) (\<lambda>(i, ctx1, vh).
      case ip of None \<Rightarrow> Inl AssertFail
      | Some a \<Rightarrow>
          let (p, w) = WS_Copy api (ctx_ws ctx1) a
          in Inr (ctx1\<lparr>ctx_ws := w\<rparr>, Some (write_var i IP (u_IP p) vh))))"

text \<open>The macro \<open>VMOD_SET_X\<close>, given the value already converted to the union's member.\<close>

definition VMOD_SET_X :: "'ws ws_api \<Rightarrow> VAR_TYPE \<Rightarrow> var_value \<Rightarrow> 'ws var_task \<Rightarrow> string option \<Rightarrow> 'ws var_task res" where
  "VMOD_SET_X api ty x t name =
     (let (ctx, priv) = t in
      case name of None \<Rightarrow> Inr t | Some n \<Rightarrow>
      res_bind (vh_get_var_alloc api ctx (get_vh priv) n) (\<lambda>(i, ctx1, vh).
      Inr (ctx1, Some (write_var i ty x vh))))"

text \<open>A \<open>VCL_INT\<close> has 64 bits; the assignment to the union's \<open>int\<close> keeps the low 32.\<close>

definition var_vmod_set_int :: "'ws ws_api \<Rightarrow> 'ws var_task \<Rightarrow> string option \<Rightarrow> int \<Rightarrow> 'ws var_task res" where
  "var_vmod_set_int api t name value = VMOD_SET_X api INT' (u_INT (of_int value)) t name"

definition var_vmod_set_real :: "'ws ws_api \<Rightarrow> 'ws var_task \<Rightarrow> string option \<Rightarrow> double \<Rightarrow> 'ws var_task res" where
  "var_vmod_set_real api t name value = VMOD_SET_X api REAL (u_REAL value) t name"

definition var_vmod_set_duration :: "'ws ws_api \<Rightarrow> 'ws var_task \<Rightarrow> string option \<Rightarrow> double \<Rightarrow> 'ws var_task res" where
  "var_vmod_set_duration api t name value = VMOD_SET_X api DURATION (u_DURATION value) t name"

definition var_vmod_set_backend :: "'ws ws_api \<Rightarrow> 'ws var_task \<Rightarrow> string option \<Rightarrow> addr option \<Rightarrow> 'ws var_task res" where
  "var_vmod_set_backend api t name value = VMOD_SET_X api BACKEND (u_BACKEND value) t name"

text \<open>
  The getters look the variable up, compare its tag and read the member of their own type; a
  getter also creates the list of the task when there is none. \<open>VMOD_GET_X\<close> is the macro, and
  the body that the two getters written out share with it.
\<close>

definition find_var :: "var_head option \<Rightarrow> string option \<Rightarrow> var option" where
  "find_var priv name = (case name of None \<Rightarrow> None | Some n \<Rightarrow>
     map_option (\<lambda>i. get_vh priv ! i) (vh_get_var (get_vh priv) n))"

definition touch_vh :: "string option \<Rightarrow> 'ws var_task \<Rightarrow> 'ws var_task" where
  "touch_vh name t = (if name = None then t else (fst t, Some (get_vh (snd t))))"

definition VMOD_GET_X ::
  "VAR_TYPE \<Rightarrow> 'a \<Rightarrow> (var_value \<Rightarrow> 'a option) \<Rightarrow> 'ws var_task \<Rightarrow> string option \<Rightarrow> ('a \<times> 'ws var_task) res" where
  "VMOD_GET_X ty zero member t name =
     (case find_var (snd t) name of None \<Rightarrow> Inr (zero, touch_vh name t) | Some v \<Rightarrow>
      case var_ty v of None \<Rightarrow> Inl UndefBehav | Some ty' \<Rightarrow>
      if ty' \<noteq> ty then Inr (zero, touch_vh name t)
      else case Option.bind (var_val v) member of
        None \<Rightarrow> Inl UndefBehav
      | Some x \<Rightarrow> Inr (x, touch_vh name t))"

definition var_vmod_get_string :: "'ws var_task \<Rightarrow> string option \<Rightarrow> (string option \<times> 'ws var_task) res" where
  "var_vmod_get_string t name = VMOD_GET_X STRING None (\<lambda>x. case x of u_STRING s \<Rightarrow> Some s | _ \<Rightarrow> None) t name"

definition var_vmod_get :: "'ws var_task \<Rightarrow> string option \<Rightarrow> (string option \<times> 'ws var_task) res" where
  "var_vmod_get t name = var_vmod_get_string t name"

definition var_vmod_get_ip :: "'ws var_task \<Rightarrow> string option \<Rightarrow> (string option \<times> 'ws var_task) res" where
  "var_vmod_get_ip t name = VMOD_GET_X IP None (\<lambda>x. case x of u_IP a \<Rightarrow> Some a | _ \<Rightarrow> None) t name"

definition var_vmod_get_int :: "'ws var_task \<Rightarrow> string option \<Rightarrow> (int \<times> 'ws var_task) res" where
  "var_vmod_get_int t name = VMOD_GET_X INT' 0 (\<lambda>x. case x of u_INT w \<Rightarrow> Some (sint w) | _ \<Rightarrow> None) t name"

definition var_vmod_get_real :: "'ws var_task \<Rightarrow> string option \<Rightarrow> (double \<times> 'ws var_task) res" where
  "var_vmod_get_real t name = VMOD_GET_X REAL 0 (\<lambda>x. case x of u_REAL r \<Rightarrow> Some r | _ \<Rightarrow> None) t name"

definition var_vmod_get_duration :: "'ws var_task \<Rightarrow> string option \<Rightarrow> (double \<times> 'ws var_task) res" where
  "var_vmod_get_duration t name = VMOD_GET_X DURATION 0 (\<lambda>x. case x of u_DURATION r \<Rightarrow> Some r | _ \<Rightarrow> None) t name"

definition var_vmod_get_backend :: "'ws var_task \<Rightarrow> string option \<Rightarrow> (addr option \<times> 'ws var_task) res" where
  "var_vmod_get_backend t name = VMOD_GET_X BACKEND None (\<lambda>x. case x of u_BACKEND b \<Rightarrow> Some b | _ \<Rightarrow> None) t name"

lemmas getter_defs = var_vmod_get_def var_vmod_get_string_def var_vmod_get_ip_def var_vmod_get_int_def
  var_vmod_get_real_def var_vmod_get_duration_def var_vmod_get_backend_def

definition var_vmod_clear :: "'ws var_task \<Rightarrow> 'ws var_task" where
  "var_vmod_clear t = (fst t, Some (vh_init (get_vh (snd t))))"

section \<open>Operations on the global variables\<close>

text \<open>
  \<open>global_set\<close> moves an existing variable to the front and replaces its name, tag and value; the
  names are compared with \<open>strcmp\<close>. The old strings go back to \<open>free\<close>. \<open>global_get\<close> reads the
  string without looking at the tag.
\<close>

definition var_vmod_global_set :: "var list \<Rightarrow> string option \<Rightarrow> string option \<Rightarrow> var list" where
  "var_vmod_global_set gs name value =
     (case name of None \<Rightarrow> gs | Some n \<Rightarrow>
      let rest = (case find_index (\<lambda>v. var_name v = n) gs of Some i \<Rightarrow> VTAILQ_REMOVE_at i gs | None \<Rightarrow> gs)
      in \<lparr>var_name = n, var_ty = Some STRING, var_val = Some (u_STRING value)\<rparr> # rest)"

text \<open>With NULL as the name, \<open>strcmp\<close> reads through it at the first variable.\<close>

definition var_vmod_global_get ::
  "'ws ws_api \<Rightarrow> 'ws vrt_ctx \<Rightarrow> var list \<Rightarrow> string option \<Rightarrow> (string option \<times> 'ws vrt_ctx) res" where
  "var_vmod_global_get api ctx gs name =
     (case name of
        None \<Rightarrow> if gs = [] then Inr (None, ctx) else Inl NullDeref
      | Some n \<Rightarrow>
          case find_index (\<lambda>v. var_name v = n) gs of None \<Rightarrow> Inr (None, ctx)
          | Some i \<Rightarrow>
              case var_val (gs ! i) of
                Some (u_STRING (Some s)) \<Rightarrow>
                  let (r, w) = WS_Copy api (ctx_ws ctx) s in
                  if r = None then Inl AssertFail else Inr (r, ctx\<lparr>ctx_ws := w\<rparr>)
              | Some (u_STRING None) \<Rightarrow> Inr (None, ctx)
              | _ \<Rightarrow> Inl UndefBehav)"

section \<open>The two stores\<close>

text \<open>In a well-formed list names are distinct and the tag names the member of the union that is there.\<close>

fun tag_of :: "var_value \<Rightarrow> VAR_TYPE" where
  "tag_of (u_STRING _) = STRING"
| "tag_of (u_INT _) = INT'"
| "tag_of (u_REAL _) = REAL"
| "tag_of (u_DURATION _) = DURATION"
| "tag_of (u_IP _) = IP"
| "tag_of (u_BACKEND _) = BACKEND"

definition vars_ok :: "var list \<Rightarrow> bool" where
  "vars_ok vs \<longleftrightarrow> distinct (map var_name vs) \<and> (\<forall>v \<in> set vs. \<exists>x. var_val v = Some x \<and> var_ty v = Some (tag_of x))"

definition var_lookup :: "var list \<Rightarrow> string \<Rightarrow> var_value option" where
  "var_lookup vs n = Option.bind (find (\<lambda>v. var_name v = n) vs) var_val"

text \<open>Storing in place or at the front, and storing at the front always.\<close>

definition var_put :: "string \<Rightarrow> var_value \<Rightarrow> var list \<Rightarrow> var list" where
  "var_put n x vs = (case vh_get_var vs n of
     Some i \<Rightarrow> write_var i (tag_of x) x vs | None \<Rightarrow> \<lparr>var_name = n, var_ty = Some (tag_of x), var_val = Some x\<rparr> # vs)"

definition var_put_front :: "string \<Rightarrow> var_value \<Rightarrow> var list \<Rightarrow> var list" where
  "var_put_front n x vs = \<lparr>var_name = n, var_ty = Some (tag_of x), var_val = Some x\<rparr> # filter (\<lambda>v. var_name v \<noteq> n) vs"

lemma names_write [simp]: "map var_name (write_var i ty x vs) = map var_name vs"
  unfolding write_var_def by (rule map_list_update_same) simp

lemma var_lookup_map_of: "var_lookup vs n = Option.bind (map_of (map (\<lambda>v. (var_name v, var_val v)) vs) n) id"
  by (simp add: var_lookup_def map_of_map_pair bind_map_option comp_def)

lemma var_lookup_write:
  assumes "distinct (map var_name vs)" "i < length vs" "var_name (vs ! i) = n"
  shows "var_lookup (write_var i ty x vs) j = (if j = n then Some x else var_lookup vs j)"
  using assms
proof (induction vs arbitrary: i)
  case (Cons v vs)
  show ?case
  proof (cases i)
    case 0
    with Cons.prems show ?thesis by (auto simp: write_var_def var_lookup_def)
  next
    case (Suc k)
    have w: "write_var (Suc k) ty x (v # vs) = v # write_var k ty x vs" by (simp add: write_var_def)
    have "vs ! k \<in> set vs" using Cons.prems Suc by simp
    then have "var_name v \<noteq> n" using Cons.prems Suc by auto
    with Cons.IH [of k] Cons.prems Suc show ?thesis by (auto simp: w var_lookup_def)
  qed
qed simp

lemma vars_ok_put: "vars_ok vs \<Longrightarrow> vars_ok (var_put n x vs)"
proof (cases "vh_get_var vs n")
  case None
  moreover from None have "n \<notin> var_name ` set vs" by (auto simp: vh_get_var_def find_index_None)
  moreover assume "vars_ok vs"
  ultimately show ?thesis by (simp add: var_put_def vars_ok_def)
next
  case (Some i)
  moreover assume "vars_ok vs"
  moreover from this Some have "\<forall>v \<in> set (write_var i (tag_of x) x vs). \<exists>x. var_val v = Some x \<and> var_ty v = Some (tag_of x)"
    using set_update_subset_insert [of vs i "(vs ! i)\<lparr>var_ty := Some (tag_of x), var_val := Some x\<rparr>"]
    by (auto simp: vars_ok_def write_var_def)
  ultimately show ?thesis by (simp add: var_put_def vars_ok_def)
qed

lemma var_lookup_put: "vars_ok vs \<Longrightarrow> var_lookup (var_put n x vs) j = (if j = n then Some x else var_lookup vs j)"
proof (cases "vh_get_var vs n")
  case None
  then show ?thesis by (simp add: var_put_def var_lookup_def)
next
  case (Some i)
  assume "vars_ok vs"
  with Some find_index_SomeD [of "\<lambda>v. var_name v = n" vs i] show ?thesis
    by (simp add: var_put_def var_lookup_write vars_ok_def vh_get_var_def)
qed

interpretation vs: kv_store vars_ok var_lookup var_put "\<lambda>_ _. True"
  by unfold_locales (simp_all add: vars_ok_put var_lookup_put)

lemma find_filter_other: "find (\<lambda>v. f v = j) (filter (\<lambda>v. f v \<noteq> n) vs) = (if j = n then None else find (\<lambda>v. f v = j) vs)"
  by (induction vs) auto

interpretation gv: kv_store vars_ok var_lookup var_put_front "\<lambda>_ _. True"
proof
  fix s :: "var list" and k j :: string and v :: var_value
  assume ok: "vars_ok s"
  then show "vars_ok (var_put_front k v s)"
    by (auto simp: vars_ok_def var_put_front_def distinct_map_filter)
  show "var_lookup (var_put_front k v s) j = (if j = k then Some v else var_lookup s j)"
    by (auto simp: var_lookup_def var_put_front_def find_filter_other)
qed

section \<open>The operations store into the list\<close>

lemma alloc_then_write:
  assumes "ws_copies api" "vh_get_var_alloc api ctx vh n = Inr (i, ctx1, vh1)"
  shows "write_var i (tag_of x) x vh1 = var_put n x vh"
  using assms
  by (auto simp: vh_get_var_alloc_def var_put_def write_var_def Let_def ws_copies_def
      split: option.splits prod.splits) (metis fst_conv)

lemma alloc_ample:
  assumes "ws_ample api"
  shows "\<exists>i ctx1 vh1. vh_get_var_alloc api ctx vh n = Inr (i, ctx1, vh1)"
proof (cases "vh_get_var vh n")
  case None
  obtain v w1 where a: "WS_Alloc api (ctx_ws ctx) sizeof_var = (v, w1)" by fastforce
  obtain m w2 where c: "WS_Copy api w1 n = (m, w2)" by fastforce
  have "v" "m = Some n" using assms a c unfolding ws_ample_def by (metis fst_conv)+
  with None a c show ?thesis by (simp add: vh_get_var_alloc_def)
qed (simp add: vh_get_var_alloc_def)

lemma ws_ample_copy: "ws_ample api \<Longrightarrow> WS_Copy api w s = (p, w') \<Longrightarrow> p = Some s"
  unfolding ws_ample_def by (metis fst_conv)

text \<open>A store of a task, as VCL writes it, and what it means for the map of its variables.\<close>

datatype var_op =
    Set_string "string option" "string option"
  | Set_int "string option" int
  | Set_real "string option" double
  | Set_duration "string option" double
  | Set_ip "string option" "string option"
  | Set_backend "string option" "addr option"
  | Clear

fun var_op_run :: "'ws ws_api \<Rightarrow> var_op \<Rightarrow> 'ws var_task \<Rightarrow> 'ws var_task res" where
  "var_op_run api (Set_string n v) t = var_vmod_set api t n v"
| "var_op_run api (Set_int n v) t = var_vmod_set_int api t n v"
| "var_op_run api (Set_real n v) t = var_vmod_set_real api t n v"
| "var_op_run api (Set_duration n v) t = var_vmod_set_duration api t n v"
| "var_op_run api (Set_ip n v) t = var_vmod_set_ip api t n v"
| "var_op_run api (Set_backend n v) t = var_vmod_set_backend api t n v"
| "var_op_run api Clear t = Inr (var_vmod_clear t)"

fun var_run :: "'ws ws_api \<Rightarrow> var_op list \<Rightarrow> 'ws var_task \<Rightarrow> 'ws var_task res" where
  "var_run api [] t = Inr t"
| "var_run api (x # xs) t = res_bind (var_op_run api x t) (var_run api xs)"

text \<open>What VCL stores under a name: the argument of the call, an \<open>INT\<close> with all its bits.\<close>

datatype vcl_value = V_STRING string | V_INT int | V_REAL double | V_DURATION double | V_IP string | V_BACKEND "addr option"

fun var_op_sem :: "var_op \<Rightarrow> (string \<rightharpoonup> vcl_value) \<Rightarrow> (string \<rightharpoonup> vcl_value)" where
  "var_op_sem (Set_string (Some n) v) m = m(n \<mapsto> V_STRING (case v of None \<Rightarrow> [] | Some s \<Rightarrow> s))"
| "var_op_sem (Set_int (Some n) v) m = m(n \<mapsto> V_INT v)"
| "var_op_sem (Set_real (Some n) v) m = m(n \<mapsto> V_REAL v)"
| "var_op_sem (Set_duration (Some n) v) m = m(n \<mapsto> V_DURATION v)"
| "var_op_sem (Set_ip (Some n) (Some v)) m = m(n \<mapsto> V_IP v)"
| "var_op_sem (Set_backend (Some n) v) m = m(n \<mapsto> V_BACKEND v)"
| "var_op_sem Clear m = Map.empty"
| "var_op_sem _ m = m"

text \<open>How the union holds such a value, and its type.\<close>

fun held :: "vcl_value \<Rightarrow> var_value" where
  "held (V_STRING s) = u_STRING (Some s)"
| "held (V_INT i) = u_INT (of_int i)"
| "held (V_REAL x) = u_REAL x"
| "held (V_DURATION x) = u_DURATION x"
| "held (V_IP a) = u_IP (Some a)"
| "held (V_BACKEND b) = u_BACKEND b"

definition held_map :: "(string \<rightharpoonup> vcl_value) \<Rightarrow> string \<rightharpoonup> var_value" where
  "held_map m = map_option held \<circ> m"

lemma held_map_simps [simp]: "held_map Map.empty = Map.empty" "held_map (m(n \<mapsto> v)) = (held_map m)(n \<mapsto> held v)"
  by (auto simp: held_map_def)

definition vcl_type :: "vcl_value \<Rightarrow> VAR_TYPE" where
  "vcl_type v = tag_of (held v)"

text \<open>The one argument the module refuses with an assertion.\<close>

fun null_ip :: "var_op \<Rightarrow> bool" where
  "null_ip (Set_ip (Some _) None) = True"
| "null_ip _ = False"

definition vars_of :: "'ws var_task \<Rightarrow> string \<rightharpoonup> var_value" where
  "vars_of t = var_lookup (get_vh (snd t))"

lemma vars_of_put: "vars_ok (get_vh (snd t)) \<Longrightarrow> snd t' = Some (var_put n x (get_vh (snd t))) \<Longrightarrow>
  vars_ok (get_vh (snd t')) \<and> vars_of t' = (vars_of t)(n \<mapsto> x)"
  using vs.inv_put [of "get_vh (snd t)" n x] vs.lookup_put [of "get_vh (snd t)" n x]
  by (auto simp: vars_of_def get_vh_def)

lemma set_x_correct:
  assumes "ws_ample api" "vars_ok (get_vh (snd t))"
  shows "\<exists>t'. VMOD_SET_X api (tag_of x) x t name = Inr t' \<and> vars_ok (get_vh (snd t')) \<and>
    vars_of t' = (case name of None \<Rightarrow> vars_of t | Some n \<Rightarrow> (vars_of t)(n \<mapsto> x))"
proof (cases name)
  case None
  then show ?thesis using assms by (cases t) (simp add: VMOD_SET_X_def)
next
  case (Some n)
  obtain ctx priv where t: "t = (ctx, priv)" by fastforce
  obtain i ctx1 vh1 where a: "vh_get_var_alloc api ctx (get_vh priv) n = Inr (i, ctx1, vh1)"
    using alloc_ample [OF assms(1)] by blast
  then have "VMOD_SET_X api (tag_of x) x t name = Inr (ctx1, Some (var_put n x (get_vh priv)))"
    using alloc_then_write [OF ws_ample_copies [OF assms(1)] a] by (simp add: VMOD_SET_X_def t Some)
  with vars_of_put [OF assms(2), of "(ctx1, Some (var_put n x (get_vh priv)))" n x] Some
  show ?thesis by (simp add: t)
qed

lemma set_string_is_set_x:
  assumes "ws_ample api"
  shows "\<exists>w. var_vmod_set_string api t name value =
    res_bind (VMOD_SET_X api STRING (u_STRING (Some (case value of None \<Rightarrow> '''' | Some v \<Rightarrow> v))) t name)
      (\<lambda>(ctx, p). Inr (if name = None then ctx else ctx\<lparr>ctx_ws := w\<rparr>, p))"
  using assms
  by (cases t; cases name)
    (auto simp: var_vmod_set_string_def VMOD_SET_X_def res_bind_def Let_def
      split: sum.splits prod.splits dest: ws_ample_copy [OF assms])

lemma set_ip_is_set_x:
  assumes "ws_ample api" and "ip = Some a"
  shows "\<exists>w. var_vmod_set_ip api t name ip =
    res_bind (VMOD_SET_X api IP (u_IP ip) t name) (\<lambda>(ctx, p). Inr (if name = None then ctx else ctx\<lparr>ctx_ws := w\<rparr>, p))"
  using assms
  by (cases t; cases name)
    (auto simp: var_vmod_set_ip_def VMOD_SET_X_def res_bind_def Let_def
      split: sum.splits prod.splits dest: ws_ample_copy [OF assms(1)])

lemma var_op_correct:
  assumes "ws_ample api" "vars_ok (get_vh (snd t))" "\<not> null_ip x" "vars_of t = held_map m"
  shows "\<exists>t'. var_op_run api x t = Inr t' \<and> vars_ok (get_vh (snd t')) \<and> vars_of t' = held_map (var_op_sem x m)"
proof -
  note set_x = set_x_correct [OF assms(1,2)]
  have ctx_irrelevant: "vars_of (c, p) = vars_of (c', p)" for c c' :: "'a vrt_ctx" and p
    by (simp add: vars_of_def)
  show ?thesis
  proof (cases x)
    case (Set_string n v)
    obtain w where "var_vmod_set_string api t n v =
      res_bind (VMOD_SET_X api STRING (u_STRING (Some (case v of None \<Rightarrow> '''' | Some v \<Rightarrow> v))) t n)
        (\<lambda>(ctx, p). Inr (if n = None then ctx else ctx\<lparr>ctx_ws := w\<rparr>, p))"
      using set_string_is_set_x [OF assms(1)] by blast
    with assms(4) set_x(1) [of "u_STRING (Some (case v of None \<Rightarrow> '''' | Some v \<Rightarrow> v))" n] Set_string
    show ?thesis by (cases n) (auto simp: var_vmod_set_def vars_of_def)
  next
    case (Set_ip n v)
    show ?thesis
    proof (cases n)
      case None
      with Set_ip assms(2,4) show ?thesis by (cases t) (simp add: var_vmod_set_ip_def)
    next
      case (Some k)
      with Set_ip assms(3) obtain a where a: "v = Some a" by (cases v) auto
      obtain w where "var_vmod_set_ip api t n v =
        res_bind (VMOD_SET_X api IP (u_IP v) t n) (\<lambda>(ctx, p). Inr (if n = None then ctx else ctx\<lparr>ctx_ws := w\<rparr>, p))"
        using set_ip_is_set_x [OF assms(1) a] by blast
      with assms(4) set_x(1) [of "u_IP v" n] Set_ip Some a show ?thesis by (auto simp: vars_of_def)
    qed
  next
    case (Set_int n v)
    with assms(4) set_x(1) [of "u_INT (of_int v)" n] show ?thesis by (cases n) (auto simp: var_vmod_set_int_def)
  next
    case (Set_real n v)
    with assms(4) set_x(1) [of "u_REAL v" n] show ?thesis by (cases n) (auto simp: var_vmod_set_real_def)
  next
    case (Set_duration n v)
    with assms(4) set_x(1) [of "u_DURATION v" n] show ?thesis by (cases n) (auto simp: var_vmod_set_duration_def)
  next
    case (Set_backend n v)
    with assms(4) set_x(1) [of "u_BACKEND v" n] show ?thesis by (cases n) (auto simp: var_vmod_set_backend_def)
  next
    case Clear
    then show ?thesis
      by (simp add: var_vmod_clear_def vh_init_def get_vh_def vars_ok_def vars_of_def var_lookup_def fun_eq_iff)
  qed
qed

lemma var_run_correct:
  assumes "ws_ample api" "vars_ok (get_vh (snd t))" "list_all (\<lambda>x. \<not> null_ip x) xs" "vars_of t = held_map m"
  shows "\<exists>t'. var_run api xs t = Inr t' \<and> vars_ok (get_vh (snd t')) \<and> vars_of t' = held_map (fold var_op_sem xs m)"
  using assms
proof (induction xs arbitrary: t m)
  case (Cons x xs)
  then obtain t1 where "var_op_run api x t = Inr t1" "vars_ok (get_vh (snd t1))"
    "vars_of t1 = held_map (var_op_sem x m)" using var_op_correct [of api t x m] by auto
  with Cons.IH [of t1] Cons.prems show ?case by auto
qed simp

lemma find_var_lookup:
  assumes "vars_ok (get_vh p)"
  shows "case find_var p (Some n) of None \<Rightarrow> var_lookup (get_vh p) n = None
    | Some v \<Rightarrow> var_val v = var_lookup (get_vh p) n \<and> var_ty v = map_option tag_of (var_lookup (get_vh p) n) \<and> var_lookup (get_vh p) n \<noteq> None"
proof (cases "find_index (\<lambda>v. var_name v = n) (get_vh p)")
  case None
  then show ?thesis by (simp add: find_var_def vh_get_var_def var_lookup_def find_index_find)
next
  case (Some i)
  with assms find_index_SomeD(1) [OF Some] obtain x where
    "var_val (get_vh p ! i) = Some x" "var_ty (get_vh p ! i) = Some (tag_of x)"
    unfolding vars_ok_def by (meson nth_mem)
  with Some show ?thesis by (simp add: find_var_def vh_get_var_def var_lookup_def find_index_find)
qed

text \<open>A getter whose member is defined on the values of its tag answers for the stored value.\<close>

lemma VMOD_GET_X_correct:
  assumes "vars_ok (get_vh (snd t))" "\<And>x. member x \<noteq> None \<longleftrightarrow> tag_of x = ty"
  shows "VMOD_GET_X ty zero member t (Some n) =
    Inr (case Option.bind (vars_of t n) member of None \<Rightarrow> zero | Some r \<Rightarrow> r, touch_vh (Some n) t)"
proof -
  show ?thesis
    using find_var_lookup [OF assms(1), of n] assms(2) [of "the (vars_of t n)"]
    by (auto simp: VMOD_GET_X_def vars_of_def split: option.splits)
qed

lemma getters_read:
  assumes "vars_ok (get_vh (snd t))"
  shows
    "var_vmod_get t (Some n) = Inr (case vars_of t n of Some (u_STRING s) \<Rightarrow> s | _ \<Rightarrow> None, touch_vh (Some n) t)"
    "var_vmod_get_string t (Some n) = Inr (case vars_of t n of Some (u_STRING s) \<Rightarrow> s | _ \<Rightarrow> None, touch_vh (Some n) t)"
    "var_vmod_get_ip t (Some n) = Inr (case vars_of t n of Some (u_IP a) \<Rightarrow> a | _ \<Rightarrow> None, touch_vh (Some n) t)"
    "var_vmod_get_int t (Some n) = Inr (case vars_of t n of Some (u_INT w) \<Rightarrow> sint w | _ \<Rightarrow> 0, touch_vh (Some n) t)"
    "var_vmod_get_real t (Some n) = Inr (case vars_of t n of Some (u_REAL x) \<Rightarrow> x | _ \<Rightarrow> 0, touch_vh (Some n) t)"
    "var_vmod_get_duration t (Some n) = Inr (case vars_of t n of Some (u_DURATION x) \<Rightarrow> x | _ \<Rightarrow> 0, touch_vh (Some n) t)"
    "var_vmod_get_backend t (Some n) = Inr (case vars_of t n of Some (u_BACKEND b) \<Rightarrow> b | _ \<Rightarrow> None, touch_vh (Some n) t)"
proof -
  have m: "(case x of u_STRING s \<Rightarrow> Some s | _ \<Rightarrow> None) \<noteq> None \<longleftrightarrow> tag_of x = STRING"
    "(case x of u_IP s \<Rightarrow> Some s | _ \<Rightarrow> None) \<noteq> None \<longleftrightarrow> tag_of x = IP"
    "(case x of u_INT w \<Rightarrow> Some (sint w) | _ \<Rightarrow> None) \<noteq> None \<longleftrightarrow> tag_of x = INT'"
    "(case x of u_REAL r \<Rightarrow> Some r | _ \<Rightarrow> None) \<noteq> None \<longleftrightarrow> tag_of x = REAL"
    "(case x of u_DURATION r \<Rightarrow> Some r | _ \<Rightarrow> None) \<noteq> None \<longleftrightarrow> tag_of x = DURATION"
    "(case x of u_BACKEND b \<Rightarrow> Some b | _ \<Rightarrow> None) \<noteq> None \<longleftrightarrow> tag_of x = BACKEND" for x
    by (cases x; simp)+
  note g = getter_defs VMOD_GET_X_correct [OF assms m(1)] VMOD_GET_X_correct [OF assms m(2)]
    VMOD_GET_X_correct [OF assms m(3)] VMOD_GET_X_correct [OF assms m(4)]
    VMOD_GET_X_correct [OF assms m(5)] VMOD_GET_X_correct [OF assms m(6)]
  show "var_vmod_get t (Some n) = Inr (case vars_of t n of Some (u_STRING s) \<Rightarrow> s | _ \<Rightarrow> None, touch_vh (Some n) t)"
    "var_vmod_get_string t (Some n) = Inr (case vars_of t n of Some (u_STRING s) \<Rightarrow> s | _ \<Rightarrow> None, touch_vh (Some n) t)"
    "var_vmod_get_ip t (Some n) = Inr (case vars_of t n of Some (u_IP a) \<Rightarrow> a | _ \<Rightarrow> None, touch_vh (Some n) t)"
    "var_vmod_get_int t (Some n) = Inr (case vars_of t n of Some (u_INT w) \<Rightarrow> sint w | _ \<Rightarrow> 0, touch_vh (Some n) t)"
    "var_vmod_get_real t (Some n) = Inr (case vars_of t n of Some (u_REAL x) \<Rightarrow> x | _ \<Rightarrow> 0, touch_vh (Some n) t)"
    "var_vmod_get_duration t (Some n) = Inr (case vars_of t n of Some (u_DURATION x) \<Rightarrow> x | _ \<Rightarrow> 0, touch_vh (Some n) t)"
    "var_vmod_get_backend t (Some n) = Inr (case vars_of t n of Some (u_BACKEND b) \<Rightarrow> b | _ \<Rightarrow> None, touch_vh (Some n) t)"
    unfolding g by (cases "vars_of t n"; simp split: var_value.splits)+
qed

section \<open>The types of the variables\<close>

definition types_of :: "(string \<rightharpoonup> var_value) \<Rightarrow> string \<rightharpoonup> VAR_TYPE" where
  "types_of m = map_option tag_of \<circ> m"

lemma types_of_upd: "types_of (m(n \<mapsto> x)) = (types_of m)(n \<mapsto> tag_of x)"
  by (auto simp: types_of_def)

lemma set_x_types:
  assumes "ws_copies api" "vars_ok (get_vh priv)" "vh_get_var_alloc api ctx (get_vh priv) n = Inr (i, ctx1, vh)"
  shows "vars_ok (write_var i (tag_of x) x vh) \<and>
    types_of (var_lookup (write_var i (tag_of x) x vh)) = (types_of (var_lookup (get_vh priv)))(n \<mapsto> tag_of x)"
proof -
  have "var_lookup (var_put n x (get_vh priv)) = (var_lookup (get_vh priv))(n \<mapsto> x)"
    using vs.lookup_put [OF assms(2), of n x] by (simp add: fun_eq_iff)
  with vs.inv_put [OF assms(2), of n x] alloc_then_write [OF assms(1,3), of x] show ?thesis
    by (simp add: types_of_upd)
qed

text \<open>The same for a store through \<open>VMOD_SET_X\<close> and for the two that copy to the workspace.\<close>

lemma var_op_types:
  assumes "ws_copies api" "vars_ok (get_vh (snd t))" "var_op_run api x t = Inr t'" "types_of (vars_of t) = types_of (held_map m)"
  shows "vars_ok (get_vh (snd t')) \<and> types_of (vars_of t') = types_of (held_map (var_op_sem x m))"
proof -
  obtain ctx priv where t: "t = (ctx, priv)" by fastforce
  note s = set_x_types [OF assms(1), of priv ctx] assms(2,4)
  have copied: "vars_ok (write_var i STRING (u_STRING p) vh) \<and> types_of (var_lookup (write_var i STRING (u_STRING p) vh)) =
      (types_of (held_map m))(n \<mapsto> STRING)"
    "vars_ok (write_var i IP (u_IP p) vh) \<and> types_of (var_lookup (write_var i IP (u_IP p) vh)) = (types_of (held_map m))(n \<mapsto> IP)"
    if "vh_get_var_alloc api ctx (get_vh priv) n = Inr (i, ctx1, vh)" for n i p ctx1 vh
    using s(1) [OF _ that, of "u_STRING p"] s(1) [OF _ that, of "u_IP p"] s(2,3) by (auto simp: t vars_of_def)
  have x_case: "vars_ok (get_vh (snd t')) \<and> types_of (vars_of t') =
      (case n of None \<Rightarrow> types_of (held_map m) | Some k \<Rightarrow> (types_of (held_map m))(k \<mapsto> tag_of v))"
    if "VMOD_SET_X api (tag_of v) v t n = Inr t'" for n v
    using that s by (cases n) (auto simp: VMOD_SET_X_def t vars_of_def get_vh_def)
  show ?thesis
  proof (cases x)
    case (Set_string n v)
    then show ?thesis using assms(3) s(2,3)
      by (cases n) (auto simp: var_vmod_set_def var_vmod_set_string_def t vars_of_def get_vh_def types_of_upd case_prod_beta Let_def
          dest!: copied(1) [unfolded get_vh_def])
  next
    case (Set_ip n v)
    then show ?thesis using assms(3) s(2,3)
      by (cases n; cases v) (auto simp: var_vmod_set_ip_def t vars_of_def get_vh_def types_of_upd case_prod_beta Let_def
          dest!: copied(2) [unfolded get_vh_def])
  next
    case (Set_int n v)
    with x_case [of "u_INT (of_int v)" n] assms(3) show ?thesis by (cases n) (auto simp: var_vmod_set_int_def types_of_upd)
  next
    case (Set_real n v)
    with x_case [of "u_REAL v" n] assms(3) show ?thesis by (cases n) (auto simp: var_vmod_set_real_def types_of_upd)
  next
    case (Set_duration n v)
    with x_case [of "u_DURATION v" n] assms(3) show ?thesis by (cases n) (auto simp: var_vmod_set_duration_def types_of_upd)
  next
    case (Set_backend n v)
    with x_case [of "u_BACKEND v" n] assms(3) show ?thesis by (cases n) (auto simp: var_vmod_set_backend_def types_of_upd)
  next
    case Clear
    with assms(3) show ?thesis
      by (auto simp: var_vmod_clear_def vh_init_def get_vh_def vars_ok_def vars_of_def var_lookup_def types_of_def)
  qed
qed

lemma var_run_types:
  assumes "ws_copies api" "vars_ok (get_vh (snd t))" "var_run api xs t = Inr t'" "types_of (vars_of t) = types_of (held_map m)"
  shows "vars_ok (get_vh (snd t')) \<and> types_of (vars_of t') = types_of (held_map (fold var_op_sem xs m))"
  using assms(2-4)
proof (induction xs arbitrary: t m)
  case (Cons x xs)
  then obtain t1 where t1: "var_op_run api x t = Inr t1" "var_run api xs t1 = Inr t'" by auto
  from var_op_types [OF assms(1) Cons.prems(1) t1(1) Cons.prems(3)] Cons.IH [OF _ t1(2)] show ?case by simp
qed simp

section \<open>Properties\<close>

text \<open>
  Claim C34. The tag of a variable always says which member of the union was written last.
  However short the workspace is, if a sequence of \<open>set\<close>, \<open>set_*\<close> and \<open>clear\<close> calls runs
  through, every variable of the task has a tag and, in the union, the member of that tag; no
  two have the same name; and the tag is the type of the last store under the name since the
  last \<open>clear\<close>. So no getter reads an indeterminate or a foreign member, and a getter of another
  type answers NULL or zero (NULL also from \<open>get\<close>, for which \<^verbatim>\<open>vmod_var.vcc\<close> promises an empty string).
\<close>

theorem var_types_tracked:
  assumes "ws_copies api" "var_run api xs (ctx, None) = Inr t"
  shows "distinct (map var_name (get_vh (snd t))) \<and>
    (\<forall>v \<in> set (get_vh (snd t)). \<exists>x. var_val v = Some x \<and> var_ty v = Some (tag_of x)) \<and>
    (\<forall>n. let ty = map_option vcl_type (fold var_op_sem xs Map.empty n); t' = touch_vh (Some n) t in
      Option.bind (find_var (snd t) (Some n)) var_ty = ty \<and>
      (\<exists>r. var_vmod_get t (Some n) = Inr (r, t') \<and> (ty \<noteq> Some STRING \<longrightarrow> r = None)) \<and>
      (\<exists>r. var_vmod_get_string t (Some n) = Inr (r, t') \<and> (ty \<noteq> Some STRING \<longrightarrow> r = None)) \<and>
      (\<exists>r. var_vmod_get_int t (Some n) = Inr (r, t') \<and> (ty \<noteq> Some INT' \<longrightarrow> r = 0)) \<and>
      (\<exists>r. var_vmod_get_real t (Some n) = Inr (r, t') \<and> (ty \<noteq> Some REAL \<longrightarrow> r = 0)) \<and>
      (\<exists>r. var_vmod_get_duration t (Some n) = Inr (r, t') \<and> (ty \<noteq> Some DURATION \<longrightarrow> r = 0)) \<and>
      (\<exists>r. var_vmod_get_ip t (Some n) = Inr (r, t') \<and> (ty \<noteq> Some IP \<longrightarrow> r = None)) \<and>
      (\<exists>r. var_vmod_get_backend t (Some n) = Inr (r, t') \<and> (ty \<noteq> Some BACKEND \<longrightarrow> r = None)))"
proof -
  have e: "vars_ok (get_vh (snd (ctx, None)))" "types_of (vars_of (ctx, None)) = types_of (held_map Map.empty)"
    by (auto simp: vars_of_def get_vh_def var_lookup_def vars_ok_def types_of_def)
  from var_run_types [OF assms(1) e(1) assms(2) e(2)] have
    r: "vars_ok (get_vh (snd t))" "types_of (vars_of t) = types_of (held_map (fold var_op_sem xs Map.empty))" by simp_all
  have ty: "map_option tag_of (vars_of t n) = map_option vcl_type (fold var_op_sem xs Map.empty n)" for n
    using fun_cong [OF r(2), of n] by (simp add: types_of_def held_map_def option.map_comp comp_def vcl_type_def [abs_def])
  have tag: "Option.bind (find_var (snd t) (Some n)) var_ty = map_option tag_of (vars_of t n)" for n
    using find_var_lookup [OF r(1), of n] by (auto simp: vars_of_def split: option.splits)
  show ?thesis unfolding Let_def ty [symmetric] tag
    using r(1) by (auto simp: getters_read [OF r(1)] vars_ok_def split: option.splits var_value.splits)
qed

text \<open>A workspace with room for the variable and its name only: the value is lost, the type is not.\<close>

theorem var_types_tracked_witness:
  "\<exists>t. var_run bump_ws [Set_string (Some ''a'') (Some ''long'')] (\<lparr>ctx_ws = 52, ctx_vsl = []\<rparr>, None) = Inr t \<and>
    Option.bind (find_var (snd t) (Some ''a'')) var_ty = Some STRING \<and> var_vmod_get t (Some ''a'') = Inr (None, t)"
proof -
  let ?t = "(\<lparr>ctx_ws = 2, ctx_vsl = []\<rparr>, Some [\<lparr>var_name = ''a'', var_ty = Some STRING, var_val = Some (u_STRING None)\<rparr>])"
  have run: "var_run bump_ws [Set_string (Some ''a'') (Some ''long'')] (\<lparr>ctx_ws = 52, ctx_vsl = []\<rparr>, None) = Inr ?t"
    by (simp add: var_vmod_set_def var_vmod_set_string_def get_vh_def vh_get_var_alloc_def vh_get_var_def
        bump_ws_def sizeof_var_def write_var_def Let_def)
  moreover have "Option.bind (find_var (snd ?t) (Some ''a'')) var_ty = Some STRING"
    using var_types_tracked [OF bump_ws_copies run] by (auto simp: Let_def vcl_type_def)
  ultimately show ?thesis
    by (intro exI [of _ ?t])
      (simp add: getter_defs VMOD_GET_X_def find_var_def get_vh_def vh_get_var_def touch_vh_def)
qed

text \<open>
  Claim C25. The task's variables are a map. Starting without variables and with enough workspace, any
  sequence of \<open>set\<close>, \<open>set_*\<close> and \<open>clear\<close> calls (\<open>set_ip\<close> not given NULL) succeeds, and then each
  getter succeeds and returns the value last stored under the name if it was stored with the
  same type, an \<open>INT\<close> reduced to its low 32 bits; it returns NULL or zero if the value was stored
  with another type, or if the name was never set or cleared since. NULL is what \<open>get\<close> returns,
  too, where \<^verbatim>\<open>vmod_var.vcc\<close> says an empty string.
\<close>

theorem var_refines_map:
  assumes "ws_ample api" and "list_all (\<lambda>x. \<not> null_ip x) xs"
  shows "\<exists>t. var_run api xs (ctx, None) = Inr t \<and>
    (let m = fold var_op_sem xs Map.empty in \<forall>n. let t' = touch_vh (Some n) t in
      var_vmod_get t (Some n) = Inr (case m n of Some (V_STRING s) \<Rightarrow> Some s | _ \<Rightarrow> None, t') \<and>
      var_vmod_get_string t (Some n) = Inr (case m n of Some (V_STRING s) \<Rightarrow> Some s | _ \<Rightarrow> None, t') \<and>
      var_vmod_get_ip t (Some n) = Inr (case m n of Some (V_IP a) \<Rightarrow> Some a | _ \<Rightarrow> None, t') \<and>
      var_vmod_get_int t (Some n) = Inr (case m n of Some (V_INT i) \<Rightarrow> signed_take_bit 31 i | _ \<Rightarrow> 0, t') \<and>
      var_vmod_get_real t (Some n) = Inr (case m n of Some (V_REAL x) \<Rightarrow> x | _ \<Rightarrow> 0, t') \<and>
      var_vmod_get_duration t (Some n) = Inr (case m n of Some (V_DURATION x) \<Rightarrow> x | _ \<Rightarrow> 0, t') \<and>
      var_vmod_get_backend t (Some n) = Inr (case m n of Some (V_BACKEND b) \<Rightarrow> b | _ \<Rightarrow> None, t'))"
proof -
  have "vars_of (ctx, None) = held_map Map.empty" "vars_ok (get_vh (snd (ctx, None)))"
    by (simp_all add: vars_of_def get_vh_def var_lookup_def vars_ok_def fun_eq_iff)
  with var_run_correct [OF assms(1) _ assms(2), of "(ctx, None)"] obtain t where
    t: "var_run api xs (ctx, None) = Inr t" "vars_ok (get_vh (snd t))" "vars_of t = held_map (fold var_op_sem xs Map.empty)"
    by blast
  define m where "m = fold var_op_sem xs Map.empty"
  have g: "vars_of t n = map_option held (m n)" for n by (simp add: t(3) held_map_def m_def)
  have i: "sint (of_int k :: u32) = signed_take_bit 31 k" for k by (simp add: signed_of_int)
  have "let t' = touch_vh (Some n) t in
      var_vmod_get t (Some n) = Inr (case m n of Some (V_STRING s) \<Rightarrow> Some s | _ \<Rightarrow> None, t') \<and>
      var_vmod_get_string t (Some n) = Inr (case m n of Some (V_STRING s) \<Rightarrow> Some s | _ \<Rightarrow> None, t') \<and>
      var_vmod_get_ip t (Some n) = Inr (case m n of Some (V_IP a) \<Rightarrow> Some a | _ \<Rightarrow> None, t') \<and>
      var_vmod_get_int t (Some n) = Inr (case m n of Some (V_INT i) \<Rightarrow> signed_take_bit 31 i | _ \<Rightarrow> 0, t') \<and>
      var_vmod_get_real t (Some n) = Inr (case m n of Some (V_REAL x) \<Rightarrow> x | _ \<Rightarrow> 0, t') \<and>
      var_vmod_get_duration t (Some n) = Inr (case m n of Some (V_DURATION x) \<Rightarrow> x | _ \<Rightarrow> 0, t') \<and>
      var_vmod_get_backend t (Some n) = Inr (case m n of Some (V_BACKEND b) \<Rightarrow> b | _ \<Rightarrow> None, t')" for n
    unfolding Let_def getters_read [OF t(2)] g
    by (cases "m n"; simp split: vcl_value.splits add: i)
  with t(1) show ?thesis unfolding m_def [symmetric] Let_def by blast
qed

definition demo_vctx :: "unit vrt_ctx" where
  "demo_vctx = \<lparr>ctx_ws = (), ctx_vsl = []\<rparr>"

theorem var_refines_map_witness:
  "\<exists>t. var_run ample_ws [Set_string (Some ''foo'') (Some ''bar''), Set_int (Some ''ten'') 4294967306,
      Set_int (Some ''foo'') 5] (demo_vctx, None) = Inr t \<and>
    (\<exists>t'. var_vmod_get t (Some ''foo'') = Inr (None, t')) \<and> (\<exists>t'. var_vmod_get_int t (Some ''foo'') = Inr (5, t')) \<and>
    (\<exists>t'. var_vmod_get_int t (Some ''ten'') = Inr (10, t'))"
proof -
  have "signed_take_bit 31 (5 :: int) = 5" "signed_take_bit 31 (4294967306 :: int) = 10" by code_simp+
  then show ?thesis
    using var_refines_map [OF ample_ws_ample, of "[Set_string (Some ''foo'') (Some ''bar''), Set_int (Some ''ten'') 4294967306,
      Set_int (Some ''foo'') 5]" demo_vctx]
    by (auto simp: Let_def)
qed

text \<open>
  Integers do not survive the round trip: \<open>get_int\<close> after \<open>set_int\<close> returns the low 32 bits
  of the 64-bit value, read as a signed number, so it is the value itself exactly when that lies
  between \<open>- 2\<^sup>3\<^sup>1\<close> and \<open>2\<^sup>3\<^sup>1 - 1\<close>.
\<close>

theorem var_int_truncated:
  assumes "ws_copies api" and "vars_ok (get_vh (snd t))" and "var_vmod_set_int api t (Some n) x = Inr t'"
  shows "var_vmod_get_int t' (Some n) = Inr (signed_take_bit 31 x, t') \<and>
    (signed_take_bit 31 x = x \<longleftrightarrow> - (2 ^ 31) \<le> x \<and> x < 2 ^ 31)"
proof -
  obtain ctx priv where t: "t = (ctx, priv)" by fastforce
  from assms(3) obtain i ctx1 vh1 where a: "vh_get_var_alloc api ctx (get_vh priv) n = Inr (i, ctx1, vh1)"
    by (auto simp: var_vmod_set_int_def VMOD_SET_X_def t)
  with assms(3) alloc_then_write [OF assms(1) a, of "u_INT (of_int x)"] have t': "snd t' = Some (var_put n (u_INT (of_int x)) (get_vh priv))"
    by (auto simp: var_vmod_set_int_def VMOD_SET_X_def t)
  have v: "vars_ok (get_vh (snd t')) \<and> vars_of t' = (vars_of t)(n \<mapsto> u_INT (of_int x))"
    using assms(2) t' by (intro vars_of_put) (auto simp: t)
  have "touch_vh (Some n) t' = t'" using t' by (cases t') (simp add: touch_vh_def get_vh_def)
  with v have g: "var_vmod_get_int t' (Some n) = Inr (signed_take_bit 31 x, t')"
    by (simp add: getters_read signed_of_int)
  moreover have "signed_take_bit 31 x = x \<longleftrightarrow> - (2 ^ 31) \<le> x \<and> x < 2 ^ 31"
    using signed_take_bit_int_eq_self_iff [of 31 x] by auto
  ultimately show ?thesis by simp
qed

theorem var_int_truncated_witness:
  "\<exists>t'. var_vmod_set_int ample_ws (demo_vctx, None) (Some ''n'') 4294967301 = Inr t' \<and>
     var_vmod_get_int t' (Some ''n'') = Inr (5, t')"
proof -
  have ok: "vars_ok (get_vh (snd (demo_vctx, None :: var_head option)))" by (simp add: get_vh_def vars_ok_def)
  obtain t' where s: "var_vmod_set_int ample_ws (demo_vctx, None) (Some ''n'') 4294967301 = Inr t'"
    using set_x_correct [OF ample_ws_ample ok, of "u_INT (of_int 4294967301)" "Some ''n''"]
    by (auto simp: var_vmod_set_int_def)
  have "signed_take_bit 31 (4294967301 :: int) = 5" by code_simp
  with var_int_truncated [OF ws_ample_copies [OF ample_ws_ample] ok s] s show ?thesis by auto
qed

text \<open>The order of the names after stores at the front.\<close>

lemma names_puts:
  "map var_name (fold (\<lambda>(n, x). var_put_front n x) (map (apsnd u_STRING) xs) vs) =
    rev (remdups (map fst xs)) @ filter (\<lambda>m. m \<notin> fst ` set xs) (map var_name vs)"
proof (induction xs arbitrary: vs)
  case (Cons x xs)
  have m: "map var_name (filter (\<lambda>v. var_name v \<noteq> fst x) vs) = filter (\<lambda>m. m \<noteq> fst x) (map var_name vs)"
    by (simp add: filter_map comp_def)
  have "map var_name (fold (\<lambda>(n, x). var_put_front n x) (map (apsnd u_STRING) (x # xs)) vs) =
    map var_name (fold (\<lambda>(n, x). var_put_front n x) (map (apsnd u_STRING) xs) (var_put_front (fst x) (u_STRING (snd x)) vs))"
    by (cases x) simp
  also have "\<dots> = rev (remdups (map fst xs)) @
    filter (\<lambda>m. m \<notin> fst ` set xs) (map var_name (var_put_front (fst x) (u_STRING (snd x)) vs))"
    by (rule Cons.IH)
  also have "map var_name (var_put_front (fst x) (u_STRING (snd x)) vs) = fst x # filter (\<lambda>m. m \<noteq> fst x) (map var_name vs)"
    by (simp add: var_put_front_def m)
  also have "filter (\<lambda>m. m \<notin> fst ` set xs) (fst x # filter (\<lambda>m. m \<noteq> fst x) (map var_name vs)) =
    (if fst x \<in> fst ` set xs then [] else [fst x]) @ filter (\<lambda>m. m \<notin> fst ` set (x # xs)) (map var_name vs)"
    by (simp add: conj_commute)
  finally show ?case by simp
qed simp

text \<open>
  The global variables are a map as well, most recently set first: after any sequence of
  \<open>global_set\<close> calls from the empty list names are pairwise different, the last one set is in
  front, and \<open>global_get\<close> returns the value last stored (NULL if that was NULL or the name
  was never set), as long as the workspace has room for the copy.
\<close>

theorem var_global_refines_map:
  assumes "ws_ample api"
  shows "let gs = fold (\<lambda>(n, v) gs. var_vmod_global_set gs (Some n) v) kvs [] in
    distinct (map var_name gs) \<and>
    map var_name gs = rev (remdups (map fst kvs)) \<and>
    (\<exists>ctx'. var_vmod_global_get api ctx gs (Some n) =
       Inr (case map_of (rev kvs) n of None \<Rightarrow> None | Some v \<Rightarrow> v, ctx'))"
proof -
  define gs where "gs = fold (\<lambda>(n, v) gs. var_vmod_global_set gs (Some n) v) kvs []"
  have put: "var_vmod_global_set vs (Some n) v = var_put_front n (u_STRING v) vs" if "vars_ok vs" for vs n v
    using that REMOVE_at_filter [of var_name vs] filter_True [of vs "\<lambda>v. var_name v \<noteq> n"]
    by (auto simp: var_vmod_global_set_def var_put_front_def vars_ok_def find_index_None Let_def
        dest: find_index_SomeD split: option.splits)
  have "fold (\<lambda>(n, v) gs. var_vmod_global_set gs (Some n) v) xs vs =
    fold (\<lambda>(n, x). var_put_front n x) (map (apsnd u_STRING) xs) vs" if "vars_ok vs" for xs vs
    using that by (induction xs arbitrary: vs) (auto simp: put gv.inv_put)
  moreover have e: "vars_ok []" by (simp add: vars_ok_def)
  ultimately have gs: "gs = fold (\<lambda>(n, x). var_put_front n x) (map (apsnd u_STRING) kvs) []" by (simp add: gs_def)
  have ok: "vars_ok gs" unfolding gs using e by (intro gv.inv_puts) auto
  have "var_lookup gs = map_of (rev (map (apsnd u_STRING) kvs))"
    unfolding gs using gv.lookup_puts [OF e] by (auto simp: var_lookup_def fun_eq_iff map_add_def split: option.splits)
  then have l: "var_lookup gs n = map_option u_STRING (map_of (rev kvs) n)"
    by (simp add: map_of_map apsnd_def map_prod_def rev_map)
  have g: "\<exists>ctx'. var_vmod_global_get api ctx gs (Some n) = Inr (case map_of (rev kvs) n of None \<Rightarrow> None | Some v \<Rightarrow> v, ctx')"
  proof (cases "find_index (\<lambda>v. var_name v = n) gs")
    case None
    then have "map_of (rev kvs) n = None" using l by (simp add: var_lookup_def find_index_find)
    with None show ?thesis by (simp add: var_vmod_global_get_def)
  next
    case (Some i)
    then have "var_val (gs ! i) = map_option u_STRING (map_of (rev kvs) n)"
      using l by (simp add: var_lookup_def find_index_find)
    moreover have "var_val (gs ! i) \<noteq> None" using ok find_index_SomeD(1) [OF Some] by (auto simp: vars_ok_def dest!: nth_mem)
    ultimately obtain v where v: "map_of (rev kvs) n = Some v" "var_val (gs ! i) = Some (u_STRING v)" by auto
    show ?thesis
      using Some v by (cases v) (auto simp: var_vmod_global_get_def Let_def dest: ws_ample_copy [OF assms] split: prod.splits)
  qed
  from names_puts [of kvs "[]"] have "map var_name gs = rev (remdups (map fst kvs))" by (simp add: gs)
  with ok g show ?thesis unfolding gs_def [symmetric] by (simp add: Let_def vars_ok_def)
qed

theorem var_global_refines_map_witness:
  "\<exists>ctx'. var_vmod_global_get ample_ws demo_vctx
     (var_vmod_global_set (var_vmod_global_set [] (Some ''open'') (Some ''no'')) (Some ''open'') (Some ''yes''))
     (Some ''open'') = Inr (Some ''yes'', ctx')"
  using var_global_refines_map [OF ample_ws_ample, of "[(''open'', Some ''no''), (''open'', Some ''yes'')]" demo_vctx "''open''"]
  by (simp add: Let_def)

text \<open>
  \<open>global_get\<close> has no guard against NULL: asked for a NULL name it reads through the NULL
  pointer as soon as one global variable exists, whereas the other functions of the module ignore such a call.
\<close>

theorem var_global_get_null:
  "var_vmod_global_get api ctx gs None = (if gs = [] then Inr (None, ctx) else Inl NullDeref) \<and>
   var_vmod_global_set gs None v = gs \<and> var_vmod_get t None = Inr (None, t)"
  by (simp add: var_vmod_global_get_def var_vmod_global_set_def getter_defs VMOD_GET_X_def find_var_def touch_vh_def)

end
