(* ===== verification/Xkey.thy ===== *)
theory Xkey
  imports Vtree_Correct Doubles Digest
begin

text \<open>
  Surrogate keys, \<^verbatim>\<open>src/src/vmod_xkey.c\<close>: an index from the digests of keys to the cached
  objects that carry them, kept in both directions. \<open>xkey_hashtree\<close> maps a digest to a
  \<open>xkey_hashhead\<close>, \<open>xkey_octree\<close> maps an object to a \<open>xkey_ochead\<close>, and one \<open>xkey_oc\<close> per
  (object, key) pair is on the queue of both. Heads and \<open>xkey_oc\<close>s that fall out of use go to
  pools of at most \<open>POOL_MAX\<close> of each kind. Every operation on the index runs under the mutex:
  \<open>xkey_cb_remove\<close>, \<open>purge\<close> and \<open>vmod_event\<close> hold it from their first access to their last,
  \<open>xkey_cb_insert\<close> takes it anew for every token. So the atomic steps are \<open>xkey_insert\<close>,
  \<open>xkey_cb_remove\<close>, \<open>purge\<close> and the events, and between the tokens of one object the steps of
  other threads may come; theory \<open>Xkey_Correct\<close> has runs of these sections.

  A queue is the list of the entries linked into it. An \<open>xkey_oc\<close> has two links, and only the
  one through which it is on the queue of its hashhead or of the pool (\<open>list_hashhead\<close>) is
  left to that. The other one, \<open>list_ochead\<close>, is modelled field by field beside the queues of
  the ocheads, because \<open>xkey_cleanup\<close> applies it to queues that are linked through
  \<open>list_hashhead\<close>. The macros \<open>VTAILQ_INSERT_TAIL\<close>, \<open>VTAILQ_REMOVE\<close> and \<open>VTAILQ_CONCAT\<close> are those of
  the BSD tail queue, which varnishd ships as \<^verbatim>\<open>vqueue.h\<close>.
\<close>

section \<open>Data\<close>

record xkey_hashhead =
  hh_digest :: digest
  hh_ocs :: "addr list"

record xkey_ochead =
  oh_ptr :: addr
  oh_ocs :: "addr list"

record xkey_oc =
  oc_hashhead :: "addr option"
  oc_objcore :: "addr option"

text \<open>
  The member \<open>list_ochead\<close> of an \<open>xkey_oc\<close>: the next element, and the place that points to this
  one. That is the \<open>vtqh_first\<close> of \<open>xkey_pool.ocs\<close> or of an ochead, or the \<open>vtqe_next\<close> of one of
  the two links of another \<open>xkey_oc\<close>. \<open>ALLOC_OBJ\<close> clears it.
\<close>

datatype place = NullPlace | PoolFirst | OcheadFirst addr | OcheadNext addr | HashNext addr

record oc_link =
  vtqe_next :: "addr option"
  vtqe_prev :: place

definition null_link :: oc_link where
  "null_link = \<lparr>vtqe_next = None, vtqe_prev = NullPlace\<rparr>"

definition POOL_MAX :: int where "POOL_MAX = 5"

text \<open>The objects of one kind: those allocated, those of them in the pool, and the pool's counter.\<close>

record 'a pool =
  pl_heap :: "addr \<rightharpoonup> 'a"
  pl_list :: "addr list"
  pl_n :: int

record xkey_state =
  hashtree :: "addr vrb"
  octree :: "addr vrb"
  hashheads :: "xkey_hashhead pool"
  ocheads :: "xkey_ochead pool"
  ocs :: "xkey_oc pool"
  list_ochead :: "addr \<Rightarrow> oc_link"
  xk_next :: addr
  xk_n_init :: int
  xkey_cb_handle :: nat

section \<open>Comparison\<close>

definition xkey_hashcmp :: "(addr \<rightharpoonup> xkey_hashhead) \<Rightarrow> digest \<Rightarrow> addr \<Rightarrow> int" where
  "xkey_hashcmp h d p = (case h p of None \<Rightarrow> 0 | Some x \<Rightarrow> memcmp d (hh_digest x))"

definition xkey_ptrcmp :: "(addr \<rightharpoonup> xkey_ochead) \<Rightarrow> addr \<Rightarrow> addr \<Rightarrow> int" where
  "xkey_ptrcmp h k p = (case h p of None \<Rightarrow> 0 | Some x \<Rightarrow>
     if k < oh_ptr x then - 1 else if k > oh_ptr x then 1 else 0)"

section \<open>Pools\<close>

text \<open>
  The three \<open>_new\<close> functions take the first object of their pool, or allocate one. A
  counter that promises more than the list holds makes them use a NULL pointer: in
  \<open>xkey_hashhead_new\<close> that is an assertion (the magic is checked first), in the others a
  plain dereference.
\<close>

definition pool_new :: "panic \<Rightarrow> 'a \<Rightarrow> addr \<Rightarrow> 'a pool \<Rightarrow> (addr \<times> 'a pool \<times> addr) res" where
  "pool_new e x next P =
     (if pl_n P > 0 then
        (case pl_list P of
           [] \<Rightarrow> Inl e
         | a # r \<Rightarrow> res_bind (deref (pl_heap P) a) (\<lambda>_. Inr (a, P\<lparr>pl_list := r, pl_n := pl_n P - 1\<rparr>, next)))
      else Inr (next, P\<lparr>pl_heap := (pl_heap P)(next \<mapsto> x)\<rparr>, Suc next))"

text \<open>The \<open>_delete\<close> functions: \<open>x\<close> is the object as it goes into the pool.\<close>

definition pool_delete :: "addr \<Rightarrow> 'a \<Rightarrow> 'a pool \<Rightarrow> 'a pool" where
  "pool_delete a x P =
     (if pl_n P < POOL_MAX then P\<lparr>pl_heap := (pl_heap P)(a \<mapsto> x), pl_list := a # pl_list P, pl_n := pl_n P + 1\<rparr>
      else P\<lparr>pl_heap := (pl_heap P)(a := None)\<rparr>)"

definition xkey_hashhead_new :: "xkey_state \<Rightarrow> (addr \<times> xkey_state) res" where
  "xkey_hashhead_new s =
     res_bind (pool_new AssertFail \<lparr>hh_digest = replicate DIGEST_LEN 0, hh_ocs = []\<rparr> (xk_next s) (hashheads s))
       (\<lambda>(a, P, n). Inr (a, s\<lparr>hashheads := P, xk_next := n\<rparr>))"

definition xkey_hashhead_delete :: "addr \<Rightarrow> xkey_state \<Rightarrow> xkey_state res" where
  "xkey_hashhead_delete a s =
     res_bind (deref (pl_heap (hashheads s)) a) (\<lambda>x.
     res_bind (guard (hh_ocs x = []) AssertFail) (\<lambda>_.
     Inr (s\<lparr>hashheads := pool_delete a (x\<lparr>hh_digest := replicate DIGEST_LEN 0\<rparr>) (hashheads s)\<rparr>)))"

definition xkey_ochead_new :: "xkey_state \<Rightarrow> (addr \<times> xkey_state) res" where
  "xkey_ochead_new s =
     res_bind (pool_new NullDeref \<lparr>oh_ptr = 0, oh_ocs = []\<rparr> (xk_next s) (ocheads s))
       (\<lambda>(a, P, n). Inr (a, s\<lparr>ocheads := P, xk_next := n\<rparr>))"

definition xkey_ochead_delete :: "addr \<Rightarrow> xkey_state \<Rightarrow> xkey_state res" where
  "xkey_ochead_delete a s =
     res_bind (deref (pl_heap (ocheads s)) a) (\<lambda>x.
     res_bind (guard (oh_ocs x = []) AssertFail) (\<lambda>_.
     Inr (s\<lparr>ocheads := pool_delete a (x\<lparr>oh_ptr := 0\<rparr>) (ocheads s)\<rparr>)))"

definition xkey_oc_new :: "xkey_state \<Rightarrow> (addr \<times> xkey_state) res" where
  "xkey_oc_new s =
     res_bind (pool_new NullDeref \<lparr>oc_hashhead = None, oc_objcore = None\<rparr> (xk_next s) (ocs s))
       (\<lambda>(a, P, n). Inr (a, s\<lparr>ocs := P, xk_next := n\<rparr>))"

definition xkey_oc_delete :: "addr \<Rightarrow> xkey_state \<Rightarrow> xkey_state res" where
  "xkey_oc_delete a s =
     res_bind (deref (pl_heap (ocs s)) a) (\<lambda>x.
     res_bind (guard (oc_objcore x = None) AssertFail) (\<lambda>_.
     Inr (s\<lparr>ocs := pool_delete a x (ocs s)\<rparr>)))"

section \<open>The two trees\<close>

definition xkey_hashtree_lookup :: "digest \<Rightarrow> xkey_state \<Rightarrow> addr option" where
  "xkey_hashtree_lookup d s = VRB_FIND (xkey_hashcmp (pl_heap (hashheads s)) d) (hashtree s)"

text \<open>Writing one field of an object on the heap.\<close>

definition upd :: "addr \<Rightarrow> ('a \<Rightarrow> 'a) \<Rightarrow> 'a pool \<Rightarrow> 'a pool res" where
  "upd a f P = res_bind (deref (pl_heap P) a) (\<lambda>x. Inr (P\<lparr>pl_heap := (pl_heap P)(a \<mapsto> f x)\<rparr>))"

definition xkey_hashtree_insert :: "digest \<Rightarrow> xkey_state \<Rightarrow> (addr \<times> xkey_state) res" where
  "xkey_hashtree_insert d s =
     res_bind (xkey_hashhead_new s) (\<lambda>(head, s1).
     res_bind (upd head (\<lambda>x. x\<lparr>hh_digest := d\<rparr>) (hashheads s1)) (\<lambda>P.
     let s2 = s1\<lparr>hashheads := P\<rparr> in
     case VRB_INSERT (xkey_hashcmp (pl_heap P) d) head (hashtree s2) of
       None \<Rightarrow> Inl NullDeref
     | Some (Some key, t) \<Rightarrow>
         res_bind (xkey_hashhead_delete head (s2\<lparr>hashtree := t\<rparr>)) (\<lambda>s3.
         res_bind (deref (pl_heap (hashheads s3)) key) (\<lambda>_. Inr (key, s3)))
     | Some (None, t) \<Rightarrow> Inr (head, s2\<lparr>hashtree := t\<rparr>)))"

definition xkey_octree_lookup :: "addr \<Rightarrow> xkey_state \<Rightarrow> addr option res" where
  "xkey_octree_lookup ptr s =
     res_bind (guard (ptr \<noteq> 0) AssertFail) (\<lambda>_.
     Inr (VRB_FIND (xkey_ptrcmp (pl_heap (ocheads s)) ptr) (octree s)))"

definition xkey_octree_insert :: "addr \<Rightarrow> xkey_state \<Rightarrow> (addr \<times> xkey_state) res" where
  "xkey_octree_insert ptr s =
     res_bind (guard (ptr \<noteq> 0) AssertFail) (\<lambda>_.
     res_bind (xkey_ochead_new s) (\<lambda>(head, s1).
     res_bind (upd head (\<lambda>x. x\<lparr>oh_ptr := ptr\<rparr>) (ocheads s1)) (\<lambda>P.
     let s2 = s1\<lparr>ocheads := P\<rparr> in
     case VRB_INSERT (xkey_ptrcmp (pl_heap P) ptr) head (octree s2) of
       None \<Rightarrow> Inl NullDeref
     | Some (Some key, t) \<Rightarrow>
         res_bind (xkey_ochead_delete head (s2\<lparr>octree := t\<rparr>)) (\<lambda>s3.
         res_bind (deref (pl_heap (ocheads s3)) key) (\<lambda>_. Inr (key, s3)))
     | Some (None, t) \<Rightarrow> Inr (head, s2\<lparr>octree := t\<rparr>))))"

section \<open>The link of an object's queue\<close>

text \<open>
  \<open>VTAILQ_INSERT_TAIL\<close> of \<open>c\<close> to the queue \<open>q\<close> of the ochead \<open>p\<close>: the links that it writes, \<open>h\<close>
  being the heap they are on.
\<close>

definition list_ochead_insert_tail ::
  "(addr \<rightharpoonup> xkey_oc) \<Rightarrow> addr \<Rightarrow> addr list \<Rightarrow> addr \<Rightarrow> (addr \<Rightarrow> oc_link) \<Rightarrow> (addr \<Rightarrow> oc_link) res" where
  "list_ochead_insert_tail h p q c L =
     (if q = [] then Inr (L(c := \<lparr>vtqe_next = None, vtqe_prev = OcheadFirst p\<rparr>))
      else let L1 = L(c := \<lparr>vtqe_next = None, vtqe_prev = OcheadNext (last q)\<rparr>) in
        res_bind (deref h (last q)) (\<lambda>_. Inr (L1(last q := (L1 (last q))\<lparr>vtqe_next := Some c\<rparr>))))"

text \<open>
  \<open>VTAILQ_REMOVE(head, c, list_ochead)\<close>, whatever queue \<open>c\<close> is on: the successor gets the back
  pointer of \<open>c\<close>, and the place that pointed to \<open>c\<close> the successor. \<open>ho\<close> is the heap of ocheads.
  What is written to the head of a queue is up to the caller.
\<close>

definition list_ochead_remove ::
  "(addr \<rightharpoonup> xkey_ochead) \<Rightarrow> (addr \<rightharpoonup> xkey_oc) \<Rightarrow> addr \<Rightarrow> (addr \<Rightarrow> oc_link) \<Rightarrow> (addr \<Rightarrow> oc_link) res" where
  "list_ochead_remove ho h c L =
     res_bind
       (case vtqe_next (L c) of
          None \<Rightarrow> Inr L
        | Some n \<Rightarrow> res_bind (deref h n) (\<lambda>_. Inr (L(n := (L n)\<lparr>vtqe_prev := vtqe_prev (L c)\<rparr>)))) (\<lambda>L1.
     case vtqe_prev (L1 c) of
       NullPlace \<Rightarrow> Inl NullDeref
     | PoolFirst \<Rightarrow> Inr L1
     | OcheadFirst p \<Rightarrow> res_bind (deref ho p) (\<lambda>_. Inr L1)
     | OcheadNext b \<Rightarrow> res_bind (deref h b) (\<lambda>_. Inr (L1(b := (L1 b)\<lparr>vtqe_next := vtqe_next (L1 c)\<rparr>)))
     | HashNext b \<Rightarrow> res_bind (deref h b) (\<lambda>_. Inr L1))"

section \<open>Insertion and removal\<close>

definition xkey_insert :: "addr \<Rightarrow> digest \<Rightarrow> xkey_state \<Rightarrow> xkey_state res" where
  "xkey_insert objcore d s =
     res_bind (guard (length d = DIGEST_LEN) AssertFail) (\<lambda>_.
     res_bind (xkey_octree_insert objcore s) (\<lambda>(ochead, s1).
     res_bind (xkey_hashtree_insert d s1) (\<lambda>(hashhead, s2).
     res_bind (xkey_oc_new s2) (\<lambda>(oc, s3).
     res_bind (deref (pl_heap (ocheads s3)) ochead) (\<lambda>z.
     res_bind (list_ochead_insert_tail (pl_heap (ocs s3)) ochead (oh_ocs z) oc (list_ochead s3)) (\<lambda>L.
     res_bind (upd ochead (\<lambda>x. x\<lparr>oh_ocs := oh_ocs x @ [oc]\<rparr>) (ocheads s3)) (\<lambda>PO.
     res_bind (upd hashhead (\<lambda>x. x\<lparr>hh_ocs := hh_ocs x @ [oc]\<rparr>) (hashheads s3)) (\<lambda>PH.
     res_bind (upd oc (\<lambda>x. x\<lparr>oc_objcore := Some objcore, oc_hashhead := Some hashhead\<rparr>) (ocs s3)) (\<lambda>PC.
     Inr (s3\<lparr>ocheads := PO, hashheads := PH, ocs := PC, list_ochead := L\<rparr>))))))))))"

text \<open>One turn of the loop of \<open>xkey_remove\<close>, and the loop over the object's queue.\<close>

definition xkey_remove_step :: "addr \<Rightarrow> addr \<Rightarrow> xkey_state \<Rightarrow> xkey_state res" where
  "xkey_remove_step ochead oc s =
     res_bind (deref (pl_heap (ocs s)) oc) (\<lambda>x.
     case oc_hashhead x of None \<Rightarrow> Inl NullDeref | Some hashhead \<Rightarrow>
     res_bind (upd hashhead (\<lambda>y. y\<lparr>hh_ocs := remove1 oc (hh_ocs y)\<rparr>) (hashheads s)) (\<lambda>PH.
     let s1 = s\<lparr>ocs := (ocs s)\<lparr>pl_heap := (pl_heap (ocs s))(oc \<mapsto> x\<lparr>oc_hashhead := None\<rparr>)\<rparr>, hashheads := PH\<rparr> in
     res_bind (deref (pl_heap PH) hashhead) (\<lambda>y.
     res_bind
       (if hh_ocs y = [] then
          (case VRB_REMOVE hashhead (hashtree s1) of
             None \<Rightarrow> Inl NullDeref
           | Some t \<Rightarrow> xkey_hashhead_delete hashhead (s1\<lparr>hashtree := t\<rparr>))
        else Inr s1) (\<lambda>s2.
     res_bind (upd oc (\<lambda>x. x\<lparr>oc_objcore := None\<rparr>) (ocs s2)) (\<lambda>PC.
     res_bind (list_ochead_remove (pl_heap (ocheads s2)) (pl_heap PC) oc (list_ochead s2)) (\<lambda>L.
     res_bind (upd ochead (\<lambda>z. z\<lparr>oh_ocs := remove1 oc (oh_ocs z)\<rparr>) (ocheads s2)) (\<lambda>PO.
     xkey_oc_delete oc (s2\<lparr>ocs := PC, ocheads := PO, list_ochead := L\<rparr>))))))))"

fun xkey_remove_loop :: "addr \<Rightarrow> addr list \<Rightarrow> xkey_state \<Rightarrow> xkey_state res" where
  "xkey_remove_loop ochead [] s = Inr s"
| "xkey_remove_loop ochead (oc # q) s =
     res_bind (xkey_remove_step ochead oc s) (\<lambda>s1. xkey_remove_loop ochead q s1)"

definition xkey_remove :: "addr \<Rightarrow> xkey_state \<Rightarrow> xkey_state res" where
  "xkey_remove ochead s =
     res_bind (deref (pl_heap (ocheads s)) ochead) (\<lambda>x.
     res_bind (xkey_remove_loop ochead (oh_ocs x) s) (\<lambda>s1.
     res_bind (deref (pl_heap (ocheads s1)) ochead) (\<lambda>y.
     res_bind (guard (oh_ocs y = []) AssertFail) (\<lambda>_.
     case VRB_REMOVE ochead (octree s1) of
       None \<Rightarrow> Inl NullDeref
     | Some t \<Rightarrow> xkey_ochead_delete ochead (s1\<lparr>octree := t\<rparr>)))))"

section \<open>Cleanup\<close>

text \<open>
  \<open>xkey_cleanup\<close> moves the queues of all hashheads to \<open>xkey_pool.ocs\<close>, moves the heads to their
  pools and frees what is in the pools. It names \<open>list_ochead\<close> both for the concatenation and for
  taking the \<open>xkey_oc\<close>s off the pool, which is not the link of these queues. So
  \<open>VTAILQ_CONCAT\<close> joins the queues (their elements stay chained by \<open>list_hashhead\<close>) but writes the
  back pointer of the first element that moves into its other link, and the last loop goes
  from one \<open>xkey_oc\<close> to the next one of the same object. The counters of the pools are left as
  they are.

  \<open>last_place\<close> is the \<open>vtqh_last\<close> of \<open>xkey_pool.ocs\<close>.
\<close>

definition last_place :: "addr list \<Rightarrow> place" where
  "last_place q = (if q = [] then PoolFirst else HashNext (last q))"

definition pool_ocs_concat :: "addr list \<Rightarrow> xkey_state \<Rightarrow> xkey_state res" where
  "pool_ocs_concat q s =
     (case q of
        [] \<Rightarrow> Inr s
      | c # _ \<Rightarrow> res_bind (deref (pl_heap (ocs s)) c) (\<lambda>_.
          Inr (s\<lparr>ocs := (ocs s)\<lparr>pl_list := pl_list (ocs s) @ q\<rparr>,
                 list_ochead := (list_ochead s)(c := (list_ochead s c)\<lparr>vtqe_prev := last_place (pl_list (ocs s))\<rparr>)\<rparr>)))"

fun cleanup_concat :: "addr list \<Rightarrow> xkey_state \<Rightarrow> xkey_state res" where
  "cleanup_concat [] s = Inr s"
| "cleanup_concat (a # hs) s =
     res_bind (deref (pl_heap (hashheads s)) a) (\<lambda>x.
     res_bind (pool_ocs_concat (hh_ocs x) s) (\<lambda>s1.
     cleanup_concat hs (s1\<lparr>hashheads := (hashheads s1)\<lparr>
       pl_heap := (pl_heap (hashheads s1))(a \<mapsto> x\<lparr>hh_ocs := []\<rparr>),
       pl_list := a # pl_list (hashheads s1)\<rparr>\<rparr>)))"

fun cleanup_ocheads :: "addr list \<Rightarrow> xkey_state \<Rightarrow> xkey_state res" where
  "cleanup_ocheads [] s = Inr s"
| "cleanup_ocheads (p # os) s =
     res_bind (deref (pl_heap (ocheads s)) p) (\<lambda>_.
     cleanup_ocheads os (s\<lparr>ocheads := (ocheads s)\<lparr>pl_list := p # pl_list (ocheads s)\<rparr>\<rparr>))"

text \<open>The loops that free the pooled heads; \<open>q\<close> is the queue of the pool.\<close>

fun free_heads :: "addr list \<Rightarrow> (addr \<rightharpoonup> 'a) \<Rightarrow> (addr \<rightharpoonup> 'a) res" where
  "free_heads [] h = Inr h"
| "free_heads (a # q) h = res_bind (deref h a) (\<lambda>_. free_heads q (h(a := None)))"

definition free_pool :: "'a pool \<Rightarrow> 'a pool res" where
  "free_pool P = res_bind (free_heads (pl_list P) (pl_heap P)) (\<lambda>h. Inr (P\<lparr>pl_heap := h, pl_list := []\<rparr>))"

text \<open>
  The loop over \<open>xkey_pool.ocs\<close>: the two pointers of the queue's head, the \<open>xkey_oc\<close>s and their
  links. A turn removes the first element through \<open>list_ochead\<close> and frees it. The elements'
  other link is written, if \<open>vtqe_prev\<close> says so, but not read any more.
\<close>

record oc_sweep =
  vtqh_first :: "addr option"
  vtqh_last :: place
  sw_heap :: "addr \<rightharpoonup> xkey_oc"
  sw_link :: "addr \<Rightarrow> oc_link"

definition free_oc :: "(addr \<rightharpoonup> xkey_ochead) \<Rightarrow> addr \<Rightarrow> oc_sweep \<Rightarrow> oc_sweep res" where
  "free_oc ho oc w =
     res_bind (deref (sw_heap w) oc) (\<lambda>_.
     res_bind (list_ochead_remove ho (sw_heap w) oc (sw_link w)) (\<lambda>L.
     Inr \<lparr>vtqh_first = (if vtqe_prev (sw_link w oc) = PoolFirst then vtqe_next (sw_link w oc) else vtqh_first w),
          vtqh_last = (if vtqe_next (sw_link w oc) = None then vtqe_prev (sw_link w oc) else vtqh_last w),
          sw_heap = (sw_heap w)(oc := None), sw_link = L\<rparr>))"

partial_function (option) free_ocs :: "(addr \<rightharpoonup> xkey_ochead) \<Rightarrow> oc_sweep \<Rightarrow> oc_sweep res option" where
  "free_ocs ho w =
     (case vtqh_first w of
        None \<Rightarrow> Some (Inr w)
      | Some oc \<Rightarrow> (case free_oc ho oc w of Inl e \<Rightarrow> Some (Inl e) | Inr w1 \<Rightarrow> free_ocs ho w1))"

definition cleanup_heads :: "addr list \<Rightarrow> addr list \<Rightarrow> xkey_state \<Rightarrow> xkey_state res" where
  "cleanup_heads hs os s =
     res_bind (cleanup_concat hs s) (\<lambda>s1.
     res_bind (cleanup_ocheads os (s1\<lparr>hashtree := NIL\<rparr>)) (\<lambda>s2.
     res_bind (free_pool (hashheads s2)) (\<lambda>PH.
     res_bind (free_pool (ocheads s2)) (\<lambda>PO.
     Inr (s2\<lparr>octree := NIL, hashheads := PH, ocheads := PO\<rparr>)))))"

definition cleanup_ocs :: "xkey_state \<Rightarrow> xkey_state res option" where
  "cleanup_ocs s =
     (case free_ocs (pl_heap (ocheads s))
         \<lparr>vtqh_first = (case pl_list (ocs s) of [] \<Rightarrow> None | c # _ \<Rightarrow> Some c), vtqh_last = last_place (pl_list (ocs s)),
          sw_heap = pl_heap (ocs s), sw_link = list_ochead s\<rparr> of
        None \<Rightarrow> None
      | Some (Inl e) \<Rightarrow> Some (Inl e)
      | Some (Inr w) \<Rightarrow> Some (Inr (s\<lparr>ocs := (ocs s)\<lparr>pl_heap := sw_heap w, pl_list := []\<rparr>, list_ochead := sw_link w\<rparr>)))"

definition xkey_cleanup :: "xkey_state \<Rightarrow> xkey_state res option" where
  "xkey_cleanup s =
     (case (VRB_FOREACH (hashtree s), VRB_FOREACH (octree s)) of
        (Some hs, Some os) \<Rightarrow>
          (case cleanup_heads hs os s of Inl e \<Rightarrow> Some (Inl e) | Inr s1 \<Rightarrow> cleanup_ocs s1)
      | _ \<Rightarrow> Some (Inl NullDeref))"

section \<open>Tokens and callbacks\<close>

text \<open>\<open>xkey_tok\<close> moves the start pointer over blanks and the end pointer over the token.\<close>

definition xkey_tok :: "string \<Rightarrow> bool \<times> string \<times> string" where
  "xkey_tok b = (let b' = skip isblank b; e = skip (\<lambda>c. \<not> isblank c) b'
     in (length e < length b', b', e))"

text \<open>The digests that the token loops of \<open>xkey_cb_insert\<close> and \<open>purge\<close> compute, in order.\<close>

lemma xkey_tok_shrinks: "xkey_tok sp = (True, b, e) \<Longrightarrow> length e < length sp"
proof -
  assume "xkey_tok sp = (True, b, e)"
  then have "length e < length b" "b = skip isblank sp" by (auto simp: xkey_tok_def Let_def)
  moreover have "length (skip isblank sp) \<le> length sp" by (rule length_skip_le)
  ultimately show ?thesis by simp
qed

function tok_loop :: "string \<Rightarrow> string list" where
  "tok_loop sp = (case xkey_tok sp of (found, b, e) \<Rightarrow>
     if \<not> found then [] else strndup b (pdiff b e) # tok_loop e)"
  by pat_completeness auto
termination
  by (relation "measure length") (auto dest: xkey_tok_shrinks sym)

declare tok_loop.simps [simp del]

text \<open>SHA-256 is the parameter \<open>sha\<close>; \<open>HTTP_FOREACH_PACK\<close> goes through the lines of the object's header.\<close>

fun insert_tokens :: "(u8 list \<Rightarrow> digest) \<Rightarrow> addr \<Rightarrow> string list \<Rightarrow> xkey_state \<Rightarrow> xkey_state res" where
  "insert_tokens sha objcore [] s = Inr s"
| "insert_tokens sha objcore (t # ts) s =
     res_bind (xkey_insert objcore (sha (bytes_of t)) s) (insert_tokens sha objcore ts)"

definition is_xkey_hdr :: "string \<Rightarrow> bool" where
  "is_xkey_hdr sp \<longleftrightarrow> strncasecmp_eq sp ''xkey:'' 5 \<or> strncasecmp_eq sp ''X-HashTwo:'' 10"

fun xkey_cb_insert :: "(u8 list \<Rightarrow> digest) \<Rightarrow> string list \<Rightarrow> addr \<Rightarrow> xkey_state \<Rightarrow> xkey_state res" where
  "xkey_cb_insert sha [] objcore s = Inr s"
| "xkey_cb_insert sha (sp # hdrs) objcore s =
     (if \<not> is_xkey_hdr sp then xkey_cb_insert sha hdrs objcore s
      else case strchr sp (CHR '':'') of None \<Rightarrow> Inl AssertFail
      | Some c \<Rightarrow>
          res_bind (insert_tokens sha objcore (tok_loop (tl c)) s) (\<lambda>s1.
          xkey_cb_insert sha hdrs objcore s1))"

definition xkey_cb_remove :: "addr \<Rightarrow> xkey_state \<Rightarrow> xkey_state res" where
  "xkey_cb_remove objcore s =
     res_bind (xkey_octree_lookup objcore s) (\<lambda>r.
     case r of None \<Rightarrow> Inr s | Some ochead \<Rightarrow> xkey_remove ochead s)"

datatype exp_event_e = EXP_INSERT | EXP_INJECT | EXP_REMOVE | EXP_OTHER

definition xkey_cb :: "(u8 list \<Rightarrow> digest) \<Rightarrow> string list \<Rightarrow> addr \<Rightarrow> exp_event_e \<Rightarrow> xkey_state \<Rightarrow> xkey_state res" where
  "xkey_cb sha hdrs objcore event s =
     (case event of
        EXP_INSERT \<Rightarrow> xkey_cb_insert sha hdrs objcore s
      | EXP_INJECT \<Rightarrow> xkey_cb_insert sha hdrs objcore s
      | EXP_REMOVE \<Rightarrow> xkey_cb_remove objcore s
      | EXP_OTHER \<Rightarrow> Inl AssertFail)"

text \<open>
  The callback of the build without the enumeration, where the event is a bit set and the
  two bits are constants of varnishd. For the events it subscribes to it is the same function.
\<close>

definition xkey_cb_oev ::
  "u32 \<Rightarrow> u32 \<Rightarrow> (u8 list \<Rightarrow> digest) \<Rightarrow> string list \<Rightarrow> addr \<Rightarrow> u32 \<Rightarrow> xkey_state \<Rightarrow> xkey_state res" where
  "xkey_cb_oev OEV_INSERT OEV_EXPIRE sha hdrs oc ev s =
     res_bind (guard (ev \<noteq> 0) AssertFail) (\<lambda>_.
     if ev = OEV_INSERT then xkey_cb_insert sha hdrs oc s
     else if ev = OEV_EXPIRE then xkey_cb_remove oc s
     else Inl AssertFail)"

lemma xkey_cb_oev_eq:
  assumes "ins \<noteq> 0" "rm \<noteq> 0" "ins \<noteq> rm"
  shows "xkey_cb_oev ins rm sha hdrs oc ev s =
    xkey_cb sha hdrs oc (if ev = ins then EXP_INSERT else if ev = rm then EXP_REMOVE else EXP_OTHER) s"
  using assms by (cases "ev = 0") (auto simp: xkey_cb_oev_def xkey_cb_def)

section \<open>Purging\<close>

text \<open>
  What \<open>purge\<close> reads of an object core. \<open>EXP_Rearm\<close> is varnishd's: a parameter that says how it
  changes the core, given the time and the new ttl, grace and keep. The count is an integer
  without a bound; the C counter is an \<open>int\<close>, so the model is that of fewer than \<open>2 ^ 31\<close>
  counted objects in one call.
\<close>

record objcore =
  OC_F_BUSY :: bool
  o_t_origin :: double
  o_ttl :: double
  o_grace :: double
  o_keep :: double

type_synonym exp_rearm = "objcore \<Rightarrow> double \<Rightarrow> double \<Rightarrow> double \<Rightarrow> double \<Rightarrow> objcore"

text \<open>The body of the loop for one core: the core it leaves and whether it was counted.\<close>

definition purge_one :: "exp_rearm \<Rightarrow> bool \<Rightarrow> double \<Rightarrow> objcore \<Rightarrow> objcore \<times> bool" where
  "purge_one EXP_Rearm do_soft now o1 =
     (if OC_F_BUSY o1 then (o1, False)
      else if do_soft \<and> o_ttl o1 \<le> dsub now (o_t_origin o1) then (o1, False)
      else if do_soft then (EXP_Rearm o1 now 0 (o_grace o1) (o_keep o1), True)
      else (EXP_Rearm o1 (o_t_origin o1) 0 0 0, True))"

fun purge_queue ::
  "exp_rearm \<Rightarrow> bool \<Rightarrow> double \<Rightarrow> (addr \<rightharpoonup> xkey_oc) \<Rightarrow> addr list \<Rightarrow> (addr \<rightharpoonup> objcore) \<Rightarrow> int \<Rightarrow>
    ((addr \<rightharpoonup> objcore) \<times> int) res" where
  "purge_queue r soft now h [] objs i = Inr (objs, i)"
| "purge_queue r soft now h (oc # q) objs i =
     res_bind (deref h oc) (\<lambda>x.
     case oc_objcore x of None \<Rightarrow> Inl AssertFail | Some p \<Rightarrow>
     res_bind (deref objs p) (\<lambda>o1.
     let (o2, counted) = purge_one r soft now o1 in
     purge_queue r soft now h q (objs(p \<mapsto> o2)) (if counted then i + 1 else i)))"

fun purge_tokens ::
  "exp_rearm \<Rightarrow> (u8 list \<Rightarrow> digest) \<Rightarrow> bool \<Rightarrow> double \<Rightarrow> xkey_state \<Rightarrow> string list \<Rightarrow> (addr \<rightharpoonup> objcore) \<Rightarrow> int \<Rightarrow>
    ((addr \<rightharpoonup> objcore) \<times> int) res" where
  "purge_tokens r sha soft now s [] objs i = Inr (objs, i)"
| "purge_tokens r sha soft now s (t # ts) objs i =
     (case xkey_hashtree_lookup (sha (bytes_of t)) s of
        None \<Rightarrow> purge_tokens r sha soft now s ts objs i
      | Some hashhead \<Rightarrow>
          res_bind (deref (pl_heap (hashheads s)) hashhead) (\<lambda>x.
          res_bind (purge_queue r soft now (pl_heap (ocs s)) (hh_ocs x) objs i) (\<lambda>(objs1, i1).
          purge_tokens r sha soft now s ts objs1 i1)))"

text \<open>\<open>has_req\<close>: the context belongs to a client request.\<close>

definition purge ::
  "exp_rearm \<Rightarrow> (u8 list \<Rightarrow> digest) \<Rightarrow> bool \<Rightarrow> double \<Rightarrow> xkey_state \<Rightarrow> string option \<Rightarrow> bool \<Rightarrow> (addr \<rightharpoonup> objcore) \<Rightarrow>
    ((addr \<rightharpoonup> objcore) \<times> int) res" where
  "purge r sha has_req now s key do_soft objs =
     res_bind (guard has_req AssertFail) (\<lambda>_.
     case key of None \<Rightarrow> Inr (objs, 0) | Some k \<Rightarrow>
     if k = [] then Inr (objs, 0) else purge_tokens r sha do_soft now s (tok_loop k) objs 0)"

definition xkey_vmod_purge where
  "xkey_vmod_purge r sha has_req now s key objs = purge r sha has_req now s key False objs"

definition xkey_vmod_softpurge where
  "xkey_vmod_softpurge r sha has_req now s key objs = purge r sha has_req now s key True objs"

section \<open>Load and discard\<close>

datatype vcl_event = VCL_EVENT_LOAD | VCL_EVENT_DISCARD | VCL_EVENT_OTHER

text \<open>\<open>handle\<close> is what registering the callback returns, if it is called.\<close>

definition xkey_vmod_event :: "nat \<Rightarrow> vcl_event \<Rightarrow> xkey_state \<Rightarrow> xkey_state res option" where
  "xkey_vmod_event handle e s =
     (case e of
        VCL_EVENT_LOAD \<Rightarrow>
          let s1 = (if xk_n_init s = 0 then s\<lparr>xkey_cb_handle := handle\<rparr> else s) in
          if xkey_cb_handle s1 = 0 then Some (Inl AssertFail)
          else Some (Inr (s1\<lparr>xk_n_init := xk_n_init s1 + 1\<rparr>))
      | VCL_EVENT_DISCARD \<Rightarrow>
          if \<not> xk_n_init s > 0 then Some (Inl AssertFail)
          else let s1 = s\<lparr>xk_n_init := xk_n_init s - 1\<rparr> in
            if xkey_cb_handle s1 = 0 then Some (Inl AssertFail)
            else if xk_n_init s1 = 0 then xkey_cleanup (s1\<lparr>xkey_cb_handle := 0\<rparr>)
            else Some (Inr s1)
      | VCL_EVENT_OTHER \<Rightarrow> Some (Inr s))"

definition empty_pool :: "'a pool" where
  "empty_pool = \<lparr>pl_heap = Map.empty, pl_list = [], pl_n = 0\<rparr>"

definition xkey_initial :: xkey_state where
  "xkey_initial = \<lparr>hashtree = NIL, octree = NIL, hashheads = empty_pool, ocheads = empty_pool, ocs = empty_pool,
     list_ochead = (\<lambda>_. null_link), xk_next = 1, xk_n_init = 0, xkey_cb_handle = 0\<rparr>"

section \<open>Pools and tables\<close>

text \<open>The allocated objects are those in use, \<open>U\<close>, and those in the pool.\<close>

definition pool_ok :: "addr set \<Rightarrow> 'a pool \<Rightarrow> bool" where
  "pool_ok U P \<longleftrightarrow> dom (pl_heap P) = U \<union> set (pl_list P) \<and> U \<inter> set (pl_list P) = {} \<and>
     distinct (pl_list P) \<and> pl_n P = int (length (pl_list P)) \<and> pl_n P \<le> POOL_MAX"

definition fresh :: "addr \<Rightarrow> 'a pool \<Rightarrow> bool" where
  "fresh n P \<longleftrightarrow> (\<forall>a \<in> dom (pl_heap P). a < n)"

lemma pool_new_correct:
  assumes "pool_ok U P" "fresh n P"
  shows "\<exists>a P' n'. pool_new e x n P = Inr (a, P', n') \<and> a \<notin> U \<and> pool_ok (insert a U) P' \<and> fresh n' P' \<and> n \<le> n' \<and>
    (\<forall>b. b \<noteq> a \<longrightarrow> pl_heap P' b = pl_heap P b) \<and> set (pl_list P') \<subseteq> set (pl_list P) \<and>
    (\<exists>y. pl_heap P' a = Some y \<and> (y = x \<or> a \<in> set (pl_list P) \<and> pl_heap P a = Some y))"
proof (cases "pl_n P > 0")
  case True
  with assms(1) obtain a r where l: "pl_list P = a # r" by (cases "pl_list P") (auto simp: pool_ok_def)
  with assms(1) obtain y where y: "pl_heap P a = Some y" by (auto simp: pool_ok_def)
  have "pool_ok (insert a U) (P\<lparr>pl_list := r, pl_n := pl_n P - 1\<rparr>)"
    using assms(1) l by (auto simp: pool_ok_def POOL_MAX_def)
  with True l y assms show ?thesis by (auto simp: pool_new_def pool_ok_def fresh_def)
next
  case False
  have n: "n \<notin> dom (pl_heap P)" using assms(2) by (auto simp: fresh_def)
  with False assms show ?thesis
    by (auto simp: pool_new_def pool_ok_def fresh_def less_Suc_eq)
qed

lemma pool_delete_correct:
  assumes "pool_ok U P" "a \<in> U"
  shows "pool_ok (U - {a}) (pool_delete a x P)" "fresh n P \<Longrightarrow> fresh n (pool_delete a x P)"
    "b \<noteq> a \<Longrightarrow> pl_heap (pool_delete a x P) b = pl_heap P b"
    "set (pl_list (pool_delete a x P)) \<subseteq> insert a (set (pl_list P))"
    "a \<in> set (pl_list (pool_delete a x P)) \<Longrightarrow> pl_heap (pool_delete a x P) a = Some x"
proof -
  have a: "a \<in> dom (pl_heap P)" "a \<notin> set (pl_list P)" using assms by (auto simp: pool_ok_def)
  then show "pool_ok (U - {a}) (pool_delete a x P)" using assms
    by (auto simp: pool_ok_def pool_delete_def)
  show "fresh n P \<Longrightarrow> fresh n (pool_delete a x P)" using a by (auto simp: fresh_def pool_delete_def)
  show "b \<noteq> a \<Longrightarrow> pl_heap (pool_delete a x P) b = pl_heap P b"
    "set (pl_list (pool_delete a x P)) \<subseteq> insert a (set (pl_list P))"
    "a \<in> set (pl_list (pool_delete a x P)) \<Longrightarrow> pl_heap (pool_delete a x P) a = Some x"
    using a by (auto simp: pool_delete_def split: if_splits)
qed

lemma pool_ok_update:
  "pool_ok U P \<Longrightarrow> a \<in> U \<Longrightarrow> pool_ok U (P\<lparr>pl_heap := (pl_heap P)(a \<mapsto> x)\<rparr>)"
  by (auto simp: pool_ok_def)

lemma fresh_update: "fresh n P \<Longrightarrow> a \<in> dom (pl_heap P) \<Longrightarrow> fresh n (P\<lparr>pl_heap := (pl_heap P)(a \<mapsto> x)\<rparr>)"
  by (auto simp: fresh_def)

lemma fresh_mono: "fresh n P \<Longrightarrow> n \<le> n' \<Longrightarrow> fresh n' P"
  unfolding fresh_def by (meson less_le_trans)

text \<open>
  A tree of heads, each with a key and a queue: what the two indexes share. Heads in the pool
  have an empty queue; \<open>good\<close> is what the tree asks of its heads.
\<close>

definition key_at :: "('a \<Rightarrow> 'k) \<Rightarrow> 'a pool \<Rightarrow> addr \<Rightarrow> 'k" where
  "key_at key P a = key (the (pl_heap P a))"

definition table_ok :: "('a \<Rightarrow> 'k::linorder) \<Rightarrow> ('a \<Rightarrow> addr list) \<Rightarrow> ('a \<Rightarrow> bool) \<Rightarrow> addr vrb \<Rightarrow> 'a pool \<Rightarrow> bool" where
  "table_ok key q good t P \<longleftrightarrow> index_ok (key_at key P) t \<and> pool_ok (set (inorder t)) P \<and>
     (\<forall>a \<in> set (pl_list P). q (the (pl_heap P a)) = []) \<and> (\<forall>a \<in> set (inorder t). good (the (pl_heap P a)))"

lemma table_ok_update:
  assumes "table_ok key q good t P" "a \<in> set (inorder t)" "pl_heap P a = Some x" "key x' = key x" "good x'"
  shows "table_ok key q good t (P\<lparr>pl_heap := (pl_heap P)(a \<mapsto> x')\<rparr>)"
proof -
  have "key_at key (P\<lparr>pl_heap := (pl_heap P)(a \<mapsto> x')\<rparr>) = key_at key P"
    using assms(3,4) by (auto simp: key_at_def fun_eq_iff)
  with assms show ?thesis by (auto simp: table_ok_def pool_ok_update) (auto simp: pool_ok_def)
qed

text \<open>Insert-or-find with a head taken from the pool.\<close>

lemma table_insert:
  fixes key :: "'a \<Rightarrow> 'k::linorder"
  assumes ok: "table_ok key q good t P" and new: "a \<notin> set (inorder t)"
    and P1: "pool_ok (insert a (set (inorder t))) P1" "\<forall>b. b \<noteq> a \<longrightarrow> pl_heap P1 b = pl_heap P b"
      "set (pl_list P1) \<subseteq> set (pl_list P)" "pl_heap P1 a = Some x'"
    and x': "q x' = []" "good x'" "q x'' = []"
    and c: "cmp_ok (key_at key P1) (key x') cmp (set (inorder t))"
  shows "(\<exists>b y. VRB_INSERT cmp a t = Some (Some b, t) \<and> b \<in> set (inorder t) \<and> b \<noteq> a \<and>
      pl_heap P b = Some y \<and> key y = key x' \<and> table_ok key q good t (pool_delete a x'' P1)) \<or>
    (\<exists>t'. VRB_INSERT cmp a t = Some (None, t') \<and> set (inorder t') = insert a (set (inorder t)) \<and> table_ok key q good t' P1)"
proof -
  have same: "key_at key P1 b = key_at key P b" if "b \<in> set (inorder t)" for b
    using that new P1(2) by (auto simp: key_at_def)
  have i1: "index_ok (key_at key P1) t"
    by (rule index_ok_cong [of t "key_at key P"]) (use ok same in \<open>auto simp: table_ok_def\<close>)
  have k: "key_at key P1 a = key x'" using P1(4) by (simp add: key_at_def)
  have a: "a \<notin> set (pl_list P1)" using P1(1) by (auto simp: pool_ok_def)
  have pooled: "\<forall>b \<in> set (pl_list P1). q (the (pl_heap P1 b)) = []"
    using ok P1(2,3) a by (metis subsetD table_ok_def)
  have goods: "\<forall>b \<in> set (inorder t). good (the (pl_heap P1 b))"
    using ok P1(2) new by (metis table_ok_def)
  show ?thesis
  proof (rule vrb.insert_cases [OF i1 c [folded k]])
    fix b
    assume b: "b \<in> set (inorder t)" "key_at key P1 b = key_at key P1 a" "VRB_INSERT cmp a t = Some (Some b, t)"
    have "b \<noteq> a" using b(1) new by auto
    moreover obtain y where "pl_heap P b = Some y" using ok b(1) unfolding table_ok_def pool_ok_def by blast
    moreover from this b(1,2) same k have "key y = key x'" by (simp add: key_at_def)
    moreover have "table_ok key q good t (pool_delete a x'' P1)"
    proof -
      note d = pool_delete_correct [OF P1(1) insertI1, where x = x'']
      have "insert a (set (inorder t)) - {a} = set (inorder t)" using new by auto
      with d(1) have p: "pool_ok (set (inorder t)) (pool_delete a x'' P1)" by simp
      have eq: "pl_heap (pool_delete a x'' P1) b = pl_heap P1 b" if "b \<in> set (inorder t)" for b
      proof -
        have "b \<noteq> a" using that new by auto
        then show ?thesis by (rule d(3))
      qed
      have "index_ok (key_at key (pool_delete a x'' P1)) t"
        by (rule index_ok_cong [OF _ i1]) (simp add: key_at_def eq)
      moreover have "\<forall>b \<in> set (pl_list (pool_delete a x'' P1)). q (the (pl_heap (pool_delete a x'' P1) b)) = []"
      proof
        fix b assume b: "b \<in> set (pl_list (pool_delete a x'' P1))"
        show "q (the (pl_heap (pool_delete a x'' P1) b)) = []"
        proof (cases "b = a")
          case True
          with d(5) b x'(3) show ?thesis by simp
        next
          case False
          moreover from this b d(4) have "b \<in> set (pl_list P1)" by blast
          ultimately show ?thesis using d(3) [of b] pooled by simp
        qed
      qed
      ultimately show ?thesis using p goods eq by (simp add: table_ok_def)
    qed
    ultimately show ?thesis using b(1,3) by blast
  next
    fix t'
    assume t': "VRB_INSERT cmp a t = Some (None, t')" "index_ok (key_at key P1) t'"
      "set (inorder t') = insert a (set (inorder t))"
    then have "table_ok key q good t' P1" using P1(1,4) pooled goods x'(2) by (simp add: table_ok_def)
    with t' show ?thesis by blast
  qed
qed

definition hash_ok :: "addr vrb \<Rightarrow> xkey_hashhead pool \<Rightarrow> bool" where
  "hash_ok = table_ok hh_digest hh_ocs (\<lambda>x. length (hh_digest x) = DIGEST_LEN)"

definition och_ok :: "addr vrb \<Rightarrow> xkey_ochead pool \<Rightarrow> bool" where
  "och_ok = table_ok oh_ptr oh_ocs (\<lambda>x. oh_ptr x \<noteq> 0)"

lemma cmp_ok_hash:
  assumes "length d = DIGEST_LEN" "\<And>b. b \<in> set (inorder t) \<Longrightarrow> \<exists>x. pl_heap P b = Some x \<and> length (hh_digest x) = DIGEST_LEN"
  shows "cmp_ok (key_at hh_digest P) d (xkey_hashcmp (pl_heap P) d) (set (inorder t))"
  unfolding cmp_ok_def
proof
  fix b assume "b \<in> set (inorder t)"
  then obtain x where "pl_heap P b = Some x" "length (hh_digest x) = DIGEST_LEN" using assms(2) by blast
  with memcmp_order [of d "hh_digest x"] assms(1)
  show "(xkey_hashcmp (pl_heap P) d b < 0 \<longleftrightarrow> d < key_at hh_digest P b) \<and>
    (xkey_hashcmp (pl_heap P) d b > 0 \<longleftrightarrow> key_at hh_digest P b < d)"
    by (simp add: xkey_hashcmp_def key_at_def)
qed

lemma cmp_ok_ptr:
  assumes "\<And>b. b \<in> set (inorder t) \<Longrightarrow> pl_heap P b \<noteq> None"
  shows "cmp_ok (key_at oh_ptr P) k (xkey_ptrcmp (pl_heap P) k) (set (inorder t))"
  unfolding cmp_ok_def
proof
  fix b assume "b \<in> set (inorder t)"
  then obtain x where "pl_heap P b = Some x" using assms by blast
  then show "(xkey_ptrcmp (pl_heap P) k b < 0 \<longleftrightarrow> k < key_at oh_ptr P b) \<and>
    (xkey_ptrcmp (pl_heap P) k b > 0 \<longleftrightarrow> key_at oh_ptr P b < k)"
    by (simp add: xkey_ptrcmp_def key_at_def)
qed

lemma table_node: "table_ok key q good t P \<Longrightarrow> b \<in> set (inorder t) \<Longrightarrow> \<exists>x. pl_heap P b = Some x \<and> good x"
  unfolding table_ok_def pool_ok_def by (metis UnI1 domD option.sel)

text \<open>Taking a head and giving it its key.\<close>

lemma table_take:
  assumes tab: "table_ok key q good t P" and f: "fresh n P" and x0: "q x0 = []" and g: "\<And>y. q (g y) = q y"
  shows "\<exists>a P1 P2 n' y. pool_new e x0 n P = Inr (a, P1, n') \<and> upd a g P1 = Inr P2 \<and> q y = [] \<and>
    a \<notin> set (inorder t) \<and> pool_ok (insert a (set (inorder t))) P2 \<and> (\<forall>b. b \<noteq> a \<longrightarrow> pl_heap P2 b = pl_heap P b) \<and>
    set (pl_list P2) \<subseteq> set (pl_list P) \<and> pl_heap P2 a = Some (g y) \<and> fresh n' P2 \<and> n \<le> n'"
proof -
  have po: "pool_ok (set (inorder t)) P" using tab by (simp add: table_ok_def)
  obtain a P1 n' y where new: "pool_new e x0 n P = Inr (a, P1, n')" "a \<notin> set (inorder t)"
    "pool_ok (insert a (set (inorder t))) P1" "fresh n' P1" "n \<le> n'" "\<forall>b. b \<noteq> a \<longrightarrow> pl_heap P1 b = pl_heap P b"
    "set (pl_list P1) \<subseteq> set (pl_list P)" "pl_heap P1 a = Some y" "y = x0 \<or> a \<in> set (pl_list P) \<and> pl_heap P a = Some y"
    using pool_new_correct [OF po f, of e x0] by blast
  have "q y = []" using new(9) tab x0 by (auto simp: table_ok_def)
  moreover have "upd a g P1 = Inr (P1\<lparr>pl_heap := (pl_heap P1)(a \<mapsto> g y)\<rparr>)" using new(8) by (simp add: upd_def)
  ultimately show ?thesis
    using new pool_ok_update [OF new(3), of a "g y"] fresh_update [OF new(4), of a "g y"]
    by (intro exI [of _ a] exI [of _ P1] exI [of _ "P1\<lparr>pl_heap := (pl_heap P1)(a \<mapsto> g y)\<rparr>"] exI [of _ n'] exI [of _ y]) auto
qed

text \<open>The state after insert-or-find of a key: \<open>a\<close> is its head, the other heads are as before.\<close>

definition has_key :: "('a \<Rightarrow> 'k) \<Rightarrow> ('a \<Rightarrow> addr list) \<Rightarrow> 'k \<Rightarrow> addr vrb \<Rightarrow> 'a pool \<Rightarrow> addr \<Rightarrow> addr vrb \<Rightarrow> 'a pool \<Rightarrow> bool" where
  "has_key key q k t P a t' P' \<longleftrightarrow> set (inorder t') = insert a (set (inorder t)) \<and>
     (\<exists>x. pl_heap P' a = Some x \<and> key x = k \<and> (a \<notin> set (inorder t) \<longrightarrow> q x = [])) \<and>
     (\<forall>b \<in> set (inorder t). pl_heap P' b = pl_heap P b)"

lemma has_keyI:
  assumes "\<forall>b. b \<noteq> a \<longrightarrow> pl_heap P2 b = pl_heap P b" "a \<notin> set (inorder t)" "pool_ok (insert a (set (inorder t))) P2"
  shows "b \<in> set (inorder t) \<Longrightarrow> pl_heap P b = Some z \<Longrightarrow> key z = k \<Longrightarrow> has_key key q k t P b t (pool_delete a x'' P2)"
    and "pl_heap P2 a = Some x' \<Longrightarrow> key x' = k \<Longrightarrow> q x' = [] \<Longrightarrow> set (inorder t') = insert a (set (inorder t)) \<Longrightarrow>
      has_key key q k t P a t' P2"
proof -
  have same: "pl_heap P2 c = pl_heap P c" "c \<noteq> a" if "c \<in> set (inorder t)" for c using that assms(1,2) by auto
  then have "pl_heap (pool_delete a x'' P2) c = pl_heap P c" if "c \<in> set (inorder t)" for c
    using that pool_delete_correct(3) [OF assms(3) insertI1, of c] by simp
  then show "b \<in> set (inorder t) \<Longrightarrow> pl_heap P b = Some z \<Longrightarrow> key z = k \<Longrightarrow> has_key key q k t P b t (pool_delete a x'' P2)"
    by (auto simp: has_key_def)
  show "pl_heap P2 a = Some x' \<Longrightarrow> key x' = k \<Longrightarrow> q x' = [] \<Longrightarrow> set (inorder t') = insert a (set (inorder t)) \<Longrightarrow>
      has_key key q k t P a t' P2"
    using same by (auto simp: has_key_def)
qed

lemma hashtree_insert_correct:
  assumes ok: "hash_ok (hashtree s) (hashheads s)" and f: "fresh (xk_next s) (hashheads s)" and d: "length d = DIGEST_LEN"
  shows "\<exists>h t' P' n'. xkey_hashtree_insert d s = Inr (h, s\<lparr>hashtree := t', hashheads := P', xk_next := n'\<rparr>) \<and>
    hash_ok t' P' \<and> fresh n' P' \<and> xk_next s \<le> n' \<and> has_key hh_digest hh_ocs d (hashtree s) (hashheads s) h t' P'"
proof -
  let ?t = "hashtree s" and ?P = "hashheads s" and ?g = "\<lambda>x. x\<lparr>hh_digest := d\<rparr>"
  let ?good = "\<lambda>x. length (hh_digest x) = DIGEST_LEN" and ?x0 = "\<lparr>hh_digest = replicate DIGEST_LEN 0, hh_ocs = []\<rparr>"
  have tab: "table_ok hh_digest hh_ocs ?good ?t ?P" using ok by (simp add: hash_ok_def)
  obtain a P1 P2 n' y where new: "pool_new AssertFail ?x0 (xk_next s) ?P = Inr (a, P1, n')" "upd a ?g P1 = Inr P2"
    "hh_ocs y = []" "a \<notin> set (inorder ?t)" and P2: "pool_ok (insert a (set (inorder ?t))) P2"
    "\<forall>b. b \<noteq> a \<longrightarrow> pl_heap P2 b = pl_heap ?P b" "set (pl_list P2) \<subseteq> set (pl_list ?P)" "pl_heap P2 a = Some (?g y)"
    "fresh n' P2" "xk_next s \<le> n'"
    using table_take [OF tab f, of ?x0 ?g AssertFail] by auto
  let ?x'' = "(?g y)\<lparr>hh_digest := replicate DIGEST_LEN 0\<rparr>"
  have "\<exists>x. pl_heap P2 b = Some x \<and> length (hh_digest x) = DIGEST_LEN" if "b \<in> set (inorder ?t)" for b
    using table_node [OF tab that] P2(2) new(4) that by auto
  from cmp_ok_hash [OF d this]
  have c: "cmp_ok (key_at hh_digest P2) (hh_digest (?g y)) (xkey_hashcmp (pl_heap P2) d) (set (inorder ?t))" by simp
  have hx: "hh_ocs (?g y) = []" "?good (?g y)" "hh_ocs ?x'' = []" using new(3) d by simp_all
  have run: "xkey_hashhead_new s = Inr (a, s\<lparr>hashheads := P1, xk_next := n'\<rparr>)"
    using new(1) by (simp add: xkey_hashhead_new_def)
  note key = has_keyI [OF P2(2) new(4) P2(1)]
  from table_insert [OF tab new(4) P2(1-4) hx c]
  show ?thesis
  proof (elim disjE exE conjE)
    fix b z
    assume b: "VRB_INSERT (xkey_hashcmp (pl_heap P2) d) a ?t = Some (Some b, ?t)" "b \<in> set (inorder ?t)"
      "pl_heap ?P b = Some z" "hh_digest z = hh_digest (?g y)" "table_ok hh_digest hh_ocs ?good ?t (pool_delete a ?x'' P2)"
    have k: "has_key hh_digest hh_ocs d ?t ?P b ?t (pool_delete a ?x'' P2)"
      by (rule key(1) [OF b(2,3)]) (use b(4) in simp)
    then have "\<exists>x. pl_heap (pool_delete a ?x'' P2) b = Some x" by (auto simp: has_key_def)
    then have "xkey_hashtree_insert d s = Inr (b, s\<lparr>hashtree := ?t, hashheads := pool_delete a ?x'' P2, xk_next := n'\<rparr>)"
      using run new(2,3) b(1) P2(4) by (auto simp: xkey_hashtree_insert_def Let_def xkey_hashhead_delete_def)
    moreover have "fresh n' (pool_delete a ?x'' P2)" by (rule pool_delete_correct(2) [OF P2(1) insertI1 P2(5)])
    ultimately show ?thesis using k b(5) P2(6) unfolding hash_ok_def by blast
  next
    fix t'
    assume t': "VRB_INSERT (xkey_hashcmp (pl_heap P2) d) a ?t = Some (None, t')"
      "set (inorder t') = insert a (set (inorder ?t))" "table_ok hh_digest hh_ocs ?good t' P2"
    then have "xkey_hashtree_insert d s = Inr (a, s\<lparr>hashtree := t', hashheads := P2, xk_next := n'\<rparr>)"
      using run new(2) by (simp add: xkey_hashtree_insert_def Let_def)
    moreover have "has_key hh_digest hh_ocs d ?t ?P a t' P2" by (rule key(2) [OF P2(4)]) (use t'(2) hx(1) in simp_all)
    ultimately show ?thesis using t'(3) P2(5,6) by (auto simp: hash_ok_def)
  qed
qed

lemma octree_insert_correct:
  assumes ok: "och_ok (octree s) (ocheads s)" and f: "fresh (xk_next s) (ocheads s)" and d: "d \<noteq> 0"
  shows "\<exists>h t' P' n'. xkey_octree_insert d s = Inr (h, s\<lparr>octree := t', ocheads := P', xk_next := n'\<rparr>) \<and>
    och_ok t' P' \<and> fresh n' P' \<and> xk_next s \<le> n' \<and> has_key oh_ptr oh_ocs d (octree s) (ocheads s) h t' P'"
proof -
  let ?t = "octree s" and ?P = "ocheads s" and ?g = "\<lambda>x. x\<lparr>oh_ptr := d\<rparr>"
  let ?good = "\<lambda>x. oh_ptr x \<noteq> 0" and ?x0 = "\<lparr>oh_ptr = 0, oh_ocs = []\<rparr>"
  have tab: "table_ok oh_ptr oh_ocs ?good ?t ?P" using ok by (simp add: och_ok_def)
  obtain a P1 P2 n' y where new: "pool_new NullDeref ?x0 (xk_next s) ?P = Inr (a, P1, n')" "upd a ?g P1 = Inr P2"
    "oh_ocs y = []" "a \<notin> set (inorder ?t)" and P2: "pool_ok (insert a (set (inorder ?t))) P2"
    "\<forall>b. b \<noteq> a \<longrightarrow> pl_heap P2 b = pl_heap ?P b" "set (pl_list P2) \<subseteq> set (pl_list ?P)" "pl_heap P2 a = Some (?g y)"
    "fresh n' P2" "xk_next s \<le> n'"
    using table_take [OF tab f, of ?x0 ?g NullDeref] by auto
  let ?x'' = "(?g y)\<lparr>oh_ptr := 0\<rparr>"
  have "pl_heap P2 b \<noteq> None" if "b \<in> set (inorder ?t)" for b
    using table_node [OF tab that] P2(2) new(4) that by auto
  from cmp_ok_ptr [OF this]
  have c: "cmp_ok (key_at oh_ptr P2) (oh_ptr (?g y)) (xkey_ptrcmp (pl_heap P2) d) (set (inorder ?t))" by simp
  have hx: "oh_ocs (?g y) = []" "?good (?g y)" "oh_ocs ?x'' = []" using new(3) d by simp_all
  have run: "xkey_ochead_new s = Inr (a, s\<lparr>ocheads := P1, xk_next := n'\<rparr>)"
    using new(1) by (simp add: xkey_ochead_new_def)
  note key = has_keyI [OF P2(2) new(4) P2(1)]
  from table_insert [OF tab new(4) P2(1-4) hx c]
  show ?thesis
  proof (elim disjE exE conjE)
    fix b z
    assume b: "VRB_INSERT (xkey_ptrcmp (pl_heap P2) d) a ?t = Some (Some b, ?t)" "b \<in> set (inorder ?t)"
      "pl_heap ?P b = Some z" "oh_ptr z = oh_ptr (?g y)" "table_ok oh_ptr oh_ocs ?good ?t (pool_delete a ?x'' P2)"
    have k: "has_key oh_ptr oh_ocs d ?t ?P b ?t (pool_delete a ?x'' P2)"
      by (rule key(1) [OF b(2,3)]) (use b(4) in simp)
    then have "\<exists>x. pl_heap (pool_delete a ?x'' P2) b = Some x" by (auto simp: has_key_def)
    then have "xkey_octree_insert d s = Inr (b, s\<lparr>octree := ?t, ocheads := pool_delete a ?x'' P2, xk_next := n'\<rparr>)"
      using run new(2,3) b(1) P2(4) d by (auto simp: xkey_octree_insert_def Let_def xkey_ochead_delete_def)
    moreover have "fresh n' (pool_delete a ?x'' P2)" by (rule pool_delete_correct(2) [OF P2(1) insertI1 P2(5)])
    ultimately show ?thesis using k b(5) P2(6) unfolding och_ok_def by blast
  next
    fix t'
    assume t': "VRB_INSERT (xkey_ptrcmp (pl_heap P2) d) a ?t = Some (None, t')"
      "set (inorder t') = insert a (set (inorder ?t))" "table_ok oh_ptr oh_ocs ?good t' P2"
    then have "xkey_octree_insert d s = Inr (a, s\<lparr>octree := t', ocheads := P2, xk_next := n'\<rparr>)"
      using run new(2) d by (simp add: xkey_octree_insert_def Let_def)
    moreover have "has_key oh_ptr oh_ocs d ?t ?P a t' P2" by (rule key(2) [OF P2(4)]) (use t'(2) hx(1) in simp_all)
    ultimately show ?thesis using t'(3) P2(5,6) by (auto simp: och_ok_def)
  qed
qed

section \<open>The invariant\<close>

text \<open>
  The pairs. \<open>H\<close> and \<open>Q\<close> are the hashheads in the tree and their queues, \<open>O\<close>, \<open>R\<close> and \<open>K\<close> the
  ocheads, their queues and their objects. Both directions hold the same \<open>xkey_oc\<close>s, each
  once, and each of those points back to its hashhead and names its object.
\<close>

definition queued :: "addr set \<Rightarrow> (addr \<Rightarrow> addr list) \<Rightarrow> addr set" where
  "queued H Q = (\<Union>h \<in> H. set (Q h))"

definition links_ok ::
  "addr set \<Rightarrow> (addr \<Rightarrow> addr list) \<Rightarrow> addr set \<Rightarrow> (addr \<Rightarrow> addr list) \<Rightarrow> (addr \<Rightarrow> addr) \<Rightarrow> xkey_oc pool \<Rightarrow> bool" where
  "links_ok H Q O' R K PC \<longleftrightarrow> pool_ok (queued H Q) PC \<and> queued O' R = queued H Q \<and>
     (\<forall>h \<in> H. distinct (Q h) \<and> (\<forall>c \<in> set (Q h). \<exists>x. pl_heap PC c = Some x \<and> oc_hashhead x = Some h)) \<and>
     (\<forall>p \<in> O'. distinct (R p) \<and> (\<forall>c \<in> set (R p). \<exists>x. pl_heap PC c = Some x \<and> oc_objcore x = Some (K p)))"

lemma queued_cong: "(\<And>h. h \<in> H \<Longrightarrow> Q' h = Q h) \<Longrightarrow> queued H Q' = queued H Q"
  by (auto simp: queued_def)

lemma queued_insert: "queued (insert h H) Q = set (Q h) \<union> queued H Q"
  by (simp add: queued_def)

lemma links_ok_cong:
  assumes "\<And>h. h \<in> H \<Longrightarrow> Q' h = Q h" "\<And>p. p \<in> O' \<Longrightarrow> R' p = R p \<and> K' p = K p"
  shows "links_ok H Q' O' R' K' PC = links_ok H Q O' R K PC"
  using queued_cong [of H Q' Q] queued_cong [of O' R' R] assms by (simp add: links_ok_def)

text \<open>A head without a queue can join.\<close>

lemma links_ok_join:
  assumes "links_ok H Q O' R K PC" "h \<notin> H \<Longrightarrow> Q h = []" "p \<notin> O' \<Longrightarrow> R p = []"
  shows "links_ok (insert h H) Q (insert p O') R K PC"
proof -
  have "queued (insert h H) Q = queued H Q" "queued (insert p O') R = queued O' R"
    using assms(2,3) by (cases "h \<in> H"; cases "p \<in> O'"; auto simp: queued_def)+
  with assms show ?thesis by (cases "h \<in> H"; cases "p \<in> O'") (auto simp: links_ok_def insert_absorb)
qed

text \<open>A pair is added: \<open>c\<close> comes from the pool and goes to the end of both queues.\<close>

lemma links_ok_add:
  assumes l: "links_ok H Q O' R K PC" and h: "h \<in> H" and p: "p \<in> O'"
    and c: "c \<notin> queued H Q" "pool_ok (insert c (queued H Q)) PC'" "\<forall>b. b \<noteq> c \<longrightarrow> pl_heap PC' b = pl_heap PC b"
      "pl_heap PC' c = Some x" "oc_hashhead x = Some h" "oc_objcore x = Some (K p)"
  shows "links_ok H (Q(h := Q h @ [c])) O' (R(p := R p @ [c])) K PC'"
proof -
  have q: "queued H (Q(h := Q h @ [c])) = insert c (queued H Q)" "queued O' (R(p := R p @ [c])) = insert c (queued O' R)"
    using h p by (auto simp: queued_def split: if_splits)
  have sub: "set (Q g) \<subseteq> queued H Q" if "g \<in> H" for g using that by (auto simp: queued_def)
  have sub': "set (R g) \<subseteq> queued H Q" if "g \<in> O'" for g using that l by (auto simp: links_ok_def queued_def)
  have old: "pl_heap PC' b = pl_heap PC b" if "b \<in> queued H Q" for b using that c(1,3) by auto
  show ?thesis
    unfolding links_ok_def q
  proof (intro conjI ballI)
    show "pool_ok (insert c (queued H Q)) PC'" by (rule c(2))
    show "insert c (queued O' R) = insert c (queued H Q)" using l by (simp add: links_ok_def)
  next
    fix g assume g: "g \<in> H"
    then show "distinct ((Q(h := Q h @ [c])) g)" using l c(1) sub [OF g] by (auto simp: links_ok_def)
    fix b assume "b \<in> set ((Q(h := Q h @ [c])) g)"
    then have "b = c \<and> g = h \<or> b \<in> set (Q g)" by (auto split: if_splits)
    then show "\<exists>x. pl_heap PC' b = Some x \<and> oc_hashhead x = Some g"
      using l g c(4,5) old sub [OF g] by (auto simp: links_ok_def)
  next
    fix g assume g: "g \<in> O'"
    then show "distinct ((R(p := R p @ [c])) g)" using l c(1) sub' [OF g] by (auto simp: links_ok_def)
    fix b assume "b \<in> set ((R(p := R p @ [c])) g)"
    then have "b = c \<and> g = p \<or> b \<in> set (R g)" by (auto split: if_splits)
    then show "\<exists>x. pl_heap PC' b = Some x \<and> oc_objcore x = Some (K g)"
      using l g c(4,6) old sub' [OF g] by (auto simp: links_ok_def)
  qed
qed

text \<open>A pair is taken out and its \<open>xkey_oc\<close> goes to the pool.\<close>

lemma links_ok_drop:
  assumes l: "links_ok H Q O' R K PC" and h: "h \<in> H" "c \<in> set (Q h)" and p: "p \<in> O'" "c \<in> set (R p)"
    and c: "pool_ok (queued H Q - {c}) PC'" "\<forall>b. b \<noteq> c \<longrightarrow> pl_heap PC' b = pl_heap PC b"
    and H': "H' = (if remove1 c (Q h) = [] then H - {h} else H)"
    and K: "inj_on K O'"
  shows "links_ok H' (Q(h := remove1 c (Q h))) O' (R(p := remove1 c (R p))) K PC'"
proof -
  have uh: "g = h" if "g \<in> H" "c \<in> set (Q g)" for g
  proof -
    have "\<exists>x. pl_heap PC c = Some x \<and> oc_hashhead x = Some g" "\<exists>x. pl_heap PC c = Some x \<and> oc_hashhead x = Some h"
      using l that h unfolding links_ok_def by blast+
    then show ?thesis by auto
  qed
  have up: "g = p" if "g \<in> O'" "c \<in> set (R g)" for g
  proof -
    have "\<exists>x. pl_heap PC c = Some x \<and> oc_objcore x = Some (K g)" "\<exists>x. pl_heap PC c = Some x \<and> oc_objcore x = Some (K p)"
      using l that p unfolding links_ok_def by blast+
    then have "K g = K p" by auto
    with K that p show ?thesis by (auto simp: inj_on_def)
  qed
  have d: "distinct (Q h)" "distinct (R p)" using l h p by (auto simp: links_ok_def)
  let ?Q = "Q(h := remove1 c (Q h))" and ?R = "R(p := remove1 c (R p))"
  have sQ: "set (?Q g) = set (Q g) - {c}" if "g \<in> H" for g using uh [OF that] d(1) by auto
  have sR: "set (?R g) = set (R g) - {c}" if "g \<in> O'" for g using up [OF that] d(2) by auto
  have q: "queued H' ?Q = queued H Q - {c}"
  proof -
    have "queued H' ?Q = queued H ?Q"
    proof (cases "remove1 c (Q h) = []")
      case True
      then have "queued {h} ?Q = {}" by (simp add: queued_def)
      moreover have "H = insert h H'" using h(1) True H' by auto
      then have "queued H ?Q = set (?Q h) \<union> queued H' ?Q" by (simp only: queued_insert)
      ultimately show ?thesis using True by simp
    qed (simp add: H')
    also have "\<dots> = queued H Q - {c}" using sQ by (auto simp: queued_def)
    finally show ?thesis .
  qed
  have q': "queued O' ?R = queued O' R - {c}" using sR by (auto simp: queued_def)
  have sub: "H' \<subseteq> H" unfolding H' by auto
  have dQ: "distinct (?Q g)" if "g \<in> H" for g using that l by (auto simp: links_ok_def)
  have dR: "distinct (?R g)" if "g \<in> O'" for g using that l by (auto simp: links_ok_def)
  show ?thesis
    unfolding links_ok_def q q'
  proof (intro conjI ballI)
    show "pool_ok (queued H Q - {c}) PC'" by (rule c(1))
    show "queued O' R - {c} = queued H Q - {c}" using l by (simp add: links_ok_def)
  next
    fix g assume "g \<in> H'"
    then have g: "g \<in> H" using sub by auto
    then show "distinct (?Q g)" by (rule dQ)
    fix b assume "b \<in> set (?Q g)"
    then have b: "b \<in> set (Q g)" "b \<noteq> c" unfolding sQ [OF g] by auto
    then show "\<exists>x. pl_heap PC' b = Some x \<and> oc_hashhead x = Some g"
      using l g c(2) unfolding links_ok_def by simp
  next
    fix g assume g: "g \<in> O'"
    then show "distinct (?R g)" by (rule dR)
    fix b assume "b \<in> set (?R g)"
    then have b: "b \<in> set (R g)" "b \<noteq> c" unfolding sR [OF g] by auto
    then show "\<exists>x. pl_heap PC' b = Some x \<and> oc_objcore x = Some (K g)"
      using l g c(2) unfolding links_ok_def by simp
  qed
qed

text \<open>
  The other link: \<open>list_ochead\<close> chains the queue of each ochead, from its \<open>vtqh_first\<close> on, and an
  \<open>xkey_oc\<close> in the pool still has the back pointer it had as the first of a queue.
\<close>

fun linked :: "place \<Rightarrow> addr list \<Rightarrow> (addr \<Rightarrow> oc_link) \<Rightarrow> bool" where
  "linked pl [] L = True"
| "linked pl (c # q) L \<longleftrightarrow> vtqe_prev (L c) = pl \<and>
     vtqe_next (L c) = (case q of [] \<Rightarrow> None | d # _ \<Rightarrow> Some d) \<and> linked (OcheadNext c) q L"

definition chains_ok :: "addr set \<Rightarrow> (addr \<Rightarrow> addr list) \<Rightarrow> (addr \<Rightarrow> oc_link) \<Rightarrow> addr set \<Rightarrow> bool" where
  "chains_ok O' R L PL \<longleftrightarrow> (\<forall>p \<in> O'. linked (OcheadFirst p) (R p) L) \<and>
     (\<forall>c \<in> PL. \<exists>p. vtqe_prev (L c) = OcheadFirst p)"

lemma linked_cong: "(\<And>c. c \<in> set q \<Longrightarrow> L' c = L c) \<Longrightarrow> linked pl q L' = linked pl q L"
  by (induction q arbitrary: pl) auto

lemma linked_snoc:
  assumes "linked pl q L" "distinct q" "c \<notin> set q"
    "L' c = \<lparr>vtqe_next = None, vtqe_prev = (if q = [] then pl else OcheadNext (last q))\<rparr>"
    "q \<noteq> [] \<Longrightarrow> L' (last q) = (L (last q))\<lparr>vtqe_next := Some c\<rparr>"
    "\<And>b. b \<in> set q \<Longrightarrow> b \<noteq> last q \<Longrightarrow> L' b = L b"
  shows "linked pl (q @ [c]) L'"
  using assms
proof (induction q arbitrary: pl)
  case (Cons b q)
  have "linked (OcheadNext b) (q @ [c]) L'"
    by (rule Cons.IH) (use Cons.prems in \<open>auto split: if_splits\<close>)
  moreover have "vtqe_prev (L' b) = pl \<and> vtqe_next (L' b) = (case q @ [c] of [] \<Rightarrow> None | d # _ \<Rightarrow> Some d)"
  proof (cases "q = []")
    case False
    then have "b \<noteq> last q" using Cons.prems(2) last_in_set [of q] by auto
    then have "L' b = L b" using False Cons.prems(6) [of b] by simp
    with False Cons.prems(1) show ?thesis by (cases q) simp_all
  qed (use Cons.prems in auto)
  ultimately show ?case by simp
qed simp

lemma chains_cong: "(\<And>p. p \<in> O' \<Longrightarrow> R' p = R p) \<Longrightarrow> chains_ok O' R' L PL = chains_ok O' R L PL"
  by (simp add: chains_ok_def)

lemma chains_join: "chains_ok O' R L PL \<Longrightarrow> (p \<notin> O' \<Longrightarrow> R p = []) \<Longrightarrow> chains_ok (insert p O') R L PL"
  by (cases "p \<in> O'") (auto simp: chains_ok_def insert_absorb)

text \<open>No \<open>xkey_oc\<close> is on the queues of two ocheads, and none in the pool is on a queue.\<close>

lemma links_apart:
  assumes "links_ok H Q O' R K PC" "inj_on K O'" "p \<in> O'" "c \<in> set (R p)"
  shows "g \<in> O' \<Longrightarrow> c \<in> set (R g) \<Longrightarrow> g = p" "c \<notin> set (pl_list PC)" "c \<in> dom (pl_heap PC)" "c \<in> queued H Q"
proof -
  show "g = p" if g: "g \<in> O'" "c \<in> set (R g)"
  proof -
    have "\<exists>x. pl_heap PC c = Some x \<and> oc_objcore x = Some (K g)" "\<exists>x. pl_heap PC c = Some x \<and> oc_objcore x = Some (K p)"
      using assms(1,3,4) g unfolding links_ok_def by blast+
    then have "K g = K p" by auto
    with assms(2,3) g show ?thesis by (auto simp: inj_on_def)
  qed
  show q: "c \<in> queued H Q" using assms(1,3,4) by (auto simp: links_ok_def queued_def)
  have "pool_ok (queued H Q) PC" using assms(1) by (simp add: links_ok_def)
  with q show "c \<notin> set (pl_list PC)" "c \<in> dom (pl_heap PC)" by (auto simp: pool_ok_def)
qed

lemma chains_add:
  assumes l: "links_ok H Q O' R K PC" "inj_on K O'" and ch: "chains_ok O' R L (set (pl_list PC))" and p: "p \<in> O'"
    and c: "c \<notin> queued H Q" "PL' \<subseteq> set (pl_list PC) - {c}" and h: "\<And>b. b \<in> queued H Q \<Longrightarrow> h b \<noteq> None"
  shows "\<exists>L'. list_ochead_insert_tail h p (R p) c L = Inr L' \<and> chains_ok O' (R(p := R p @ [c])) L' PL'"
proof -
  let ?L1 = "L(c := \<lparr>vtqe_next = None, vtqe_prev = (if R p = [] then OcheadFirst p else OcheadNext (last (R p)))\<rparr>)"
  define L' where "L' = (if R p = [] then ?L1 else ?L1(last (R p) := (?L1 (last (R p)))\<lparr>vtqe_next := Some c\<rparr>))"
  have off: "c \<notin> set (R g)" if "g \<in> O'" for g using links_apart(4) [OF l that] c(1) by blast
  have lc: "R p \<noteq> [] \<Longrightarrow> last (R p) \<noteq> c" using off [OF p] by (metis last_in_set)
  have apart: "last (R p) \<notin> set (R g)" if "R p \<noteq> []" "g \<in> O'" "g \<noteq> p" for g
    using links_apart(1) [OF l p _ that(2)] that(1,3) by (metis last_in_set)
  have pooled: "R p \<noteq> [] \<Longrightarrow> last (R p) \<notin> set (pl_list PC)"
    using links_apart(2) [OF l p] by (metis last_in_set)
  have d: "distinct (R p)" using l(1) p by (auto simp: links_ok_def)
  have "list_ochead_insert_tail h p (R p) c L = Inr L'"
  proof (cases "R p = []")
    case False
    then have "h (last (R p)) \<noteq> None" using h links_apart(4) [OF l p] by (metis last_in_set)
    with False show ?thesis by (auto simp: list_ochead_insert_tail_def L'_def)
  qed (simp add: list_ochead_insert_tail_def L'_def)
  moreover have "linked (OcheadFirst g) ((R(p := R p @ [c])) g) L'" if g: "g \<in> O'" for g
  proof (cases "g = p")
    case True
    have lp: "linked (OcheadFirst p) (R p) L" using ch p by (auto simp: chains_ok_def)
    have "linked (OcheadFirst p) (R p @ [c]) L'"
      by (rule linked_snoc [OF lp d off [OF p]]) (use lc off [OF p] in \<open>auto simp: L'_def\<close>)
    with True show ?thesis by simp
  next
    case False
    have "linked (OcheadFirst g) (R g) L' = linked (OcheadFirst g) (R g) L"
    proof (rule linked_cong)
      fix b assume "b \<in> set (R g)"
      then have "b \<noteq> c" "R p \<noteq> [] \<Longrightarrow> b \<noteq> last (R p)" using off [OF g] apart [OF _ g False] by auto
      then show "L' b = L b" by (simp add: L'_def)
    qed
    with False ch g show ?thesis by (simp add: chains_ok_def)
  qed
  moreover have "\<exists>g. vtqe_prev (L' b) = OcheadFirst g" if "b \<in> PL'" for b
  proof -
    from that c(2) have b: "b \<in> set (pl_list PC)" "b \<noteq> c" by auto
    with pooled have "L' b = L b" by (auto simp: L'_def)
    with ch b(1) show ?thesis by (simp add: chains_ok_def)
  qed
  ultimately show ?thesis by (auto simp: chains_ok_def)
qed

text \<open>The first of a queue goes, possibly to the pool.\<close>

lemma chains_drop:
  assumes l: "links_ok H Q O' R K PC" "inj_on K O'" and ch: "chains_ok O' R L (set (pl_list PC))" and p: "p \<in> O'"
    and q: "R p = c # q" and h: "\<And>b. b \<in> queued H Q \<Longrightarrow> h b \<noteq> None" "ho p \<noteq> None"
    and PL': "PL' \<subseteq> insert c (set (pl_list PC))"
  shows "\<exists>L'. list_ochead_remove ho h c L = Inr L' \<and> chains_ok O' (R(p := q)) L' PL'"
proof -
  have lp: "linked (OcheadFirst p) (c # q) L" using ch p q by (metis chains_ok_def)
  define L' where "L' = (case q of [] \<Rightarrow> L | n # _ \<Rightarrow> L(n := (L n)\<lparr>vtqe_prev := OcheadFirst p\<rparr>))"
  have d: "distinct (c # q)" using l(1) p q by (metis links_ok_def)
  have c': "L' c = L c" using d by (cases q) (auto simp: L'_def)
  have n: "h (hd q) \<noteq> None" if "q \<noteq> []"
  proof -
    have "hd q \<in> set (R p)" using that q by simp
    from h(1) [OF links_apart(4) [OF l p this]] show ?thesis .
  qed
  have "list_ochead_remove ho h c L = Inr L'"
  proof (cases q)
    case Nil
    with lp h(2) show ?thesis by (auto simp: list_ochead_remove_def L'_def)
  next
    case (Cons n r)
    with lp n h(2) d show ?thesis by (auto simp: list_ochead_remove_def L'_def)
  qed
  moreover have "linked (OcheadFirst g) ((R(p := q)) g) L'" if g: "g \<in> O'" for g
  proof (cases "g = p")
    case True
    have "linked (OcheadFirst p) q L'"
    proof (cases q)
      case (Cons n r)
      have "linked (OcheadNext n) r L' = linked (OcheadNext n) r L"
        by (rule linked_cong) (use Cons d in \<open>auto simp: L'_def\<close>)
      with lp Cons show ?thesis by (simp add: L'_def)
    qed simp
    with True show ?thesis by simp
  next
    case False
    have "linked (OcheadFirst g) (R g) L' = linked (OcheadFirst g) (R g) L"
    proof (rule linked_cong)
      fix b assume b: "b \<in> set (R g)"
      have "b \<notin> set (R p)" using links_apart(1) [OF l g b p] False by blast
      then show "L' b = L b" using q by (cases q) (auto simp: L'_def)
    qed
    with False ch g show ?thesis by (simp add: chains_ok_def)
  qed
  moreover have "\<exists>g. vtqe_prev (L' b) = OcheadFirst g" if b: "b \<in> PL'" for b
  proof (cases "b = c")
    case True
    with c' lp show ?thesis by simp
  next
    case False
    with b PL' have b: "b \<in> set (pl_list PC)" by auto
    then have "b \<notin> set (R p)" using links_apart(2) [OF l p] by blast
    then have "L' b = L b" using q by (cases q) (auto simp: L'_def)
    with ch b show ?thesis by (simp add: chains_ok_def)
  qed
  ultimately show ?thesis by (auto simp: chains_ok_def)
qed

definition hn :: "xkey_state \<Rightarrow> addr set" where "hn s = set (inorder (hashtree s))"
definition hq :: "xkey_state \<Rightarrow> addr \<Rightarrow> addr list" where "hq s h = hh_ocs (the (pl_heap (hashheads s) h))"
definition hd_of :: "xkey_state \<Rightarrow> addr \<Rightarrow> digest" where "hd_of s h = hh_digest (the (pl_heap (hashheads s) h))"
definition on :: "xkey_state \<Rightarrow> addr set" where "on s = set (inorder (octree s))"
definition oq :: "xkey_state \<Rightarrow> addr \<Rightarrow> addr list" where "oq s p = oh_ocs (the (pl_heap (ocheads s) p))"
definition op_of :: "xkey_state \<Rightarrow> addr \<Rightarrow> addr" where "op_of s p = oh_ptr (the (pl_heap (ocheads s) p))"
definition obj_of :: "xkey_state \<Rightarrow> addr \<Rightarrow> addr" where "obj_of s c = the (oc_objcore (the (pl_heap (ocs s) c)))"

lemmas xk_views = hn_def hq_def hd_of_def on_def oq_def op_of_def obj_of_def

definition xk_str :: "xkey_state \<Rightarrow> bool" where
  "xk_str s \<longleftrightarrow> hash_ok (hashtree s) (hashheads s) \<and> och_ok (octree s) (ocheads s) \<and>
     fresh (xk_next s) (hashheads s) \<and> fresh (xk_next s) (ocheads s) \<and> fresh (xk_next s) (ocs s) \<and>
     links_ok (hn s) (hq s) (on s) (oq s) (op_of s) (ocs s) \<and>
     chains_ok (on s) (oq s) (list_ochead s) (set (pl_list (ocs s)))"

definition xk_inv :: "xkey_state \<Rightarrow> bool" where
  "xk_inv s \<longleftrightarrow> xk_str s \<and> (\<forall>h \<in> hn s. hq s h \<noteq> []) \<and> (\<forall>p \<in> on s. oq s p \<noteq> [])"

text \<open>The abstract state: the objects tagged with a digest, in the order they were tagged.\<close>

definition tags :: "xkey_state \<Rightarrow> digest \<Rightarrow> addr list" where
  "tags s d = (case xkey_hashtree_lookup d s of None \<Rightarrow> [] | Some h \<Rightarrow> map (obj_of s) (hq s h))"

lemma hash_node: "xk_str s \<Longrightarrow> h \<in> hn s \<Longrightarrow> \<exists>x. pl_heap (hashheads s) h = Some x \<and> length (hh_digest x) = DIGEST_LEN"
  unfolding xk_str_def hash_ok_def hn_def by (blast dest: table_node)

lemma och_node: "xk_str s \<Longrightarrow> p \<in> on s \<Longrightarrow> \<exists>x. pl_heap (ocheads s) p = Some x \<and> oh_ptr x \<noteq> 0"
  unfolding xk_str_def och_ok_def on_def by (blast dest: table_node)

lemma hashtree_lookup_iff:
  assumes "xk_str s" "length d = DIGEST_LEN"
  shows "xkey_hashtree_lookup d s = Some h \<longleftrightarrow> h \<in> hn s \<and> hd_of s h = d"
proof -
  have "cmp_ok (key_at hh_digest (hashheads s)) d (xkey_hashcmp (pl_heap (hashheads s)) d) (set (inorder (hashtree s)))"
    using hash_node [OF assms(1)] assms(2) by (intro cmp_ok_hash) (simp_all add: hn_def)
  with vrb.lookup_Some [OF _ this] assms(1) show ?thesis
    by (simp add: xkey_hashtree_lookup_def xk_str_def hash_ok_def table_ok_def hn_def hd_of_def key_at_def)
qed

lemma octree_lookup_iff:
  assumes "xk_str s" "o' \<noteq> 0"
  shows "\<exists>r. xkey_octree_lookup o' s = Inr r \<and> (\<forall>p. r = Some p \<longleftrightarrow> p \<in> on s \<and> op_of s p = o')"
proof -
  have "cmp_ok (key_at oh_ptr (ocheads s)) o' (xkey_ptrcmp (pl_heap (ocheads s)) o') (set (inorder (octree s)))"
    using och_node [OF assms(1)] by (intro cmp_ok_ptr) (fastforce simp: on_def)
  with vrb.lookup_Some [OF _ this] assms show ?thesis
    by (simp add: xkey_octree_lookup_def xk_str_def och_ok_def table_ok_def on_def op_of_def key_at_def)
qed

lemma hd_of_inj: "xk_str s \<Longrightarrow> inj_on (hd_of s) (hn s)"
  unfolding inj_on_def xk_str_def hash_ok_def table_ok_def hn_def hd_of_def
  using vrb.key_inj [of "key_at hh_digest (hashheads s)" "hashtree s"] by (auto simp: key_at_def)

lemma op_of_inj: "xk_str s \<Longrightarrow> inj_on (op_of s) (on s)"
  unfolding inj_on_def xk_str_def och_ok_def table_ok_def on_def op_of_def
  using vrb.key_inj [of "key_at oh_ptr (ocheads s)" "octree s"] by (auto simp: key_at_def)

lemma tags_at: "xk_str s \<Longrightarrow> h \<in> hn s \<Longrightarrow> tags s (hd_of s h) = map (obj_of s) (hq s h)"
proof -
  assume s: "xk_str s" and h: "h \<in> hn s"
  then have "length (hd_of s h) = DIGEST_LEN" using hash_node by (fastforce simp: hd_of_def)
  with hashtree_lookup_iff [OF s this, of h] h show ?thesis by (simp add: tags_def)
qed

lemma tags_none: "xk_str s \<Longrightarrow> length d = DIGEST_LEN \<Longrightarrow> d \<notin> hd_of s ` hn s \<Longrightarrow> tags s d = []"
proof -
  assume s: "xk_str s" and d: "length d = DIGEST_LEN" and n: "d \<notin> hd_of s ` hn s"
  have "xkey_hashtree_lookup d s = None"
    using hashtree_lookup_iff [OF s d] n by (metis imageI not_Some_eq)
  then show ?thesis by (simp add: tags_def)
qed

text \<open>After both tree insertions: a head for the object and one for the digest.\<close>

lemma insert_heads:
  assumes s: "xk_inv s" and o': "o' \<noteq> 0" and d: "length d = DIGEST_LEN"
  shows "\<exists>p h s1 s2. xkey_octree_insert o' s = Inr (p, s1) \<and> xkey_hashtree_insert d s1 = Inr (h, s2) \<and> xk_str s2 \<and>
    hn s2 = insert h (hn s) \<and> on s2 = insert p (on s) \<and> hd_of s2 h = d \<and> op_of s2 p = o' \<and>
    (\<forall>g \<in> hn s. hq s2 g = hq s g \<and> hd_of s2 g = hd_of s g) \<and> (h \<notin> hn s \<longrightarrow> hq s2 h = []) \<and>
    (\<forall>g \<in> on s. oq s2 g = oq s g) \<and> ocs s2 = ocs s \<and> xk_n_init s2 = xk_n_init s \<and> xkey_cb_handle s2 = xkey_cb_handle s"
proof -
  have st: "hash_ok (hashtree s) (hashheads s)" "och_ok (octree s) (ocheads s)" "fresh (xk_next s) (hashheads s)"
    "fresh (xk_next s) (ocheads s)" "fresh (xk_next s) (ocs s)" "links_ok (hn s) (hq s) (on s) (oq s) (op_of s) (ocs s)"
    "chains_ok (on s) (oq s) (list_ochead s) (set (pl_list (ocs s)))"
    using s by (simp_all add: xk_inv_def xk_str_def)
  obtain p t1 P1 n1 where o1: "xkey_octree_insert o' s = Inr (p, s\<lparr>octree := t1, ocheads := P1, xk_next := n1\<rparr>)"
    "och_ok t1 P1" "fresh n1 P1" "xk_next s \<le> n1" "has_key oh_ptr oh_ocs o' (octree s) (ocheads s) p t1 P1"
    using octree_insert_correct [OF st(2,4) o'] by blast
  define s1 where "s1 = s\<lparr>octree := t1, ocheads := P1, xk_next := n1\<rparr>"
  have "hash_ok (hashtree s1) (hashheads s1)" "fresh (xk_next s1) (hashheads s1)"
    using st(1,3) o1(4) by (auto simp: s1_def intro: fresh_mono)
  from hashtree_insert_correct [OF this d] obtain h t2 P2 n2 where
    h2: "xkey_hashtree_insert d s1 = Inr (h, s1\<lparr>hashtree := t2, hashheads := P2, xk_next := n2\<rparr>)"
    "hash_ok t2 P2" "fresh n2 P2" "n1 \<le> n2" "has_key hh_digest hh_ocs d (hashtree s) (hashheads s) h t2 P2"
    by (auto simp: s1_def)
  define s2 where "s2 = s1\<lparr>hashtree := t2, hashheads := P2, xk_next := n2\<rparr>"
  have v: "hn s2 = insert h (hn s)" "on s2 = insert p (on s)" "hd_of s2 h = d" "op_of s2 p = o'"
    "\<forall>g \<in> hn s. hq s2 g = hq s g \<and> hd_of s2 g = hd_of s g" "h \<notin> hn s \<Longrightarrow> hq s2 h = []"
    "\<forall>g \<in> on s. oq s2 g = oq s g \<and> op_of s2 g = op_of s g" "p \<notin> on s \<Longrightarrow> oq s2 p = []"
    using o1(5) h2(5) by (auto simp: has_key_def xk_views s1_def s2_def)
  have "links_ok (hn s) (hq s2) (on s) (oq s2) (op_of s2) (ocs s)"
    using st(6) links_ok_cong [of "hn s" "hq s2" "hq s" "on s" "oq s2" "oq s" "op_of s2" "op_of s"] v(5,7) by blast
  from links_ok_join [OF this v(6) v(8)]
  have "links_ok (hn s2) (hq s2) (on s2) (oq s2) (op_of s2) (ocs s2)"
    unfolding v(1,2) by (simp add: s1_def s2_def)
  moreover have "chains_ok (on s2) (oq s2) (list_ochead s2) (set (pl_list (ocs s2)))"
  proof -
    have "chains_ok (on s) (oq s2) (list_ochead s) (set (pl_list (ocs s)))"
      using st(7) chains_cong [of "on s" "oq s2" "oq s"] v(7) by blast
    from chains_join [OF this v(8)] show ?thesis unfolding v(2) by (simp add: s1_def s2_def)
  qed
  moreover have "fresh n2 P1" "fresh n2 (ocs s)" using o1(3,4) h2(4) st(5) by (auto intro: fresh_mono)
  ultimately have "xk_str s2" using h2(2,3) o1(2) by (simp add: xk_str_def s1_def s2_def)
  with o1(1) h2(1) v show ?thesis by (auto simp: s1_def s2_def)
qed

text \<open>Appending the new pair to both queues.\<close>

lemma append_pair:
  assumes s: "xk_str s" and h: "h \<in> hn s" and p: "p \<in> on s"
  shows "\<exists>oc s3 z L PO PH PC s'. xkey_oc_new s = Inr (oc, s3) \<and> pl_heap (ocheads s3) p = Some z \<and>
    list_ochead_insert_tail (pl_heap (ocs s3)) p (oh_ocs z) oc (list_ochead s3) = Inr L \<and>
    upd p (\<lambda>x. x\<lparr>oh_ocs := oh_ocs x @ [oc]\<rparr>) (ocheads s3) = Inr PO \<and>
    upd h (\<lambda>x. x\<lparr>hh_ocs := hh_ocs x @ [oc]\<rparr>) (hashheads s3) = Inr PH \<and>
    upd oc (\<lambda>x. x\<lparr>oc_objcore := Some (op_of s p), oc_hashhead := Some h\<rparr>) (ocs s3) = Inr PC \<and>
    s' = s3\<lparr>ocheads := PO, hashheads := PH, ocs := PC, list_ochead := L\<rparr> \<and> xk_str s' \<and> hn s' = hn s \<and> on s' = on s \<and>
    hd_of s' = hd_of s \<and> hq s' = (hq s)(h := hq s h @ [oc]) \<and> oq s' = (oq s)(p := oq s p @ [oc]) \<and>
    op_of s' = op_of s \<and> obj_of s' oc = op_of s p \<and> oc \<notin> queued (hn s) (hq s) \<and>
    (\<forall>c. c \<noteq> oc \<longrightarrow> obj_of s' c = obj_of s c) \<and> xk_n_init s' = xk_n_init s \<and> xkey_cb_handle s' = xkey_cb_handle s"
proof -
  have l: "links_ok (hn s) (hq s) (on s) (oq s) (op_of s) (ocs s)" and f: "fresh (xk_next s) (ocs s)"
    and tabs: "hash_ok (hashtree s) (hashheads s)" "och_ok (octree s) (ocheads s)"
    and f': "fresh (xk_next s) (hashheads s)" "fresh (xk_next s) (ocheads s)"
    and ch: "chains_ok (on s) (oq s) (list_ochead s) (set (pl_list (ocs s)))"
    using s by (simp_all add: xk_str_def)
  have po: "pool_ok (queued (hn s) (hq s)) (ocs s)" using l by (simp add: links_ok_def)
  from pool_new_correct [OF this f] obtain oc P n y where
    new: "pool_new NullDeref \<lparr>oc_hashhead = None, oc_objcore = None\<rparr> (xk_next s) (ocs s) = Inr (oc, P, n)"
    "oc \<notin> queued (hn s) (hq s)" "pool_ok (insert oc (queued (hn s) (hq s))) P" "fresh n P" "xk_next s \<le> n"
    "\<forall>b. b \<noteq> oc \<longrightarrow> pl_heap P b = pl_heap (ocs s) b" "pl_heap P oc = Some y" "set (pl_list P) \<subseteq> set (pl_list (ocs s))"
    by meson
  have "pl_heap P b \<noteq> None" if "b \<in> queued (hn s) (hq s)" for b
    using that new(3) unfolding pool_ok_def by blast
  moreover have "set (pl_list P) \<subseteq> set (pl_list (ocs s)) - {oc}" using new(3,8) by (auto simp: pool_ok_def)
  ultimately obtain L where L: "list_ochead_insert_tail (pl_heap P) p (oq s p) oc (list_ochead s) = Inr L"
    "chains_ok (on s) ((oq s)(p := oq s p @ [oc])) L (set (pl_list P))"
    using chains_add [OF l op_of_inj [OF s] ch p new(2), of "set (pl_list P)" "pl_heap P"] by blast
  obtain x z where x: "pl_heap (hashheads s) h = Some x" "length (hh_digest x) = DIGEST_LEN"
    and z: "pl_heap (ocheads s) p = Some z" "oh_ptr z \<noteq> 0" using hash_node [OF s h] och_node [OF s p] by blast
  define s3 where "s3 = s\<lparr>ocs := P, xk_next := n\<rparr>"
  define PO where "PO = (ocheads s)\<lparr>pl_heap := (pl_heap (ocheads s))(p \<mapsto> z\<lparr>oh_ocs := oh_ocs z @ [oc]\<rparr>)\<rparr>"
  define PH where "PH = (hashheads s)\<lparr>pl_heap := (pl_heap (hashheads s))(h \<mapsto> x\<lparr>hh_ocs := hh_ocs x @ [oc]\<rparr>)\<rparr>"
  define PC where "PC = P\<lparr>pl_heap := (pl_heap P)(oc \<mapsto> y\<lparr>oc_objcore := Some (op_of s p), oc_hashhead := Some h\<rparr>)\<rparr>"
  define s' where "s' = s3\<lparr>ocheads := PO, hashheads := PH, ocs := PC, list_ochead := L\<rparr>"
  note defs = s'_def s3_def PO_def PH_def PC_def
  have v: "hn s' = hn s" "on s' = on s" "hd_of s' = hd_of s" "hq s' = (hq s)(h := hq s h @ [oc])"
    "oq s' = (oq s)(p := oq s p @ [oc])" "op_of s' = op_of s" "obj_of s' oc = op_of s p"
    "\<forall>c. c \<noteq> oc \<longrightarrow> obj_of s' c = obj_of s c"
  proof -
    show "hn s' = hn s" "on s' = on s" by (simp_all add: hn_def on_def defs)
    show "hd_of s' = hd_of s" "hq s' = (hq s)(h := hq s h @ [oc])"
      by (auto simp: hd_of_def hq_def defs x(1))
    show "oq s' = (oq s)(p := oq s p @ [oc])" "op_of s' = op_of s"
      by (auto simp: oq_def op_of_def defs z(1))
    show "obj_of s' oc = op_of s p" "\<forall>c. c \<noteq> oc \<longrightarrow> obj_of s' c = obj_of s c"
      by (simp_all add: obj_of_def defs new(6))
  qed
  have "links_ok (hn s) ((hq s)(h := hq s h @ [oc])) (on s) ((oq s)(p := oq s p @ [oc])) (op_of s) PC"
  proof (rule links_ok_add [OF l h p new(2)])
    show "pool_ok (insert oc (queued (hn s) (hq s))) PC" unfolding PC_def by (rule pool_ok_update [OF new(3)]) simp
    show "\<forall>b. b \<noteq> oc \<longrightarrow> pl_heap PC b = pl_heap (ocs s) b" using new(6) by (simp add: PC_def)
    show "pl_heap PC oc = Some (y\<lparr>oc_objcore := Some (op_of s p), oc_hashhead := Some h\<rparr>)" by (simp add: PC_def)
  qed simp_all
  moreover have "hash_ok (hashtree s') PH"
    unfolding hash_ok_def PH_def
    by (rule table_ok_update [where x = x]) (use tabs(1) x h in \<open>simp_all add: hash_ok_def hn_def s'_def s3_def\<close>)
  moreover have "och_ok (octree s') PO"
    unfolding och_ok_def PO_def
    by (rule table_ok_update [where x = z]) (use tabs(2) z p in \<open>simp_all add: och_ok_def on_def s'_def s3_def\<close>)
  moreover have "fresh n PH" unfolding PH_def
    by (rule fresh_update [OF fresh_mono [OF f'(1) new(5)]]) (simp add: x(1) domI)
  moreover have "fresh n PO" unfolding PO_def
    by (rule fresh_update [OF fresh_mono [OF f'(2) new(5)]]) (simp add: z(1) domI)
  moreover have "fresh n PC" unfolding PC_def
    by (rule fresh_update [OF new(4)]) (simp add: new(7) domI)
  moreover have "chains_ok (on s') (oq s') (list_ochead s') (set (pl_list (ocs s')))"
    using L(2) unfolding v(2,5) by (simp add: s'_def PC_def)
  ultimately have "xk_str s'" using v by (simp add: xk_str_def) (simp add: s'_def s3_def)
  moreover have "xkey_oc_new s = Inr (oc, s3)" using new(1) by (simp add: xkey_oc_new_def s3_def)
  moreover have "pl_heap (ocheads s3) p = Some z" using z(1) by (simp add: s3_def)
  moreover have "list_ochead_insert_tail (pl_heap (ocs s3)) p (oh_ocs z) oc (list_ochead s3) = Inr L"
    using L(1) z(1) by (simp add: s3_def oq_def)
  moreover have "upd p (\<lambda>x. x\<lparr>oh_ocs := oh_ocs x @ [oc]\<rparr>) (ocheads s3) = Inr PO"
    "upd h (\<lambda>x. x\<lparr>hh_ocs := hh_ocs x @ [oc]\<rparr>) (hashheads s3) = Inr PH"
    "upd oc (\<lambda>x. x\<lparr>oc_objcore := Some (op_of s p), oc_hashhead := Some h\<rparr>) (ocs s3) = Inr PC"
    using x z new(7) by (simp_all add: upd_def s3_def PO_def PH_def PC_def)
  moreover have "xk_n_init s' = xk_n_init s" "xkey_cb_handle s' = xkey_cb_handle s" by (simp_all add: s'_def s3_def)
  ultimately show ?thesis using v new(2) s'_def by blast
qed

lemma xkey_insert_correct:
  assumes s: "xk_inv s" and o': "o' \<noteq> 0" and d: "length d = DIGEST_LEN"
  shows "\<exists>s'. xkey_insert o' d s = Inr s' \<and> xk_inv s' \<and>
    (\<forall>d'. length d' = DIGEST_LEN \<longrightarrow> tags s' d' = (if d' = d then tags s d @ [o'] else tags s d')) \<and>
    xk_n_init s' = xk_n_init s \<and> xkey_cb_handle s' = xkey_cb_handle s"
proof -
  obtain p h s1 s2 where a: "xkey_octree_insert o' s = Inr (p, s1)" "xkey_hashtree_insert d s1 = Inr (h, s2)" "xk_str s2"
    "hn s2 = insert h (hn s)" "on s2 = insert p (on s)" "hd_of s2 h = d" "op_of s2 p = o'"
    "\<forall>g \<in> hn s. hq s2 g = hq s g \<and> hd_of s2 g = hd_of s g" "h \<notin> hn s \<longrightarrow> hq s2 h = []" "\<forall>g \<in> on s. oq s2 g = oq s g"
    "ocs s2 = ocs s" "xk_n_init s2 = xk_n_init s" "xkey_cb_handle s2 = xkey_cb_handle s"
    using insert_heads [OF s o' d] by blast
  have "h \<in> hn s2" "p \<in> on s2" using a(4,5) by auto
  from append_pair [OF a(3) this] obtain oc s3 z L PO PH PC s' where
    b: "xkey_oc_new s2 = Inr (oc, s3)" "upd p (\<lambda>x. x\<lparr>oh_ocs := oh_ocs x @ [oc]\<rparr>) (ocheads s3) = Inr PO"
    "upd h (\<lambda>x. x\<lparr>hh_ocs := hh_ocs x @ [oc]\<rparr>) (hashheads s3) = Inr PH"
    "upd oc (\<lambda>x. x\<lparr>oc_objcore := Some o', oc_hashhead := Some h\<rparr>) (ocs s3) = Inr PC"
    "s' = s3\<lparr>ocheads := PO, hashheads := PH, ocs := PC, list_ochead := L\<rparr>" "xk_str s'" "hn s' = hn s2" "on s' = on s2"
    "hd_of s' = hd_of s2" "hq s' = (hq s2)(h := hq s2 h @ [oc])" "oq s' = (oq s2)(p := oq s2 p @ [oc])"
    "obj_of s' oc = o'" "oc \<notin> queued (hn s2) (hq s2)" "\<forall>c. c \<noteq> oc \<longrightarrow> obj_of s' c = obj_of s2 c"
    "xk_n_init s' = xk_n_init s2" "xkey_cb_handle s' = xkey_cb_handle s2" "pl_heap (ocheads s3) p = Some z"
    "list_ochead_insert_tail (pl_heap (ocs s3)) p (oh_ocs z) oc (list_ochead s3) = Inr L"
    unfolding a(7) by blast
  have run: "xkey_insert o' d s = Inr s'" using a(1,2) b(1-5,17,18) d by (simp add: xkey_insert_def)
  have "\<forall>g \<in> hn s'. hq s' g \<noteq> []" "\<forall>g \<in> on s'. oq s' g \<noteq> []"
    using s a(4,5,8,10) b(7,8,10,11) by (auto simp: xk_inv_def)
  then have i': "xk_inv s'" using b(6) by (simp add: xk_inv_def)
  have st: "xk_str s" using s by (simp add: xk_inv_def)
  have old: "map (obj_of s') (hq s g) = map (obj_of s) (hq s g)" if g: "g \<in> hn s" for g
  proof -
    have "hq s g = hq s2 g" "g \<in> hn s2" using that a(4,8) by auto
    then have "oc \<notin> set (hq s g)" using b(13) by (auto simp: queued_def)
    then show ?thesis using b(14) a(11) by (auto simp: obj_of_def)
  qed
  have "tags s' d' = (if d' = d then tags s d @ [o'] else tags s d')" if d': "length d' = DIGEST_LEN" for d'
  proof (cases "d' = d")
    case True
    have "tags s' d = map (obj_of s') (hq s2 h @ [oc])"
      using tags_at [OF b(6), of h] a(4,6) b(7,9,10) by simp
    also have "\<dots> = map (obj_of s') (hq s2 h) @ [o']" by (simp add: b(12))
    also have "map (obj_of s') (hq s2 h) = tags s d"
    proof (cases "h \<in> hn s")
      case True
      with tags_at [OF st True] old [OF True] a(6,8) show ?thesis by simp
    next
      case False
      have "d \<notin> hd_of s ` hn s"
      proof
        assume "d \<in> hd_of s ` hn s"
        then obtain g where g: "g \<in> hn s" "hd_of s2 g = d" using a(8) by auto
        with hd_of_inj [OF a(3)] a(4,6) have "g = h" by (auto simp: inj_on_def)
        with g(1) False show False by simp
      qed
      with tags_none [OF st d] a(9) False show ?thesis by simp
    qed
    finally show ?thesis using True by simp
  next
    case False
    show ?thesis
    proof (cases "d' \<in> hd_of s ` hn s")
      case True
      then obtain g where g: "g \<in> hn s" "hd_of s g = d'" by auto
      have gh: "g \<noteq> h" using g a(6,8) False by auto
      have "tags s' d' = map (obj_of s') (hq s g)"
        using tags_at [OF b(6), of g] g a(4,8) b(7,9,10) gh by simp
      also have "\<dots> = tags s d'" using tags_at [OF st g(1)] old [OF g(1)] g(2) by simp
      finally show ?thesis using False by simp
    next
      case out: False
      then have "d' \<notin> hd_of s' ` hn s'" using a(4,6,8) b(7,9) False by auto
      with tags_none [OF b(6) d'] tags_none [OF st d' out] False show ?thesis by simp
    qed
  qed
  with run i' a(12,13) b(15,16) show ?thesis by simp
qed

section \<open>Removal\<close>

lemma table_remove:
  assumes tab: "table_ok key q good t P" and a: "a \<in> set (inorder t)" and x: "q x = []"
  shows "\<exists>t'. VRB_REMOVE a t = Some t' \<and> set (inorder t') = set (inorder t) - {a} \<and>
    table_ok key q good t' (pool_delete a x P)"
proof -
  have ix: "index_ok (key_at key P) t" and po: "pool_ok (set (inorder t)) P" using tab by (simp_all add: table_ok_def)
  obtain t' where t': "VRB_REMOVE a t = Some t'" "index_ok (key_at key P) t'" "set (inorder t') = set (inorder t) - {a}"
    using vrb.remove_correct [OF ix a] by blast
  note d = pool_delete_correct [OF po a, where x = x]
  have same: "pl_heap (pool_delete a x P) b = pl_heap P b" if "b \<in> set (inorder t')" for b
    using that t'(3) by (intro d(3)) auto
  have "index_ok (key_at key (pool_delete a x P)) t'"
    by (rule index_ok_cong [OF _ t'(2)]) (simp add: key_at_def same)
  moreover have "\<forall>b \<in> set (pl_list (pool_delete a x P)). q (the (pl_heap (pool_delete a x P) b)) = []"
  proof
    fix b assume b: "b \<in> set (pl_list (pool_delete a x P))"
    show "q (the (pl_heap (pool_delete a x P) b)) = []"
    proof (cases "b = a")
      case True
      with d(5) b x show ?thesis by simp
    next
      case False
      then have "b \<in> set (pl_list P)" using d(4) b by blast
      with False d(3) [of b] tab show ?thesis by (simp add: table_ok_def)
    qed
  qed
  moreover have "\<forall>b \<in> set (inorder t'). good (the (pl_heap (pool_delete a x P) b))"
    using tab same t'(3) by (simp add: table_ok_def)
  ultimately show ?thesis using t' d(1) by (auto simp: table_ok_def)
qed

text \<open>The pair goes out of its hashhead's queue, and an empty hashhead out of the tree.\<close>

lemma leave_hashhead:
  assumes s: "hash_ok (hashtree s) (hashheads s)" "fresh (xk_next s) (hashheads s)" and h: "h \<in> hn s"
    and s1_def: "s1 = s\<lparr>ocs := C\<rparr>"
  shows "\<exists>PH y s2. upd h (\<lambda>y. y\<lparr>hh_ocs := remove1 oc (hh_ocs y)\<rparr>) (hashheads s) = Inr PH \<and> pl_heap PH h = Some y \<and>
    (if hh_ocs y = [] then
       (case VRB_REMOVE h (hashtree s) of None \<Rightarrow> Inl NullDeref
        | Some t \<Rightarrow> xkey_hashhead_delete h (s1\<lparr>hashheads := PH, hashtree := t\<rparr>))
     else Inr (s1\<lparr>hashheads := PH\<rparr>)) = Inr s2 \<and>
    hash_ok (hashtree s2) (hashheads s2) \<and> fresh (xk_next s) (hashheads s2) \<and>
    hn s2 = (if remove1 oc (hq s h) = [] then hn s - {h} else hn s) \<and>
    (\<forall>g \<in> hn s2. hd_of s2 g = hd_of s g \<and> hq s2 g = ((hq s)(h := remove1 oc (hq s h))) g) \<and>
    s2 = s\<lparr>ocs := C, hashtree := hashtree s2, hashheads := hashheads s2\<rparr>"
proof -
  have tab: "table_ok hh_digest hh_ocs (\<lambda>x. length (hh_digest x) = DIGEST_LEN) (hashtree s) (hashheads s)"
    using s(1) by (simp add: hash_ok_def)
  obtain y0 where y0: "pl_heap (hashheads s) h = Some y0" "length (hh_digest y0) = DIGEST_LEN"
    using table_node [OF tab] h by (auto simp: hn_def)
  let ?y = "y0\<lparr>hh_ocs := remove1 oc (hh_ocs y0)\<rparr>"
  define PH where "PH = (hashheads s)\<lparr>pl_heap := (pl_heap (hashheads s))(h \<mapsto> ?y)\<rparr>"
  have up: "upd h (\<lambda>y. y\<lparr>hh_ocs := remove1 oc (hh_ocs y)\<rparr>) (hashheads s) = Inr PH" "pl_heap PH h = Some ?y"
    using y0 by (simp_all add: upd_def PH_def)
  have hqh: "hq s h = hh_ocs y0" by (simp add: hq_def y0)
  have tab1: "table_ok hh_digest hh_ocs (\<lambda>x. length (hh_digest x) = DIGEST_LEN) (hashtree s) PH"
    unfolding PH_def by (rule table_ok_update [OF tab _ y0(1)]) (use h y0 in \<open>simp_all add: hn_def\<close>)
  have f1: "fresh (xk_next s) PH" unfolding PH_def by (rule fresh_update [OF s(2)]) (simp add: y0(1) domI)
  show ?thesis
  proof (cases "hh_ocs ?y = []")
    case False
    define s2 where "s2 = s1\<lparr>hashheads := PH\<rparr>"
    have "hn s2 = hn s" "\<forall>g. hd_of s2 g = hd_of s g \<and> hq s2 g = ((hq s)(h := remove1 oc (hq s h))) g"
      using y0(1) by (auto simp: hn_def hd_of_def hq_def s2_def s1_def PH_def)
    moreover have "hash_ok (hashtree s2) (hashheads s2)" using tab1 by (simp add: hash_ok_def s2_def s1_def)
    moreover have "s2 = s\<lparr>ocs := C, hashtree := hashtree s2, hashheads := hashheads s2\<rparr>" by (simp add: s2_def s1_def)
    moreover have "fresh (xk_next s) (hashheads s2)" using f1 by (simp add: s2_def)
    ultimately show ?thesis using up False hqh
      by (intro exI [of _ PH] exI [of _ ?y] exI [of _ s2]) (simp add: s2_def)
  next
    case True
    let ?z = "?y\<lparr>hh_digest := replicate DIGEST_LEN 0\<rparr>"
    have "hh_ocs ?z = []" using True by simp
    from table_remove [OF tab1 h [unfolded hn_def] this] obtain t' where t': "VRB_REMOVE h (hashtree s) = Some t'"
      "set (inorder t') = set (inorder (hashtree s)) - {h}"
      "table_ok hh_digest hh_ocs (\<lambda>x. length (hh_digest x) = DIGEST_LEN) t' (pool_delete h ?z PH)" by blast
    define s2 where "s2 = s1\<lparr>hashtree := t', hashheads := pool_delete h ?z PH\<rparr>"
    have po: "pool_ok (set (inorder (hashtree s))) PH" using tab1 by (simp add: table_ok_def)
    note d = pool_delete_correct [OF po h [unfolded hn_def], where x = ?z]
    have "hn s2 = hn s - {h}" using t'(2) by (simp add: hn_def s2_def)
    moreover have "\<forall>g \<in> hn s - {h}. hd_of s2 g = hd_of s g \<and> hq s2 g = ((hq s)(h := remove1 oc (hq s h))) g"
      using d(3) by (auto simp: hd_of_def hq_def s2_def PH_def)
    moreover have "xkey_hashhead_delete h (s1\<lparr>hashheads := PH, hashtree := t'\<rparr>) = Inr s2"
      using up(2) True by (simp add: xkey_hashhead_delete_def s2_def)
    moreover have "s2 = s\<lparr>ocs := C, hashtree := hashtree s2, hashheads := hashheads s2\<rparr>" by (simp add: s2_def s1_def)
    moreover have "hash_ok (hashtree s2) (hashheads s2)" "fresh (xk_next s) (hashheads s2)"
      using t'(3) d(2) [OF f1] by (simp_all add: hash_ok_def s2_def)
    ultimately show ?thesis using up True hqh t'(1)
      by (intro exI [of _ PH] exI [of _ ?y] exI [of _ s2]) (simp add: s1_def)
  qed
qed

text \<open>The queue of a digest, as \<open>xkey_oc\<close>s.\<close>

definition qd :: "xkey_state \<Rightarrow> digest \<Rightarrow> addr list" where
  "qd s d = (case xkey_hashtree_lookup d s of None \<Rightarrow> [] | Some h \<Rightarrow> hq s h)"

lemma tags_qd: "tags s d = map (obj_of s) (qd s d)"
  by (simp add: tags_def qd_def split: option.splits)

lemma qd_at: "xk_str s \<Longrightarrow> h \<in> hn s \<Longrightarrow> qd s (hd_of s h) = hq s h"
proof -
  assume s: "xk_str s" and h: "h \<in> hn s"
  then have "length (hd_of s h) = DIGEST_LEN" using hash_node by (fastforce simp: hd_of_def)
  with hashtree_lookup_iff [OF s this, of h] h show ?thesis by (simp add: qd_def)
qed

lemma qd_none: "xk_str s \<Longrightarrow> length d = DIGEST_LEN \<Longrightarrow> d \<notin> hd_of s ` hn s \<Longrightarrow> qd s d = []"
  using hashtree_lookup_iff [of s d] by (auto simp: qd_def split: option.splits)

lemma qd_queued: "xk_str s \<Longrightarrow> length d = DIGEST_LEN \<Longrightarrow> set (qd s d) \<subseteq> queued (hn s) (hq s)"
proof (cases "xkey_hashtree_lookup d s")
  case (Some h)
  moreover assume "xk_str s" "length d = DIGEST_LEN"
  ultimately have "h \<in> hn s" using hashtree_lookup_iff [of s d h] by simp
  with Some show ?thesis by (auto simp: qd_def queued_def)
qed (simp add: qd_def)

lemma xkey_remove_step_correct:
  assumes s: "xk_str s" and ne: "\<forall>h \<in> hn s. hq s h \<noteq> []" and p: "p \<in> on s" and first: "oq s p = oc # q"
  shows "\<exists>s'. xkey_remove_step p oc s = Inr s' \<and> xk_str s' \<and> (\<forall>h \<in> hn s'. hq s' h \<noteq> []) \<and>
    octree s' = octree s \<and> oq s' = (oq s)(p := remove1 oc (oq s p)) \<and> op_of s' = op_of s \<and>
    (\<forall>c. c \<noteq> oc \<longrightarrow> obj_of s' c = obj_of s c) \<and>
    (\<forall>d. length d = DIGEST_LEN \<longrightarrow> qd s' d = remove1 oc (qd s d)) \<and>
    xk_n_init s' = xk_n_init s \<and> xkey_cb_handle s' = xkey_cb_handle s"
proof -
  have st: "hash_ok (hashtree s) (hashheads s)" "och_ok (octree s) (ocheads s)" "fresh (xk_next s) (hashheads s)"
    "fresh (xk_next s) (ocheads s)" "fresh (xk_next s) (ocs s)" and l: "links_ok (hn s) (hq s) (on s) (oq s) (op_of s) (ocs s)"
    and ch: "chains_ok (on s) (oq s) (list_ochead s) (set (pl_list (ocs s)))"
    using s by (simp_all add: xk_str_def)
  have oc: "oc \<in> set (oq s p)" by (simp add: first)
  then have "oc \<in> queued (hn s) (hq s)" using l p by (auto simp: links_ok_def queued_def)
  then obtain h where h: "h \<in> hn s" "oc \<in> set (hq s h)" by (auto simp: queued_def)
  then obtain x where x: "pl_heap (ocs s) oc = Some x" "oc_hashhead x = Some h" using l unfolding links_ok_def by blast
  have U: "pool_ok (queued (hn s) (hq s)) (ocs s)" "oc \<in> queued (hn s) (hq s)"
    using l h by (auto simp: links_ok_def queued_def)
  let ?C = "(ocs s)\<lparr>pl_heap := (pl_heap (ocs s))(oc \<mapsto> x\<lparr>oc_hashhead := None\<rparr>)\<rparr>"
  obtain PH y s2 where lv: "upd h (\<lambda>y. y\<lparr>hh_ocs := remove1 oc (hh_ocs y)\<rparr>) (hashheads s) = Inr PH" "pl_heap PH h = Some y"
    "(if hh_ocs y = [] then
       (case VRB_REMOVE h (hashtree s) of None \<Rightarrow> Inl NullDeref
        | Some t \<Rightarrow> xkey_hashhead_delete h (s\<lparr>ocs := ?C, hashheads := PH, hashtree := t\<rparr>))
     else Inr (s\<lparr>ocs := ?C, hashheads := PH\<rparr>)) = Inr s2"
    "hash_ok (hashtree s2) (hashheads s2)" "fresh (xk_next s) (hashheads s2)"
    "hn s2 = (if remove1 oc (hq s h) = [] then hn s - {h} else hn s)"
    "\<forall>g \<in> hn s2. hd_of s2 g = hd_of s g \<and> hq s2 g = ((hq s)(h := remove1 oc (hq s h))) g"
    "s2 = s\<lparr>ocs := ?C, hashtree := hashtree s2, hashheads := hashheads s2\<rparr>"
    using leave_hashhead [OF st(1,3) h(1) refl, of oc ?C] by (elim exE conjE) (rule that)
  obtain z where z: "pl_heap (ocheads s) p = Some z" "oh_ptr z \<noteq> 0" using och_node [OF s p] by blast
  let ?x = "x\<lparr>oc_hashhead := None, oc_objcore := None\<rparr>"
  define PC where "PC = (ocs s)\<lparr>pl_heap := (pl_heap (ocs s))(oc \<mapsto> ?x)\<rparr>"
  define PO where "PO = (ocheads s)\<lparr>pl_heap := (pl_heap (ocheads s))(p \<mapsto> z\<lparr>oh_ocs := remove1 oc (oh_ocs z)\<rparr>)\<rparr>"
  have PC: "pool_ok (queued (hn s) (hq s)) PC" "fresh (xk_next s) PC" unfolding PC_def
    by (rule pool_ok_update [OF U]) (rule fresh_update [OF st(5)], simp add: x(1) domI)
  have alive: "pl_heap PC b \<noteq> None" if "b \<in> queued (hn s) (hq s)" for b
    using that PC(1) unfolding pool_ok_def by blast
  have sub: "set (pl_list (pool_delete oc ?x PC)) \<subseteq> insert oc (set (pl_list (ocs s)))"
    using pool_delete_correct(4) [OF PC(1) U(2), of ?x] by (simp add: PC_def)
  have hop: "pl_heap (ocheads s) p \<noteq> None" by (simp add: z(1))
  obtain L where L: "list_ochead_remove (pl_heap (ocheads s)) (pl_heap PC) oc (list_ochead s) = Inr L"
    "chains_ok (on s) ((oq s)(p := q)) L (set (pl_list (pool_delete oc ?x PC)))"
    using chains_drop [where h = "pl_heap PC" and ho = "pl_heap (ocheads s)", OF l op_of_inj [OF s] ch p first alive hop sub] by blast
  define s' where "s' = s2\<lparr>ocs := pool_delete oc ?x PC, ocheads := PO, list_ochead := L\<rparr>"
  have s2: "ocs s2 = ?C" "ocheads s2 = ocheads s" "octree s2 = octree s" "xk_next s2 = xk_next s"
    "xk_n_init s2 = xk_n_init s" "xkey_cb_handle s2 = xkey_cb_handle s" "list_ochead s2 = list_ochead s"
    by (subst lv(8), simp)+
  have ups: "upd oc (\<lambda>x. x\<lparr>oc_objcore := None\<rparr>) (ocs s2) = Inr PC"
    "list_ochead_remove (pl_heap (ocheads s2)) (pl_heap PC) oc (list_ochead s2) = Inr L"
    "upd p (\<lambda>z. z\<lparr>oh_ocs := remove1 oc (oh_ocs z)\<rparr>) (ocheads s2) = Inr PO"
    "xkey_oc_delete oc (s2\<lparr>ocs := PC, ocheads := PO, list_ochead := L\<rparr>) = Inr s'"
    using L(1) by (simp_all add: s2 upd_def PC_def PO_def z(1) xkey_oc_delete_def s'_def)
  have "xkey_remove_step p oc s = res_bind
    (if hh_ocs y = [] then
       (case VRB_REMOVE h (hashtree s) of None \<Rightarrow> Inl NullDeref
        | Some t \<Rightarrow> xkey_hashhead_delete h (s\<lparr>ocs := ?C, hashheads := PH, hashtree := t\<rparr>))
     else Inr (s\<lparr>ocs := ?C, hashheads := PH\<rparr>))
    (\<lambda>s2. res_bind (upd oc (\<lambda>x. x\<lparr>oc_objcore := None\<rparr>) (ocs s2)) (\<lambda>PC.
      res_bind (list_ochead_remove (pl_heap (ocheads s2)) (pl_heap PC) oc (list_ochead s2)) (\<lambda>L.
      res_bind (upd p (\<lambda>z. z\<lparr>oh_ocs := remove1 oc (oh_ocs z)\<rparr>) (ocheads s2)) (\<lambda>PO.
      xkey_oc_delete oc (s2\<lparr>ocs := PC, ocheads := PO, list_ochead := L\<rparr>)))))"
    by (simp add: xkey_remove_step_def x lv(1,2) Let_def)
  then have run: "xkey_remove_step p oc s = Inr s'" unfolding lv(3) by (simp add: ups)
  note d = pool_delete_correct [OF PC(1) U(2), where x = ?x]
  have views: "hn s' = hn s2" "hd_of s' = hd_of s2" "hq s' = hq s2" "on s' = on s" "octree s' = octree s"
    by (simp_all add: s'_def hn_def hd_of_def hq_def on_def s2 fun_eq_iff)
  have views2: "oq s' = (oq s)(p := remove1 oc (oq s p))" "op_of s' = op_of s"
    using z(1) by (auto simp: oq_def op_of_def s'_def PO_def)
  have off: "pl_heap (pool_delete oc ?x PC) b = pl_heap (ocs s) b" if "b \<noteq> oc" for b
    using d(3) [OF that] that by (simp add: PC_def)
  have obj: "\<forall>c. c \<noteq> oc \<longrightarrow> obj_of s' c = obj_of s c" using off by (simp add: obj_of_def s'_def)
  have "links_ok (hn s') ((hq s)(h := remove1 oc (hq s h))) (on s) ((oq s)(p := remove1 oc (oq s p))) (op_of s) (pool_delete oc ?x PC)"
    unfolding views(1) by (rule links_ok_drop [OF l h p oc d(1) _ lv(6) op_of_inj [OF s]]) (use off in simp)
  then have "links_ok (hn s') (hq s') (on s') (oq s') (op_of s') (ocs s')"
    using links_ok_cong [of "hn s'" "hq s'" "(hq s)(h := remove1 oc (hq s h))" "on s'" "oq s'" "oq s'" "op_of s'" "op_of s'"]
      lv(7) views views2 by (simp add: s'_def)
  moreover have "och_ok (octree s') PO" unfolding och_ok_def PO_def
    by (rule table_ok_update [where x = z]) (use st(2) z p views(5) in \<open>simp_all add: och_ok_def on_def\<close>)
  moreover have "fresh (xk_next s) PO" unfolding PO_def by (rule fresh_update [OF st(4)]) (simp add: z(1) domI)
  moreover have "chains_ok (on s') (oq s') (list_ochead s') (set (pl_list (ocs s')))"
    using L(2) first unfolding views(4) views2(1) by (simp add: s'_def)
  ultimately have str: "xk_str s'" using lv(4,5) d(2) [OF PC(2)] s2(4) by (simp add: xk_str_def s'_def)
  have ne': "\<forall>g \<in> hn s'. hq s' g \<noteq> []" using ne lv(6,7) views by (auto split: if_splits)
  have "qd s' e = remove1 oc (qd s e)" if e: "length e = DIGEST_LEN" for e
  proof (cases "e \<in> hd_of s ` hn s")
    case True
    then obtain g where g: "g \<in> hn s" "hd_of s g = e" by auto
    have qg: "qd s e = hq s g" using qd_at [OF s g(1)] g(2) by simp
    have r: "remove1 oc (hq s g) = ((hq s)(h := remove1 oc (hq s h))) g"
    proof (cases "g = h")
      case False
      then have "oc \<notin> set (hq s g)" using l g(1) x unfolding links_ok_def by (metis option.inject)
      with False show ?thesis by (simp add: remove1_idem)
    qed simp
    show ?thesis
    proof (cases "g \<in> hn s'")
      case True
      with qd_at [OF str True] lv(7) views g qg r show ?thesis by simp
    next
      case False
      then have "g = h" "remove1 oc (hq s h) = []" using g lv(6) views by (auto split: if_splits)
      moreover have "e \<notin> hd_of s' ` hn s'"
      proof
        assume "e \<in> hd_of s' ` hn s'"
        then obtain k where k: "k \<in> hn s'" "hd_of s k = e" using lv(7) views by auto
        then have "k \<in> hn s" using lv(6) views by (auto split: if_splits)
        with hd_of_inj [OF s] g k have "k = g" by (auto simp: inj_on_def)
        with k False show False by simp
      qed
      ultimately show ?thesis using qd_none [OF str e] qg by simp
    qed
  next
    case False
    have "hn s' \<subseteq> hn s" using lv(6) views by auto
    then have "e \<notin> hd_of s' ` hn s'" using False lv(7) views by (auto simp: image_iff)
    with qd_none [OF str e] qd_none [OF s e False] show ?thesis by simp
  qed
  with run str ne' views views2 obj s2(5,6) show ?thesis by (auto simp: s'_def)
qed

lemma qd_distinct: "xk_str s \<Longrightarrow> length d = DIGEST_LEN \<Longrightarrow> distinct (qd s d)"
proof (cases "xkey_hashtree_lookup d s")
  case (Some h)
  moreover assume s: "xk_str s" "length d = DIGEST_LEN"
  ultimately have "h \<in> hn s" using hashtree_lookup_iff [of s d h] by simp
  with Some s(1) show ?thesis by (simp add: qd_def xk_str_def links_ok_def)
qed (simp add: qd_def)

lemma xkey_remove_loop_correct:
  assumes "xk_str s" "\<forall>h \<in> hn s. hq s h \<noteq> []" "p \<in> on s" "oq s p = q"
  shows "\<exists>s'. xkey_remove_loop p q s = Inr s' \<and> xk_str s' \<and> (\<forall>h \<in> hn s'. hq s' h \<noteq> []) \<and>
    octree s' = octree s \<and> oq s' = (oq s)(p := []) \<and> op_of s' = op_of s \<and>
    (\<forall>c. c \<notin> set q \<longrightarrow> obj_of s' c = obj_of s c) \<and>
    (\<forall>d. length d = DIGEST_LEN \<longrightarrow> qd s' d = filter (\<lambda>c. c \<notin> set q) (qd s d)) \<and>
    xk_n_init s' = xk_n_init s \<and> xkey_cb_handle s' = xkey_cb_handle s"
  using assms
proof (induction q arbitrary: s)
  case Nil
  then have "oq s = (oq s)(p := [])" by (simp add: fun_eq_iff)
  with Nil show ?case by simp
next
  case (Cons oc q)
  from xkey_remove_step_correct [OF Cons.prems(1-4)] obtain s1 where
    s1: "xkey_remove_step p oc s = Inr s1" "xk_str s1" "\<forall>h \<in> hn s1. hq s1 h \<noteq> []" "octree s1 = octree s"
    "oq s1 = (oq s)(p := remove1 oc (oq s p))" "op_of s1 = op_of s" "\<forall>c. c \<noteq> oc \<longrightarrow> obj_of s1 c = obj_of s c"
    "\<forall>d. length d = DIGEST_LEN \<longrightarrow> qd s1 d = remove1 oc (qd s d)"
    "xk_n_init s1 = xk_n_init s" "xkey_cb_handle s1 = xkey_cb_handle s" by blast
  have "p \<in> on s1" "oq s1 p = q" using Cons.prems(3,4) s1(4,5) by (simp_all add: on_def)
  from Cons.IH [OF s1(2,3) this] obtain s' where
    s': "xkey_remove_loop p q s1 = Inr s'" "xk_str s'" "\<forall>h \<in> hn s'. hq s' h \<noteq> []" "octree s' = octree s1"
    "oq s' = (oq s1)(p := [])" "op_of s' = op_of s1" "\<forall>c. c \<notin> set q \<longrightarrow> obj_of s' c = obj_of s1 c"
    "\<forall>d. length d = DIGEST_LEN \<longrightarrow> qd s' d = filter (\<lambda>c. c \<notin> set q) (qd s1 d)"
    "xk_n_init s' = xk_n_init s1" "xkey_cb_handle s' = xkey_cb_handle s1" by blast
  have "qd s' d = filter (\<lambda>c. c \<notin> set (oc # q)) (qd s d)" if "length d = DIGEST_LEN" for d
  proof -
    have "qd s1 d = filter (\<lambda>c. oc \<noteq> c) (qd s d)"
      using s1(8) that qd_distinct [OF Cons.prems(1) that]
      by (simp add: distinct_remove1_removeAll removeAll_filter_not_eq)
    then have "qd s' d = filter (\<lambda>c. oc \<noteq> c \<and> c \<notin> set q) (qd s d)" using s'(8) that by simp
    also have "\<dots> = filter (\<lambda>c. c \<notin> set (oc # q)) (qd s d)" by (rule filter_cong) auto
    finally show ?thesis .
  qed
  with s1 s' show ?case by auto
qed

lemma obj_of_queue:
  assumes "xk_str s" "p \<in> on s" "c \<in> queued (hn s) (hq s)"
  shows "obj_of s c = op_of s p \<longleftrightarrow> c \<in> set (oq s p)"
proof -
  have l: "links_ok (hn s) (hq s) (on s) (oq s) (op_of s) (ocs s)" using assms(1) by (simp add: xk_str_def)
  then have "c \<in> queued (on s) (oq s)" using assms(3) by (simp add: links_ok_def)
  then obtain r where r: "r \<in> on s" "c \<in> set (oq s r)" by (auto simp: queued_def)
  have at: "obj_of s c = op_of s g" if "g \<in> on s" "c \<in> set (oq s g)" for g
    using l that unfolding links_ok_def obj_of_def by (metis option.sel)
  show ?thesis
  proof
    assume "obj_of s c = op_of s p"
    with at [OF r] op_of_inj [OF assms(1)] assms(2) r(1) have "r = p" by (auto simp: inj_on_def)
    with r show "c \<in> set (oq s p)" by simp
  qed (rule at [OF assms(2)])
qed

lemma xkey_remove_correct:
  assumes s: "xk_inv s" and p: "p \<in> on s"
  shows "\<exists>s'. xkey_remove p s = Inr s' \<and> xk_inv s' \<and>
    (\<forall>d. length d = DIGEST_LEN \<longrightarrow> tags s' d = filter (\<lambda>x. x \<noteq> op_of s p) (tags s d)) \<and>
    xk_n_init s' = xk_n_init s \<and> xkey_cb_handle s' = xkey_cb_handle s"
proof -
  have st: "xk_str s" "\<forall>h \<in> hn s. hq s h \<noteq> []" using s by (simp_all add: xk_inv_def)
  obtain z where z: "pl_heap (ocheads s) p = Some z" using och_node [OF st(1) p] by blast
  obtain s1 where s1: "xkey_remove_loop p (oq s p) s = Inr s1" "xk_str s1" "\<forall>h \<in> hn s1. hq s1 h \<noteq> []" "octree s1 = octree s"
    "oq s1 = (oq s)(p := [])" "op_of s1 = op_of s" "\<forall>c. c \<notin> set (oq s p) \<longrightarrow> obj_of s1 c = obj_of s c"
    "\<forall>d. length d = DIGEST_LEN \<longrightarrow> qd s1 d = filter (\<lambda>c. c \<notin> set (oq s p)) (qd s d)"
    "xk_n_init s1 = xk_n_init s" "xkey_cb_handle s1 = xkey_cb_handle s"
    using xkey_remove_loop_correct [OF st p refl] by blast
  have p1: "p \<in> on s1" using p s1(4) by (simp add: on_def)
  obtain z1 where z1: "pl_heap (ocheads s1) p = Some z1" using och_node [OF s1(2) p1] by blast
  have e: "oh_ocs z1 = []" using s1(5) z1 by (simp add: oq_def fun_eq_iff) (metis option.sel)
  have tab: "table_ok oh_ptr oh_ocs (\<lambda>x. oh_ptr x \<noteq> 0) (octree s1) (ocheads s1)" using s1(2) by (simp add: xk_str_def och_ok_def)
  let ?z = "z1\<lparr>oh_ptr := 0\<rparr>"
  have "oh_ocs ?z = []" using e by simp
  from table_remove [OF tab p1 [unfolded on_def] this] obtain t where t: "VRB_REMOVE p (octree s1) = Some t"
    "set (inorder t) = set (inorder (octree s1)) - {p}"
    "table_ok oh_ptr oh_ocs (\<lambda>x. oh_ptr x \<noteq> 0) t (pool_delete p ?z (ocheads s1))" by blast
  define s' where "s' = s1\<lparr>octree := t, ocheads := pool_delete p ?z (ocheads s1)\<rparr>"
  have run: "xkey_remove p s = Inr s'"
    using z s1(1) z1 e t(1) by (simp add: xkey_remove_def oq_def xkey_ochead_delete_def s'_def)
  have po: "pool_ok (set (inorder (octree s1))) (ocheads s1)" using tab by (simp add: table_ok_def)
  note d = pool_delete_correct [OF po p1 [unfolded on_def], where x = ?z]
  have v: "hn s' = hn s1" "hq s' = hq s1" "hd_of s' = hd_of s1" "obj_of s' = obj_of s1" "on s' = on s1 - {p}" "hashtree s' = hashtree s1"
    "ocs s' = ocs s1" "hashheads s' = hashheads s1"
    using t(2) by (auto simp: xk_views s'_def fun_eq_iff)
  have w: "oq s' g = oq s1 g \<and> op_of s' g = op_of s1 g" if "g \<noteq> p" for g using d(3) [OF that] by (simp add: oq_def op_of_def s'_def)
  have l1: "links_ok (hn s1) (hq s1) (on s1) (oq s1) (op_of s1) (ocs s1)" using s1(2) by (simp add: xk_str_def)
  have "queued (on s1) (oq s1) = set (oq s1 p) \<union> queued (on s1 - {p}) (oq s1)"
    using p1 queued_insert [of p "on s1 - {p}" "oq s1"] by (simp add: insert_absorb)
  then have "queued (on s1 - {p}) (oq s1) = queued (on s1) (oq s1)" using s1(5) by simp
  with l1 have "links_ok (hn s') (hq s') (on s') (oq s1) (op_of s1) (ocs s')" by (simp add: links_ok_def v)
  then have "links_ok (hn s') (hq s') (on s') (oq s') (op_of s') (ocs s')"
    using links_ok_cong [of "hn s'" "hq s'" "hq s'" "on s'" "oq s'" "oq s1" "op_of s'" "op_of s1"] w v(5) by auto
  moreover have "chains_ok (on s') (oq s') (list_ochead s') (set (pl_list (ocs s')))"
  proof -
    have "chains_ok (on s1) (oq s1) (list_ochead s1) (set (pl_list (ocs s1)))" using s1(2) by (simp add: xk_str_def)
    then have "chains_ok (on s1 - {p}) (oq s1) (list_ochead s1) (set (pl_list (ocs s1)))" by (simp add: chains_ok_def)
    moreover have "list_ochead s' = list_ochead s1" by (simp add: s'_def)
    ultimately show ?thesis using chains_cong [of "on s1 - {p}" "oq s'" "oq s1"] w unfolding v by auto
  qed
  ultimately have str: "xk_str s'" using s1(2) t(3) d(2) v by (simp add: xk_str_def och_ok_def) (simp add: s'_def)
  have "\<forall>g \<in> on s'. oq s' g \<noteq> []" using s w v(5) s1(4,5) by (auto simp: xk_inv_def on_def)
  then have inv: "xk_inv s'" using str s1(3) v by (simp add: xk_inv_def)
  have "tags s' d = filter (\<lambda>x. x \<noteq> op_of s p) (tags s d)" if dl: "length d = DIGEST_LEN" for d
  proof -
    have "qd s' d = qd s1 d" unfolding qd_def xkey_hashtree_lookup_def v ..
    then have "qd s' d = filter (\<lambda>c. c \<notin> set (oq s p)) (qd s d)" using s1(8) dl by simp
    moreover have kept: "c \<notin> set (oq s p) \<longleftrightarrow> obj_of s c \<noteq> op_of s p" if "c \<in> set (qd s d)" for c
      using obj_of_queue [OF st(1) p] qd_queued [OF st(1) dl] that by auto
    ultimately have q': "qd s' d = filter (\<lambda>c. obj_of s c \<noteq> op_of s p) (qd s d)" by (simp cong: filter_cong)
    have "obj_of s' c = obj_of s c" if "c \<in> set (qd s' d)" for c
      using s1(7) that v(4) kept [of c] by (simp add: q')
    then have "tags s' d = map (obj_of s) (qd s' d)" by (simp add: tags_qd)
    then have "tags s' d = map (obj_of s) (filter (\<lambda>c. obj_of s c \<noteq> op_of s p) (qd s d))" by (simp only: q')
    then show ?thesis by (simp add: tags_qd filter_map comp_def)
  qed
  with run inv s1(9,10) show ?thesis by (auto simp: s'_def)
qed

lemma xkey_cb_remove_correct:
  assumes s: "xk_inv s" and o': "o' \<noteq> 0"
  shows "\<exists>s'. xkey_cb_remove o' s = Inr s' \<and> xk_inv s' \<and>
    (\<forall>d. length d = DIGEST_LEN \<longrightarrow> tags s' d = filter (\<lambda>x. x \<noteq> o') (tags s d)) \<and>
    xk_n_init s' = xk_n_init s \<and> xkey_cb_handle s' = xkey_cb_handle s"
proof -
  have st: "xk_str s" using s by (simp add: xk_inv_def)
  obtain r where r: "xkey_octree_lookup o' s = Inr r" "\<forall>p. r = Some p \<longleftrightarrow> p \<in> on s \<and> op_of s p = o'"
    using octree_lookup_iff [OF st o'] by blast
  show ?thesis
  proof (cases r)
    case (Some p)
    with r have "p \<in> on s" "op_of s p = o'" by auto
    with xkey_remove_correct [OF s this(1)] r(1) Some show ?thesis by (simp add: xkey_cb_remove_def)
  next
    case None
    have "tags s d = filter (\<lambda>x. x \<noteq> o') (tags s d)" if dl: "length d = DIGEST_LEN" for d
    proof -
      have "x \<noteq> o'" if "x \<in> set (tags s d)" for x
      proof
        assume "x = o'"
        with that have "o' \<in> obj_of s ` set (qd s d)" by (simp add: tags_qd)
        then obtain c where c: "c \<in> set (qd s d)" "obj_of s c = o'" by auto
        then have "c \<in> queued (hn s) (hq s)" using qd_queued [OF st dl] by auto
        moreover have l: "links_ok (hn s) (hq s) (on s) (oq s) (op_of s) (ocs s)" using st by (simp add: xk_str_def)
        ultimately have "c \<in> queued (on s) (oq s)" by (simp add: links_ok_def)
        then obtain p where "p \<in> on s" "c \<in> set (oq s p)" by (auto simp: queued_def)
        with obj_of_queue [OF st, of p c] \<open>c \<in> queued (hn s) (hq s)\<close> c(2) r(2) None show False by auto
      qed
      then show ?thesis by (simp add: filter_id_conv)
    qed
    with r(1) None s show ?thesis by (auto simp: xkey_cb_remove_def)
  qed
qed

section \<open>Sequences of events\<close>

lemma xkey_initial_inv: "xk_inv xkey_initial"
  by (simp add: xk_inv_def xk_str_def xkey_initial_def hash_ok_def och_ok_def table_ok_def pool_ok_def empty_pool_def
      index_ok_def rb_tree_def fresh_def links_ok_def chains_ok_def queued_def hn_def on_def POOL_MAX_def)

text \<open>The table of tags and what an event does to it.\<close>

definition tag_one :: "addr \<Rightarrow> digest \<Rightarrow> (digest \<Rightarrow> addr list) \<Rightarrow> digest \<Rightarrow> addr list" where
  "tag_one o' d m = (\<lambda>d'. if d' = d then m d @ [o'] else m d')"

definition line_tokens :: "string \<Rightarrow> string list" where
  "line_tokens sp = (if is_xkey_hdr sp then tok_loop (tl (dropWhile (\<lambda>c. c \<noteq> CHR '':'') sp)) else [])"

fun event_sem :: "(u8 list \<Rightarrow> digest) \<Rightarrow> string list \<Rightarrow> addr \<Rightarrow> exp_event_e \<Rightarrow> (digest \<Rightarrow> addr list) \<Rightarrow> digest \<Rightarrow> addr list" where
  "event_sem sha hdrs o' EXP_REMOVE m = (\<lambda>d. filter (\<lambda>x. x \<noteq> o') (m d))"
| "event_sem sha hdrs o' EXP_OTHER m = m"
| "event_sem sha hdrs o' _ m = fold (\<lambda>t. tag_one o' (sha (bytes_of t))) (concat (map line_tokens hdrs)) m"

definition refines :: "xkey_state \<Rightarrow> (digest \<Rightarrow> addr list) \<Rightarrow> bool" where
  "refines s m \<longleftrightarrow> xk_inv s \<and> (\<forall>d. length d = DIGEST_LEN \<longrightarrow> tags s d = m d)"

lemma insert_tokens_correct:
  assumes "\<And>x. length (sha x) = DIGEST_LEN" "o' \<noteq> 0" "refines s m"
  shows "\<exists>s'. insert_tokens sha o' ts s = Inr s' \<and> refines s' (fold (\<lambda>t. tag_one o' (sha (bytes_of t))) ts m)"
  using assms(3)
proof (induction ts arbitrary: s m)
  case (Cons t ts)
  let ?d = "sha (bytes_of t)"
  have "xk_inv s" using Cons.prems by (simp add: refines_def)
  from xkey_insert_correct [OF this assms(2) assms(1)] obtain s1 where
    s1: "xkey_insert o' ?d s = Inr s1" "xk_inv s1"
    "\<forall>d'. length d' = DIGEST_LEN \<longrightarrow> tags s1 d' = (if d' = ?d then tags s ?d @ [o'] else tags s d')" by blast
  then have "refines s1 (tag_one o' ?d m)" using Cons.prems assms(1) by (simp add: refines_def tag_one_def)
  from Cons.IH [OF this] s1(1) show ?case by simp
qed simp

end
