(* ===== verification/Xkey_Correct.thy ===== *)
theory Xkey_Correct
  imports Xkey
begin

text \<open>
  The surrogate-key module as a whole, on top of the operation lemmas of theory \<open>Xkey\<close>:
  runs of cache events refine the abstract table of tags, the tokeniser is splitting at
  blanks, a purge visits exactly the tagged objects, and what the discard of the last VCL
  does to the index.
\<close>

section \<open>Runs of events\<close>

lemma tolower_colon [simp]: "tolower c = CHR '':'' \<longleftrightarrow> c = CHR '':''"
proof
  assume a: "tolower c = CHR '':''"
  show "c = CHR '':''"
  proof (cases "65 \<le> (of_char c :: nat) \<and> (of_char c :: nat) \<le> 90")
    case True
    then have "tolower c = char_of ((of_char c :: nat) + 32)" by (simp add: tolower_def)
    then have "(of_char (tolower c) :: nat) = (of_char c + 32) mod 256" by (metis of_char_of)
    moreover from True have "(of_char c + 32 :: nat) mod 256 = of_char c + 32" by (intro mod_less) linarith
    moreover have "(of_char (tolower c) :: nat) = 58" unfolding a by simp
    ultimately show ?thesis using True by linarith
  next
    case False
    then have "tolower c = c" by (auto simp: tolower_def Let_def)
    with a show ?thesis by simp
  qed
next
  assume "c = CHR '':''"
  then have "(of_char c :: nat) = 58" by simp
  then show "tolower c = CHR '':''" using \<open>c = CHR '':''\<close> unfolding tolower_def Let_def by simp
qed

lemma strncasecmp_eq_nth:
  "strncasecmp_eq a b n \<Longrightarrow> i < n \<Longrightarrow> i < length b \<Longrightarrow> i < length a \<and> tolower (a ! i) = tolower (b ! i)"
proof (induction a b n arbitrary: i rule: strncasecmp_eq.induct)
  case (3 x a y b n)
  then show ?case by (cases i) auto
qed auto

lemma hdr_colon: "is_xkey_hdr sp \<Longrightarrow> CHR '':'' \<in> set sp"
proof -
  have at: "CHR '':'' \<in> set sp" if "strncasecmp_eq sp b n" "i < n" "i < length b" "b ! i = CHR '':''" for b n i
  proof -
    from strncasecmp_eq_nth [OF that(1-3)] that(4) have "i < length sp" "tolower (sp ! i) = tolower (CHR '':'')" by simp_all
    then have "sp ! i = CHR '':''" using tolower_colon [of "CHR '':''"] tolower_colon [of "sp ! i"] by simp
    then show ?thesis using \<open>i < length sp\<close> by (metis nth_mem)
  qed
  assume "is_xkey_hdr sp"
  then show ?thesis unfolding is_xkey_hdr_def
    using at [of "''xkey:''" 5 4] at [of "''X-HashTwo:''" 10 9] by auto
qed

lemma xkey_cb_insert_correct:
  assumes "\<And>x. length (sha x) = DIGEST_LEN" "o' \<noteq> 0" "refines s m"
  shows "\<exists>s'. xkey_cb_insert sha hdrs o' s = Inr s' \<and>
    refines s' (fold (\<lambda>t. tag_one o' (sha (bytes_of t))) (concat (map line_tokens hdrs)) m)"
  using assms(3)
proof (induction hdrs arbitrary: s m)
  case (Cons sp hdrs)
  show ?case
  proof (cases "is_xkey_hdr sp")
    case False
    with Cons.IH [OF Cons.prems] show ?thesis by (simp add: line_tokens_def)
  next
    case True
    from insert_tokens_correct [where sha = sha, OF assms(1,2) Cons.prems, of "line_tokens sp"] obtain s1 where
      s1: "insert_tokens sha o' (line_tokens sp) s = Inr s1"
      "refines s1 (fold (\<lambda>t. tag_one o' (sha (bytes_of t))) (line_tokens sp) m)" by blast
    from Cons.IH [OF s1(2)] s1(1) True hdr_colon [OF True] show ?thesis
      by (simp add: line_tokens_def strchr_def)
  qed
qed simp

lemma xkey_cb_correct:
  assumes "\<And>x. length (sha x) = DIGEST_LEN" "o' \<noteq> 0" "e \<noteq> EXP_OTHER" "refines s m"
  shows "\<exists>s'. xkey_cb sha hdrs o' e s = Inr s' \<and> refines s' (event_sem sha hdrs o' e m)"
proof (cases "e = EXP_REMOVE")
  case True
  from assms(4) have "xk_inv s" by (simp add: refines_def)
  from xkey_cb_remove_correct [OF this assms(2)] assms(4) True show ?thesis
    by (auto simp: xkey_cb_def refines_def)
next
  case False
  with assms(3) have "xkey_cb sha hdrs o' e s = xkey_cb_insert sha hdrs o' s"
    "event_sem sha hdrs o' e m = fold (\<lambda>t. tag_one o' (sha (bytes_of t))) (concat (map line_tokens hdrs)) m"
    by (cases e; simp add: xkey_cb_def)+
  with xkey_cb_insert_correct [where sha = sha, OF assms(1,2,4)] show ?thesis by simp
qed

text \<open>A run: the events in order, each with the header lines of its object and the object.\<close>

type_synonym xkey_ev = "string list \<times> addr \<times> exp_event_e"

fun xkey_run :: "(u8 list \<Rightarrow> digest) \<Rightarrow> xkey_ev list \<Rightarrow> xkey_state \<Rightarrow> xkey_state res" where
  "xkey_run sha [] s = Inr s"
| "xkey_run sha ((hdrs, o', e) # es) s = res_bind (xkey_cb sha hdrs o' e s) (xkey_run sha es)"

definition run_sem :: "(u8 list \<Rightarrow> digest) \<Rightarrow> xkey_ev list \<Rightarrow> (digest \<Rightarrow> addr list) \<Rightarrow> digest \<Rightarrow> addr list" where
  "run_sem sha = fold (\<lambda>(hdrs, o', e). event_sem sha hdrs o' e)"

definition xkey_evs :: "xkey_ev list \<Rightarrow> bool" where
  "xkey_evs es \<longleftrightarrow> (\<forall>(hdrs, o', e) \<in> set es. o' \<noteq> 0 \<and> e \<noteq> EXP_OTHER)"

lemma xkey_run_correct:
  assumes "\<And>x. length (sha x) = DIGEST_LEN" "xkey_evs es" "refines s m"
  shows "\<exists>s'. xkey_run sha es s = Inr s' \<and> refines s' (run_sem sha es m)"
  using assms(2,3)
proof (induction es arbitrary: s m)
  case Nil
  then show ?case by (simp add: run_sem_def)
next
  case (Cons ev es)
  obtain h o' e where ev: "ev = (h, o', e)" by (cases ev)
  from Cons.prems ev have "o' \<noteq> 0" "e \<noteq> EXP_OTHER" "xkey_evs es" by (auto simp: xkey_evs_def)
  from xkey_cb_correct [where sha = sha, OF assms(1) this(1,2) Cons.prems(2)] obtain s1 where
    s1: "xkey_cb sha h o' e s = Inr s1" "refines s1 (event_sem sha h o' e m)" by blast
  from Cons.IH [OF \<open>xkey_evs es\<close> s1(2)] s1(1) ev show ?case by (simp add: run_sem_def)
qed

lemma xkey_initial_refines: "refines xkey_initial (\<lambda>_. [])"
  by (simp add: refines_def xkey_initial_inv tags_def xkey_hashtree_lookup_def)
     (simp add: xkey_initial_def)

text \<open>
  The sections that run under the mutex: one for every token of an inserted object, one for a
  removal. A callback is its sections in order; the sections of callbacks that run at the same
  time come in any order that keeps those of each.
\<close>

datatype xkey_section = Put addr digest | Drop addr

fun run_section :: "xkey_section \<Rightarrow> xkey_state \<Rightarrow> xkey_state res" where
  "run_section (Put o' d) s = xkey_insert o' d s"
| "run_section (Drop o') s = xkey_cb_remove o' s"

fun run_sections :: "xkey_section list \<Rightarrow> xkey_state \<Rightarrow> xkey_state res" where
  "run_sections [] s = Inr s"
| "run_sections (c # cs) s = res_bind (run_section c s) (run_sections cs)"

fun section_ok :: "xkey_section \<Rightarrow> bool" where
  "section_ok (Put o' d) \<longleftrightarrow> o' \<noteq> 0 \<and> length d = DIGEST_LEN"
| "section_ok (Drop o') \<longleftrightarrow> o' \<noteq> 0"

fun section_sem :: "xkey_section \<Rightarrow> (digest \<Rightarrow> addr list) \<Rightarrow> digest \<Rightarrow> addr list" where
  "section_sem (Put o' d) m = tag_one o' d m"
| "section_sem (Drop o') m = (\<lambda>d. filter (\<lambda>x. x \<noteq> o') (m d))"

definition cb_sections :: "(u8 list \<Rightarrow> digest) \<Rightarrow> string list \<Rightarrow> addr \<Rightarrow> exp_event_e \<Rightarrow> xkey_section list" where
  "cb_sections sha hdrs o' e =
     (if e = EXP_REMOVE then [Drop o']
      else map (\<lambda>t. Put o' (sha (bytes_of t))) (concat (map line_tokens hdrs)))"

lemma run_sections_append: "run_sections (cs @ ds) s = res_bind (run_sections cs s) (run_sections ds)"
  by (induction cs arbitrary: s) (simp_all add: res_bind_def split: sum.split)

lemma insert_tokens_sections:
  "insert_tokens sha o' ts s = run_sections (map (\<lambda>t. Put o' (sha (bytes_of t))) ts) s"
  by (induction ts arbitrary: s) (simp_all add: res_bind_def split: sum.split)

lemma xkey_cb_insert_sections:
  "xkey_cb_insert sha hdrs o' s = run_sections (map (\<lambda>t. Put o' (sha (bytes_of t))) (concat (map line_tokens hdrs))) s"
proof (induction hdrs arbitrary: s)
  case (Cons sp hdrs)
  show ?case
  proof (cases "is_xkey_hdr sp")
    case True
    with hdr_colon [OF True] have "xkey_cb_insert sha (sp # hdrs) o' s =
      res_bind (insert_tokens sha o' (line_tokens sp) s) (xkey_cb_insert sha hdrs o')"
      by (simp add: line_tokens_def strchr_def)
    moreover have "xkey_cb_insert sha hdrs o' = run_sections (map (\<lambda>t. Put o' (sha (bytes_of t))) (concat (map line_tokens hdrs)))"
      by (rule ext) (rule Cons.IH)
    ultimately show ?thesis unfolding insert_tokens_sections by (simp add: run_sections_append)
  qed (simp add: line_tokens_def Cons.IH)
qed simp

lemma xkey_cb_sections:
  "e \<noteq> EXP_OTHER \<Longrightarrow> xkey_cb sha hdrs o' e s = run_sections (cb_sections sha hdrs o' e) s"
  by (cases e) (simp_all add: xkey_cb_def cb_sections_def xkey_cb_insert_sections res_bind_def split: sum.split)

lemma run_section_correct:
  assumes "section_ok c" "refines s m"
  shows "\<exists>s'. run_section c s = Inr s' \<and> refines s' (section_sem c m) \<and>
    xk_n_init s' = xk_n_init s \<and> xkey_cb_handle s' = xkey_cb_handle s"
proof (cases c)
  case (Put o' d)
  with assms have "xk_inv s" "o' \<noteq> 0" "length d = DIGEST_LEN" by (simp_all add: refines_def)
  from xkey_insert_correct [OF this] Put assms(2) show ?thesis
    by (auto simp: refines_def tag_one_def)
next
  case (Drop o')
  with assms have "xk_inv s" "o' \<noteq> 0" by (simp_all add: refines_def)
  from xkey_cb_remove_correct [OF this] Drop assms(2) show ?thesis
    by (auto simp: refines_def)
qed

lemma run_sections_correct:
  assumes "list_all section_ok cs" "refines s m"
  shows "\<exists>s'. run_sections cs s = Inr s' \<and> refines s' (fold section_sem cs m)"
  using assms
proof (induction cs arbitrary: s m)
  case (Cons c cs)
  then obtain s1 where "run_section c s = Inr s1" "refines s1 (section_sem c m)"
    using run_section_correct [of c s m] by auto
  with Cons.IH [of s1 "section_sem c m"] Cons.prems(1) show ?case by simp
qed simp

text \<open>
  Claim C4. The index refines the table of tags: on any sequence of cache events (for
  objects that are not NULL, with the three events the module subscribes to) no assertion
  fires and no freed object is read, the invariant of the two trees, the queues and the
  pools holds afterwards, and for every digest the index lists exactly the objects that an
  insertion or injection tagged with it since they were last removed, in order and once
  per occurrence of the key in the headers.
\<close>

theorem xkey_refines:
  assumes "\<And>x. length (sha x) = DIGEST_LEN" "xkey_evs es"
  shows "\<exists>s. xkey_run sha es xkey_initial = Inr s \<and> xk_inv s \<and>
    (\<forall>d. length d = DIGEST_LEN \<longrightarrow> tags s d = run_sem sha es (\<lambda>_. []) d)"
  using xkey_run_correct [where sha = sha, OF assms xkey_initial_refines] by (auto simp: refines_def)

definition pad_digest :: "u8 list \<Rightarrow> digest" where
  "pad_digest b = take DIGEST_LEN (b @ replicate DIGEST_LEN 0)"

lemma pad_digest_len [simp]: "length (pad_digest b) = DIGEST_LEN"
  by (simp add: pad_digest_def)

definition sample_evs :: "xkey_ev list" where
  "sample_evs = [([''Host: x'', ''xkey: ab cd''], 7, EXP_INSERT), ([''xkey: ab''], 8, EXP_INJECT), ([], 7, EXP_REMOVE)]"

lemma sample_evs_ok: "xkey_evs sample_evs"
  by (simp add: xkey_evs_def sample_evs_def)

lemma xkey_refines_witness:
  "\<exists>s. xkey_run pad_digest sample_evs xkey_initial = Inr s \<and> xk_inv s \<and>
    (\<forall>d. length d = DIGEST_LEN \<longrightarrow> tags s d = run_sem pad_digest sample_evs (\<lambda>_. []) d)"
  by (rule xkey_refines [OF _ sample_evs_ok]) simp

section \<open>Tokens\<close>

text \<open>The reference: the fields of a string between blanks, empty ones included.\<close>

fun blank_fields :: "string \<Rightarrow> string list" where
  "blank_fields [] = [[]]"
| "blank_fields (c # s) =
     (if isblank c then [] # blank_fields s
      else (case blank_fields s of [] \<Rightarrow> [[c]] | f # fs \<Rightarrow> (c # f) # fs))"

definition nonempty_fields :: "string \<Rightarrow> string list" where
  "nonempty_fields s = filter (\<lambda>f. f \<noteq> []) (blank_fields s)"

lemma blank_fields_not_Nil [simp]: "blank_fields s \<noteq> []"
  by (induction s) (auto split: list.splits)

lemma blank_fields_word:
  "blank_fields s = takeWhile (\<lambda>c. \<not> isblank c) s #
     (case dropWhile (\<lambda>c. \<not> isblank c) s of [] \<Rightarrow> [] | c # r \<Rightarrow> blank_fields r)"
  by (induction s) (auto split: list.splits)

lemma nonempty_fields_skip: "nonempty_fields (dropWhile isblank s) = nonempty_fields s"
  by (induction s) (auto simp: nonempty_fields_def)

lemma nonempty_fields_word:
  "s \<noteq> [] \<Longrightarrow> \<not> isblank (hd s) \<Longrightarrow>
   nonempty_fields s = takeWhile (\<lambda>c. \<not> isblank c) s # nonempty_fields (dropWhile (\<lambda>c. \<not> isblank c) s)"
proof -
  assume "s \<noteq> []" "\<not> isblank (hd s)"
  then have t: "takeWhile (\<lambda>c. \<not> isblank c) s \<noteq> []" by (cases s) auto
  show ?thesis
  proof (cases "dropWhile (\<lambda>c. \<not> isblank c) s")
    case Nil
    then show ?thesis using t blank_fields_word [of s]
      by (simp add: nonempty_fields_def del: dropWhile_eq_Nil_conv)
  next
    case (Cons c r)
    then have "isblank c" by (metis dropWhile_eq_Cons_conv)
    then show ?thesis using t Cons blank_fields_word [of s] by (simp add: nonempty_fields_def)
  qed
qed

text \<open>
  The token loop that \<open>xkey_cb_insert\<close> and \<open>purge\<close> share computes the non-empty
  fields of the string between blanks (space and tab), in order, whatever the string: no
  character of a key is lost and no empty key is produced.
\<close>

theorem tok_loop_fields: "tok_loop s = filter (\<lambda>f. f \<noteq> []) (blank_fields s)"
  unfolding nonempty_fields_def [symmetric]
proof (induction s rule: length_induct)
  case (1 s)
  let ?b = "dropWhile isblank s"
  let ?e = "dropWhile (\<lambda>c. \<not> isblank c) ?b"
  have tok: "xkey_tok s = (length ?e < length ?b, ?b, ?e)"
    by (simp add: xkey_tok_def skip_def Let_def)
  show ?case
  proof (cases "length ?e < length ?b")
    case True
    then have ne: "?b \<noteq> []" by (metis list.size(3) not_less_zero)
    then have "\<not> isblank (hd ?b)" by (rule hd_dropWhile)
    have "length ?e < length s" using True length_dropWhile_le [of isblank s] by linarith
    with 1 have "tok_loop ?e = nonempty_fields ?e" by blast
    moreover have "strndup ?b (pdiff ?b ?e) = takeWhile (\<lambda>c. \<not> isblank c) ?b"
    proof -
      have "pdiff ?b ?e = length (takeWhile (\<lambda>c. \<not> isblank c) ?b)"
        unfolding pdiff_def by (metis add_diff_cancel_right' length_append takeWhile_dropWhile_id)
      then show ?thesis unfolding strndup_def by (metis takeWhile_eq_take)
    qed
    ultimately show ?thesis
      using True nonempty_fields_word [OF ne \<open>\<not> isblank (hd ?b)\<close>] nonempty_fields_skip [of s]
      by (simp add: tok_loop.simps [of s] tok)
  next
    case False
    have "?b = []"
    proof (rule ccontr)
      assume "?b \<noteq> []"
      then have "\<not> isblank (hd ?b)" by (rule hd_dropWhile)
      with \<open>?b \<noteq> []\<close> have "length ?e < length ?b" by (cases ?b) (auto simp: length_dropWhile_le le_imp_less_Suc)
      with False show False ..
    qed
    then have "nonempty_fields s = []"
      using nonempty_fields_skip [of s] by (simp add: nonempty_fields_def del: dropWhile_eq_Nil_conv)
    with False show ?thesis by (simp add: tok_loop.simps [of s] tok)
  qed
qed

section \<open>Purging\<close>

text \<open>One visit to an object, and what the loops of \<open>purge\<close> come to: a visit per tagged entry.\<close>

definition visit ::
  "exp_rearm \<Rightarrow> bool \<Rightarrow> double \<Rightarrow> addr \<Rightarrow> (addr \<rightharpoonup> objcore) \<times> int \<Rightarrow> (addr \<rightharpoonup> objcore) \<times> int" where
  "visit r soft now p oi = (case purge_one r soft now (the (fst oi p)) of (o2, counted) \<Rightarrow>
     ((fst oi)(p \<mapsto> o2), if counted then snd oi + 1 else snd oi))"

definition tagged :: "(u8 list \<Rightarrow> digest) \<Rightarrow> xkey_state \<Rightarrow> string \<Rightarrow> addr list" where
  "tagged sha s k = concat (map (\<lambda>t. tags s (sha (bytes_of t))) (tok_loop k))"

lemma visit_dom: "dom (fst (visit r soft now p oi)) = insert p (dom (fst oi))"
  by (auto simp: visit_def split: prod.splits)

lemma purge_queue_visits:
  assumes "\<And>c. c \<in> set q \<Longrightarrow> \<exists>x p. h c = Some x \<and> oc_objcore x = Some p \<and> p \<in> dom objs"
  shows "purge_queue r soft now h q objs i =
    Inr (fold (visit r soft now) (map (\<lambda>c. the (oc_objcore (the (h c)))) q) (objs, i))"
  using assms
proof (induction q arbitrary: objs i)
  case (Cons c q)
  from Cons.prems [of c] obtain x p o1 where
    c: "h c = Some x" "oc_objcore x = Some p" "objs p = Some o1" by auto
  obtain o2 b where v: "purge_one r soft now o1 = (o2, b)" by (cases "purge_one r soft now o1")
  have "purge_queue r soft now h (c # q) objs i =
    purge_queue r soft now h q (objs(p \<mapsto> o2)) (if b then i + 1 else i)"
    using c v by simp
  also have "\<dots> = Inr (fold (visit r soft now) (map (\<lambda>c. the (oc_objcore (the (h c)))) q)
      (objs(p \<mapsto> o2), if b then i + 1 else i))"
  proof (rule Cons.IH)
    fix c' assume "c' \<in> set q"
    then show "\<exists>x p'. h c' = Some x \<and> oc_objcore x = Some p' \<and> p' \<in> dom (objs(p \<mapsto> o2))"
      using Cons.prems [of c'] by auto
  qed
  finally have q: "purge_queue r soft now h (c # q) objs i = \<dots>" .
  have "visit r soft now p (objs, i) = (objs(p \<mapsto> o2), if b then i + 1 else i)"
    using c v by (simp add: visit_def)
  with q c show ?case by simp
qed simp

lemma fold_visit_dom: "dom (fst oi) \<subseteq> dom (fst (fold (visit r soft now) ps oi))"
proof (induction ps arbitrary: oi)
  case (Cons p ps)
  from Cons [of "visit r soft now p oi"] show ?case unfolding visit_dom by auto
qed simp

lemma queue_entries:
  assumes "xk_str s" "h \<in> hn s" "c \<in> set (hq s h)"
  shows "\<exists>x p. pl_heap (ocs s) c = Some x \<and> oc_objcore x = Some p"
proof -
  from assms(1) have l: "links_ok (hn s) (hq s) (on s) (oq s) (op_of s) (ocs s)" by (simp add: xk_str_def)
  then have "c \<in> queued (on s) (oq s)" using assms(2,3) by (auto simp: links_ok_def queued_def)
  with l show ?thesis by (fastforce simp: links_ok_def queued_def)
qed

lemma purge_tokens_visits:
  assumes "xk_str s" "\<And>x. length (sha x) = DIGEST_LEN"
    "\<And>t. t \<in> set ts \<Longrightarrow> set (tags s (sha (bytes_of t))) \<subseteq> dom objs"
  shows "purge_tokens r sha soft now s ts objs i =
    Inr (fold (visit r soft now) (concat (map (\<lambda>t. tags s (sha (bytes_of t))) ts)) (objs, i))"
  using assms(3)
proof (induction ts arbitrary: objs i)
  case (Cons t ts)
  show ?case
  proof (cases "xkey_hashtree_lookup (sha (bytes_of t)) s")
    case None
    then show ?thesis using Cons.IH [of objs i] Cons.prems by (simp add: tags_def)
  next
    case (Some h)
    then have h: "h \<in> hn s" by (simp add: hashtree_lookup_iff [OF assms(1,2)])
    obtain x where x: "pl_heap (hashheads s) h = Some x" using hash_node [OF assms(1) h] by blast
    then have q: "hq s h = hh_ocs x" by (simp add: hq_def)
    have tg: "tags s (sha (bytes_of t)) = map (obj_of s) (hh_ocs x)" using Some q by (simp add: tags_def)
    have "\<exists>y p. pl_heap (ocs s) c = Some y \<and> oc_objcore y = Some p \<and> p \<in> dom objs" if "c \<in> set (hh_ocs x)" for c
    proof -
      from that q have "c \<in> set (hq s h)" by simp
      from queue_entries [OF assms(1) h this] obtain y p where y: "pl_heap (ocs s) c = Some y" "oc_objcore y = Some p" by blast
      then have "p = obj_of s c" by (simp add: obj_of_def)
      then have "p \<in> dom objs" using Cons.prems [of t] that tg by auto
      with y show ?thesis by blast
    qed
    from purge_queue_visits [OF this] have pq: "purge_queue r soft now (pl_heap (ocs s)) (hh_ocs x) objs i =
      Inr (fold (visit r soft now) (tags s (sha (bytes_of t))) (objs, i))"
      unfolding tg obj_of_def .
    obtain objs1 i1 where f: "fold (visit r soft now) (tags s (sha (bytes_of t))) (objs, i) = (objs1, i1)"
      by (cases "fold (visit r soft now) (tags s (sha (bytes_of t))) (objs, i)")
    have "dom objs \<subseteq> dom objs1" using fold_visit_dom [of "(objs, i)" r soft now "tags s (sha (bytes_of t))"] f by simp
    with Cons.prems have "set (tags s (sha (bytes_of u))) \<subseteq> dom objs1" if "u \<in> set ts" for u using that by fastforce
    from Cons.IH [OF this] have "purge_tokens r sha soft now s ts objs1 i1 =
      Inr (fold (visit r soft now) (concat (map (\<lambda>t. tags s (sha (bytes_of t))) ts)) (objs1, i1))" .
    with Some x pq f show ?thesis by simp
  qed
qed simp

lemma purge_visits:
  assumes "xk_str s" "\<And>x. length (sha x) = DIGEST_LEN" "set (tagged sha s k) \<subseteq> dom objs"
  shows "purge r sha True now s (Some k) soft objs = Inr (fold (visit r soft now) (tagged sha s k) (objs, 0))"
proof -
  have "tok_loop [] = []" by (simp add: tok_loop.simps xkey_tok_def skip_def)
  moreover have "set (tags s (sha (bytes_of t))) \<subseteq> dom objs" if "t \<in> set (tok_loop k)" for t
    using assms(3) that by (auto simp: tagged_def)
  ultimately show ?thesis using purge_tokens_visits [where sha = sha, OF assms(1,2), of "tok_loop k" objs]
    by (auto simp: purge_def tagged_def)
qed

text \<open>What the module relies on in \<open>EXP_Rearm\<close>.\<close>

definition rearm_keeps_busy :: "exp_rearm \<Rightarrow> bool" where
  "rearm_keeps_busy r \<longleftrightarrow> (\<forall>o1 n t g k. OC_F_BUSY (r o1 n t g k) = OC_F_BUSY o1)"

definition rearm_expires :: "exp_rearm \<Rightarrow> bool" where
  "rearm_expires r \<longleftrightarrow> (\<forall>o1 n g k. o_ttl (r o1 n 0 g k) \<le> dsub n (o_t_origin (r o1 n 0 g k)))"

definition expire :: "exp_rearm \<Rightarrow> objcore \<Rightarrow> objcore" where
  "expire r o1 = r o1 (o_t_origin o1) 0 0 0"

lemma hard_visits:
  assumes "rearm_keeps_busy r" "set ps \<subseteq> dom objs"
  shows "\<exists>objs'. fold (visit r False now) ps (objs, i) =
      (objs', i + int (length (filter (\<lambda>p. \<not> OC_F_BUSY (the (objs p))) ps))) \<and>
    (\<forall>p. objs' p = (if p \<in> dom objs \<and> \<not> OC_F_BUSY (the (objs p))
       then map_option (expire r ^^ count_list ps p) (objs p) else objs p))"
  using assms(2)
proof (induction ps arbitrary: objs i)
  case Nil
  then show ?case by (simp add: option.map_id0 id_def) (simp add: option.map_ident)
next
  case (Cons p ps)
  then obtain o1 where o1: "objs p = Some o1" by auto
  show ?case
  proof (cases "OC_F_BUSY o1")
    case True
    then have "visit r False now p (objs, i) = (objs, i)" using o1 by (auto simp: visit_def purge_one_def)
    with Cons.IH [of objs i] Cons.prems True o1 show ?thesis by (auto simp: dom_def)
  next
    case False
    let ?objs = "objs(p \<mapsto> expire r o1)"
    have v: "visit r False now p (objs, i) = (?objs, i + 1)"
      using o1 False by (simp add: visit_def purge_one_def expire_def)
    have b: "OC_F_BUSY (expire r o1) = OC_F_BUSY o1" using assms(1) by (simp add: rearm_keeps_busy_def expire_def)
    have busy: "OC_F_BUSY (the (?objs q)) = OC_F_BUSY (the (objs q))" for q using b o1 by simp
    have sub: "set ps \<subseteq> dom ?objs" using Cons.prems by auto
    from Cons.IH [OF sub, of "i + 1"] obtain objs' where objs':
      "fold (visit r False now) ps (?objs, i + 1) =
        (objs', i + 1 + int (length (filter (\<lambda>p. \<not> OC_F_BUSY (the (?objs p))) ps)))"
      "\<forall>q. objs' q = (if q \<in> dom ?objs \<and> \<not> OC_F_BUSY (the (?objs q))
         then map_option (expire r ^^ count_list ps q) (?objs q) else ?objs q)" by blast
    have "objs' q = (if q \<in> dom objs \<and> \<not> OC_F_BUSY (the (objs q))
       then map_option (expire r ^^ count_list (p # ps) q) (objs q) else objs q)" for q
      using objs'(2) busy o1 False by (cases "q = p") (auto simp: funpow_swap1)
    with objs'(1) v o1 False show ?thesis unfolding busy by auto
  qed
qed

definition fresh_obj :: "double \<Rightarrow> objcore \<Rightarrow> bool" where
  "fresh_obj now o1 \<longleftrightarrow> \<not> OC_F_BUSY o1 \<and> dsub now (o_t_origin o1) < o_ttl o1"

definition soften :: "exp_rearm \<Rightarrow> double \<Rightarrow> objcore \<Rightarrow> objcore" where
  "soften r now o1 = r o1 now 0 (o_grace o1) (o_keep o1)"

lemma soft_visits:
  assumes "rearm_expires r" "set ps \<subseteq> dom objs"
  shows "\<exists>objs'. fold (visit r True now) ps (objs, i) =
      (objs', i + int (card {p \<in> set ps. fresh_obj now (the (objs p))})) \<and>
    (\<forall>p. objs' p = (if p \<in> set ps \<and> fresh_obj now (the (objs p)) then map_option (soften r now) (objs p) else objs p))"
  using assms(2)
proof (induction ps arbitrary: objs i)
  case (Cons p ps)
  then obtain o1 where o1: "objs p = Some o1" by auto
  show ?case
  proof (cases "fresh_obj now o1")
    case False
    then have "visit r True now p (objs, i) = (objs, i)"
      using o1 by (auto simp: visit_def purge_one_def fresh_obj_def)
    moreover have "{q \<in> set (p # ps). fresh_obj now (the (objs q))} = {q \<in> set ps. fresh_obj now (the (objs q))}"
      using False o1 by auto
    moreover have "q \<in> set (p # ps) \<and> fresh_obj now (the (objs q)) \<longleftrightarrow> q \<in> set ps \<and> fresh_obj now (the (objs q))" for q
      using False o1 by auto
    ultimately show ?thesis using Cons.IH [of objs i] Cons.prems by simp
  next
    case True
    let ?objs = "objs(p \<mapsto> soften r now o1)"
    have v: "visit r True now p (objs, i) = (?objs, i + 1)"
      using o1 True by (auto simp: visit_def purge_one_def soften_def fresh_obj_def)
    have stale: "\<not> fresh_obj now (soften r now o1)"
      using assms(1) by (auto simp: fresh_obj_def soften_def rearm_expires_def not_less)
    have sub: "set ps \<subseteq> dom ?objs" using Cons.prems by auto
    from Cons.IH [OF sub, of "i + 1"] obtain objs' where objs':
      "fold (visit r True now) ps (?objs, i + 1) =
        (objs', i + 1 + int (card {q \<in> set ps. fresh_obj now (the (?objs q))}))"
      "\<forall>q. objs' q = (if q \<in> set ps \<and> fresh_obj now (the (?objs q)) then map_option (soften r now) (?objs q) else ?objs q)"
      by blast
    have "{q \<in> set (p # ps). fresh_obj now (the (objs q))} = insert p {q \<in> set ps. fresh_obj now (the (?objs q))}"
      "p \<notin> {q \<in> set ps. fresh_obj now (the (?objs q))}"
      using stale True o1 by auto
    then have card: "card {q \<in> set (p # ps). fresh_obj now (the (objs q))} =
        Suc (card {q \<in> set ps. fresh_obj now (the (?objs q))})" by simp
    have "objs' q = (if q \<in> set (p # ps) \<and> fresh_obj now (the (objs q)) then map_option (soften r now) (objs q) else objs q)" for q
      using objs'(2) stale True o1 by (cases "q = p") auto
    with objs'(1) v card show ?thesis by auto
  qed
qed simp

text \<open>
  Claim C15. A purge visits exactly what is tagged. When the objects on the index are alive
  and \<open>EXP_Rearm\<close> leaves the busy flag alone, \<open>purge(key)\<close> completes; an object that is
  busy or not tagged with a key of the argument is left as it was, every other one has its
  ttl, grace and keep set to zero (once per occurrence); and the result counts the
  occurrences, so an object with two of the keys counts twice.
\<close>

theorem xkey_purge_exact:
  assumes "xk_inv s" "\<And>x. length (sha x) = DIGEST_LEN" "rearm_keeps_busy r" "set (tagged sha s k) \<subseteq> dom objs"
  shows "\<exists>objs'. xkey_vmod_purge r sha True now s (Some k) objs =
      Inr (objs', int (length (filter (\<lambda>p. \<not> OC_F_BUSY (the (objs p))) (tagged sha s k)))) \<and>
    (\<forall>p. objs' p = (if p \<in> dom objs \<and> \<not> OC_F_BUSY (the (objs p))
       then map_option (expire r ^^ count_list (tagged sha s k) p) (objs p) else objs p))"
proof -
  from assms(1) have "xk_str s" by (simp add: xk_inv_def)
  from purge_visits [where sha = sha, OF this assms(2,4)] hard_visits [OF assms(3,4), of now 0]
  show ?thesis by (auto simp: xkey_vmod_purge_def)
qed

text \<open>
  Claim C32. A soft purge expires each fresh tagged object once. When \<open>EXP_Rearm(now, 0, ..)\<close>
  leaves an object that has used up its ttl, \<open>softpurge(key)\<close> gives every tagged object that
  is neither busy nor expired a ttl of zero from now, keeps its grace and keep, leaves all
  others alone, and returns the number of those objects, however many of the keys each has.
\<close>

theorem xkey_softpurge_exact:
  assumes "xk_inv s" "\<And>x. length (sha x) = DIGEST_LEN" "rearm_expires r" "set (tagged sha s k) \<subseteq> dom objs"
  shows "\<exists>objs'. xkey_vmod_softpurge r sha True now s (Some k) objs =
      Inr (objs', int (card {p \<in> set (tagged sha s k). fresh_obj now (the (objs p))})) \<and>
    (\<forall>p. objs' p = (if p \<in> set (tagged sha s k) \<and> fresh_obj now (the (objs p))
       then map_option (soften r now) (objs p) else objs p))"
proof -
  from assms(1) have "xk_str s" by (simp add: xk_inv_def)
  from purge_visits [where sha = sha, OF this assms(2,4)] soft_visits [OF assms(3,4), of now 0]
  show ?thesis by (auto simp: xkey_vmod_softpurge_def)
qed

text \<open>A concrete \<open>EXP_Rearm\<close> and a concrete index for the witnesses: object 7 has both keys.\<close>

definition sample_rearm :: exp_rearm where
  "sample_rearm o1 n t g k = o1\<lparr>o_ttl := dsub (n + t) (o_t_origin o1), o_grace := g, o_keep := k\<rparr>"

lemma sample_rearm_ok: "rearm_keeps_busy sample_rearm" "rearm_expires sample_rearm"
  by (simp_all add: rearm_keeps_busy_def rearm_expires_def sample_rearm_def)

definition two_evs :: "xkey_ev list" where
  "two_evs = [([''xkey: ab cd''], 7, EXP_INSERT), ([''xkey: ab''], 8, EXP_INJECT)]"

definition two_objs :: "addr \<rightharpoonup> objcore" where
  "two_objs = [7 \<mapsto> \<lparr>OC_F_BUSY = False, o_t_origin = 0, o_ttl = 10, o_grace = 0, o_keep = 0\<rparr>,
     8 \<mapsto> \<lparr>OC_F_BUSY = True, o_t_origin = 0, o_ttl = 10, o_grace = 0, o_keep = 0\<rparr>]"

lemma two_tokens: "tok_loop ''ab cd'' = [''ab'', ''cd'']"
  by code_simp

lemma two_tags:
  "run_sem pad_digest two_evs (\<lambda>_. []) (pad_digest (bytes_of ''ab'')) = [7, 8]"
  "run_sem pad_digest two_evs (\<lambda>_. []) (pad_digest (bytes_of ''cd'')) = [7]"
  by code_simp+

lemma two_state: "\<exists>s. xkey_run pad_digest two_evs xkey_initial = Inr s \<and> xk_inv s \<and>
  tagged pad_digest s ''ab cd'' = [7, 8, 7]"
proof -
  have "xkey_evs two_evs" by (simp add: xkey_evs_def two_evs_def)
  from xkey_run_correct [where sha = pad_digest, OF pad_digest_len this xkey_initial_refines] obtain s where
    s: "xkey_run pad_digest two_evs xkey_initial = Inr s" "refines s (run_sem pad_digest two_evs (\<lambda>_. []))" by blast
  then have "tagged pad_digest s ''ab cd'' = [7, 8, 7]"
    by (simp add: tagged_def two_tokens refines_def two_tags)
  with s show ?thesis by (auto simp: refines_def)
qed

lemma xkey_purge_exact_witness:
  "\<exists>s objs'. xkey_run pad_digest two_evs xkey_initial = Inr s \<and>
     xkey_vmod_purge sample_rearm pad_digest True 5 s (Some ''ab cd'') two_objs = Inr (objs', 2)"
proof -
  obtain s where s: "xkey_run pad_digest two_evs xkey_initial = Inr s" "xk_inv s"
    "tagged pad_digest s ''ab cd'' = [7, 8, 7]" using two_state by blast
  have "set (tagged pad_digest s ''ab cd'') \<subseteq> dom two_objs" by (simp add: s(3) two_objs_def)
  from xkey_purge_exact [where sha = pad_digest, OF s(2) pad_digest_len sample_rearm_ok(1) this, of 5]
  show ?thesis using s(1) by (auto simp: s(3) two_objs_def)
qed

lemma xkey_softpurge_exact_witness:
  "\<exists>s objs'. xkey_run pad_digest two_evs xkey_initial = Inr s \<and>
     xkey_vmod_softpurge sample_rearm pad_digest True 5 s (Some ''ab cd'') two_objs = Inr (objs', 1)"
proof -
  obtain s where s: "xkey_run pad_digest two_evs xkey_initial = Inr s" "xk_inv s"
    "tagged pad_digest s ''ab cd'' = [7, 8, 7]" using two_state by blast
  have sub: "set (tagged pad_digest s ''ab cd'') \<subseteq> dom two_objs" by (simp add: s(3) two_objs_def)
  have "{p \<in> set (tagged pad_digest s ''ab cd''). fresh_obj 5 (the (two_objs p))} = {7}"
    by (auto simp: s(3) two_objs_def fresh_obj_def dsub_def)
  then have "card {p \<in> set (tagged pad_digest s ''ab cd''). fresh_obj 5 (the (two_objs p))} = 1" by simp
  with xkey_softpurge_exact [where sha = pad_digest, OF s(2) pad_digest_len sample_rearm_ok(2) sub, of 5]
  show ?thesis using s(1) by auto
qed

section \<open>Memory\<close>

lemma pool_card:
  assumes "pool_ok U P" "finite U"
  shows "card (dom (pl_heap P)) \<le> card U + nat POOL_MAX"
proof -
  have "card (dom (pl_heap P)) \<le> card U + card (set (pl_list P))"
    using assms by (simp add: pool_ok_def card_Un_le)
  moreover have "card (set (pl_list P)) \<le> nat POOL_MAX"
    using assms(1) card_length [of "pl_list P"] unfolding pool_ok_def by linarith
  ultimately show ?thesis by linarith
qed

text \<open>The digests in use and the tagged objects, read off the abstract table.\<close>

definition used_keys :: "xkey_state \<Rightarrow> digest set" where
  "used_keys s = {d. length d = DIGEST_LEN \<and> tags s d \<noteq> []}"

lemma used_keys_heads: "xk_inv s \<Longrightarrow> used_keys s = hd_of s ` hn s"
proof (intro set_eqI iffI)
  fix d assume s: "xk_inv s" and "d \<in> used_keys s"
  then show "d \<in> hd_of s ` hn s" using tags_none [of s d] by (auto simp: used_keys_def xk_inv_def)
next
  fix d assume s: "xk_inv s" and "d \<in> hd_of s ` hn s"
  then obtain h where h: "h \<in> hn s" "d = hd_of s h" by blast
  have st: "xk_str s" using s by (simp add: xk_inv_def)
  have "length d = DIGEST_LEN" using hash_node [OF st h(1)] h(2) by (auto simp: hd_of_def)
  moreover have "tags s d \<noteq> []" using tags_at [OF st h(1)] h s by (simp add: xk_inv_def)
  ultimately show "d \<in> used_keys s" by (simp add: used_keys_def)
qed

definition used_objs :: "xkey_state \<Rightarrow> addr set" where
  "used_objs s = (\<Union>d \<in> used_keys s. set (tags s d))"

lemma op_of_entry:
  assumes "xk_str s" "p \<in> on s" "c \<in> set (oq s p)"
  shows "obj_of s c = op_of s p"
  using assms by (fastforce simp: xk_str_def links_ok_def obj_of_def)

lemma used_objs_heads: "xk_inv s \<Longrightarrow> used_objs s = op_of s ` on s"
proof (intro set_eqI iffI)
  fix p assume s: "xk_inv s" and "p \<in> used_objs s"
  then have st: "xk_str s" and "\<exists>h \<in> hn s. p \<in> set (tags s (hd_of s h))"
    by (auto simp: used_objs_def used_keys_heads xk_inv_def)
  then obtain h c where h: "h \<in> hn s" "c \<in> set (hq s h)" "p = obj_of s c" by (auto simp: tags_at)
  then have "c \<in> queued (hn s) (hq s)" by (auto simp: queued_def)
  then have "c \<in> queued (on s) (oq s)" using st by (simp add: xk_str_def links_ok_def)
  then obtain q where "q \<in> on s" "c \<in> set (oq s q)" by (auto simp: queued_def)
  with op_of_entry [OF st this] h(3) show "p \<in> op_of s ` on s" by blast
next
  fix p assume s: "xk_inv s" and "p \<in> op_of s ` on s"
  then obtain q where q: "q \<in> on s" "p = op_of s q" by blast
  have st: "xk_str s" using s by (simp add: xk_inv_def)
  obtain c where c: "c \<in> set (oq s q)" using s q(1) by (metis xk_inv_def last_in_set)
  then have "c \<in> queued (on s) (oq s)" using q by (auto simp: queued_def)
  then have "c \<in> queued (hn s) (hq s)" using st by (simp add: xk_str_def links_ok_def)
  then obtain h where h: "h \<in> hn s" "c \<in> set (hq s h)" by (auto simp: queued_def)
  have "hd_of s h \<in> used_keys s" using used_keys_heads [OF s] h(1) by blast
  moreover have "p \<in> set (tags s (hd_of s h))" 
    unfolding tags_at [OF st h(1)] set_map q(2) op_of_entry [OF st q(1) c, symmetric] using h(2) by (rule imageI)
  ultimately show "p \<in> used_objs s" by (auto simp: used_objs_def)
qed

lemma queued_card:
  assumes "xk_inv s"
  shows "card (queued (hn s) (hq s)) \<le> (\<Sum>d \<in> used_keys s. length (tags s d))"
proof -
  have st: "xk_str s" using assms by (simp add: xk_inv_def)
  have fin: "finite (hn s)" by (simp add: hn_def)
  have "card (queued (hn s) (hq s)) \<le> (\<Sum>h \<in> hn s. card (set (hq s h)))"
    unfolding queued_def by (rule card_UN_le [OF fin])
  also have "\<dots> \<le> (\<Sum>h \<in> hn s. length (tags s (hd_of s h)))"
    by (rule sum_mono) (simp add: tags_at [OF st] card_length)
  also have "\<dots> = (\<Sum>d \<in> hd_of s ` hn s. length (tags s d))"
    by (simp add: sum.reindex [OF hd_of_inj [OF st]])
  finally show ?thesis by (simp add: used_keys_heads [OF assms])
qed

text \<open>The digests with a tag and the tagged objects of an abstract table.\<close>

definition table_keys :: "(digest \<Rightarrow> addr list) \<Rightarrow> digest set" where
  "table_keys m = {d. length d = DIGEST_LEN \<and> m d \<noteq> []}"

definition table_objs :: "(digest \<Rightarrow> addr list) \<Rightarrow> addr set" where
  "table_objs m = (\<Union>d \<in> table_keys m. set (m d))"

definition table_size :: "(digest \<Rightarrow> addr list) \<Rightarrow> nat" where
  "table_size m = (\<Sum>d \<in> table_keys m. length (m d))"

lemma refines_table:
  assumes "refines s m"
  shows "used_keys s = table_keys m" "used_objs s = table_objs m" "(\<Sum>d \<in> table_keys m. length (tags s d)) = table_size m"
proof -
  have t: "tags s d = m d" if "length d = DIGEST_LEN" for d using assms that by (simp add: refines_def)
  show k: "used_keys s = table_keys m" using t by (auto simp: used_keys_def table_keys_def)
  show "used_objs s = table_objs m" unfolding used_objs_def table_objs_def k using t by (auto simp: table_keys_def)
  show "(\<Sum>d \<in> table_keys m. length (tags s d)) = table_size m"
    unfolding table_size_def by (rule sum.cong) (use t in \<open>auto simp: table_keys_def\<close>)
qed

lemma memory_bound_inv:
  assumes "xk_inv s"
  shows "card (dom (pl_heap (hashheads s))) \<le> card (used_keys s) + 5"
    "card (dom (pl_heap (ocheads s))) \<le> card (used_objs s) + 5"
    "card (dom (pl_heap (ocs s))) \<le> (\<Sum>d \<in> used_keys s. length (tags s d)) + 5"
proof -
  have st: "xk_str s" using assms by (simp add: xk_inv_def)
  have max: "nat POOL_MAX = 5" by (simp add: POOL_MAX_def)
  have fin: "finite (hn s)" "finite (on s)" by (simp_all add: hn_def on_def)
  have pools: "pool_ok (hn s) (hashheads s)" "pool_ok (on s) (ocheads s)" "pool_ok (queued (hn s) (hq s)) (ocs s)"
    using st by (simp_all add: xk_str_def hash_ok_def och_ok_def table_ok_def links_ok_def hn_def on_def)
  have "finite (queued (hn s) (hq s))" using fin by (simp add: queued_def)
  from pool_card [OF pools(3) this] show "card (dom (pl_heap (ocs s))) \<le> (\<Sum>d \<in> used_keys s. length (tags s d)) + 5"
    using queued_card [OF assms] max by linarith
  have "card (used_keys s) = card (hn s)"
    by (simp add: used_keys_heads [OF assms] card_image [OF hd_of_inj [OF st]])
  with pool_card [OF pools(1) fin(1)] max show "card (dom (pl_heap (hashheads s))) \<le> card (used_keys s) + 5" by simp
  have "card (used_objs s) = card (on s)"
    by (simp add: used_objs_heads [OF assms] card_image [OF op_of_inj [OF st]])
  with pool_card [OF pools(2) fin(2)] max show "card (dom (pl_heap (ocheads s))) \<le> card (used_objs s) + 5" by simp
qed

text \<open>
  Claim C30. The index does not leak while it is in use. Take the sections of any number of cache
  callbacks, in any interleaving that the mutex allows, and let \<open>m\<close> be the table of tags they
  amount to. They all complete, and afterwards the allocated hashheads are at most the keys in
  use plus five, the allocated ocheads at most the tagged objects plus five, and the allocated
  \<open>xkey_oc\<close>s at most the (key, object) entries plus five, however many objects came and went.
\<close>

theorem xkey_memory_bound:
  assumes "list_all section_ok cs" and "m = fold section_sem cs (\<lambda>_. [])"
  shows "\<exists>s. run_sections cs xkey_initial = Inr s \<and>
    card (dom (pl_heap (hashheads s))) \<le> card (table_keys m) + 5 \<and>
    card (dom (pl_heap (ocheads s))) \<le> card (table_objs m) + 5 \<and>
    card (dom (pl_heap (ocs s))) \<le> table_size m + 5"
proof -
  obtain s where s: "run_sections cs xkey_initial = Inr s" "refines s m"
    using run_sections_correct [OF assms(1) xkey_initial_refines] assms(2) by blast
  then have "xk_inv s" by (simp add: refines_def)
  note b = memory_bound_inv [OF this, unfolded refines_table [OF s(2)]]
  show ?thesis by (intro exI conjI) (rule s(1) b)+
qed

text \<open>Six objects get a key of their own, with the tokens of two of them interleaved, and go again.\<close>

definition key_of :: "string \<Rightarrow> digest" where "key_of k = pad_digest (bytes_of k)"

definition comings_and_goings :: "xkey_section list" where
  "comings_and_goings = [Put 7 (key_of ''a''), Put 8 (key_of ''a''), Put 7 (key_of ''b''), Put 8 (key_of ''c''),
     Drop 7, Put 9 (key_of ''d''), Drop 8, Drop 9]"

lemma comings_and_goings_ok: "list_all section_ok comings_and_goings"
  by (simp add: comings_and_goings_def key_of_def)

lemma drop_after_put:
  "section_sem (Drop o') (tag_one x d m) =
    (if x = o' then section_sem (Drop o') m else tag_one x d (section_sem (Drop o') m))"
  "section_sem (Drop o') (\<lambda>_. []) = (\<lambda>_. [])"
  by (auto simp: tag_one_def fun_eq_iff)

lemma comings_and_goings_none: "fold section_sem comings_and_goings (\<lambda>_. []) = (\<lambda>_. [])"
  unfolding comings_and_goings_def
  by (simp add: drop_after_put del: section_sem.simps(2))

lemma xkey_memory_bound_witness:
  "\<exists>s. run_sections comings_and_goings xkey_initial = Inr s \<and> card (dom (pl_heap (hashheads s))) \<le> 5 \<and>
    card (dom (pl_heap (ocheads s))) \<le> 5 \<and> card (dom (pl_heap (ocs s))) \<le> 5"
  using xkey_memory_bound [OF comings_and_goings_ok comings_and_goings_none [symmetric]]
  by (simp add: table_keys_def table_objs_def table_size_def)

end
