(* ===== verification/Xkey_Cleanup.thy ===== *)
theory Xkey_Cleanup
  imports Xkey_Correct
begin

text \<open>
  What \<open>xkey_cleanup\<close> does to an index. \<open>cleanup_pre\<close> is what it needs of the state, weaker than
  the invariant of theory \<open>Xkey\<close>: nothing is said of the counters of the pools and there may be
  \<open>xkey_oc\<close>s that are on no queue. With an \<open>xkey_oc\<close> in the pool the last loop writes through the
  back pointer into a freed ochead. Without one it walks along the queue of one object, frees
  what it meets there and ends.
\<close>

section \<open>The loops over the heads\<close>

text \<open>The allocated objects are the disjoint union of those in use and those in the pool.\<close>

definition heap_split :: "addr set \<Rightarrow> 'a pool \<Rightarrow> bool" where
  "heap_split U P \<longleftrightarrow> dom (pl_heap P) = U \<union> set (pl_list P) \<and> U \<inter> set (pl_list P) = {} \<and> distinct (pl_list P)"

lemma pool_ok_split: "pool_ok U P \<Longrightarrow> heap_split U P"
  by (simp add: pool_ok_def heap_split_def)

lemma free_heads_run: "distinct q \<Longrightarrow> set q \<subseteq> dom h \<Longrightarrow> free_heads q h = Inr (h |` (- set q))"
proof (induction q arbitrary: h)
  case Nil
  then show ?case by (simp add: restrict_map_def)
next
  case (Cons a q)
  then obtain x where x: "h a = Some x" by auto
  have "free_heads q (h(a := None)) = Inr ((h(a := None)) |` (- set q))"
    by (rule Cons.IH) (use Cons.prems in auto)
  moreover have "(h(a := None)) |` (- set q) = h |` (- set (a # q))" by (auto simp: restrict_map_def)
  ultimately show ?case using x by simp
qed

lemma free_pool_run:
  assumes "distinct (pl_list P)" "dom (pl_heap P) = set (pl_list P)"
  shows "free_pool P = Inr (P\<lparr>pl_heap := Map.empty, pl_list := []\<rparr>)"
proof -
  have "pl_heap P |` (- set (pl_list P)) = Map.empty"
    using assms(2) by (auto simp: restrict_map_def fun_eq_iff dom_def)
  with free_heads_run [of "pl_list P" "pl_heap P"] assms show ?thesis by (simp add: free_pool_def)
qed

lemma cleanup_ocheads_run:
  "(\<forall>p \<in> set os. pl_heap (ocheads s) p \<noteq> None) \<Longrightarrow>
    cleanup_ocheads os s = Inr (s\<lparr>ocheads := (ocheads s)\<lparr>pl_list := rev os @ pl_list (ocheads s)\<rparr>\<rparr>)"
proof (induction os arbitrary: s)
  case (Cons p os)
  then obtain x where "pl_heap (ocheads s) p = Some x" by auto
  with Cons show ?case by simp
qed simp

text \<open>
  The queues move to the pool one after the other. Of \<open>list_ochead\<close> only back pointers change,
  and only those of moved elements; with an empty pool the first of all gets \<open>vtqh_first\<close>.
\<close>

definition moved :: "addr list \<Rightarrow> addr list \<Rightarrow> (addr \<Rightarrow> oc_link) \<Rightarrow> (addr \<Rightarrow> oc_link) \<Rightarrow> bool" where
  "moved PL q L L' \<longleftrightarrow> (\<forall>c. vtqe_next (L' c) = vtqe_next (L c)) \<and> (\<forall>c. c \<notin> set q \<longrightarrow> L' c = L c) \<and>
     (PL = [] \<and> q \<noteq> [] \<longrightarrow> vtqe_prev (L' (hd q)) = PoolFirst)"

lemma moved_append:
  assumes "moved PL q L L1" "moved (PL @ q) r L1 L2" "distinct (q @ r)"
  shows "moved PL (q @ r) L L2"
  using assms by (cases q) (auto simp: moved_def)

lemma pool_ocs_concat_run:
  assumes "set q \<subseteq> dom (pl_heap (ocs s))"
  shows "\<exists>L. pool_ocs_concat q s = Inr (s\<lparr>ocs := (ocs s)\<lparr>pl_list := pl_list (ocs s) @ q\<rparr>, list_ochead := L\<rparr>) \<and>
    moved (pl_list (ocs s)) q (list_ochead s) L"
proof (cases q)
  case Nil
  then show ?thesis by (intro exI [of _ "list_ochead s"]) (simp add: pool_ocs_concat_def moved_def)
next
  case (Cons c r)
  with assms obtain x where "pl_heap (ocs s) c = Some x" by auto
  with Cons show ?thesis by (auto simp: pool_ocs_concat_def moved_def last_place_def)
qed

lemma cleanup_concat_run:
  assumes "distinct hs" "\<forall>a \<in> set hs. pl_heap (hashheads s) a \<noteq> None"
    "set (concat (map (hq s) hs)) \<subseteq> dom (pl_heap (ocs s))" "distinct (concat (map (hq s) hs))"
  shows "\<exists>H L. cleanup_concat hs s =
      Inr (s\<lparr>hashheads := (hashheads s)\<lparr>pl_heap := H, pl_list := rev hs @ pl_list (hashheads s)\<rparr>,
        ocs := (ocs s)\<lparr>pl_list := pl_list (ocs s) @ concat (map (hq s) hs)\<rparr>, list_ochead := L\<rparr>) \<and>
    dom H = dom (pl_heap (hashheads s)) \<and> moved (pl_list (ocs s)) (concat (map (hq s) hs)) (list_ochead s) L"
  using assms
proof (induction hs arbitrary: s)
  case Nil
  show ?case
    by (intro exI [of _ "pl_heap (hashheads s)"] exI [of _ "list_ochead s"]) (simp add: moved_def)
next
  case (Cons a hs)
  then obtain x where x: "pl_heap (hashheads s) a = Some x" by auto
  have q: "hq s a = hh_ocs x" using x by (simp add: hq_def)
  obtain L1 where L1: "pool_ocs_concat (hh_ocs x) s = Inr (s\<lparr>ocs := (ocs s)\<lparr>pl_list := pl_list (ocs s) @ hh_ocs x\<rparr>, list_ochead := L1\<rparr>)"
    "moved (pl_list (ocs s)) (hh_ocs x) (list_ochead s) L1"
    using pool_ocs_concat_run [of "hh_ocs x" s] Cons.prems(3) q by auto
  define s1 where "s1 = s\<lparr>ocs := (ocs s)\<lparr>pl_list := pl_list (ocs s) @ hh_ocs x\<rparr>, list_ochead := L1,
    hashheads := (hashheads s)\<lparr>pl_heap := (pl_heap (hashheads s))(a \<mapsto> x\<lparr>hh_ocs := []\<rparr>), pl_list := a # pl_list (hashheads s)\<rparr>\<rparr>"
  have run: "cleanup_concat (a # hs) s = cleanup_concat hs s1"
    using x L1(1) by (simp add: s1_def)
  have same: "map (hq s1) hs = map (hq s) hs"
    by (rule map_cong) (use Cons.prems(1) in \<open>auto simp: hq_def s1_def\<close>)
  have dom1: "dom (pl_heap (hashheads s1)) = dom (pl_heap (hashheads s))" using x by (auto simp: s1_def)
  have "\<exists>H L. cleanup_concat hs s1 =
      Inr (s1\<lparr>hashheads := (hashheads s1)\<lparr>pl_heap := H, pl_list := rev hs @ pl_list (hashheads s1)\<rparr>,
        ocs := (ocs s1)\<lparr>pl_list := pl_list (ocs s1) @ concat (map (hq s1) hs)\<rparr>, list_ochead := L\<rparr>) \<and>
    dom H = dom (pl_heap (hashheads s1)) \<and> moved (pl_list (ocs s1)) (concat (map (hq s1) hs)) (list_ochead s1) L"
  proof (rule Cons.IH)
    show "\<forall>b \<in> set hs. pl_heap (hashheads s1) b \<noteq> None" using Cons.prems(2) by (auto simp: s1_def)
    show "distinct hs" using Cons.prems(1) by simp
    show "set (concat (map (hq s1) hs)) \<subseteq> dom (pl_heap (ocs s1))"
      unfolding same using Cons.prems(3) by (simp add: s1_def)
    show "distinct (concat (map (hq s1) hs))" unfolding same using Cons.prems(4) by simp
  qed
  then obtain H L where r: "cleanup_concat hs s1 =
      Inr (s1\<lparr>hashheads := (hashheads s1)\<lparr>pl_heap := H, pl_list := rev hs @ pl_list (hashheads s1)\<rparr>,
        ocs := (ocs s1)\<lparr>pl_list := pl_list (ocs s1) @ concat (map (hq s) hs)\<rparr>, list_ochead := L\<rparr>)"
    "dom H = dom (pl_heap (hashheads s1))" "moved (pl_list (ocs s1)) (concat (map (hq s) hs)) (list_ochead s1) L"
    unfolding same by blast
  have "moved (pl_list (ocs s)) (hh_ocs x @ concat (map (hq s) hs)) (list_ochead s) L"
    by (rule moved_append [OF L1(2)]) (use r(3) Cons.prems(4) q in \<open>simp_all add: s1_def\<close>)
  moreover have "cleanup_concat (a # hs) s =
      Inr (s\<lparr>hashheads := (hashheads s)\<lparr>pl_heap := H, pl_list := rev (a # hs) @ pl_list (hashheads s)\<rparr>,
        ocs := (ocs s)\<lparr>pl_list := pl_list (ocs s) @ concat (map (hq s) (a # hs))\<rparr>, list_ochead := L\<rparr>)"
    unfolding run r(1) by (simp add: s1_def q)
  ultimately show ?case using r(2) dom1 q by auto
qed

section \<open>The loop over the pool of \<open>xkey_oc\<close>s\<close>

fun follows :: "addr list \<Rightarrow> (addr \<Rightarrow> oc_link) \<Rightarrow> bool" where
  "follows [] L = True"
| "follows (c # q) L \<longleftrightarrow> vtqe_next (L c) = (case q of [] \<Rightarrow> None | d # _ \<Rightarrow> Some d) \<and> follows q L"

lemma linked_follows: "linked pl q L \<Longrightarrow> follows q L"
  by (induction q arbitrary: pl) auto

lemma follows_cong: "(\<And>c. vtqe_next (L' c) = vtqe_next (L c)) \<Longrightarrow> follows q L' = follows q L"
  by (induction q) auto

lemma follows_append: "follows (p @ q) L \<Longrightarrow> follows q L"
  by (induction p) auto

text \<open>From an element whose back pointer is the head of the pool, the loop frees the rest of its object's queue.\<close>

lemma free_ocs_chain:
  assumes "follows (c # q) L" "vtqe_prev (L c) = PoolFirst" "distinct (c # q)" "set (c # q) \<subseteq> dom h"
  shows "\<exists>L'. free_ocs ho \<lparr>vtqh_first = Some c, vtqh_last = l, sw_heap = h, sw_link = L\<rparr> =
    Some (Inr \<lparr>vtqh_first = None, vtqh_last = PoolFirst, sw_heap = h |` (- set (c # q)), sw_link = L'\<rparr>)"
  using assms
proof (induction q arbitrary: c L h l)
  case Nil
  then obtain x where x: "h c = Some x" by auto
  have "free_oc ho c \<lparr>vtqh_first = Some c, vtqh_last = l, sw_heap = h, sw_link = L\<rparr> =
    Inr \<lparr>vtqh_first = None, vtqh_last = PoolFirst, sw_heap = h(c := None), sw_link = L\<rparr>"
    using Nil.prems x by (simp add: free_oc_def list_ochead_remove_def)
  moreover have "h(c := None) = h |` (- set [c])" by (auto simp: restrict_map_def)
  ultimately show ?case by (simp add: free_ocs.simps)
next
  case (Cons d q)
  then obtain x y where x: "h c = Some x" and y: "h d = Some y" by auto
  define L1 where "L1 = L(d := (L d)\<lparr>vtqe_prev := PoolFirst\<rparr>)"
  have ne: "c \<noteq> d" using Cons.prems(3) by simp
  have step: "free_oc ho c \<lparr>vtqh_first = Some c, vtqh_last = l, sw_heap = h, sw_link = L\<rparr> =
    Inr \<lparr>vtqh_first = Some d, vtqh_last = l, sw_heap = h(c := None), sw_link = L1\<rparr>"
    using Cons.prems x y ne by (simp add: free_oc_def list_ochead_remove_def L1_def)
  have "follows (d # q) L1 = follows (d # q) L" by (rule follows_cong) (simp add: L1_def)
  then have f: "follows (d # q) L1" using Cons.prems(1) by simp
  have "\<exists>L'. free_ocs ho \<lparr>vtqh_first = Some d, vtqh_last = l, sw_heap = h(c := None), sw_link = L1\<rparr> =
    Some (Inr \<lparr>vtqh_first = None, vtqh_last = PoolFirst, sw_heap = (h(c := None)) |` (- set (d # q)), sw_link = L'\<rparr>)"
    by (rule Cons.IH [OF f]) (use Cons.prems in \<open>auto simp: L1_def\<close>)
  moreover have "(h(c := None)) |` (- set (d # q)) = h |` (- set (c # d # q))" by (auto simp: restrict_map_def)
  ultimately show ?case using step by (subst free_ocs.simps) simp
qed

text \<open>An element whose back pointer is in a freed ochead stops it.\<close>

lemma free_ocs_dangling:
  assumes "vtqe_prev (L c) = OcheadFirst p" "c \<in> dom h" "ho p = None"
  shows "free_ocs ho \<lparr>vtqh_first = Some c, vtqh_last = l, sw_heap = h, sw_link = L\<rparr> = Some (Inl UseAfterFree)"
proof -
  obtain x where x: "h c = Some x" using assms(2) by auto
  have "list_ochead_remove ho h c L = Inl UseAfterFree"
    using assms by (cases "vtqe_next (L c)")
      (auto simp: list_ochead_remove_def deref_def split: option.splits)
  then have "free_oc ho c \<lparr>vtqh_first = Some c, vtqh_last = l, sw_heap = h, sw_link = L\<rparr> = Inl UseAfterFree"
    using x by (simp add: free_oc_def)
  then show ?thesis by (simp add: free_ocs.simps)
qed

section \<open>The cleanup\<close>

definition cleanup_pre :: "xkey_state \<Rightarrow> bool" where
  "cleanup_pre s \<longleftrightarrow> distinct (inorder (hashtree s)) \<and> distinct (inorder (octree s)) \<and>
     heap_split (hn s) (hashheads s) \<and> heap_split (on s) (ocheads s) \<and>
     queued (hn s) (hq s) \<union> set (pl_list (ocs s)) \<subseteq> dom (pl_heap (ocs s)) \<and>
     queued (hn s) (hq s) \<inter> set (pl_list (ocs s)) = {} \<and> queued (on s) (oq s) = queued (hn s) (hq s) \<and>
     distinct (concat (map (hq s) (inorder (hashtree s)))) \<and> (\<forall>p \<in> on s. distinct (oq s p)) \<and>
     chains_ok (on s) (oq s) (list_ochead s) (set (pl_list (ocs s)))"

text \<open>
  What the last loop frees when the pool holds no \<open>xkey_oc\<close>: from the first entry of the
  smallest digest on, the queue of the object of that entry.
\<close>

definition cleanup_chain :: "xkey_state \<Rightarrow> addr list" where
  "cleanup_chain s =
     (case concat (map (hq s) (inorder (hashtree s))) of
        [] \<Rightarrow> []
      | c # _ \<Rightarrow> (case find (\<lambda>p. c \<in> set (oq s p)) (inorder (octree s)) of
            None \<Rightarrow> []
          | Some p \<Rightarrow> dropWhile (\<lambda>b. b \<noteq> c) (oq s p)))"

lemma set_entries: "set (concat (map (hq s) (inorder (hashtree s)))) = queued (hn s) (hq s)"
  by (auto simp: queued_def hn_def)

lemma cleanup_heads_run:
  assumes "cleanup_pre s"
  shows "\<exists>L. cleanup_heads (inorder (hashtree s)) (inorder (octree s)) s =
      Inr (s\<lparr>hashtree := NIL, octree := NIL,
        hashheads := \<lparr>pl_heap = Map.empty, pl_list = [], pl_n = pl_n (hashheads s)\<rparr>,
        ocheads := \<lparr>pl_heap = Map.empty, pl_list = [], pl_n = pl_n (ocheads s)\<rparr>,
        ocs := (ocs s)\<lparr>pl_list := pl_list (ocs s) @ concat (map (hq s) (inorder (hashtree s)))\<rparr>, list_ochead := L\<rparr>) \<and>
    moved (pl_list (ocs s)) (concat (map (hq s) (inorder (hashtree s)))) (list_ochead s) L"
proof -
  let ?hs = "inorder (hashtree s)" and ?os = "inorder (octree s)"
  have pre: "distinct ?hs" "distinct ?os" "heap_split (set ?hs) (hashheads s)" "heap_split (set ?os) (ocheads s)"
    "set (concat (map (hq s) ?hs)) \<subseteq> dom (pl_heap (ocs s))" "distinct (concat (map (hq s) ?hs))"
    using assms unfolding cleanup_pre_def set_entries by (simp_all add: hn_def on_def)
  have alive: "\<forall>a \<in> set ?hs. pl_heap (hashheads s) a \<noteq> None" "\<forall>p \<in> set ?os. pl_heap (ocheads s) p \<noteq> None"
    using pre(3,4) unfolding heap_split_def by blast+
  from cleanup_concat_run [OF pre(1) alive(1) pre(5,6)] obtain H L where c: "cleanup_concat ?hs s =
      Inr (s\<lparr>hashheads := (hashheads s)\<lparr>pl_heap := H, pl_list := rev ?hs @ pl_list (hashheads s)\<rparr>,
        ocs := (ocs s)\<lparr>pl_list := pl_list (ocs s) @ concat (map (hq s) ?hs)\<rparr>, list_ochead := L\<rparr>)"
    "dom H = dom (pl_heap (hashheads s))" "moved (pl_list (ocs s)) (concat (map (hq s) ?hs)) (list_ochead s) L" by blast
  have f1: "free_pool ((hashheads s)\<lparr>pl_heap := H, pl_list := rev ?hs @ pl_list (hashheads s)\<rparr>) =
    Inr \<lparr>pl_heap = Map.empty, pl_list = [], pl_n = pl_n (hashheads s)\<rparr>"
    by (subst free_pool_run) (use pre(1,3) c(2) in \<open>auto simp: heap_split_def\<close>)
  have f2: "free_pool ((ocheads s)\<lparr>pl_list := rev ?os @ pl_list (ocheads s)\<rparr>) =
    Inr \<lparr>pl_heap = Map.empty, pl_list = [], pl_n = pl_n (ocheads s)\<rparr>"
    by (subst free_pool_run) (use pre(2,4) in \<open>auto simp: heap_split_def\<close>)
  show ?thesis
    using c(3) by (intro exI [of _ L]) (simp add: cleanup_heads_def c(1) cleanup_ocheads_run alive(2) f1 f2)
qed

definition cleaned :: "xkey_state \<Rightarrow> (addr \<Rightarrow> oc_link) \<Rightarrow> xkey_state" where
  "cleaned s L = s\<lparr>hashtree := NIL, octree := NIL,
     hashheads := \<lparr>pl_heap = Map.empty, pl_list = [], pl_n = pl_n (hashheads s)\<rparr>,
     ocheads := \<lparr>pl_heap = Map.empty, pl_list = [], pl_n = pl_n (ocheads s)\<rparr>,
     ocs := \<lparr>pl_heap = pl_heap (ocs s) |` (- set (cleanup_chain s)), pl_list = [], pl_n = pl_n (ocs s)\<rparr>, list_ochead := L\<rparr>"

lemma xkey_cleanup_heads:
  assumes "cleanup_pre s" "cleanup_heads (inorder (hashtree s)) (inorder (octree s)) s = Inr s1"
  shows "xkey_cleanup s = cleanup_ocs s1"
proof -
  have "VRB_FOREACH (hashtree s) = Some (inorder (hashtree s))" "VRB_FOREACH (octree s) = Some (inorder (octree s))"
    using assms(1) VRB_FOREACH_correct by (auto simp: cleanup_pre_def)
  with assms(2) show ?thesis by (simp add: xkey_cleanup_def)
qed

lemma xkey_cleanup_pooled:
  assumes pre: "cleanup_pre s" and p: "pl_list (ocs s) \<noteq> []"
  shows "xkey_cleanup s = Some (Inl UseAfterFree)"
proof -
  let ?q = "concat (map (hq s) (inorder (hashtree s)))"
  obtain c r where c: "pl_list (ocs s) = c # r" using p by (cases "pl_list (ocs s)") auto
  obtain L where L: "cleanup_heads (inorder (hashtree s)) (inorder (octree s)) s =
      Inr (s\<lparr>hashtree := NIL, octree := NIL,
        hashheads := \<lparr>pl_heap = Map.empty, pl_list = [], pl_n = pl_n (hashheads s)\<rparr>,
        ocheads := \<lparr>pl_heap = Map.empty, pl_list = [], pl_n = pl_n (ocheads s)\<rparr>,
        ocs := (ocs s)\<lparr>pl_list := pl_list (ocs s) @ ?q\<rparr>, list_ochead := L\<rparr>)"
    "moved (pl_list (ocs s)) ?q (list_ochead s) L" using cleanup_heads_run [OF pre] by blast
  have "c \<notin> set ?q" "c \<in> dom (pl_heap (ocs s))" using pre c unfolding cleanup_pre_def set_entries by auto
  moreover from this(1) L(2) have "L c = list_ochead s c" by (simp add: moved_def)
  moreover obtain g where "vtqe_prev (list_ochead s c) = OcheadFirst g"
    using pre c by (auto simp: cleanup_pre_def chains_ok_def)
  ultimately show ?thesis
    unfolding xkey_cleanup_heads [OF pre L(1)] cleanup_ocs_def
    by (simp add: c free_ocs_dangling [where p = g])
qed

lemma xkey_cleanup_unpooled:
  assumes pre: "cleanup_pre s" and p: "pl_list (ocs s) = []"
  shows "\<exists>L. xkey_cleanup s = Some (Inr (cleaned s L))"
proof -
  let ?q = "concat (map (hq s) (inorder (hashtree s)))"
  obtain L where L: "cleanup_heads (inorder (hashtree s)) (inorder (octree s)) s =
      Inr (s\<lparr>hashtree := NIL, octree := NIL,
        hashheads := \<lparr>pl_heap = Map.empty, pl_list = [], pl_n = pl_n (hashheads s)\<rparr>,
        ocheads := \<lparr>pl_heap = Map.empty, pl_list = [], pl_n = pl_n (ocheads s)\<rparr>,
        ocs := (ocs s)\<lparr>pl_list := pl_list (ocs s) @ ?q\<rparr>, list_ochead := L\<rparr>)"
    "moved [] ?q (list_ochead s) L" using cleanup_heads_run [OF pre] unfolding p by blast
  note run = xkey_cleanup_heads [OF pre L(1)]
  show ?thesis
  proof (cases ?q)
    case Nil
    then have "cleanup_chain s = []" unfolding cleanup_chain_def Nil by simp
    have e: "cleanup_ocs s1 = Some (Inr s1)" if "pl_list (ocs s1) = []" for s1
      using that by (cases s1, cases "ocs s1") (simp add: cleanup_ocs_def free_ocs.simps)
    have "(ocs s)\<lparr>pl_list := []\<rparr> = \<lparr>pl_heap = pl_heap (ocs s), pl_list = [], pl_n = pl_n (ocs s)\<rparr>" by simp
    then show ?thesis unfolding run Nil p using \<open>cleanup_chain s = []\<close>
      by (intro exI [of _ L], subst e) (simp_all add: cleaned_def restrict_map_def)
  next
    case (Cons c r)
    have "c \<in> queued (hn s) (hq s)" using Cons set_entries [of s] by (metis list.set_intros(1))
    then have "c \<in> queued (on s) (oq s)" using pre by (simp add: cleanup_pre_def)
    then have "\<exists>g. find (\<lambda>g. c \<in> set (oq s g)) (inorder (octree s)) = Some g"
      by (auto simp: queued_def on_def find_None_iff not_None_eq [symmetric] simp del: not_None_eq)
    then obtain g where g: "find (\<lambda>g. c \<in> set (oq s g)) (inorder (octree s)) = Some g" by blast
    then have "g \<in> on s" "c \<in> set (oq s g)" by (auto simp: find_Some_iff on_def)
    define t where "t = tl (dropWhile (\<lambda>b. b \<noteq> c) (oq s g))"
    have dw: "dropWhile (\<lambda>b. b \<noteq> c) (oq s g) = c # t"
    proof -
      have "dropWhile (\<lambda>b. b \<noteq> c) (oq s g) \<noteq> []" using \<open>c \<in> set (oq s g)\<close> by (simp add: dropWhile_eq_Nil_conv)
      with hd_dropWhile [OF this] show ?thesis
        by (cases "dropWhile (\<lambda>b. b \<noteq> c) (oq s g)") (auto simp: t_def)
    qed
    have chain: "cleanup_chain s = c # t" unfolding cleanup_chain_def Cons by (simp add: g dw)
    have split: "oq s g = takeWhile (\<lambda>b. b \<noteq> c) (oq s g) @ c # t" using dw by (metis takeWhile_dropWhile_id)
    have "linked (OcheadFirst g) (oq s g) (list_ochead s)" using pre \<open>g \<in> on s\<close> by (auto simp: cleanup_pre_def chains_ok_def)
    then have "follows (oq s g) L" using L(2) linked_follows follows_cong by (metis moved_def)
    then have f: "follows (c # t) L" by (subst (asm) split) (rule follows_append)
    have "distinct (oq s g)" using pre \<open>g \<in> on s\<close> by (auto simp: cleanup_pre_def)
    then have d: "distinct (c # t)" by (subst (asm) split) (simp only: distinct_append)
    have sub: "set (c # t) \<subseteq> dom (pl_heap (ocs s))"
    proof -
      have "set (c # t) \<subseteq> set (oq s g)" by (subst split) auto
      also have "\<dots> \<subseteq> queued (on s) (oq s)" using \<open>g \<in> on s\<close> by (auto simp: queued_def)
      finally show ?thesis using pre by (auto simp: cleanup_pre_def)
    qed
    have b: "vtqe_prev (L c) = PoolFirst" using L(2) Cons by (simp add: moved_def)
    from free_ocs_chain [OF f b d sub, of Map.empty "last_place ?q"] obtain L' where
      "free_ocs Map.empty \<lparr>vtqh_first = Some c, vtqh_last = last_place ?q, sw_heap = pl_heap (ocs s), sw_link = L\<rparr> =
       Some (Inr \<lparr>vtqh_first = None, vtqh_last = PoolFirst, sw_heap = pl_heap (ocs s) |` (- set (c # t)), sw_link = L'\<rparr>)"
      by blast
    then show ?thesis unfolding run cleanup_ocs_def
      by (intro exI [of _ L']) (simp add: p Cons cleaned_def chain)
  qed
qed

lemma xk_inv_cleanup_pre: "xk_inv s \<Longrightarrow> cleanup_pre s"
proof -
  assume s: "xk_inv s"
  then have st: "hash_ok (hashtree s) (hashheads s)" "och_ok (octree s) (ocheads s)"
    "links_ok (hn s) (hq s) (on s) (oq s) (op_of s) (ocs s)" "chains_ok (on s) (oq s) (list_ochead s) (set (pl_list (ocs s)))"
    by (simp_all add: xk_inv_def xk_str_def)
  have d: "distinct (inorder (hashtree s))" "distinct (inorder (octree s))"
    using st(1,2) unfolding hash_ok_def och_ok_def table_ok_def index_ok_def by (blast dest: sorted_keys_distinct)+
  have h: "heap_split (hn s) (hashheads s)" "heap_split (on s) (ocheads s)" "heap_split (queued (hn s) (hq s)) (ocs s)"
    using st(1-3) by (simp_all add: hash_ok_def och_ok_def table_ok_def links_ok_def hn_def on_def pool_ok_split)
  have own: "\<exists>x. pl_heap (ocs s) c = Some x \<and> oc_hashhead x = Some a" if "a \<in> hn s" "c \<in> set (hq s a)" for a c
    using st(3) that by (auto simp: links_ok_def)
  have q: "\<forall>a \<in> hn s. distinct (hq s a)" "\<forall>p \<in> on s. distinct (oq s p)" "queued (on s) (oq s) = queued (hn s) (hq s)"
    using st(3) by (auto simp: links_ok_def)
  have "distinct (concat (map (hq s) hs))" if "distinct hs" "set hs \<subseteq> hn s" for hs
    using that
  proof (induction hs)
    case (Cons a hs)
    have "set (hq s a) \<inter> set (hq s b) = {}" if "b \<in> set hs" for b
      using own [of a] own [of b] Cons.prems that by fastforce
    with Cons q(1) show ?case by auto
  qed simp
  with d(1) have "distinct (concat (map (hq s) (inorder (hashtree s))))" by (simp add: hn_def)
  then show ?thesis using d h q st(4) by (auto simp: cleanup_pre_def heap_split_def)
qed

section \<open>\<open>xkey_oc\<close>s that are on no queue\<close>

text \<open>
  \<open>leak K s\<close> is \<open>s\<close> with the \<open>xkey_oc\<close>s \<open>K\<close> allocated beside those it knows. The sections do the
  same on both.
\<close>

definition leak :: "(addr \<rightharpoonup> xkey_oc) \<Rightarrow> xkey_state \<Rightarrow> xkey_state" where
  "leak K s = s\<lparr>ocs := (ocs s)\<lparr>pl_heap := pl_heap (ocs s) ++ K\<rparr>\<rparr>"

definition apart :: "(addr \<rightharpoonup> xkey_oc) \<Rightarrow> xkey_state \<Rightarrow> bool" where
  "apart K s \<longleftrightarrow> (\<forall>a \<in> dom K. pl_heap (ocs s) a = None \<and> a < xk_next s)"

lemma leak_sel [simp]:
  "hashtree (leak K s) = hashtree s" "octree (leak K s) = octree s" "hashheads (leak K s) = hashheads s"
  "ocheads (leak K s) = ocheads s" "pl_heap (ocs (leak K s)) = pl_heap (ocs s) ++ K" "pl_list (ocs (leak K s)) = pl_list (ocs s)"
  "pl_n (ocs (leak K s)) = pl_n (ocs s)" "list_ochead (leak K s) = list_ochead s" "xk_next (leak K s) = xk_next s"
  "xk_n_init (leak K s) = xk_n_init s" "xkey_cb_handle (leak K s) = xkey_cb_handle s"
  "hn (leak K s) = hn s" "hq (leak K s) = hq s" "on (leak K s) = on s" "oq (leak K s) = oq s"
  by (simp_all add: leak_def hn_def hq_def on_def oq_def fun_eq_iff)

text \<open>The tree insertions neither read nor write the pool of \<open>xkey_oc\<close>s.\<close>

lemma pool_new_next: "pool_new e x n P = Inr (a, P1, n1) \<Longrightarrow> n \<le> n1"
  by (auto simp: pool_new_def split: if_splits list.splits)

lemma head_new_ocs:
  "xkey_ochead_new s = Inr (a, s1) \<Longrightarrow>
    xkey_ochead_new (s\<lparr>ocs := C\<rparr>) = Inr (a, s1\<lparr>ocs := C\<rparr>) \<and> ocs s1 = ocs s \<and> xk_next s \<le> xk_next s1"
  "xkey_hashhead_new s = Inr (a, s1) \<Longrightarrow>
    xkey_hashhead_new (s\<lparr>ocs := C\<rparr>) = Inr (a, s1\<lparr>ocs := C\<rparr>) \<and> ocs s1 = ocs s \<and> xk_next s \<le> xk_next s1"
  by (auto simp: xkey_ochead_new_def xkey_hashhead_new_def dest: pool_new_next)

lemma head_delete_ocs:
  "xkey_ochead_delete a s = Inr s1 \<Longrightarrow>
    xkey_ochead_delete a (s\<lparr>ocs := C\<rparr>) = Inr (s1\<lparr>ocs := C\<rparr>) \<and> ocs s1 = ocs s \<and> xk_next s1 = xk_next s"
  "xkey_hashhead_delete a s = Inr s1 \<Longrightarrow>
    xkey_hashhead_delete a (s\<lparr>ocs := C\<rparr>) = Inr (s1\<lparr>ocs := C\<rparr>) \<and> ocs s1 = ocs s \<and> xk_next s1 = xk_next s"
  by (auto simp: xkey_ochead_delete_def xkey_hashhead_delete_def)

lemma octree_insert_ocs:
  assumes "xkey_octree_insert p s = Inr (a, s1)"
  shows "xkey_octree_insert p (s\<lparr>ocs := C\<rparr>) = Inr (a, s1\<lparr>ocs := C\<rparr>) \<and> ocs s1 = ocs s \<and> xk_next s \<le> xk_next s1"
proof -
  from assms obtain h s2 P where n: "p \<noteq> 0" "xkey_ochead_new s = Inr (h, s2)" "upd h (\<lambda>x. x\<lparr>oh_ptr := p\<rparr>) (ocheads s2) = Inr P"
    by (auto simp: xkey_octree_insert_def simp del: upd_def)
  note m = head_new_ocs(1) [OF n(2), of C]
  show ?thesis
  proof (cases "VRB_INSERT (xkey_ptrcmp (pl_heap P) p) h (octree s2)")
    case None
    with assms n show ?thesis by (simp add: xkey_octree_insert_def)
  next
    case (Some kt)
    obtain k t where kt: "kt = (k, t)" by (cases kt)
    show ?thesis
    proof (cases k)
      case None
      with assms n m Some kt show ?thesis by (auto simp: xkey_octree_insert_def)
    next
      case k: (Some b)
      with assms n Some kt obtain s3 where d: "xkey_ochead_delete h (s2\<lparr>ocheads := P, octree := t\<rparr>) = Inr s3"
        by (auto simp: xkey_octree_insert_def)
      have "s2\<lparr>ocs := C, ocheads := P, octree := t\<rparr> = s2\<lparr>ocheads := P, octree := t, ocs := C\<rparr>" by simp
      moreover note head_delete_ocs(1) [OF d, of C, folded this] d
      ultimately show ?thesis using assms n m Some kt k by (auto simp: xkey_octree_insert_def)
    qed
  qed
qed

lemma hashtree_insert_ocs:
  assumes "xkey_hashtree_insert d s = Inr (a, s1)"
  shows "xkey_hashtree_insert d (s\<lparr>ocs := C\<rparr>) = Inr (a, s1\<lparr>ocs := C\<rparr>) \<and> ocs s1 = ocs s \<and> xk_next s \<le> xk_next s1"
proof -
  from assms obtain h s2 P where n: "xkey_hashhead_new s = Inr (h, s2)" "upd h (\<lambda>x. x\<lparr>hh_digest := d\<rparr>) (hashheads s2) = Inr P"
    by (auto simp: xkey_hashtree_insert_def simp del: upd_def)
  note m = head_new_ocs(2) [OF n(1), of C]
  show ?thesis
  proof (cases "VRB_INSERT (xkey_hashcmp (pl_heap P) d) h (hashtree s2)")
    case None
    with assms n show ?thesis by (simp add: xkey_hashtree_insert_def)
  next
    case (Some kt)
    obtain k t where kt: "kt = (k, t)" by (cases kt)
    show ?thesis
    proof (cases k)
      case None
      with assms n m Some kt show ?thesis by (auto simp: xkey_hashtree_insert_def)
    next
      case k: (Some b)
      with assms n Some kt obtain s3 where d: "xkey_hashhead_delete h (s2\<lparr>hashheads := P, hashtree := t\<rparr>) = Inr s3"
        by (auto simp: xkey_hashtree_insert_def)
      have "s2\<lparr>ocs := C, hashheads := P, hashtree := t\<rparr> = s2\<lparr>hashheads := P, hashtree := t, ocs := C\<rparr>" by simp
      moreover note head_delete_ocs(2) [OF d, of C, folded this] d
      ultimately show ?thesis using assms n m Some kt k by (auto simp: xkey_hashtree_insert_def)
    qed
  qed
qed

lemma leak_at: "(\<forall>b \<in> dom K. h b = None) \<Longrightarrow> h a = Some x \<Longrightarrow> (h ++ K) a = Some x"
  by (cases "K a") (auto simp: map_add_def dom_def)

lemma leak_upd: "a \<notin> dom K \<Longrightarrow> (h ++ K)(a := v) = h(a := v) ++ K"
  by (auto simp: map_add_def fun_eq_iff split: option.splits)

lemma pool_new_leak:
  assumes "pool_new e x n P = Inr (a, P1, n1)" "\<forall>b \<in> dom K. pl_heap P b = None \<and> b < n"
  shows "pool_new e x n (P\<lparr>pl_heap := pl_heap P ++ K\<rparr>) = Inr (a, P1\<lparr>pl_heap := pl_heap P1 ++ K\<rparr>, n1) \<and>
    a \<notin> dom K \<and> n \<le> n1 \<and> (\<forall>b \<in> dom K. pl_heap P1 b = None \<and> b < n1)"
proof (cases "pl_n P > 0")
  case True
  with assms(1) obtain r y where "pl_list P = a # r" "pl_heap P a = Some y" "P1 = P\<lparr>pl_list := r, pl_n := pl_n P - 1\<rparr>" "n1 = n"
    by (auto simp: pool_new_def split: list.splits)
  moreover from this assms(2) have "a \<notin> dom K" by (metis option.distinct(1))
  ultimately show ?thesis using True assms(2) leak_at [of K "pl_heap P" a y] by (auto simp: pool_new_def)
next
  case False
  then have a: "a = n" "P1 = P\<lparr>pl_heap := (pl_heap P)(n \<mapsto> x)\<rparr>" "n1 = Suc n" using assms(1) by (auto simp: pool_new_def)
  have n: "n \<notin> dom K" using assms(2) by auto
  have "\<forall>b \<in> dom K. pl_heap P1 b = None \<and> b < n1" using n a(2,3) assms(2) by (auto simp: less_Suc_eq)
  with False a n show ?thesis by (simp add: pool_new_def leak_upd)
qed

lemma insert_tail_leak:
  "list_ochead_insert_tail h p q c L = Inr L' \<Longrightarrow> (\<forall>b \<in> dom K. h b = None) \<Longrightarrow>
    list_ochead_insert_tail (h ++ K) p q c L = Inr L'"
  by (auto simp: list_ochead_insert_tail_def Let_def leak_at split: if_splits)

lemma xkey_insert_leak:
  assumes "xkey_insert o' d s = Inr s'" "apart K s"
  shows "xkey_insert o' d (leak K s) = Inr (leak K s') \<and> apart K s'"
proof -
  from assms(1) obtain p s1 h s2 oc s3 z L PO PH PC where a:
    "length d = DIGEST_LEN" "xkey_octree_insert o' s = Inr (p, s1)" "xkey_hashtree_insert d s1 = Inr (h, s2)"
    "xkey_oc_new s2 = Inr (oc, s3)" "pl_heap (ocheads s3) p = Some z"
    "list_ochead_insert_tail (pl_heap (ocs s3)) p (oh_ocs z) oc (list_ochead s3) = Inr L"
    "upd p (\<lambda>x. x\<lparr>oh_ocs := oh_ocs x @ [oc]\<rparr>) (ocheads s3) = Inr PO"
    "upd h (\<lambda>x. x\<lparr>hh_ocs := hh_ocs x @ [oc]\<rparr>) (hashheads s3) = Inr PH"
    "upd oc (\<lambda>x. x\<lparr>oc_objcore := Some o', oc_hashhead := Some h\<rparr>) (ocs s3) = Inr PC"
    "s' = s3\<lparr>ocheads := PO, hashheads := PH, ocs := PC, list_ochead := L\<rparr>"
    unfolding xkey_insert_def by (auto simp del: upd_def)
  let ?leaked = "\<lambda>P. P\<lparr>pl_heap := pl_heap P ++ K\<rparr>"
  note t1 = octree_insert_ocs [OF a(2), of "?leaked (ocs s)"] and t2 = hashtree_insert_ocs [OF a(3), of "?leaked (ocs s)"]
  obtain P n where new: "pool_new NullDeref \<lparr>oc_hashhead = None, oc_objcore = None\<rparr> (xk_next s2) (ocs s2) = Inr (oc, P, n)"
    "s3 = s2\<lparr>ocs := P, xk_next := n\<rparr>" using a(4) by (auto simp: xkey_oc_new_def)
  have "\<forall>b \<in> dom K. pl_heap (ocs s2) b = None \<and> b < xk_next s2"
    using assms(2) t1 t2 unfolding apart_def by (metis le_trans not_le)
  note pl = pool_new_leak [OF new(1) this]
  have n3: "xkey_oc_new (s2\<lparr>ocs := ?leaked (ocs s)\<rparr>) = Inr (oc, s3\<lparr>ocs := ?leaked (ocs s3)\<rparr>)"
    using pl t1 t2 new(2) by (simp add: xkey_oc_new_def)
  have it: "list_ochead_insert_tail (pl_heap P ++ K) p (oh_ocs z) oc (list_ochead s3) = Inr L"
    by (rule insert_tail_leak) (use a(6) new(2) pl in auto)
  obtain y where y: "pl_heap P oc = Some y" "PC = P\<lparr>pl_heap := (pl_heap P)(oc \<mapsto> y\<lparr>oc_objcore := Some o', oc_hashhead := Some h\<rparr>)\<rparr>"
    using a(9) new(2) by (auto simp: upd_def)
  have up: "upd oc (\<lambda>x. x\<lparr>oc_objcore := Some o', oc_hashhead := Some h\<rparr>) (?leaked P) = Inr (?leaked PC)"
    using y leak_at [of K "pl_heap P" oc y] pl by (simp add: upd_def leak_upd)
  have "xkey_insert o' d (leak K s) = Inr (leak K s')"
    using a(1,5,7,8,10) t1 t2 n3 it up new(2) by (simp add: xkey_insert_def leak_def)
  moreover have "apart K s'" using pl new(2) y a(10) by (auto simp: apart_def)
  ultimately show ?thesis ..
qed

lemma remove_leak:
  "list_ochead_remove ho h c L = Inr L' \<Longrightarrow> (\<forall>b \<in> dom K. h b = None) \<Longrightarrow>
    list_ochead_remove ho (h ++ K) c L = Inr L'"
  by (auto simp: list_ochead_remove_def leak_at split: option.splits place.splits)

lemma pool_delete_leak:
  "a \<notin> dom K \<Longrightarrow> pool_delete a x (P\<lparr>pl_heap := pl_heap P ++ K\<rparr>) =
    (pool_delete a x P)\<lparr>pl_heap := pl_heap (pool_delete a x P) ++ K\<rparr>"
  by (simp add: pool_delete_def leak_upd)

lemma xkey_remove_step_leak:
  assumes "xkey_remove_step p oc s = Inr s'" "apart K s"
  shows "xkey_remove_step p oc (leak K s) = Inr (leak K s') \<and> apart K s'"
proof -
  let ?leaked = "\<lambda>P. P\<lparr>pl_heap := pl_heap P ++ K\<rparr>"
  from assms(1) obtain x h PH y where a: "pl_heap (ocs s) oc = Some x" "oc_hashhead x = Some h"
    "upd h (\<lambda>y. y\<lparr>hh_ocs := remove1 oc (hh_ocs y)\<rparr>) (hashheads s) = Inr PH" "pl_heap PH h = Some y"
    by (auto simp: xkey_remove_step_def Let_def simp del: upd_def split: option.splits)
  define C where "C = (ocs s)\<lparr>pl_heap := (pl_heap (ocs s))(oc \<mapsto> x\<lparr>oc_hashhead := None\<rparr>)\<rparr>"
  define s1 where "s1 = s\<lparr>ocs := C, hashheads := PH\<rparr>"
  define mid where "mid t = (if hh_ocs y = [] then
      (case VRB_REMOVE h (hashtree t) of None \<Rightarrow> Inl NullDeref | Some t' \<Rightarrow> xkey_hashhead_delete h (t\<lparr>hashtree := t'\<rparr>))
    else Inr t)" for t :: xkey_state
  have none: "\<forall>b \<in> dom K. pl_heap (ocs s) b = None" using assms(2) by (simp add: apart_def)
  then have oc: "oc \<notin> dom K" using a(1) by (metis option.distinct(1))
  from assms(1) obtain s2 PC L PO where b: "mid s1 = Inr s2" "upd oc (\<lambda>x. x\<lparr>oc_objcore := None\<rparr>) (ocs s2) = Inr PC"
    "list_ochead_remove (pl_heap (ocheads s2)) (pl_heap PC) oc (list_ochead s2) = Inr L"
    "upd p (\<lambda>z. z\<lparr>oh_ocs := remove1 oc (oh_ocs z)\<rparr>) (ocheads s2) = Inr PO"
    "xkey_oc_delete oc (s2\<lparr>ocs := PC, ocheads := PO, list_ochead := L\<rparr>) = Inr s'"
    using a by (auto simp: xkey_remove_step_def Let_def mid_def s1_def C_def simp del: upd_def)
  have m: "mid (s1\<lparr>ocs := ?leaked C\<rparr>) = Inr (s2\<lparr>ocs := ?leaked C\<rparr>) \<and> ocs s2 = C \<and> xk_next s2 = xk_next s"
  proof (cases "hh_ocs y = []")
    case True
    with b(1) obtain t' where t': "VRB_REMOVE h (hashtree s1) = Some t'" "xkey_hashhead_delete h (s1\<lparr>hashtree := t'\<rparr>) = Inr s2"
      by (auto simp: mid_def split: option.splits)
    have "s1\<lparr>ocs := ?leaked C, hashtree := t'\<rparr> = s1\<lparr>hashtree := t', ocs := ?leaked C\<rparr>" by simp
    with head_delete_ocs(2) [OF t'(2), of "?leaked C", folded this] True t'(1) show ?thesis by (simp add: mid_def s1_def)
  qed (use b(1) in \<open>auto simp: mid_def s1_def\<close>)
  have PC: "PC = (ocs s)\<lparr>pl_heap := (pl_heap (ocs s))(oc \<mapsto> x\<lparr>oc_hashhead := None, oc_objcore := None\<rparr>)\<rparr>"
    using b(2) m by (simp add: upd_def C_def)
  have up: "upd oc (\<lambda>x. x\<lparr>oc_objcore := None\<rparr>) (?leaked C) = Inr (?leaked PC)"
    using oc by (simp add: upd_def C_def PC leak_upd [symmetric])
  have rm: "list_ochead_remove (pl_heap (ocheads s2)) (pl_heap PC ++ K) oc (list_ochead s2) = Inr L"
    by (rule remove_leak [OF b(3)]) (use none oc PC in auto)
  obtain x2 where x2: "pl_heap PC oc = Some x2" "oc_objcore x2 = None"
    "s' = s2\<lparr>ocs := pool_delete oc x2 PC, ocheads := PO, list_ochead := L\<rparr>"
    using b(5) by (auto simp: xkey_oc_delete_def)
  have PC_none: "\<forall>b \<in> dom K. pl_heap PC b = None" using none oc by (auto simp: PC)
  have del: "xkey_oc_delete oc (s2\<lparr>ocs := ?leaked PC, ocheads := PO, list_ochead := L\<rparr>) = Inr (leak K s')"
    using leak_at [OF PC_none x2(1)] x2(2,3) by (simp add: xkey_oc_delete_def leak_def pool_delete_leak [OF oc])
  have eq: "xkey_remove_step p oc t = res_bind (mid (t\<lparr>ocs := (ocs t)\<lparr>pl_heap := (pl_heap (ocs t))(oc \<mapsto> x\<lparr>oc_hashhead := None\<rparr>)\<rparr>,
      hashheads := PH\<rparr>)) (\<lambda>s2.
    res_bind (upd oc (\<lambda>x. x\<lparr>oc_objcore := None\<rparr>) (ocs s2)) (\<lambda>PC.
    res_bind (list_ochead_remove (pl_heap (ocheads s2)) (pl_heap PC) oc (list_ochead s2)) (\<lambda>L.
    res_bind (upd p (\<lambda>z. z\<lparr>oh_ocs := remove1 oc (oh_ocs z)\<rparr>) (ocheads s2)) (\<lambda>PO.
    xkey_oc_delete oc (s2\<lparr>ocs := PC, ocheads := PO, list_ochead := L\<rparr>)))))"
    if "pl_heap (ocs t) oc = Some x" "hashheads t = hashheads s" for t
    using a(2-4) that by (simp add: xkey_remove_step_def mid_def Let_def)
  have e: "leak K s\<lparr>ocs := (ocs (leak K s))\<lparr>pl_heap := (pl_heap (ocs (leak K s)))(oc \<mapsto> x\<lparr>oc_hashhead := None\<rparr>)\<rparr>, hashheads := PH\<rparr> =
    s1\<lparr>ocs := ?leaked C\<rparr>"
    using oc by (simp add: C_def leak_def leak_upd s1_def)
  have "(pl_heap (ocs s) ++ K) oc = Some x" by (rule leak_at [OF none a(1)])
  then have "xkey_remove_step p oc (leak K s) = Inr (leak K s')"
    by (subst eq) (simp, simp, unfold e, use m up rm b(4) del in simp)
  moreover have "apart K s'"
    unfolding apart_def
  proof
    fix b assume b: "b \<in> dom K"
    then have "b \<noteq> oc" using oc by blast
    with b PC_none have "pl_heap (pool_delete oc x2 PC) b = None" by (simp add: pool_delete_def)
    moreover have "b < xk_next s2" using assms(2) m b by (simp add: apart_def)
    ultimately show "pl_heap (ocs s') b = None \<and> b < xk_next s'" by (simp add: x2(3))
  qed
  ultimately show ?thesis ..
qed

lemma xkey_remove_loop_leak:
  "xkey_remove_loop p q s = Inr s' \<Longrightarrow> apart K s \<Longrightarrow>
    xkey_remove_loop p q (leak K s) = Inr (leak K s') \<and> apart K s'"
proof (induction q arbitrary: s)
  case (Cons oc q)
  then obtain s1 where "xkey_remove_step p oc s = Inr s1" "xkey_remove_loop p q s1 = Inr s'" by auto
  with Cons.IH [of s1] xkey_remove_step_leak [of p oc s s1 K] Cons.prems(2) show ?case by simp
qed simp

lemma run_section_leak:
  assumes "run_section c s = Inr s'" "apart K s"
  shows "run_section c (leak K s) = Inr (leak K s') \<and> apart K s'"
proof (cases c)
  case (Put o' d)
  with assms xkey_insert_leak show ?thesis by simp
next
  case (Drop o')
  with assms(1) obtain q where q: "o' \<noteq> 0" "q = VRB_FIND (xkey_ptrcmp (pl_heap (ocheads s)) o') (octree s)"
    "(case q of None \<Rightarrow> Inr s | Some p \<Rightarrow> xkey_remove p s) = Inr s'"
    by (auto simp: xkey_cb_remove_def xkey_octree_lookup_def)
  show ?thesis
  proof (cases q)
    case None
    with Drop q assms(2) show ?thesis by (auto simp: xkey_cb_remove_def xkey_octree_lookup_def)
  next
    case (Some p)
    with q(3) obtain x s1 y t where r: "pl_heap (ocheads s) p = Some x" "xkey_remove_loop p (oh_ocs x) s = Inr s1"
      "pl_heap (ocheads s1) p = Some y" "oh_ocs y = []" "VRB_REMOVE p (octree s1) = Some t"
      "xkey_ochead_delete p (s1\<lparr>octree := t\<rparr>) = Inr s'"
      by (auto simp: xkey_remove_def split: option.splits)
    note l = xkey_remove_loop_leak [OF r(2) assms(2)]
    let ?C = "(ocs s1)\<lparr>pl_heap := pl_heap (ocs s1) ++ K\<rparr>"
    note d = head_delete_ocs(1) [OF r(6), of ?C]
    have e: "leak K s1\<lparr>octree := t\<rparr> = s1\<lparr>octree := t, ocs := ?C\<rparr>" "leak K s' = s'\<lparr>ocs := ?C\<rparr>"
      using d by (simp_all add: leak_def)
    have "xkey_ochead_delete p (leak K s1\<lparr>octree := t\<rparr>) = Inr (leak K s')"
      unfolding e by (rule conjunct1 [OF d])
    moreover have "apart K s'" using l d by (simp add: apart_def)
    moreover have "VRB_FIND (xkey_ptrcmp (pl_heap (ocheads s)) o') (octree s) = Some p" using q(2) Some by simp
    ultimately show ?thesis using Drop q(1) r(1,3-5) l
      by (simp add: xkey_cb_remove_def xkey_octree_lookup_def xkey_remove_def)
  qed
qed

text \<open>A cleaned index without tags: the counters may be off, and \<open>xkey_oc\<close>s may have stayed behind.\<close>

definition blank :: "xkey_state \<Rightarrow> bool" where
  "blank s \<longleftrightarrow> hashtree s = NIL \<and> octree s = NIL \<and> pl_heap (hashheads s) = Map.empty \<and> pl_list (hashheads s) = [] \<and>
     pl_heap (ocheads s) = Map.empty \<and> pl_list (ocheads s) = [] \<and> pl_heap (ocs s) = Map.empty \<and> pl_list (ocs s) = [] \<and>
     pl_n (ocs s) = 0 \<and> pl_n (hashheads s) \<ge> 0 \<and> pl_n (ocheads s) \<ge> 0"

lemma blank_inv:
  "blank s \<Longrightarrow> pl_n (ocheads s) = 0 \<Longrightarrow> pl_n (hashheads s) = 0 \<Longrightarrow> xk_inv s \<and> refines s (\<lambda>_. [])"
  by (simp add: blank_def refines_def xk_inv_def xk_str_def hash_ok_def och_ok_def table_ok_def pool_ok_def tags_def
      xkey_hashtree_lookup_def index_ok_def rb_tree_def fresh_def links_ok_def chains_ok_def queued_def hn_def on_def POOL_MAX_def)

lemma blank_cleanup_pre: "blank s \<Longrightarrow> cleanup_pre s"
  by (simp add: blank_def cleanup_pre_def heap_split_def queued_def hn_def on_def chains_ok_def)

lemma leak_cleanup_pre: "cleanup_pre s \<Longrightarrow> cleanup_pre (leak K s)"
  by (auto simp: cleanup_pre_def)

text \<open>A counter that is left over makes the next tag take a head from an empty pool.\<close>

lemma blank_insert:
  assumes "blank s" "o' \<noteq> 0" "length d = DIGEST_LEN" "pl_n (ocheads s) > 0 \<or> pl_n (hashheads s) > 0"
  shows "xkey_insert o' d (leak K s) = Inl (if pl_n (ocheads s) > 0 then NullDeref else AssertFail)"
proof (cases "pl_n (ocheads s) > 0")
  case True
  with assms show ?thesis
    by (simp add: xkey_insert_def xkey_octree_insert_def xkey_ochead_new_def pool_new_def blank_def)
next
  case False
  with assms(1,4) have n: "pl_n (ocheads s) = 0" "pl_n (hashheads s) > 0" by (auto simp: blank_def)
  have "och_ok (octree (leak K s)) (ocheads (leak K s))" "fresh (xk_next (leak K s)) (ocheads (leak K s))"
    using assms(1) n by (simp_all add: blank_def och_ok_def table_ok_def pool_ok_def index_ok_def rb_tree_def fresh_def POOL_MAX_def)
  from octree_insert_correct [OF this assms(2)] obtain h t' P' n' where
    "xkey_octree_insert o' (leak K s) = Inr (h, leak K s\<lparr>octree := t', ocheads := P', xk_next := n'\<rparr>)" by blast
  with assms n False show ?thesis
    by (simp add: xkey_insert_def xkey_hashtree_insert_def xkey_hashhead_new_def pool_new_def blank_def)
qed

lemma cleaned_blank:
  assumes "pl_n (ocs s) = 0" "pl_n (hashheads s) \<ge> 0" "pl_n (ocheads s) \<ge> 0" "fresh (xk_next s) (ocs s)"
  shows "\<exists>K t. cleaned s L = leak K t \<and> blank t \<and> apart K t"
proof -
  define t where "t = s\<lparr>hashtree := NIL, octree := NIL,
     hashheads := \<lparr>pl_heap = Map.empty, pl_list = [], pl_n = pl_n (hashheads s)\<rparr>,
     ocheads := \<lparr>pl_heap = Map.empty, pl_list = [], pl_n = pl_n (ocheads s)\<rparr>,
     ocs := \<lparr>pl_heap = Map.empty, pl_list = [], pl_n = pl_n (ocs s)\<rparr>, list_ochead := L\<rparr>"
  have "blank t" using assms(1-3) by (simp add: blank_def t_def)
  moreover have "cleaned s L = leak (pl_heap (ocs s) |` (- set (cleanup_chain s))) t" by (simp add: cleaned_def leak_def t_def)
  moreover have "apart (pl_heap (ocs s) |` (- set (cleanup_chain s))) t"
    using assms(4) by (auto simp: apart_def t_def fresh_def)
  ultimately show ?thesis by blast
qed

lemma inv_counters: "xk_inv s \<Longrightarrow> pl_n (ocs s) = int (length (pl_list (ocs s))) \<and>
    pl_n (hashheads s) = int (length (pl_list (hashheads s))) \<and> pl_n (ocheads s) = int (length (pl_list (ocheads s)))"
  by (simp add: xk_inv_def xk_str_def hash_ok_def och_ok_def table_ok_def links_ok_def pool_ok_def)

section \<open>When the pool holds an \<open>xkey_oc\<close>\<close>

lemma insert_pool:
  assumes "xkey_insert o' d s = Inr s'" "pl_list (ocs s) = []"
  shows "pl_list (ocs s') = []"
proof -
  from assms(1) obtain p s1 h s2 oc s3 PC where a:
    "xkey_octree_insert o' s = Inr (p, s1)" "xkey_hashtree_insert d s1 = Inr (h, s2)" "xkey_oc_new s2 = Inr (oc, s3)"
    "upd oc (\<lambda>x. x\<lparr>oc_objcore := Some o', oc_hashhead := Some h\<rparr>) (ocs s3) = Inr PC" "ocs s' = PC"
    unfolding xkey_insert_def by auto
  have "ocs s2 = ocs s" using octree_insert_ocs [OF a(1)] hashtree_insert_ocs [OF a(2)] by simp
  with a(3) assms(2) have "pl_list (ocs s3) = []" by (auto simp: xkey_oc_new_def pool_new_def split: if_splits)
  moreover have "pl_list PC = pl_list (ocs s3)" using a(4) by (auto simp: upd_def)
  ultimately show ?thesis using a(5) by simp
qed

lemma sections_pool:
  "run_sections cs s = Inr s' \<Longrightarrow> \<forall>o'. Drop o' \<notin> set cs \<Longrightarrow> pl_list (ocs s) = [] \<Longrightarrow> pl_list (ocs s') = []"
proof (induction cs arbitrary: s)
  case (Cons c cs)
  then obtain o' d where c: "c = Put o' d" by (cases c) auto
  with Cons.prems obtain s1 where "xkey_insert o' d s = Inr s1" "run_sections cs s1 = Inr s'" by auto
  with Cons insert_pool show ?case by auto
qed simp

lemma remove_step_pool:
  "xkey_remove_step p c s = Inr s' \<Longrightarrow> pl_list (ocs s') \<noteq> [] \<or> pl_n (ocs s') \<ge> POOL_MAX"
  by (auto simp: xkey_remove_step_def xkey_oc_delete_def pool_delete_def Let_def split: option.splits)

lemma remove_loop_pool:
  "xkey_remove_loop p q s = Inr s' \<Longrightarrow> q \<noteq> [] \<Longrightarrow> pl_list (ocs s') \<noteq> [] \<or> pl_n (ocs s') \<ge> POOL_MAX"
proof (induction q arbitrary: s)
  case (Cons c q)
  then obtain s1 where s1: "xkey_remove_step p c s = Inr s1" "xkey_remove_loop p q s1 = Inr s'" by auto
  show ?case
  proof (cases "q = []")
    case True
    with s1 remove_step_pool show ?thesis by auto
  next
    case False
    with Cons.IH [OF s1(2)] show ?thesis by blast
  qed
qed simp

lemma drop_pool:
  assumes "run_section (Drop o') s = Inr s'" "refines s m" "o' \<noteq> 0" "length d = DIGEST_LEN" "o' \<in> set (m d)"
  shows "pl_list (ocs s') \<noteq> []"
proof -
  have s: "xk_inv s" and st: "xk_str s" using assms(2) by (simp_all add: refines_def xk_inv_def)
  have t: "o' \<in> set (tags s d)" using assms(2,4,5) by (simp add: refines_def)
  then have "d \<in> used_keys s" using assms(4) by (auto simp: used_keys_def)
  with t have "o' \<in> used_objs s" by (auto simp: used_objs_def)
  then obtain p where p: "p \<in> on s" "op_of s p = o'" unfolding used_objs_heads [OF s] by blast
  with octree_lookup_iff [OF st assms(3)] have "xkey_octree_lookup o' s = Inr (Some p)" by auto
  with assms(1) have "xkey_remove p s = Inr s'" by (simp add: xkey_cb_remove_def)
  then obtain x s1 where x: "pl_heap (ocheads s) p = Some x" "xkey_remove_loop p (oh_ocs x) s = Inr s1" "ocs s' = ocs s1"
    by (auto simp: xkey_remove_def xkey_ochead_delete_def split: option.splits)
  then have "oh_ocs x \<noteq> []" using s p(1) by (auto simp: xk_inv_def oq_def)
  from remove_loop_pool [OF x(2) this] x(3) have "pl_list (ocs s') \<noteq> [] \<or> pl_n (ocs s') \<ge> POOL_MAX" by simp
  moreover have "xk_inv s'" using xkey_cb_remove_correct [OF s assms(3)] assms(1) by auto
  then have "pl_n (ocs s') = int (length (pl_list (ocs s')))"
    by (simp add: xk_inv_def xk_str_def links_ok_def pool_ok_def)
  ultimately show ?thesis by (auto simp: POOL_MAX_def)
qed

section \<open>The discard of the last VCL\<close>

lemma cleaned_insert:
  assumes s: "xk_inv s" "pl_list (ocs s) = []" and sec: "section_ok (Put o' d)"
  shows "if pl_n (ocheads s) > 0 then xkey_insert o' d (cleaned s L) = Inl NullDeref
    else if pl_n (hashheads s) > 0 then xkey_insert o' d (cleaned s L) = Inl AssertFail
    else \<exists>s''. xkey_insert o' d (cleaned s L) = Inr s''"
proof -
  obtain K t where t: "cleaned s L = leak K t" "blank t" "apart K t"
    using cleaned_blank [of s L] inv_counters [OF s(1)] s by (auto simp: xk_inv_def xk_str_def)
  have n: "pl_n (ocheads t) = pl_n (ocheads s)" "pl_n (hashheads t) = pl_n (hashheads s)"
    using arg_cong [OF t(1), of "\<lambda>s. pl_n (ocheads s)"] arg_cong [OF t(1), of "\<lambda>s. pl_n (hashheads s)"]
    by (simp_all add: cleaned_def)
  show ?thesis
  proof (cases "pl_n (ocheads s) > 0 \<or> pl_n (hashheads s) > 0")
    case True
    with blank_insert [OF t(2), of o' d K] sec n show ?thesis by (auto simp: t(1))
  next
    case False
    with t(2) n have "pl_n (ocheads t) = 0" "pl_n (hashheads t) = 0" by (auto simp: blank_def)
    from blank_inv [OF t(2) this] obtain t' where "run_section (Put o' d) t = Inr t'"
      using run_section_correct [OF sec] by blast
    from run_section_leak [OF this t(3)] have "xkey_insert o' d (cleaned s L) = Inr (leak K t')" by (simp add: t(1))
    with False show ?thesis by auto
  qed
qed

text \<open>
  Claim C38. The cleanup at the discard of the last VCL, after the sections of any cache callbacks
  in any interleaving. If the pool then holds an \<open>xkey_oc\<close>, the cleanup writes through a
  dangling pointer into an ochead it has just freed. Otherwise it ends with both trees and all heads gone, but it
  has freed only the \<open>xkey_oc\<close>s from the first entry of the smallest digest on along the
  queue of that entry's object; all others stay allocated. The counters of the pools are not
  reset: if one object was tagged a second time or a digest used twice, a counter of heads may be
  positive, and then the first tag after a reload stops the process. The pool is empty if no
  object was ever removed, so with one object under one key the cleanup is clean, and it is
  not empty if the last section was the removal of a tagged object.
\<close>

theorem xkey_discard_outcome:
  assumes "list_all section_ok cs"
  shows "\<exists>s. run_sections cs xkey_initial = Inr s \<and>
    (if pl_list (ocs s) \<noteq> [] then xkey_cleanup s = Some (Inl UseAfterFree)
     else \<exists>s'. xkey_cleanup s = Some (Inr s') \<and> hashtree s' = NIL \<and> octree s' = NIL \<and>
       pl_heap (hashheads s') = Map.empty \<and> pl_heap (ocheads s') = Map.empty \<and>
       pl_heap (ocs s') = pl_heap (ocs s) |` (- set (cleanup_chain s)) \<and>
       (\<forall>o' d. section_ok (Put o' d) \<longrightarrow>
          (if pl_n (ocheads s) > 0 then xkey_insert o' d s' = Inl NullDeref
           else if pl_n (hashheads s) > 0 then xkey_insert o' d s' = Inl AssertFail
           else \<exists>s''. xkey_insert o' d s' = Inr s''))) \<and>
    ((\<forall>o'. Drop o' \<notin> set cs) \<longrightarrow> pl_list (ocs s) = []) \<and>
    (\<forall>cs0 o' d. cs = cs0 @ [Drop o'] \<and> length d = DIGEST_LEN \<and> o' \<in> set (fold section_sem cs0 (\<lambda>_. []) d) \<longrightarrow>
       pl_list (ocs s) \<noteq> [])"
proof -
  obtain s where s: "run_sections cs xkey_initial = Inr s" "refines s (fold section_sem cs (\<lambda>_. []))"
    using run_sections_correct [OF assms xkey_initial_refines] by blast
  then have i: "xk_inv s" by (simp add: refines_def)
  note pre = xk_inv_cleanup_pre [OF i]
  have puts: "pl_list (ocs s) = []" if "\<forall>o'. Drop o' \<notin> set cs"
    using sections_pool [OF s(1) that] by (simp add: xkey_initial_def empty_pool_def)
  have last: "pl_list (ocs s) \<noteq> []"
    if "cs = cs0 @ [Drop o']" "length d = DIGEST_LEN" "o' \<in> set (fold section_sem cs0 (\<lambda>_. []) d)" for cs0 o' d
  proof -
    have ok: "list_all section_ok cs0" "o' \<noteq> 0" using assms that(1) by simp_all
    from run_sections_correct [OF ok(1) xkey_initial_refines] obtain s0 where
      s0: "run_sections cs0 xkey_initial = Inr s0" "refines s0 (fold section_sem cs0 (\<lambda>_. []))" by blast
    with s(1) that(1) have "run_section (Drop o') s0 = Inr s" by (simp add: run_sections_append)
    from drop_pool [OF this s0(2) ok(2) that(2,3)] show ?thesis .
  qed
  have out: "if pl_list (ocs s) \<noteq> [] then xkey_cleanup s = Some (Inl UseAfterFree)
     else \<exists>s'. xkey_cleanup s = Some (Inr s') \<and> hashtree s' = NIL \<and> octree s' = NIL \<and>
       pl_heap (hashheads s') = Map.empty \<and> pl_heap (ocheads s') = Map.empty \<and>
       pl_heap (ocs s') = pl_heap (ocs s) |` (- set (cleanup_chain s)) \<and>
       (\<forall>o' d. section_ok (Put o' d) \<longrightarrow>
          (if pl_n (ocheads s) > 0 then xkey_insert o' d s' = Inl NullDeref
           else if pl_n (hashheads s) > 0 then xkey_insert o' d s' = Inl AssertFail
           else \<exists>s''. xkey_insert o' d s' = Inr s''))"
  proof (cases "pl_list (ocs s) = []")
    case True
    from xkey_cleanup_unpooled [OF pre True] obtain L where L: "xkey_cleanup s = Some (Inr (cleaned s L))" by blast
    with cleaned_insert [OF i True] True show ?thesis by (auto simp: cleaned_def)
  qed (use xkey_cleanup_pooled [OF pre] in simp)
  with s(1) puts last show ?thesis by blast
qed

text \<open>
  One object under one key: all is freed. One object under two keys: a counter stays behind.
  After removals: a write into a freed ochead.
\<close>

lemma one_key_state:
  "(case run_sections [Put 7 (key_of ''ab'')] xkey_initial of Inl _ \<Rightarrow> False
    | Inr s \<Rightarrow> inorder (hashtree s) = [2] \<and> hq s 2 = [3] \<and> cleanup_chain s = [3])"
  by code_simp

lemma two_keys_state:
  "(case run_sections [Put 7 (key_of ''ab''), Put 7 (key_of ''cd'')] xkey_initial of Inl _ \<Rightarrow> False
    | Inr s \<Rightarrow> pl_n (ocheads s) = 1)"
  by code_simp

lemma comings_and_goings_tag:
  "9 \<in> set (fold section_sem (butlast comings_and_goings) (\<lambda>_. []) (key_of ''d''))"
  by code_simp

theorem xkey_discard_outcome_witness:
  "(\<exists>s s'. run_sections [Put 7 (key_of ''ab'')] xkey_initial = Inr s \<and> xkey_cleanup s = Some (Inr s') \<and>
      pl_heap (ocs s') = Map.empty) \<and>
   (\<exists>s s'. run_sections [Put 7 (key_of ''ab''), Put 7 (key_of ''cd'')] xkey_initial = Inr s \<and>
      xkey_cleanup s = Some (Inr s') \<and> xkey_insert 8 (key_of ''ab'') s' = Inl NullDeref) \<and>
   (\<exists>s. run_sections comings_and_goings xkey_initial = Inr s \<and> xkey_cleanup s = Some (Inl UseAfterFree))"
proof (intro conjI)
  have ok: "list_all section_ok [Put 7 (key_of ''ab'')]" by (simp add: key_of_def)
  from xkey_discard_outcome [OF this] obtain s s' where
    s: "run_sections [Put 7 (key_of ''ab'')] xkey_initial = Inr s" "pl_list (ocs s) = []"
    "xkey_cleanup s = Some (Inr s')" "pl_heap (ocs s') = pl_heap (ocs s) |` (- set (cleanup_chain s))"
    by (auto split: if_splits)
  have "xk_inv s" using run_sections_correct [OF ok xkey_initial_refines] s(1) by (auto simp: refines_def)
  then have "dom (pl_heap (ocs s)) = queued (hn s) (hq s)"
    using s(2) by (simp add: xk_inv_def xk_str_def links_ok_def pool_ok_def)
  also have "\<dots> = {3}" using one_key_state s(1) by (simp add: queued_def hn_def)
  finally have "pl_heap (ocs s') = Map.empty" using s(4) one_key_state s(1) by (auto simp: restrict_map_def fun_eq_iff)
  with s show "\<exists>s s'. run_sections [Put 7 (key_of ''ab'')] xkey_initial = Inr s \<and> xkey_cleanup s = Some (Inr s') \<and>
      pl_heap (ocs s') = Map.empty" by blast
next
  have ok: "list_all section_ok [Put 7 (key_of ''ab''), Put 7 (key_of ''cd'')]" and sec: "section_ok (Put 8 (key_of ''ab''))"
    by (simp_all add: key_of_def)
  show "\<exists>s s'. run_sections [Put 7 (key_of ''ab''), Put 7 (key_of ''cd'')] xkey_initial = Inr s \<and>
      xkey_cleanup s = Some (Inr s') \<and> xkey_insert 8 (key_of ''ab'') s' = Inl NullDeref"
    using xkey_discard_outcome [OF ok]
  proof (elim exE conjE, goal_cases)
    case (1 s)
    have "pl_list (ocs s) = []" using 1(3) by simp
    with 1(2) obtain s' where s': "xkey_cleanup s = Some (Inr s')"
      "\<forall>o' d. section_ok (Put o' d) \<longrightarrow> (if pl_n (ocheads s) > 0 then xkey_insert o' d s' = Inl NullDeref
         else if pl_n (hashheads s) > 0 then xkey_insert o' d s' = Inl AssertFail
         else \<exists>s''. xkey_insert o' d s' = Inr s'')"
      by (simp del: section_ok.simps) blast
    moreover have "pl_n (ocheads s) = 1" using two_keys_state unfolding 1(1) by simp
    ultimately show ?case using s'(2) [rule_format, OF sec] 1(1) by (intro exI [of _ s] exI [of _ s']) simp
  qed
next
  have l: "comings_and_goings = butlast comings_and_goings @ [Drop 9]" "length (key_of ''d'') = DIGEST_LEN"
    by (simp_all add: comings_and_goings_def key_of_def)
  show "\<exists>s. run_sections comings_and_goings xkey_initial = Inr s \<and> xkey_cleanup s = Some (Inl UseAfterFree)"
    using xkey_discard_outcome [OF comings_and_goings_ok]
  proof (elim exE conjE, goal_cases)
    case (1 s)
    have "pl_list (ocs s) \<noteq> []"
      using 1(4) [rule_format, of "butlast comings_and_goings" 9 "key_of ''d''"] l comings_and_goings_tag by blast
    with 1(1,2) show ?case by (intro exI [of _ s]) simp
  qed
qed

end
