(* ===== verification/Xkey_Life.thy ===== *)
theory Xkey_Life
  imports Xkey_Cleanup
begin

text \<open>
  The life of the surrogate-key module in varnishd: VCLs that use it are loaded and discarded,
  the first load registers the cache callback, the last discard removes it and cleans up, and
  the sections of cache callbacks come in any order as long as the callback is registered. After
  a discard that left \<open>xkey_oc\<close>s behind the module goes on, so they are part of the states.
\<close>

section \<open>Loads, discards and sections\<close>

inductive xk_live :: "xkey_state \<Rightarrow> bool" where
  start: "xk_live xkey_initial"
| load: "xk_live s \<Longrightarrow> h \<noteq> 0 \<Longrightarrow> xkey_vmod_event h VCL_EVENT_LOAD s = Some (Inr s') \<Longrightarrow> xk_live s'"
| discard: "xk_live s \<Longrightarrow> xkey_vmod_event h VCL_EVENT_DISCARD s = Some (Inr s') \<Longrightarrow> xk_live s'"
| cache: "xk_live s \<Longrightarrow> xkey_cb_handle s \<noteq> 0 \<Longrightarrow> section_ok c \<Longrightarrow> run_section c s = Inr s' \<Longrightarrow> xk_live s'"

text \<open>
  A reachable state is one that satisfies the invariant of the index, or a blank one, together
  with the \<open>xkey_oc\<close>s that earlier discards left behind.
\<close>

definition live_index :: "bool \<Rightarrow> xkey_state \<Rightarrow> bool" where
  "live_index used s \<longleftrightarrow> (\<exists>K t. s = leak K t \<and> apart K t \<and> (blank t \<or> used \<and> xk_inv t))"

definition live_inv :: "xkey_state \<Rightarrow> bool" where
  "live_inv s \<longleftrightarrow> xk_n_init s \<ge> 0 \<and> (xkey_cb_handle s \<noteq> 0 \<longleftrightarrow> xk_n_init s > 0) \<and> live_index (xk_n_init s > 0) s"

lemma queues_counters [simp]:
  "hn (s\<lparr>xk_n_init := n, xkey_cb_handle := h\<rparr>) = hn s" "hq (s\<lparr>xk_n_init := n, xkey_cb_handle := h\<rparr>) = hq s"
  "on (s\<lparr>xk_n_init := n, xkey_cb_handle := h\<rparr>) = on s" "oq (s\<lparr>xk_n_init := n, xkey_cb_handle := h\<rparr>) = oq s"
  "op_of (s\<lparr>xk_n_init := n, xkey_cb_handle := h\<rparr>) = op_of s" "obj_of (s\<lparr>xk_n_init := n, xkey_cb_handle := h\<rparr>) = obj_of s"
  by (simp_all add: xk_views fun_eq_iff)

lemma views_counters [simp]:
  "xk_inv (s\<lparr>xk_n_init := n, xkey_cb_handle := h\<rparr>) = xk_inv s"
  "tags (s\<lparr>xk_n_init := n, xkey_cb_handle := h\<rparr>) = tags s"
  "blank (s\<lparr>xk_n_init := n, xkey_cb_handle := h\<rparr>) = blank s"
  "apart K (s\<lparr>xk_n_init := n, xkey_cb_handle := h\<rparr>) = apart K s"
  "leak K s\<lparr>xk_n_init := n, xkey_cb_handle := h\<rparr> = leak K (s\<lparr>xk_n_init := n, xkey_cb_handle := h\<rparr>)"
  by (simp_all add: xk_inv_def xk_str_def tags_def xkey_hashtree_lookup_def blank_def apart_def leak_def fun_eq_iff split: option.split)

lemma live_index_counters: "live_index u s \<Longrightarrow> (u \<Longrightarrow> v) \<Longrightarrow> live_index v (s\<lparr>xk_n_init := n, xkey_cb_handle := h\<rparr>)"
  unfolding live_index_def by (metis views_counters(1,3-5))

lemma live_index_cases [consumes 1, case_names blank index]:
  assumes "live_index u s"
  obtains K t where "s = leak K t" "apart K t" "blank t"
  | K t where "s = leak K t" "apart K t" "xk_inv t" "u"
  using assms unfolding live_index_def by blast

lemma live_pre: "live_index u s \<Longrightarrow> cleanup_pre s"
  by (erule live_index_cases) (simp_all add: leak_cleanup_pre blank_cleanup_pre xk_inv_cleanup_pre)

lemma blank_tags: "hashtree s = NIL \<Longrightarrow> tags s d = []"
  by (simp add: tags_def xkey_hashtree_lookup_def)

section \<open>Each step\<close>

lemma load_step:
  assumes "live_inv s" "h \<noteq> 0"
  shows "xkey_vmod_event h VCL_EVENT_LOAD s =
    Some (Inr (s\<lparr>xk_n_init := xk_n_init s + 1, xkey_cb_handle := (if xk_n_init s = 0 then h else xkey_cb_handle s)\<rparr>))"
  using assms by (auto simp: xkey_vmod_event_def live_inv_def)

lemma discard_step:
  assumes "live_inv s"
  shows "xk_n_init s = 0 \<Longrightarrow> xkey_vmod_event h VCL_EVENT_DISCARD s = Some (Inl AssertFail)"
    and "xk_n_init s > 1 \<Longrightarrow> xkey_vmod_event h VCL_EVENT_DISCARD s = Some (Inr (s\<lparr>xk_n_init := xk_n_init s - 1\<rparr>))"
    and "xk_n_init s = 1 \<Longrightarrow> pl_list (ocs s) \<noteq> [] \<Longrightarrow> xkey_vmod_event h VCL_EVENT_DISCARD s = Some (Inl UseAfterFree)"
    and "xk_n_init s = 1 \<Longrightarrow> pl_list (ocs s) = [] \<Longrightarrow>
      \<exists>L. xkey_vmod_event h VCL_EVENT_DISCARD s = Some (Inr (cleaned (s\<lparr>xk_n_init := 0, xkey_cb_handle := 0\<rparr>) L))"
proof -
  let ?s = "s\<lparr>xk_n_init := 0, xkey_cb_handle := 0\<rparr>"
  have pre: "cleanup_pre ?s"
    using live_index_counters [of "xk_n_init s > 0" s True 0 0] assms by (auto simp: live_inv_def intro: live_pre)
  show "xk_n_init s = 0 \<Longrightarrow> xkey_vmod_event h VCL_EVENT_DISCARD s = Some (Inl AssertFail)"
    "xk_n_init s > 1 \<Longrightarrow> xkey_vmod_event h VCL_EVENT_DISCARD s = Some (Inr (s\<lparr>xk_n_init := xk_n_init s - 1\<rparr>))"
    using assms by (auto simp: xkey_vmod_event_def live_inv_def)
  show "xk_n_init s = 1 \<Longrightarrow> pl_list (ocs s) \<noteq> [] \<Longrightarrow> xkey_vmod_event h VCL_EVENT_DISCARD s = Some (Inl UseAfterFree)"
    using xkey_cleanup_pooled [OF pre] assms by (auto simp: xkey_vmod_event_def live_inv_def)
  show "xk_n_init s = 1 \<Longrightarrow> pl_list (ocs s) = [] \<Longrightarrow>
      \<exists>L. xkey_vmod_event h VCL_EVENT_DISCARD s = Some (Inr (cleaned ?s L))"
    using xkey_cleanup_unpooled [OF pre] assms by (auto simp: xkey_vmod_event_def live_inv_def)
qed

lemma cleaned_live:
  assumes "live_index u s" "pl_list (ocs s) = []"
  shows "live_index v (cleaned s L)"
proof -
  have "pl_n (ocs s) = 0 \<and> pl_n (hashheads s) \<ge> 0 \<and> pl_n (ocheads s) \<ge> 0 \<and> fresh (xk_next s) (ocs s)"
    using assms
  proof (cases rule: live_index_cases)
    case (blank K t)
    then show ?thesis by (auto simp: blank_def apart_def fresh_def)
  next
    case (index K t)
    then have "fresh (xk_next t) (ocs t)" by (simp add: xk_inv_def xk_str_def)
    with index inv_counters [OF index(3)] assms(2) show ?thesis by (auto simp: apart_def fresh_def)
  qed
  with cleaned_blank [of s L] show ?thesis unfolding live_index_def by blast
qed

lemma section_step:
  assumes "live_index True s" "section_ok c"
  shows "(\<exists>s'. run_section c s = Inr s' \<and> live_index True s' \<and> xk_n_init s' = xk_n_init s \<and> xkey_cb_handle s' = xkey_cb_handle s) \<or>
    (pl_n (hashheads s) \<noteq> int (length (pl_list (hashheads s))) \<or> pl_n (ocheads s) \<noteq> int (length (pl_list (ocheads s)))) \<and>
    (\<forall>s'. run_section c s = Inr s' \<longrightarrow> s' = s)"
proof -
  have ok: ?thesis if "s = leak K t" "apart K t" "xk_inv t" for K t
  proof -
    from that(3) have "refines t (tags t)" by (simp add: refines_def)
    from run_section_correct [OF assms(2) this] obtain t' where t': "run_section c t = Inr t'" "xk_inv t'"
      "xk_n_init t' = xk_n_init t" "xkey_cb_handle t' = xkey_cb_handle t" by (auto simp: refines_def)
    from run_section_leak [OF t'(1) that(2)] t' that(1) show ?thesis unfolding live_index_def by auto
  qed
  from assms(1) show ?thesis
  proof (cases rule: live_index_cases)
    case (blank K t)
    show ?thesis
    proof (cases "pl_n (ocheads t) = 0 \<and> pl_n (hashheads t) = 0")
      case True
      with blank_inv [OF blank(3)] ok [OF blank(1,2)] show ?thesis by blast
    next
      case False
      with blank(3) have n: "pl_n (ocheads t) > 0 \<or> pl_n (hashheads t) > 0" by (auto simp: blank_def)
      have "s' = s" if "run_section c s = Inr s'" for s'
      proof (cases c)
        case (Put o' d)
        with blank_insert [OF blank(3) _ _ n, of o' d K] assms(2) that blank(1) show ?thesis by simp
      next
        case (Drop o')
        with that blank(1,3) show ?thesis by (simp add: xkey_cb_remove_def xkey_octree_lookup_def blank_def)
      qed
      with n blank show ?thesis by (auto simp: blank_def)
    qed
  qed (rule ok)
qed

lemma xk_live_inv: "xk_live s \<Longrightarrow> live_inv s"
proof (induction rule: xk_live.induct)
  case start
  have "blank xkey_initial" "apart Map.empty xkey_initial" "xkey_initial = leak Map.empty xkey_initial"
    by (simp_all add: blank_def apart_def leak_def xkey_initial_def empty_pool_def)
  then have "live_index u xkey_initial" for u unfolding live_index_def by blast
  then show ?case by (simp add: live_inv_def) (simp add: xkey_initial_def)
next
  case (load s h s')
  from load_step [OF load.IH load.hyps(2)] load.hyps(3) have s': "s' =
    s\<lparr>xk_n_init := xk_n_init s + 1, xkey_cb_handle := (if xk_n_init s = 0 then h else xkey_cb_handle s)\<rparr>" by simp
  have "live_index True s'" unfolding s'
    by (rule live_index_counters [of "xk_n_init s > 0"]) (use load.IH in \<open>simp_all add: live_inv_def\<close>)
  with load.IH load.hyps(2) show ?case by (auto simp: live_inv_def s')
next
  case (discard s h s')
  note d = discard_step [OF discard.IH, of h]
  consider "xk_n_init s = 0" | "xk_n_init s > 1" | "xk_n_init s = 1"
    using discard.IH unfolding live_inv_def by linarith
  then show ?case
  proof cases
    case 1
    with d(1) discard.hyps(2) show ?thesis by simp
  next
    case 2
    with d(2) discard.hyps(2) have "s' = s\<lparr>xk_n_init := xk_n_init s - 1, xkey_cb_handle := xkey_cb_handle s\<rparr>" by simp
    have "live_index True s'" unfolding \<open>s' = _\<close>
      by (rule live_index_counters [of "xk_n_init s > 0"]) (use discard.IH in \<open>simp_all add: live_inv_def\<close>)
    with 2 discard.IH \<open>s' = _\<close> show ?thesis by (simp add: live_inv_def)
  next
    case 3
    with d(3) discard.hyps(2) have p: "pl_list (ocs s) = []" by auto
    let ?s = "s\<lparr>xk_n_init := 0, xkey_cb_handle := 0\<rparr>"
    from d(4) [OF 3 p] discard.hyps(2) obtain L where s': "s' = cleaned ?s L" by auto
    have "live_index True ?s" using discard.IH live_index_counters [of "xk_n_init s > 0" s True] by (simp add: live_inv_def)
    from cleaned_live [OF this] p s' show ?thesis by (simp add: live_inv_def) (simp add: cleaned_def)
  qed
next
  case (cache s c s')
  then have n: "xk_n_init s > 0" by (simp add: live_inv_def)
  with cache.IH have l: "live_index True s" by (simp add: live_inv_def)
  from section_step [OF l cache.hyps(3)] cache.hyps(4) have
    "live_index True s' \<and> xk_n_init s' = xk_n_init s \<and> xkey_cb_handle s' = xkey_cb_handle s" using l by auto
  with cache.IH n show ?case by (simp add: live_inv_def)
qed

section \<open>Properties\<close>

text \<open>
  Claim C31. The life cycle. In every state that loads, discards and sections of cache callbacks
  can reach, also after discards that left \<open>xkey_oc\<close>s behind, the callback is registered exactly
  while the count of VCLs is positive, and nothing is tagged while it is zero. A load always
  succeeds, leaves the tags alone and registers the callback if it is the first. A discard too
  many aborts; one that is not the last changes nothing but the count. The last one writes into
  a freed ochead if the pool holds an \<open>xkey_oc\<close>; otherwise it completes, and the callback and all tags are
  gone. A section completes, unless a counter of pooled heads has been left
  over by a discard.
\<close>

theorem xkey_lifecycle:
  assumes "xk_live s" and "h \<noteq> 0"
  shows "xk_n_init s \<ge> 0 \<and> (xkey_cb_handle s \<noteq> 0 \<longleftrightarrow> xk_n_init s > 0) \<and> (xk_n_init s = 0 \<longrightarrow> (\<forall>d. tags s d = [])) \<and>
    (\<exists>s'. xkey_vmod_event h VCL_EVENT_LOAD s = Some (Inr s') \<and> tags s' = tags s \<and> xk_n_init s' = xk_n_init s + 1 \<and>
      xkey_cb_handle s' = (if xk_n_init s = 0 then h else xkey_cb_handle s)) \<and>
    (if xk_n_init s = 0 then xkey_vmod_event h VCL_EVENT_DISCARD s = Some (Inl AssertFail)
     else if xk_n_init s > 1 then xkey_vmod_event h VCL_EVENT_DISCARD s = Some (Inr (s\<lparr>xk_n_init := xk_n_init s - 1\<rparr>))
     else if pl_list (ocs s) \<noteq> [] then xkey_vmod_event h VCL_EVENT_DISCARD s = Some (Inl UseAfterFree)
     else \<exists>s'. xkey_vmod_event h VCL_EVENT_DISCARD s = Some (Inr s') \<and> xk_n_init s' = 0 \<and> xkey_cb_handle s' = 0 \<and>
       (\<forall>d. tags s' d = [])) \<and>
    (\<forall>c. xk_n_init s > 0 \<and> section_ok c \<longrightarrow> (\<exists>s'. run_section c s = Inr s') \<or>
       pl_n (hashheads s) \<noteq> int (length (pl_list (hashheads s))) \<or> pl_n (ocheads s) \<noteq> int (length (pl_list (ocheads s))))"
proof -
  have i: "live_inv s" by (rule xk_live_inv [OF assms(1)])
  then have n: "xk_n_init s \<ge> 0" "xkey_cb_handle s \<noteq> 0 \<longleftrightarrow> xk_n_init s > 0" "live_index (xk_n_init s > 0) s"
    by (auto simp: live_inv_def)
  have none: "\<forall>d. tags s d = []" if "xk_n_init s = 0"
    using n(3) that by (auto simp: live_index_def blank_def intro!: blank_tags)
  have load: "\<exists>s'. xkey_vmod_event h VCL_EVENT_LOAD s = Some (Inr s') \<and> tags s' = tags s \<and> xk_n_init s' = xk_n_init s + 1 \<and>
      xkey_cb_handle s' = (if xk_n_init s = 0 then h else xkey_cb_handle s)"
    by (subst load_step [OF i assms(2)]) (simp del: if_split split del: if_split)
  have last: "\<exists>s'. xkey_vmod_event h VCL_EVENT_DISCARD s = Some (Inr s') \<and> xk_n_init s' = 0 \<and> xkey_cb_handle s' = 0 \<and>
      (\<forall>d. tags s' d = [])" if one: "xk_n_init s = 1" "pl_list (ocs s) = []"
  proof -
    from discard_step(4) [OF i one] obtain L where
      "xkey_vmod_event h VCL_EVENT_DISCARD s = Some (Inr (cleaned (s\<lparr>xk_n_init := 0, xkey_cb_handle := 0\<rparr>) L))" by blast
    then show ?thesis by (simp add: blank_tags cleaned_def)
  qed
  have sec: "(\<exists>s'. run_section c s = Inr s') \<or> pl_n (hashheads s) \<noteq> int (length (pl_list (hashheads s))) \<or>
      pl_n (ocheads s) \<noteq> int (length (pl_list (ocheads s)))" if "xk_n_init s > 0" "section_ok c" for c
    using section_step [of s c] n(3) that by auto
  note d = discard_step [OF i, of h]
  have "\<not> xk_n_init s > 1 \<Longrightarrow> xk_n_init s \<noteq> 0 \<Longrightarrow> xk_n_init s = 1" using n(1) by linarith
  with d(1-3) last have "if xk_n_init s = 0 then xkey_vmod_event h VCL_EVENT_DISCARD s = Some (Inl AssertFail)
     else if xk_n_init s > 1 then xkey_vmod_event h VCL_EVENT_DISCARD s = Some (Inr (s\<lparr>xk_n_init := xk_n_init s - 1\<rparr>))
     else if pl_list (ocs s) \<noteq> [] then xkey_vmod_event h VCL_EVENT_DISCARD s = Some (Inl UseAfterFree)
     else \<exists>s'. xkey_vmod_event h VCL_EVENT_DISCARD s = Some (Inr s') \<and> xk_n_init s' = 0 \<and> xkey_cb_handle s' = 0 \<and>
       (\<forall>d. tags s' d = [])" by (simp split: if_split)
  with n(1,2) none load sec show ?thesis by blast
qed

text \<open>Two VCLs are loaded and an object is tagged; the discard of one of them keeps the tag.\<close>

lemma two_loads_live: "\<exists>s. xk_live s \<and> xk_n_init s = 2 \<and> tags s (key_of ''ab'') = [7]"
proof -
  let ?s = "xkey_initial\<lparr>xk_n_init := 2, xkey_cb_handle := 5\<rparr>"
  have l: "xkey_vmod_event 5 VCL_EVENT_LOAD xkey_initial = Some (Inr (xkey_initial\<lparr>xk_n_init := 1, xkey_cb_handle := 5\<rparr>))"
    "xkey_vmod_event 6 VCL_EVENT_LOAD (xkey_initial\<lparr>xk_n_init := 1, xkey_cb_handle := 5\<rparr>) = Some (Inr ?s)"
    by (simp_all add: xkey_vmod_event_def xkey_initial_def)
  have live: "xk_live ?s"
    by (rule xk_live.load [OF xk_live.load [OF xk_live.start _ l(1)] _ l(2)]) simp_all
  have ok: "section_ok (Put 7 (key_of ''ab''))" by (simp add: key_of_def)
  have "refines ?s (\<lambda>_. [])" using xkey_initial_refines by (simp add: refines_def)
  from run_section_correct [OF ok this] obtain s where s: "run_section (Put 7 (key_of ''ab'')) ?s = Inr s"
    "refines s (tag_one 7 (key_of ''ab'') (\<lambda>_. []))" "xk_n_init s = 2" by auto
  have "tags s (key_of ''ab'') = [7]" using s(2) ok by (simp add: refines_def tag_one_def)
  moreover have "xk_live s" by (rule xk_live.cache [OF live _ ok s(1)]) simp
  ultimately show ?thesis using s(3) by blast
qed

theorem xkey_lifecycle_witness:
  "\<exists>s s'. xkey_vmod_event 9 VCL_EVENT_DISCARD s = Some (Inr s') \<and> xk_n_init s' = 1 \<and> tags s' (key_of ''ab'') = [7]"
proof -
  obtain s where s: "xk_live s" "xk_n_init s = 2" "tags s (key_of ''ab'') = [7]"
    using two_loads_live by blast
  from xkey_lifecycle [OF s(1), of 9] s(2) have "xkey_vmod_event 9 VCL_EVENT_DISCARD s = Some (Inr (s\<lparr>xk_n_init := 1\<rparr>))"
    by simp
  moreover have "s\<lparr>xk_n_init := 1\<rparr> = s\<lparr>xk_n_init := 1, xkey_cb_handle := xkey_cb_handle s\<rparr>" by simp
  then have "tags (s\<lparr>xk_n_init := 1\<rparr>) = tags s" by (metis views_counters(2))
  ultimately show ?thesis using s(3) by (intro exI [of _ s] exI [of _ "s\<lparr>xk_n_init := 1\<rparr>"]) simp
qed

end
