(* ===== verification/Header.thy ===== *)
theory Header
  imports Prelude
begin

text \<open>
  Header manipulation, \<^verbatim>\<open>src/src/vmod_header.c\<close>: append, get, copy and remove header lines of
  an HTTP message, the latter two selected by a regular expression that is compiled once
  per call site.

  A \<open>struct http\<close> is its array of header lines \<open>hd\<close> (a line, or NULL), their flags \<open>hdf\<close>, the
  number \<open>nhd\<close> of slots in use and the number \<open>shd\<close> of slots there are. The lines from
  \<open>HTTP_HDR_FIRST\<close> on are headers, those before it the request or status line. A header name
  is a string whose first character is the length of the rest, which ends in a colon.
  \<open>VRT_selecthttp\<close>, \<open>VRT_String\<close>, \<open>VRT_re_match\<close> and \<open>http_SetHeader\<close> are varnishd's: parameters.
\<close>

section \<open>Data\<close>

record 'ws http =
  hd_b :: "string option list"
  hdf :: "u8 list"
  nhd :: nat
  shd :: nat
  http_ws :: 'ws

record 'w vcl_header =
  hdr_where :: 'w
  hdr_what :: string

text \<open>
  The calls into varnishd. \<open>VRT_String ws h parts\<close> puts a string together on a workspace or
  returns NULL, \<open>http_SetHeader\<close> adds a line; \<open>HTTP_HDR_FIRST\<close> is a constant of varnishd's
  headers, which differs between its versions.
\<close>

record ('w, 'ws, 're) header_api =
  HTTP_HDR_FIRST :: nat
  VRT_selecthttp :: "'w \<Rightarrow> addr"
  VRT_String :: "'ws \<Rightarrow> string \<Rightarrow> string option list \<Rightarrow> string option \<times> 'ws"
  http_SetHeader :: "'ws http \<Rightarrow> string \<Rightarrow> 'ws http"
  VRT_re_match :: "'re \<Rightarrow> string \<Rightarrow> bool"

text \<open>What a call of the module works on: the messages of the transaction and its log.\<close>

record 'ws hctx =
  https :: "addr \<rightharpoonup> 'ws http"
  h_vsl :: vsl_log

section \<open>Matching\<close>

text \<open>The length byte is a \<open>char\<close>, signed, converted to \<open>unsigned\<close>.\<close>

definition hdr_len :: "string \<Rightarrow> nat res" where
  "hdr_len hdr = (case hdr of [] \<Rightarrow> Inr 0
     | c # _ \<Rightarrow> Inr (let n = (of_char c :: nat) in if n < 128 then n else n + (2 ^ 32 - 256)))"

definition header_http_IsHdr :: "string \<Rightarrow> string \<Rightarrow> bool res" where
  "header_http_IsHdr b hdr =
     res_bind (guard (hdr \<noteq> []) UndefBehav) (\<lambda>_.
     res_bind (hdr_len hdr) (\<lambda>l.
     res_bind (guard (l = length (tl hdr)) AssertFail) (\<lambda>_.
     res_bind (guard (hdr ! l = CHR '':'') AssertFail) (\<lambda>_.
     Inr (strncasecmp_eq (tl hdr) b l)))))"

definition header_http_match ::
  "('re \<Rightarrow> string \<Rightarrow> bool) \<Rightarrow> string option \<Rightarrow> 're option \<Rightarrow> string \<Rightarrow> bool res" where
  "header_http_match re_match hb re hdr =
     (case hb of None \<Rightarrow> Inr False | Some b \<Rightarrow>
     res_bind (hdr_len hdr) (\<lambda>l.
     res_bind (header_http_IsHdr b hdr) (\<lambda>is.
     if \<not> is then Inr False
     else case re of None \<Rightarrow> Inr True | Some r \<Rightarrow>
       let start = skip (\<lambda>c. c = CHR '' '') (drop l b) in
       if start = [] then Inr False else Inr (re_match r start))))"

text \<open>The loop over the slots \<open>us\<close>; slot 0 means that there is no such header.\<close>

fun findhdr_loop ::
  "('re \<Rightarrow> string \<Rightarrow> bool) \<Rightarrow> 'ws http \<Rightarrow> string \<Rightarrow> 're option \<Rightarrow> nat list \<Rightarrow> nat res" where
  "findhdr_loop rm hp hdr re [] = Inr 0"
| "findhdr_loop rm hp hdr re (u # us) =
     res_bind (header_http_match rm (hd_b hp ! u) re hdr) (\<lambda>m.
     if m then Inr u else findhdr_loop rm hp hdr re us)"

definition header_http_findhdr ::
  "('w, 'ws, 're) header_api \<Rightarrow> 'ws http \<Rightarrow> string \<Rightarrow> 're option \<Rightarrow> nat res" where
  "header_http_findhdr api hp hdr re = findhdr_loop (VRT_re_match api) hp hdr re [HTTP_HDR_FIRST api..<nhd hp]"

section \<open>Removing\<close>

text \<open>The loop over \<open>u\<close> with the slot \<open>v\<close> the next kept line goes to.\<close>

fun unset_loop ::
  "('re \<Rightarrow> string \<Rightarrow> bool) \<Rightarrow> string \<Rightarrow> 're option \<Rightarrow> nat list \<Rightarrow> nat \<Rightarrow> 'ws http \<Rightarrow> (nat \<times> 'ws http) res" where
  "unset_loop rm hdr re [] v hp = Inr (v, hp)"
| "unset_loop rm hdr re (u # us) v hp =
     (if hd_b hp ! u = None then unset_loop rm hdr re us v hp
      else res_bind (header_http_match rm (hd_b hp ! u) re hdr) (\<lambda>m.
        if m then unset_loop rm hdr re us v hp
        else unset_loop rm hdr re us (v + 1)
          (if v \<noteq> u then hp\<lparr>hd_b := (hd_b hp)[v := hd_b hp ! u], hdf := (hdf hp)[v := hdf hp ! u]\<rparr> else hp)))"

definition header_http_Unset ::
  "('w, 'ws, 're) header_api \<Rightarrow> string \<Rightarrow> 're option \<Rightarrow> 'ws http \<Rightarrow> 'ws http res" where
  "header_http_Unset api hdr re hp =
     res_bind (unset_loop (VRT_re_match api) hdr re [HTTP_HDR_FIRST api..<nhd hp] (HTTP_HDR_FIRST api) hp) (\<lambda>(v, hp1).
     Inr (hp1\<lparr>nhd := v\<rparr>))"

section \<open>The functions of the module\<close>

text \<open>\<open>fmt\<close> is the first string of the list, which may be NULL, \<open>rest\<close> the others.\<close>

definition header_vmod_append ::
  "('w, 'ws, 're) header_api \<Rightarrow> 'w vcl_header \<Rightarrow> string option \<Rightarrow> string option list \<Rightarrow> 'ws hctx \<Rightarrow> 'ws hctx res" where
  "header_vmod_append api hdr fmt rest ctx =
     (if fmt = None then Inr ctx
      else
        let a = VRT_selecthttp api (hdr_where hdr) in
        res_bind (deref (https ctx) a) (\<lambda>hp.
        let (b, w) = VRT_String api (http_ws hp) (tl (hdr_what hdr)) (fmt # rest);
            hp1 = hp\<lparr>http_ws := w\<rparr>
        in case b of
          None \<Rightarrow> Inr (ctx\<lparr>https := (https ctx)(a \<mapsto> hp1),
                      h_vsl := VSLb SLT_LostHeader ''vmod_header: %s'' [ArgStr (tl (hdr_what hdr))] (h_vsl ctx)\<rparr>)
        | Some s \<Rightarrow> Inr (ctx\<lparr>https := (https ctx)(a \<mapsto> http_SetHeader api hp1 s)\<rparr>)))"

text \<open>
  The loop of \<open>header_http_cphdr\<close> reads \<open>hp->nhd\<close> anew at every turn, because \<open>vmod_append\<close> may
  add to the message it goes through: the loop has no bound of its own.
\<close>

definition skip_blanks :: "string \<Rightarrow> string" where
  "skip_blanks s = skip (\<lambda>c. c = CHR '' '' \<or> c = CHR 0x09) s"

partial_function (option) cphdr_loop ::
  "('w, 'ws, 're) header_api \<Rightarrow> addr \<Rightarrow> string \<Rightarrow> 'w vcl_header \<Rightarrow> nat \<Rightarrow> 'ws hctx \<Rightarrow> 'ws hctx res option" where
  "cphdr_loop api a hdr dst u ctx =
     (case deref (https ctx) a of Inl e \<Rightarrow> Some (Inl e) | Inr hp \<Rightarrow>
      if \<not> u < nhd hp then Some (Inr ctx)
      else case header_http_match (VRT_re_match api) (hd_b hp ! u) None hdr of
        Inl e \<Rightarrow> Some (Inl e)
      | Inr m \<Rightarrow>
          if \<not> m then cphdr_loop api a hdr dst (u + 1) ctx
          else case res_bind (hdr_len hdr) (\<lambda>l.
                 header_vmod_append api dst (Some (skip_blanks (drop l (the (hd_b hp ! u))))) [] ctx) of
            Inl e \<Rightarrow> Some (Inl e)
          | Inr ctx1 \<Rightarrow> cphdr_loop api a hdr dst (u + 1) ctx1)"

declare cphdr_loop.simps [code]

definition header_http_cphdr ::
  "('w, 'ws, 're) header_api \<Rightarrow> addr \<Rightarrow> string \<Rightarrow> 'w vcl_header \<Rightarrow> 'ws hctx \<Rightarrow> 'ws hctx res option" where
  "header_http_cphdr api a hdr dst ctx = cphdr_loop api a hdr dst (HTTP_HDR_FIRST api) ctx"

definition header_vmod_copy ::
  "('w, 'ws, 're) header_api \<Rightarrow> 'w vcl_header \<Rightarrow> 'w vcl_header \<Rightarrow> 'ws hctx \<Rightarrow> 'ws hctx res option" where
  "header_vmod_copy api src dst ctx =
     header_http_cphdr api (VRT_selecthttp api (hdr_where src)) (hdr_what src) dst ctx"

text \<open>
  The regular expression of a call site: compiled from the argument of the first call that
  gets to it, then kept. \<open>compile\<close> is \<open>VRT_re_init\<close>; here one thread runs alone, the locking is
  the subject of theory \<open>Header_Lock\<close>.
\<close>

definition header_init_re :: "(string option \<Rightarrow> 're) \<Rightarrow> 're option \<Rightarrow> string option \<Rightarrow> 're option" where
  "header_init_re compile priv s = (if priv = None then Some (compile s) else priv)"

definition header_vmod_get ::
  "('w, 'ws, 're) header_api \<Rightarrow> (string option \<Rightarrow> 're) \<Rightarrow> 're option \<Rightarrow> 'w vcl_header \<Rightarrow> string option \<Rightarrow> 'ws hctx \<Rightarrow>
    (string option \<times> 're option) res" where
  "header_vmod_get api compile priv hdr s ctx =
     (let priv1 = header_init_re compile priv s in
      res_bind (deref (https ctx) (VRT_selecthttp api (hdr_where hdr))) (\<lambda>hp.
      res_bind (header_http_findhdr api hp (hdr_what hdr) priv1) (\<lambda>u.
      if u = 0 then Inr (None, priv1)
      else case hd_b hp ! u of None \<Rightarrow> Inl NullDeref | Some b \<Rightarrow>
        res_bind (hdr_len (hdr_what hdr)) (\<lambda>l. Inr (Some (skip_blanks (drop l b)), priv1)))))"

definition header_vmod_remove ::
  "('w, 'ws, 're) header_api \<Rightarrow> (string option \<Rightarrow> 're) \<Rightarrow> 're option \<Rightarrow> 'w vcl_header \<Rightarrow> string option \<Rightarrow> 'ws hctx \<Rightarrow>
    ('ws hctx \<times> 're option) res" where
  "header_vmod_remove api compile priv hdr s ctx =
     (let priv1 = header_init_re compile priv s; a = VRT_selecthttp api (hdr_where hdr) in
      res_bind (deref (https ctx) a) (\<lambda>hp.
      res_bind (header_http_Unset api (hdr_what hdr) priv1 hp) (\<lambda>hp1.
      Inr (ctx\<lparr>https := (https ctx)(a \<mapsto> hp1)\<rparr>, priv1))))"

end
