(* ===== verification/Header_Correct.thy ===== *)
theory Header_Correct
  imports Header "HOL-Library.Sublist"
begin

text \<open>
  What the functions of theory \<open>Header\<close> do to the header lines of a message: remove is a
  filter, get a search for the first line, copy appends the lines it finds and returns
  even when it goes through the lines it adds.
\<close>

section \<open>Names and lines\<close>

definition hdr_ok :: "string \<Rightarrow> bool" where
  "hdr_ok hdr \<longleftrightarrow> hdr \<noteq> [] \<and> tl hdr \<noteq> [] \<and> last hdr = CHR '':'' \<and>
     (of_char (hd hdr) :: nat) = length (tl hdr) \<and> length (tl hdr) < 128"

definition named :: "string \<Rightarrow> string \<Rightarrow> bool" where
  "named hdr b \<longleftrightarrow> strncasecmp_eq (tl hdr) b (length (tl hdr))"

definition value_of :: "string \<Rightarrow> string \<Rightarrow> string" where
  "value_of hdr b = skip_blanks (drop (length (tl hdr)) b)"

definition matches :: "('re \<Rightarrow> string \<Rightarrow> bool) \<Rightarrow> 're option \<Rightarrow> string \<Rightarrow> string option \<Rightarrow> bool" where
  "matches rm re hdr hb = (case hb of None \<Rightarrow> False | Some b \<Rightarrow> named hdr b \<and>
     (case re of None \<Rightarrow> True | Some r \<Rightarrow>
        let start = skip (\<lambda>c. c = CHR '' '') (drop (length (tl hdr)) b) in start \<noteq> [] \<and> rm r start))"

lemma hdr_len_ok [simp]: "hdr_ok hdr \<Longrightarrow> hdr_len hdr = Inr (length (tl hdr))"
  by (cases hdr) (auto simp: hdr_ok_def hdr_len_def Let_def)

lemma IsHdr_ok: "hdr_ok hdr \<Longrightarrow> header_http_IsHdr b hdr = Inr (named hdr b)"
proof -
  assume h: "hdr_ok hdr"
  then have "hdr ! length (tl hdr) = CHR '':''" by (auto simp: hdr_ok_def last_conv_nth)
  with h show ?thesis by (auto simp: header_http_IsHdr_def named_def hdr_ok_def)
qed

lemma match_ok: "hdr_ok hdr \<Longrightarrow> header_http_match rm hb re hdr = Inr (matches rm re hdr hb)"
  by (cases hb; cases re) (auto simp: header_http_match_def matches_def IsHdr_ok Let_def)

text \<open>A message whose arrays fit together, and its header lines with their flags.\<close>

definition http_ok :: "('w, 'ws, 're) header_api \<Rightarrow> 'ws http \<Rightarrow> bool" where
  "http_ok api hp \<longleftrightarrow> length (hd_b hp) = shd hp \<and> length (hdf hp) = shd hp \<and> nhd hp \<le> shd hp \<and>
     0 < HTTP_HDR_FIRST api \<and> HTTP_HDR_FIRST api \<le> nhd hp"

definition slots :: "'ws http \<Rightarrow> (string option \<times> u8) list" where
  "slots hp = zip (hd_b hp) (hdf hp)"

definition lines :: "('w, 'ws, 're) header_api \<Rightarrow> 'ws http \<Rightarrow> (string option \<times> u8) list" where
  "lines api hp = drop (HTTP_HDR_FIRST api) (take (nhd hp) (slots hp))"

lemma length_slots: "http_ok api hp \<Longrightarrow> length (slots hp) = shd hp"
  by (simp add: slots_def http_ok_def)

lemma nth_slots: "http_ok api hp \<Longrightarrow> u < shd hp \<Longrightarrow> slots hp ! u = (hd_b hp ! u, hdf hp ! u)"
  by (simp add: slots_def http_ok_def)

section \<open>The interface\<close>

text \<open>What \<open>http_SetHeader\<close> and \<open>VRT_String\<close> promise.\<close>

definition set_header_ok :: "('w, 'ws, 're) header_api \<Rightarrow> bool" where
  "set_header_ok api \<longleftrightarrow> (\<forall>hp b. http_ok api hp \<longrightarrow>
     shd (http_SetHeader api hp b) = shd hp \<and> length (hdf (http_SetHeader api hp b)) = shd hp \<and>
     nhd (http_SetHeader api hp b) = (if nhd hp < shd hp then nhd hp + 1 else nhd hp) \<and>
     hd_b (http_SetHeader api hp b) = (if nhd hp < shd hp then (hd_b hp)[nhd hp := Some b] else hd_b hp))"


text \<open>The same with a workspace that always has room.\<close>

definition string_ok :: "('w, 'ws, 're) header_api \<Rightarrow> bool" where
  "string_ok api \<longleftrightarrow> (\<forall>w h p. fst (VRT_String api w h [Some p]) = Some (h @ '' '' @ p))"

section \<open>A concrete message\<close>

text \<open>
  For the witnesses: two messages with eight slots, an interface that keeps the promises
  above, and prefixes in the role of regular expressions.
\<close>

definition put_header :: "unit http \<Rightarrow> string \<Rightarrow> unit http" where
  "put_header hp b = (if nhd hp < shd hp
     then hp\<lparr>hd_b := (hd_b hp)[nhd hp := Some b], hdf := (hdf hp)[nhd hp := 0], nhd := nhd hp + 1\<rparr> else hp)"

definition demo_hapi :: "(bool, unit, string) header_api" where
  "demo_hapi = \<lparr>HTTP_HDR_FIRST = 2, VRT_selecthttp = (\<lambda>w. if w then 2 else 1),
     VRT_String = (\<lambda>w h ps. (Some (h @ '' '' @ concat (map (\<lambda>p. case p of None \<Rightarrow> [] | Some t \<Rightarrow> t) ps)), w)),
     http_SetHeader = put_header, VRT_re_match = (\<lambda>re t. take (length re) t = re)\<rparr>"

definition demo_http :: "unit http" where
  "demo_http = \<lparr>hd_b = [Some ''GET'', Some ''/'', Some ''Foo: a=1'', None, Some ''Bar: x'', Some ''foo:  b=2'', None, None],
     hdf = replicate 8 0, nhd = 6, shd = 8, http_ws = ()\<rparr>"

definition demo_hctx :: "unit hctx" where
  "demo_hctx = \<lparr>https = [1 \<mapsto> demo_http, 2 \<mapsto> demo_http\<lparr>nhd := 5\<rparr>], h_vsl = []\<rparr>"

definition foo_in :: "bool \<Rightarrow> bool vcl_header" where
  "foo_in w = \<lparr>hdr_where = w, hdr_what = CHR 0x04 # ''Foo:''\<rparr>"

lemma demo_ok:
  "hdr_ok (hdr_what (foo_in w))" "set_header_ok demo_hapi" "string_ok demo_hapi" "http_ok demo_hapi demo_http"
  "http_ok demo_hapi (demo_http\<lparr>nhd := 5\<rparr>)"
  "https demo_hctx (VRT_selecthttp demo_hapi (hdr_where (foo_in False))) = Some demo_http"
  "https demo_hctx (VRT_selecthttp demo_hapi (hdr_where (foo_in True))) = Some (demo_http\<lparr>nhd := 5\<rparr>)"
  "VRT_selecthttp demo_hapi (hdr_where (foo_in False)) \<noteq> VRT_selecthttp demo_hapi (hdr_where (foo_in True))"
  by (simp_all add: hdr_ok_def foo_in_def set_header_ok_def string_ok_def http_ok_def demo_hapi_def demo_http_def
      demo_hctx_def put_header_def)

section \<open>Searching\<close>

lemma findhdr_loop_ok:
  "hdr_ok hdr \<Longrightarrow> findhdr_loop rm hp hdr re us =
    Inr (case find (\<lambda>u. matches rm re hdr (hd_b hp ! u)) us of None \<Rightarrow> 0 | Some u \<Rightarrow> u)"
  by (induction us) (simp_all add: match_ok)

lemma find_map: "find P (map f xs) = map_option f (find (P \<circ> f) xs)"
  by (induction xs) simp_all

lemma lines_nth:
  assumes "http_ok api hp"
  shows "map fst (lines api hp) = map (\<lambda>u. hd_b hp ! u) [HTTP_HDR_FIRST api..<nhd hp]"
proof -
  have "length (lines api hp) = nhd hp - HTTP_HDR_FIRST api"
    using length_slots [OF assms] assms by (auto simp: lines_def http_ok_def)
  moreover have "fst (lines api hp ! i) = hd_b hp ! (HTTP_HDR_FIRST api + i)" if "i < nhd hp - HTTP_HDR_FIRST api" for i
    using that assms nth_slots [OF assms, of "HTTP_HDR_FIRST api + i"] length_slots [OF assms]
    by (auto simp: lines_def http_ok_def)
  ultimately show ?thesis by (intro nth_equalityI) simp_all
qed

text \<open>
  \<open>get\<close> finds the first header line with the given name, in any case, whose value
  (without leading spaces, and not empty) matches the regular expression of the call site,
  and returns its value without leading blanks; NULL if there is no such line.
\<close>

theorem header_get_first:
  assumes "hdr_ok (hdr_what hdr)" "https ctx (VRT_selecthttp api (hdr_where hdr)) = Some hp" "http_ok api hp"
  shows "header_vmod_get api compile priv hdr s ctx =
    (let re = header_init_re compile priv s in
     Inr (case find (matches (VRT_re_match api) re (hdr_what hdr)) (map fst (lines api hp)) of
        None \<Rightarrow> None | Some b \<Rightarrow> Some (value_of (hdr_what hdr) (the b)), re))"
proof -
  let ?re = "header_init_re compile priv s"
  let ?m = "\<lambda>u. matches (VRT_re_match api) ?re (hdr_what hdr) (hd_b hp ! u)"
  have f: "find (matches (VRT_re_match api) ?re (hdr_what hdr)) (map fst (lines api hp)) =
    map_option (\<lambda>u. hd_b hp ! u) (find ?m [HTTP_HDR_FIRST api..<nhd hp])"
    by (simp add: lines_nth [OF assms(3)] find_map comp_def)
  show ?thesis
  proof (cases "find ?m [HTTP_HDR_FIRST api..<nhd hp]")
    case None
    then show ?thesis using assms(1,2) f
      by (simp add: header_vmod_get_def header_http_findhdr_def findhdr_loop_ok Let_def)
  next
    case (Some u)
    then have "?m u" "HTTP_HDR_FIRST api \<le> u" by (auto simp: find_Some_iff)
    then obtain b where "hd_b hp ! u = Some b" "0 < u"
      using assms(3) by (auto simp: matches_def http_ok_def split: option.splits)
    then show ?thesis using assms(1,2) f Some
      by (simp add: header_vmod_get_def header_http_findhdr_def findhdr_loop_ok value_of_def Let_def)
  qed
qed

lemma header_get_first_witness:
  "header_vmod_get demo_hapi the None (foo_in False) (Some ''b='') demo_hctx = Inr (Some ''b=2'', Some ''b='')"
proof -
  have "find (matches (VRT_re_match demo_hapi) (Some ''b='') (hdr_what (foo_in False))) (map fst (lines demo_hapi demo_http)) =
    Some (Some ''foo:  b=2'')" by code_simp
  moreover have "value_of (hdr_what (foo_in False)) ''foo:  b=2'' = ''b=2''" by code_simp
  ultimately show ?thesis
    using header_get_first [OF demo_ok(1,6,4), where compile = the and priv = None and s = "Some ''b=''"]
    by (simp add: header_init_re_def Let_def)
qed

section \<open>Removing\<close>

definition kept :: "('re \<Rightarrow> string \<Rightarrow> bool) \<Rightarrow> 're option \<Rightarrow> string \<Rightarrow> string option \<times> u8 \<Rightarrow> bool" where
  "kept rm re hdr l \<longleftrightarrow> fst l \<noteq> None \<and> \<not> matches rm re hdr (fst l)"

lemma slots_move:
  "length (hdf hp) = length (hd_b hp) \<Longrightarrow> u < length (hd_b hp) \<Longrightarrow>
   slots (hp\<lparr>hd_b := (hd_b hp)[v := hd_b hp ! u], hdf := (hdf hp)[v := hdf hp ! u]\<rparr>) = (slots hp)[v := slots hp ! u]"
  by (simp add: slots_def zip_update)

text \<open>The loop from slot \<open>u\<close> to \<open>n\<close>: slots below \<open>v\<close> stay, then come the kept ones.\<close>

lemma unset_loop_ok:
  assumes "hdr_ok hdr" "v \<le> u" "u \<le> n" "n \<le> shd hp" "length (hd_b hp) = shd hp" "length (hdf hp) = shd hp"
  shows "\<exists>hp'. unset_loop rm hdr re [u..<n] v hp =
      Inr (v + length (filter (kept rm re hdr) (drop u (take n (slots hp)))), hp') \<and>
    length (hd_b hp') = shd hp \<and> length (hdf hp') = shd hp \<and> shd hp' = shd hp \<and> http_ws hp' = http_ws hp \<and>
    take (v + length (filter (kept rm re hdr) (drop u (take n (slots hp))))) (slots hp') =
      take v (slots hp) @ filter (kept rm re hdr) (drop u (take n (slots hp)))"
  using assms(2-6)
proof (induction "n - u" arbitrary: u v hp)
  case 0
  then have "[u..<n] = []" "drop u (take n (slots hp)) = []" by auto
  with 0 show ?case by simp
next
  case (Suc k)
  let ?K = "\<lambda>u hp. filter (kept rm re hdr) (drop u (take n (slots hp)))"
  have u: "u < n" using Suc(2) by simp
  then have us: "[u..<n] = u # [u + 1..<n]" by (simp add: upt_conv_Cons)
  have len: "length (slots hp) = shd hp" using Suc.prems by (simp add: slots_def)
  have s: "slots hp ! u = (hd_b hp ! u, hdf hp ! u)" using Suc.prems u by (simp add: slots_def)
  have d: "drop u (take n (slots hp)) = (hd_b hp ! u, hdf hp ! u) # drop (u + 1) (take n (slots hp))"
    using u len Suc.prems(3) s by (simp add: Cons_nth_drop_Suc [symmetric])
  show ?case
  proof (cases "kept rm re hdr (hd_b hp ! u, hdf hp ! u)")
    case False
    have "unset_loop rm hdr re [u..<n] v hp = unset_loop rm hdr re [u + 1..<n] v hp"
      using False by (auto simp: us kept_def match_ok [OF assms(1)])
    moreover have "?K u hp = ?K (u + 1) hp" using False d by simp
    ultimately show ?thesis using Suc.hyps(1) [of "u + 1" v hp] Suc(2) Suc.prems u by simp
  next
    case True
    define hp1 where "hp1 = (if v \<noteq> u then hp\<lparr>hd_b := (hd_b hp)[v := hd_b hp ! u], hdf := (hdf hp)[v := hdf hp ! u]\<rparr> else hp)"
    have loop: "unset_loop rm hdr re [u..<n] v hp = unset_loop rm hdr re [u + 1..<n] (v + 1) hp1"
      using True by (auto simp: us kept_def match_ok [OF assms(1)] hp1_def)
    have s1: "slots hp1 = (slots hp)[v := slots hp ! u]"
      using slots_move [of hp u v] Suc.prems u by (auto simp: hp1_def)
    have ok1: "shd hp1 = shd hp" "length (hd_b hp1) = shd hp" "length (hdf hp1) = shd hp" "http_ws hp1 = http_ws hp"
      using Suc.prems by (auto simp: hp1_def)
    have K1: "?K (u + 1) hp1 = ?K (u + 1) hp" using Suc.prems(1) by (simp add: s1 take_update_swap drop_update_cancel)
    have t1: "take (v + 1) (slots hp1) = take v (slots hp) @ [slots hp ! u]"
      using Suc.prems u len by (simp add: s1 take_Suc_conv_app_nth take_update_cancel)
    have K: "?K u hp = slots hp ! u # ?K (u + 1) hp" using True d s by simp
    have k: "k = n - (u + 1)" "v + 1 \<le> u + 1" "u + 1 \<le> n" "n \<le> shd hp1"
      using Suc(2) Suc.prems(1,3) u ok1 by simp_all
    have "length (hd_b hp1) = shd hp1" "length (hdf hp1) = shd hp1" using ok1 by simp_all
    from Suc.hyps(1) [OF k this, unfolded ok1] obtain hp' where hp':
      "unset_loop rm hdr re [u + 1..<n] (v + 1) hp1 = Inr (v + 1 + length (?K (u + 1) hp1), hp')"
      "length (hd_b hp') = shd hp" "length (hdf hp') = shd hp" "shd hp' = shd hp" "http_ws hp' = http_ws hp"
      "take (v + 1 + length (?K (u + 1) hp1)) (slots hp') = take (v + 1) (slots hp1) @ ?K (u + 1) hp1" by blast
    have "v + length (?K u hp) = v + 1 + length (?K (u + 1) hp1)" unfolding K K1 by simp
    moreover have "take (v + 1) (slots hp1) @ ?K (u + 1) hp1 = take v (slots hp) @ ?K u hp" unfolding t1 K K1 by simp
    ultimately show ?thesis using hp' loop by metis
  qed
qed

text \<open>
  Claim C16. \<open>remove\<close> is a filter: of the header lines it drops those that are NULL and those with
  the given name, in any case, whose value, read behind its leading spaces, is not empty and
  matches the regular expression of the call site. All other lines stay, in order and with
  their flags, the slots before the headers are untouched, and no other message of the
  transaction changes. A line with an empty or blank value therefore always stays, even if the
  expression matches the empty string, where \<^verbatim>\<open>vmod_header.vcc\<close> speaks of all occurrences that match.
\<close>

theorem header_remove_filter:
  assumes "hdr_ok (hdr_what hdr)" "https ctx (VRT_selecthttp api (hdr_where hdr)) = Some hp" "http_ok api hp"
  shows "\<exists>hp'. header_vmod_remove api compile priv hdr s ctx =
      Inr (ctx\<lparr>https := (https ctx)(VRT_selecthttp api (hdr_where hdr) \<mapsto> hp')\<rparr>, header_init_re compile priv s) \<and>
    http_ok api hp' \<and>
    take (HTTP_HDR_FIRST api) (slots hp') = take (HTTP_HDR_FIRST api) (slots hp) \<and>
    lines api hp' = filter (\<lambda>l. fst l \<noteq> None \<and>
      \<not> matches (VRT_re_match api) (header_init_re compile priv s) (hdr_what hdr) (fst l)) (lines api hp)"
proof -
  let ?F = "HTTP_HDR_FIRST api" and ?re = "header_init_re compile priv s"
  let ?K = "filter (kept (VRT_re_match api) ?re (hdr_what hdr)) (lines api hp)"
  have ok: "length (hd_b hp) = shd hp" "length (hdf hp) = shd hp" "nhd hp \<le> shd hp" "0 < ?F" "?F \<le> nhd hp"
    using assms(3) by (simp_all add: http_ok_def)
  from unset_loop_ok [OF assms(1) order.refl ok(5,3,1,2), of "VRT_re_match api" ?re] obtain hp1 where hp1:
    "unset_loop (VRT_re_match api) (hdr_what hdr) ?re [?F..<nhd hp] ?F hp = Inr (?F + length ?K, hp1)"
    "length (hd_b hp1) = shd hp" "length (hdf hp1) = shd hp" "shd hp1 = shd hp"
    "take (?F + length ?K) (slots hp1) = take ?F (slots hp) @ ?K" unfolding lines_def by blast
  define hp' where "hp' = hp1\<lparr>nhd := ?F + length ?K\<rparr>"
  have F: "length (take ?F (slots hp)) = ?F" using length_slots [OF assms(3)] ok by simp
  have "length ?K \<le> nhd hp - ?F"
    using length_filter_le [of _ "lines api hp"] length_slots [OF assms(3)] ok by (auto simp: lines_def intro: order.trans)
  then have "http_ok api hp'" using hp1 ok by (simp add: hp'_def http_ok_def)
  moreover have t: "take (nhd hp') (slots hp') = take ?F (slots hp) @ ?K"
    using hp1(5) by (simp add: hp'_def slots_def)
  then have "take ?F (take (nhd hp') (slots hp')) = take ?F (slots hp)" using F by simp
  then have "take ?F (slots hp') = take ?F (slots hp)" by (simp add: hp'_def min_def)
  moreover have "lines api hp' = ?K" unfolding lines_def t using F by (simp add: lines_def)
  moreover have "header_vmod_remove api compile priv hdr s ctx =
    Inr (ctx\<lparr>https := (https ctx)(VRT_selecthttp api (hdr_where hdr) \<mapsto> hp')\<rparr>, ?re)"
    using assms(2) hp1(1) by (simp add: header_vmod_remove_def header_http_Unset_def hp'_def Let_def)
  ultimately show ?thesis unfolding kept_def by blast
qed

lemma header_remove_filter_witness:
  "\<exists>ctx' hp'. header_vmod_remove demo_hapi the None (foo_in False) (Some ''a'') demo_hctx = Inr (ctx', Some ''a'') \<and>
    https ctx' 1 = Some hp' \<and> map fst (lines demo_hapi hp') = [Some ''Bar: x'', Some ''foo:  b=2'']"
proof -
  have f: "filter (\<lambda>l. fst l \<noteq> None \<and> \<not> matches (VRT_re_match demo_hapi) (Some ''a'') (hdr_what (foo_in False)) (fst l))
    (lines demo_hapi demo_http) = [(Some ''Bar: x'', 0), (Some ''foo:  b=2'', 0)]" by code_simp
  have "VRT_selecthttp demo_hapi (hdr_where (foo_in False)) = 1" by (simp add: demo_hapi_def foo_in_def)
  with header_remove_filter [OF demo_ok(1,6,4), where compile = the and priv = None and s = "Some ''a''"] f
  show ?thesis by (auto simp: header_init_re_def)
qed

section \<open>Copying\<close>

text \<open>The lines of a message without their flags.\<close>

definition texts :: "'ws http \<Rightarrow> string option list" where
  "texts hp = take (nhd hp) (hd_b hp)"

definition appended :: "'ws http \<Rightarrow> string \<Rightarrow> string option list" where
  "appended hp s = (if nhd hp < shd hp then [Some s] else [])"

lemma append_ok:
  assumes "https ctx (VRT_selecthttp api (hdr_where dst)) = Some hp" "http_ok api hp" "set_header_ok api"
  shows "\<exists>hp' l ps. header_vmod_append api dst (Some p) [] ctx =
      Inr (ctx\<lparr>https := (https ctx)(VRT_selecthttp api (hdr_where dst) \<mapsto> hp'), h_vsl := l\<rparr>) \<and>
    http_ok api hp' \<and> shd hp' = shd hp \<and> texts hp' = texts hp @ ps \<and>
    (string_ok api \<longrightarrow> ps = appended hp (tl (hdr_what dst) @ '' '' @ p))"
proof -
  obtain b w where b: "VRT_String api (http_ws hp) (tl (hdr_what dst)) [Some p] = (b, w)" by fastforce
  define hp1 where "hp1 = hp\<lparr>http_ws := w\<rparr>"
  have ok1: "http_ok api hp1" "texts hp1 = texts hp" "shd hp1 = shd hp" "nhd hp1 = nhd hp"
    using assms(2) by (simp_all add: hp1_def http_ok_def texts_def)
  show ?thesis
  proof (cases b)
    case None
    with b have "\<not> string_ok api" unfolding string_ok_def by (metis fst_conv option.distinct(1))
    with None assms(1) b ok1 show ?thesis
      by (intro exI [of _ hp1] exI [of _ "VSLb SLT_LostHeader ''vmod_header: %s'' [ArgStr (tl (hdr_what dst))] (h_vsl ctx)"] exI [of _ "[]"])
        (simp add: header_vmod_append_def hp1_def Let_def)
  next
    case (Some t)
    let ?hp' = "http_SetHeader api hp1 t"
    have s: "shd ?hp' = shd hp" "length (hdf ?hp') = shd hp"
      "nhd ?hp' = (if nhd hp < shd hp then nhd hp + 1 else nhd hp)"
      "hd_b ?hp' = (if nhd hp < shd hp then (hd_b hp1)[nhd hp := Some t] else hd_b hp1)"
      using assms(3) ok1 unfolding set_header_ok_def by metis+
    have "http_ok api ?hp'" using s ok1 by (auto simp: http_ok_def)
    moreover have "texts ?hp' = texts hp @ appended hp t"
      unfolding ok1(2) [symmetric] using s(3,4) ok1 by (auto simp: texts_def appended_def http_ok_def take_Suc_conv_app_nth take_update_cancel)
    moreover have "t = tl (hdr_what dst) @ '' '' @ p" if "string_ok api"
      using that b Some unfolding string_ok_def by (metis fst_conv option.inject)
    moreover have "header_vmod_append api dst (Some p) [] ctx =
      Inr (ctx\<lparr>https := (https ctx)(VRT_selecthttp api (hdr_where dst) \<mapsto> ?hp'), h_vsl := h_vsl ctx\<rparr>)"
      using assms(1) b Some by (simp add: header_vmod_append_def hp1_def Let_def)
    ultimately show ?thesis using s(1) by blast
  qed
qed

text \<open>One turn of the copy loop, for a slot that is in use.\<close>

lemma cphdr_turn:
  assumes "hdr_ok hdr" "https ctx a = Some hp" "u < nhd hp"
  shows "cphdr_loop api a hdr dst u ctx =
    (if matches (VRT_re_match api) None hdr (hd_b hp ! u) then
       (case header_vmod_append api dst (Some (value_of hdr (the (hd_b hp ! u)))) [] ctx of
          Inl e \<Rightarrow> Some (Inl e) | Inr ctx1 \<Rightarrow> cphdr_loop api a hdr dst (u + 1) ctx1)
     else cphdr_loop api a hdr dst (u + 1) ctx)"
  using assms by (subst cphdr_loop.simps) (simp add: match_ok value_of_def)

lemma cphdr_end: "https ctx a = Some hp \<Longrightarrow> \<not> u < nhd hp \<Longrightarrow> cphdr_loop api a hdr dst u ctx = Some (Inr ctx)"
  by (subst cphdr_loop.simps) simp

definition has_name :: "string \<Rightarrow> string option \<Rightarrow> bool" where
  "has_name hdr hb = (case hb of None \<Rightarrow> False | Some b \<Rightarrow> named hdr b)"

lemma matches_name: "matches rm None hdr hb = has_name hdr hb"
  by (simp add: matches_def has_name_def split: option.splits)

lemma named_self: "hdr_ok hdr \<Longrightarrow> has_name hdr (Some (tl hdr @ s))"
proof -
  have "strncasecmp_eq xs (xs @ s) (length xs)" for xs :: string by (induction xs) auto
  then show ?thesis by (simp add: has_name_def named_def del: length_tl)
qed

text \<open>
  The loop returns, also when it goes through the message it appends to: every turn moves on
  by one slot, and the number of slots is fixed.
\<close>

lemma cphdr_loop_returns:
  assumes "hdr_ok hdr" "set_header_ok api" "https ctx a = Some hp" "http_ok api hp"
    "https ctx (VRT_selecthttp api (hdr_where dst)) = Some hp2" "http_ok api hp2"
  shows "\<exists>ctx' hp' ps. cphdr_loop api a hdr dst u ctx = Some (Inr ctx') \<and>
    https ctx' (VRT_selecthttp api (hdr_where dst)) = Some hp' \<and> http_ok api hp' \<and> shd hp' = shd hp2 \<and>
    texts hp' = texts hp2 @ ps \<and> (\<forall>b. b \<noteq> VRT_selecthttp api (hdr_where dst) \<longrightarrow> https ctx' b = https ctx b)"
  using assms(3-6)
proof (induction "shd hp - u" arbitrary: u ctx hp hp2)
  case 0
  then have "\<not> u < nhd hp" by (simp add: http_ok_def)
  with 0 show ?case by (intro exI [of _ ctx] exI [of _ hp2]) (simp add: cphdr_end)
next
  case (Suc k)
  let ?d = "VRT_selecthttp api (hdr_where dst)"
  show ?case
  proof (cases "u < nhd hp")
    case False
    with Suc.prems show ?thesis by (intro exI [of _ ctx] exI [of _ hp2]) (simp add: cphdr_end)
  next
    case u: True
    note turn = cphdr_turn [OF assms(1) Suc.prems(1) u, of api dst]
    have k: "k = shd hp - (u + 1)" using Suc(2) by simp
    show ?thesis
    proof (cases "has_name hdr (hd_b hp ! u)")
      case False
      with turn Suc.hyps(1) [OF k Suc.prems] show ?thesis by (simp add: matches_name)
    next
      case True
      let ?p = "value_of hdr (the (hd_b hp ! u))"
      from append_ok [OF Suc.prems(3,4) assms(2), of ?p] obtain h2 l ps where h2:
        "header_vmod_append api dst (Some ?p) [] ctx = Inr (ctx\<lparr>https := (https ctx)(?d \<mapsto> h2), h_vsl := l\<rparr>)"
        "http_ok api h2" "shd h2 = shd hp2" "texts h2 = texts hp2 @ ps" by blast
      define c1 where "c1 = ctx\<lparr>https := (https ctx)(?d \<mapsto> h2), h_vsl := l\<rparr>"
      obtain h1 where h1: "https c1 a = Some h1" "http_ok api h1" "shd h1 = shd hp"
        using Suc.prems h2(2,3) by (cases "a = ?d") (auto simp: c1_def)
      have "https c1 ?d = Some h2" by (simp add: c1_def)
      from Suc.hyps(1) [OF k [folded h1(3)] h1(1,2) this h2(2)] obtain c' hp' qs where c':
        "cphdr_loop api a hdr dst (u + 1) c1 = Some (Inr c')" "https c' ?d = Some hp'" "http_ok api hp'"
        "shd hp' = shd h2" "texts hp' = texts h2 @ qs" "\<forall>b. b \<noteq> ?d \<longrightarrow> https c' b = https c1 b" by blast
      have "cphdr_loop api a hdr dst u ctx = Some (Inr c')"
        using turn True h2(1) c'(1) by (simp add: matches_name c1_def)
      with c' h2(3,4) show ?thesis
        by (intro exI [of _ c'] exI [of _ hp'] exI [of _ "ps @ qs"]) (simp add: c1_def)
    qed
  qed
qed


lemma texts_nth: "http_ok api hp \<Longrightarrow> u < nhd hp \<Longrightarrow> texts hp ! u = hd_b hp ! u"
  by (simp add: texts_def)

lemma length_texts: "http_ok api hp \<Longrightarrow> length (texts hp) = nhd hp"
  by (simp add: texts_def http_ok_def)










text \<open>A copy of a header onto itself meets the lines it adds.\<close>

lemma cphdr_loop_self:
  assumes "hdr_ok hdr" "hdr_what dst = hdr" "set_header_ok api" "string_ok api" "a = VRT_selecthttp api (hdr_where dst)"
    "https ctx a = Some hp" "http_ok api hp" "\<exists>i \<in> {u..<nhd hp}. has_name hdr (hd_b hp ! i)"
    "cphdr_loop api a hdr dst u ctx = Some (Inr ctx')" "https ctx' a = Some hp'"
  shows "nhd hp' = shd hp"
  using assms(6-10)
proof (induction "shd hp - u" arbitrary: u ctx hp)
  case 0
  then show ?case by (auto simp: http_ok_def)
next
  case (Suc k)
  have u: "u < nhd hp" and k: "k = shd hp - (u + 1)" using Suc(2) Suc.prems(3) by auto
  note turn = cphdr_turn [OF assms(1) Suc.prems(1) u, of api dst]
  show ?case
  proof (cases "has_name hdr (hd_b hp ! u)")
    case False
    with turn Suc.prems(4) have r: "cphdr_loop api a hdr dst (u + 1) ctx = Some (Inr ctx')" by (simp add: matches_name)
    have "\<exists>i \<in> {u + 1..<nhd hp}. has_name hdr (hd_b hp ! i)"
      using Suc.prems(3) False by (metis Suc_eq_plus1 Suc_leI atLeastLessThan_iff le_neq_implies_less)
    from Suc.hyps(1) [OF k Suc.prems(1,2) this r Suc.prems(5)] show ?thesis .
  next
    case True
    let ?p = "value_of hdr (the (hd_b hp ! u))"
    from append_ok [OF Suc.prems(1) [unfolded assms(5)] Suc.prems(2) assms(3), of ?p] assms(4) obtain h2 l where h2:
      "header_vmod_append api dst (Some ?p) [] ctx = Inr (ctx\<lparr>https := (https ctx)(a \<mapsto> h2), h_vsl := l\<rparr>)"
      "http_ok api h2" "shd h2 = shd hp" "texts h2 = texts hp @ appended hp (tl hdr @ '' '' @ ?p)"
      unfolding assms(5) [symmetric] assms(2) by blast
    define c1 where "c1 = ctx\<lparr>https := (https ctx)(a \<mapsto> h2), h_vsl := l\<rparr>"
    have c1: "https c1 a = Some h2" by (simp add: c1_def)
    have r: "cphdr_loop api a hdr dst (u + 1) c1 = Some (Inr ctx')"
      using turn True h2(1) Suc.prems(4) by (simp add: matches_name c1_def)
    show ?thesis
    proof (cases "nhd hp < shd hp")
      case True
      then have n2: "nhd h2 = nhd hp + 1" using h2(4) length_texts [OF h2(2)] length_texts [OF Suc.prems(2)]
        by (simp add: appended_def)
      have "hd_b h2 ! nhd hp = texts h2 ! nhd hp" using n2 texts_nth [OF h2(2), of "nhd hp"] by simp
      also have "\<dots> = Some (tl hdr @ '' '' @ ?p)"
        using True length_texts [OF Suc.prems(2)] h2(4) by (simp add: appended_def nth_append)
      finally have "has_name hdr (hd_b h2 ! nhd hp)" using named_self [OF assms(1)] by simp
      then have "\<exists>i \<in> {u + 1..<nhd h2}. has_name hdr (hd_b h2 ! i)" using u n2 by (intro bexI [of _ "nhd hp"]) auto
      from Suc.hyps(1) [OF _ c1 h2(2) this r Suc.prems(5)] h2(3) k show ?thesis by simp
    next
      case False
      from cphdr_loop_returns [OF assms(1,3) c1 h2(2) c1 [unfolded assms(5)] h2(2), of "u + 1"] r
      obtain ps where "http_ok api hp'" "shd hp' = shd h2" "texts hp' = texts h2 @ ps"
        using Suc.prems(5) by (auto simp: assms(5))
      moreover have "nhd h2 = shd h2" using False h2 length_texts [OF h2(2)] length_texts [OF Suc.prems(2)] Suc.prems(2)
        by (auto simp: appended_def http_ok_def)
      ultimately have "shd hp \<le> nhd hp'" "nhd hp' \<le> shd hp" using h2(3) length_texts [OF h2(2)] length_texts [of api hp']
        by (auto simp: http_ok_def)
      then show ?thesis by simp
    qed
  qed
qed

text \<open>
  \<open>copy\<close> returns even if source and destination are the same message, although its loop
  reads the number of lines anew at every turn; but a header copied onto its own name is
  found again and again: one line of that name is enough to fill all the slots of the message.
\<close>

theorem header_copy_terminates:
  assumes "hdr_ok (hdr_what src)" "set_header_ok api"
    "VRT_selecthttp api (hdr_where src) = VRT_selecthttp api (hdr_where dst)"
    "https ctx (VRT_selecthttp api (hdr_where src)) = Some hp" "http_ok api hp"
  shows "\<exists>ctx' hp'. header_vmod_copy api src dst ctx = Some (Inr ctx') \<and>
    https ctx' (VRT_selecthttp api (hdr_where dst)) = Some hp' \<and> http_ok api hp' \<and>
    (string_ok api \<and> hdr_what dst = hdr_what src \<and>
      (\<exists>hb \<in> set (drop (HTTP_HDR_FIRST api) (texts hp)). has_name (hdr_what src) hb) \<longrightarrow> nhd hp' = shd hp)"
proof -
  from cphdr_loop_returns [OF assms(1,2,4,5) assms(4) [unfolded assms(3)] assms(5)] obtain ctx' hp' ps where c:
    "header_vmod_copy api src dst ctx = Some (Inr ctx')" "https ctx' (VRT_selecthttp api (hdr_where dst)) = Some hp'"
    "http_ok api hp'" unfolding header_vmod_copy_def header_http_cphdr_def by blast
  have "nhd hp' = shd hp" if s: "string_ok api" "hdr_what dst = hdr_what src"
    and hb: "hb \<in> set (drop (HTTP_HDR_FIRST api) (texts hp))" "has_name (hdr_what src) hb" for hb
  proof -
    from hb(1) obtain j where j: "j < length (drop (HTTP_HDR_FIRST api) (texts hp))" "drop (HTTP_HDR_FIRST api) (texts hp) ! j = hb"
      by (auto simp: in_set_conv_nth)
    then have "HTTP_HDR_FIRST api + j < nhd hp" using length_texts [OF assms(5)] by simp
    moreover from this j have "hd_b hp ! (HTTP_HDR_FIRST api + j) = hb"
      using texts_nth [OF assms(5), of "HTTP_HDR_FIRST api + j"] length_texts [OF assms(5)] by simp
    ultimately have "\<exists>i \<in> {HTTP_HDR_FIRST api..<nhd hp}. has_name (hdr_what src) (hd_b hp ! i)"
      using hb(2) by (intro bexI [of _ "HTTP_HDR_FIRST api + j"]) auto
    from cphdr_loop_self [OF assms(1) s(2) assms(2) s(1) assms(3,4,5) this
        c(1) [unfolded header_vmod_copy_def header_http_cphdr_def]] c(2) assms(3) show ?thesis by simp
  qed
  with c show ?thesis by blast
qed

lemma header_copy_terminates_witness:
  "\<exists>ctx' hp'. header_vmod_copy demo_hapi (foo_in False) (foo_in False) demo_hctx = Some (Inr ctx') \<and>
    https ctx' 1 = Some hp' \<and> nhd hp' = 8"
proof -
  have "Some ''Foo: a=1'' \<in> set (drop (HTTP_HDR_FIRST demo_hapi) (texts demo_http))" by code_simp
  moreover have "has_name (hdr_what (foo_in False)) (Some ''Foo: a=1'')" by code_simp
  moreover have "VRT_selecthttp demo_hapi (hdr_where (foo_in False)) = 1" by (simp add: demo_hapi_def foo_in_def)
  moreover have "shd demo_http = 8" by (simp add: demo_http_def)
  ultimately show ?thesis
    using header_copy_terminates [OF demo_ok(1,2) refl demo_ok(6,4)] demo_ok(3) by auto
qed

end
