(* ===== verification/Header_Lock.thy ===== *)
theory Header_Lock
  imports Header
begin

text \<open>
  The locking of \<open>header_init_re\<close> in \<^verbatim>\<open>src/src/vmod_header.c\<close>. The threads of varnishd that
  run the same call site share one \<open>priv\<close>; each tests it, takes the mutex if it is NULL, tests
  it again and compiles the regular expression if it still is NULL. Every statement is one
  step, and the steps of the threads interleave freely.
\<close>

section \<open>Threads\<close>

text \<open>Where a thread is: before the statement of that name.\<close>

datatype re_pc = Check1 | Lock | Check2 | Init | Set_free | Unlock | Done

record 're re_sys =
  priv_priv :: "'re option"
  priv_free :: bool
  header_mutex :: "nat option"
  re_pcs :: "nat \<Rightarrow> re_pc"
  re_inits :: "nat list"

text \<open>
  The mutex is that of the module, initialised by \<open>event_function\<close> at each VCL load; doing that
  to a mutex in use is undefined.
\<close>

datatype header_event = HDR_EVENT_LOAD | HDR_EVENT_OTHER

definition header_event_function :: "header_event \<Rightarrow> bool \<Rightarrow> bool res" where
  "header_event_function e initialised =
     (if e \<noteq> HDR_EVENT_LOAD then Inr initialised
      else if initialised then Inl UndefBehav else Inr True)"

text \<open>
  One step of thread \<open>i\<close> of \<open>n\<close>; thread \<open>i\<close> calls with the expression \<open>arg i\<close>. The list \<open>re_inits\<close>
  records who called \<open>VRT_re_init\<close>, which is \<open>compile\<close>.
\<close>

inductive re_step ::
  "(string option \<Rightarrow> 're) \<Rightarrow> (nat \<Rightarrow> string option) \<Rightarrow> nat \<Rightarrow> 're re_sys \<Rightarrow> 're re_sys \<Rightarrow> bool"
  for compile arg n where
  check1_null: "i < n \<Longrightarrow> re_pcs s i = Check1 \<Longrightarrow> priv_priv s = None \<Longrightarrow>
    re_step compile arg n s (s\<lparr>re_pcs := (re_pcs s)(i := Lock)\<rparr>)"
| check1_set: "i < n \<Longrightarrow> re_pcs s i = Check1 \<Longrightarrow> priv_priv s \<noteq> None \<Longrightarrow>
    re_step compile arg n s (s\<lparr>re_pcs := (re_pcs s)(i := Done)\<rparr>)"
| lock: "i < n \<Longrightarrow> re_pcs s i = Lock \<Longrightarrow> header_mutex s = None \<Longrightarrow>
    re_step compile arg n s (s\<lparr>header_mutex := Some i, re_pcs := (re_pcs s)(i := Check2)\<rparr>)"
| check2_null: "i < n \<Longrightarrow> re_pcs s i = Check2 \<Longrightarrow> priv_priv s = None \<Longrightarrow>
    re_step compile arg n s (s\<lparr>re_pcs := (re_pcs s)(i := Init)\<rparr>)"
| check2_set: "i < n \<Longrightarrow> re_pcs s i = Check2 \<Longrightarrow> priv_priv s \<noteq> None \<Longrightarrow>
    re_step compile arg n s (s\<lparr>re_pcs := (re_pcs s)(i := Unlock)\<rparr>)"
| init: "i < n \<Longrightarrow> re_pcs s i = Init \<Longrightarrow>
    re_step compile arg n s (s\<lparr>priv_priv := Some (compile (arg i)), re_inits := re_inits s @ [i],
      re_pcs := (re_pcs s)(i := Set_free)\<rparr>)"
| set_free: "i < n \<Longrightarrow> re_pcs s i = Set_free \<Longrightarrow>
    re_step compile arg n s (s\<lparr>priv_free := True, re_pcs := (re_pcs s)(i := Unlock)\<rparr>)"
| unlock: "i < n \<Longrightarrow> re_pcs s i = Unlock \<Longrightarrow>
    re_step compile arg n s (s\<lparr>header_mutex := None, re_pcs := (re_pcs s)(i := Done)\<rparr>)"

definition re_start :: "'re re_sys" where
  "re_start = \<lparr>priv_priv = None, priv_free = False, header_mutex = None, re_pcs = (\<lambda>_. Check1), re_inits = []\<rparr>"

abbreviation re_reach ::
  "(string option \<Rightarrow> 're) \<Rightarrow> (nat \<Rightarrow> string option) \<Rightarrow> nat \<Rightarrow> 're re_sys \<Rightarrow> bool" where
  "re_reach compile arg n \<equiv> (re_step compile arg n)\<^sup>*\<^sup>* re_start"

section \<open>The invariant\<close>

definition in_lock :: "re_pc \<Rightarrow> bool" where
  "in_lock p \<longleftrightarrow> p \<in> {Check2, Init, Set_free, Unlock}"

definition lock_inv :: "nat \<Rightarrow> 're re_sys \<Rightarrow> bool" where
  "lock_inv n s \<longleftrightarrow> (\<forall>i < n. in_lock (re_pcs s i) \<longleftrightarrow> header_mutex s = Some i) \<and>
     (\<forall>i. header_mutex s = Some i \<longrightarrow> i < n)"

definition regex_inv :: "(string option \<Rightarrow> 're) \<Rightarrow> (nat \<Rightarrow> string option) \<Rightarrow> nat \<Rightarrow> 're re_sys \<Rightarrow> bool" where
  "regex_inv compile arg n s \<longleftrightarrow>
     (case priv_priv s of None \<Rightarrow> re_inits s = [] | Some r \<Rightarrow> \<exists>j < n. re_inits s = [j] \<and> r = compile (arg j)) \<and>
     (\<forall>i < n. re_pcs s i = Init \<longrightarrow> priv_priv s = None) \<and>
     (\<forall>i < n. re_pcs s i \<in> {Set_free, Unlock, Done} \<longrightarrow> priv_priv s \<noteq> None) \<and>
     (priv_priv s \<noteq> None \<and> (\<forall>i < n. re_pcs s i \<noteq> Set_free) \<longrightarrow> priv_free s)"

lemma in_lock_simps [simp]:
  "\<not> in_lock Check1" "\<not> in_lock Lock" "\<not> in_lock Done" "in_lock Check2" "in_lock Init" "in_lock Set_free" "in_lock Unlock"
  by (simp_all add: in_lock_def)

lemma re_step_lock: "re_step compile arg n s t \<Longrightarrow> lock_inv n s \<Longrightarrow> lock_inv n t"
  by (induction rule: re_step.induct) (auto simp: lock_inv_def split: if_splits; metis in_lock_simps option.inject)+

lemma re_start_inv: "lock_inv n re_start" "regex_inv compile arg n re_start"
  by (simp_all add: lock_inv_def regex_inv_def re_start_def)

lemma alone_in_lock: "lock_inv n s \<Longrightarrow> i < n \<Longrightarrow> j < n \<Longrightarrow> in_lock (re_pcs s i) \<Longrightarrow> in_lock (re_pcs s j) \<Longrightarrow> i = j"
  by (auto simp: lock_inv_def)

text \<open>Moving a thread on, when it does not write \<open>priv\<close>.\<close>

lemma regex_inv_move:
  assumes "regex_inv compile arg n s" "i < n" "re_pcs s i \<noteq> Set_free" "p \<noteq> Set_free"
    "p = Init \<Longrightarrow> priv_priv s = None" "p \<in> {Unlock, Done} \<Longrightarrow> priv_priv s \<noteq> None"
  shows "regex_inv compile arg n (s\<lparr>re_pcs := (re_pcs s)(i := p)\<rparr>)"
    and "regex_inv compile arg n (s\<lparr>header_mutex := m, re_pcs := (re_pcs s)(i := p)\<rparr>)"
proof -
  have "\<forall>j < n. re_pcs s j \<noteq> Set_free" if "\<forall>j < n. ((re_pcs s)(i := p)) j \<noteq> Set_free"
    using that assms(3) by (metis fun_upd_apply)
  with assms show "regex_inv compile arg n (s\<lparr>re_pcs := (re_pcs s)(i := p)\<rparr>)"
    "regex_inv compile arg n (s\<lparr>header_mutex := m, re_pcs := (re_pcs s)(i := p)\<rparr>)"
    unfolding regex_inv_def by (auto split: option.splits)
qed

lemma re_step_regex:
  assumes "re_step compile arg n s t" "lock_inv n s" "regex_inv compile arg n s"
  shows "regex_inv compile arg n t"
  using assms
proof (induction rule: re_step.induct)
  case (init i s)
  have none: "priv_priv s = None" "re_inits s = []" using init by (auto simp: regex_inv_def split: option.splits)
  have other: "re_pcs s j \<noteq> Init" if "j < n" "j \<noteq> i" for j
    using alone_in_lock [OF init.prems(1) init.hyps(1) that(1)] init.hyps(2) that by (metis in_lock_simps(5))
  show ?case using init.hyps none other by (auto simp: regex_inv_def)
next
  case (set_free i s)
  then show ?case by (auto simp: regex_inv_def split: option.splits)
next
  case (unlock i s)
  then have "priv_priv s \<noteq> None" by (auto simp: regex_inv_def)
  with unlock show ?case by (intro regex_inv_move(2)) auto
next
  case (check1_null i s)
  then show ?case by (intro regex_inv_move(1)) auto
next
  case (check1_set i s)
  then show ?case by (intro regex_inv_move(1)) auto
next
  case (lock i s)
  then show ?case by (intro regex_inv_move(2)) auto
next
  case (check2_null i s)
  then show ?case by (intro regex_inv_move(1)) auto
next
  case (check2_set i s)
  then show ?case by (intro regex_inv_move(1)) auto
qed

lemma re_reach_inv: "re_reach compile arg n s \<Longrightarrow> lock_inv n s \<and> regex_inv compile arg n s"
proof (induction rule: rtranclp_induct)
  case base
  show ?case by (simp add: re_start_inv)
next
  case (step s t)
  with re_step_lock re_step_regex show ?case by blast
qed

text \<open>
  Claim C17. However the threads of one call site interleave, the regular expression is compiled
  at most once, a thread that leaves \<open>header_init_re\<close> finds it compiled, all of them find the
  same one, that of the thread which got there first, and two threads are never between
  \<open>lock\<close> and \<open>unlock\<close> at the same time.
\<close>

theorem header_re_once:
  assumes "re_reach compile arg n s"
  shows "length (re_inits s) \<le> 1 \<and>
    (\<forall>i < n. re_pcs s i = Done \<longrightarrow> (\<exists>j < n. re_inits s = [j] \<and> priv_priv s = Some (compile (arg j)))) \<and>
    (\<forall>i < n. \<forall>j < n. in_lock (re_pcs s i) \<and> in_lock (re_pcs s j) \<longrightarrow> i = j)"
proof -
  from re_reach_inv [OF assms] have l: "lock_inv n s" and r: "regex_inv compile arg n s" by simp_all
  have "length (re_inits s) \<le> 1" using r by (auto simp: regex_inv_def split: option.splits)
  moreover have "\<exists>j < n. re_inits s = [j] \<and> priv_priv s = Some (compile (arg j))" if "i < n" "re_pcs s i = Done" for i
  proof -
    have "priv_priv s \<noteq> None" using r that by (auto simp: regex_inv_def)
    with r show ?thesis by (auto simp: regex_inv_def)
  qed
  moreover have "i = j" if "i < n" "j < n" "in_lock (re_pcs s i)" "in_lock (re_pcs s j)" for i j
    using alone_in_lock [OF l that] .
  ultimately show ?thesis by blast
qed

section \<open>Progress\<close>

fun pc_rank :: "re_pc \<Rightarrow> nat" where
  "pc_rank Check1 = 6"
| "pc_rank Lock = 5"
| "pc_rank Check2 = 4"
| "pc_rank Init = 3"
| "pc_rank Set_free = 2"
| "pc_rank Unlock = 1"
| "pc_rank Done = 0"

definition steps_left :: "nat \<Rightarrow> 're re_sys \<Rightarrow> nat" where
  "steps_left n s = (\<Sum>i < n. pc_rank (re_pcs s i))"

lemma steps_left_upd:
  assumes "i < n" "re_pcs t = (re_pcs s)(i := p)" "pc_rank p < pc_rank (re_pcs s i)"
  shows "steps_left n t < steps_left n s"
proof -
  have "steps_left n t < steps_left n s \<longleftrightarrow>
    pc_rank p + (\<Sum>j \<in> {..<n} - {i}. pc_rank (re_pcs t j)) < pc_rank (re_pcs s i) + (\<Sum>j \<in> {..<n} - {i}. pc_rank (re_pcs s j))"
    unfolding steps_left_def using assms(1,2) sum.remove [of "{..<n}" i "\<lambda>j. pc_rank (re_pcs t j)"]
      sum.remove [of "{..<n}" i "\<lambda>j. pc_rank (re_pcs s j)"] by (simp del: fun_upd_apply) simp
  also have "(\<Sum>j \<in> {..<n} - {i}. pc_rank (re_pcs t j)) = (\<Sum>j \<in> {..<n} - {i}. pc_rank (re_pcs s j))"
    using assms(2) by (intro sum.cong) auto
  finally show ?thesis using assms(3) by simp
qed

lemma re_step_decreases: "re_step compile arg n s t \<Longrightarrow> steps_left n t < steps_left n s"
  by (induction rule: re_step.induct) (auto intro!: steps_left_upd)

lemma re_steps_bound: "(re_step compile arg n ^^ k) s t \<Longrightarrow> steps_left n t + k \<le> steps_left n s"
proof (induction k arbitrary: t)
  case (Suc k)
  then obtain u where "(re_step compile arg n ^^ k) s u" "re_step compile arg n u t" by auto
  with Suc.IH re_step_decreases show ?case by fastforce
qed simp

text \<open>A thread that has not left can step, or waits for one that can.\<close>

lemma re_no_deadlock:
  assumes "lock_inv n s" "i < n" "re_pcs s i \<noteq> Done"
  shows "\<exists>t. re_step compile arg n s t"
proof -
  have moves: "\<exists>t. re_step compile arg n s t" if "j < n" "re_pcs s j \<noteq> Done" "re_pcs s j \<noteq> Lock" for j
    using that by (cases "re_pcs s j"; cases "priv_priv s") (blast intro: re_step.intros)+
  show ?thesis
  proof (cases "re_pcs s i = Lock")
    case False
    with moves assms(2,3) show ?thesis by blast
  next
    case True
    show ?thesis
    proof (cases "header_mutex s")
      case None
      with True assms(2) show ?thesis by (blast intro: re_step.lock)
    next
      case (Some j)
      with assms(1) have "j < n" "in_lock (re_pcs s j)" by (auto simp: lock_inv_def)
      with moves [of j] show ?thesis by (metis in_lock_simps(2,3))
    qed
  qed
qed

text \<open>
  Claim C18. Nobody waits for ever: whatever the scheduler does, \<open>n\<close> threads make at most \<open>6 n\<close>
  steps, and when no step is left every thread has left \<open>header_init_re\<close>, the mutex is free,
  and if there was a thread at all the regular expression is compiled and set to be freed.
\<close>

theorem header_re_progress:
  assumes "(re_step compile arg n ^^ k) re_start s"
  shows "k \<le> 6 * n \<and> ((\<nexists>t. re_step compile arg n s t) \<longrightarrow>
    (\<forall>i < n. re_pcs s i = Done) \<and> header_mutex s = None \<and> (0 < n \<longrightarrow> priv_priv s \<noteq> None \<and> priv_free s))"
proof -
  have "steps_left n (re_start :: 'a re_sys) = 6 * n" by (simp add: steps_left_def re_start_def)
  then have "k \<le> 6 * n" using re_steps_bound [OF assms] by linarith
  moreover have inv: "lock_inv n s" "regex_inv compile arg n s"
    using re_reach_inv relpowp_imp_rtranclp [OF assms] by blast+
  moreover have "(\<forall>i < n. re_pcs s i = Done) \<and> header_mutex s = None \<and> (0 < n \<longrightarrow> priv_priv s \<noteq> None \<and> priv_free s)"
    if "\<nexists>t. re_step compile arg n s t"
  proof -
    have d: "\<forall>i < n. re_pcs s i = Done" using re_no_deadlock [OF inv(1)] that by blast
    moreover have "header_mutex s = None" using inv(1) d unfolding lock_inv_def by (metis in_lock_simps(3) not_None_eq)
    moreover have "priv_priv s \<noteq> None" if "0 < n" using inv(2) d that unfolding regex_inv_def by blast
    moreover have "priv_priv s \<noteq> None \<Longrightarrow> priv_free s" using inv(2) d by (simp add: regex_inv_def)
    ultimately show ?thesis by blast
  qed
  ultimately show ?thesis by blast
qed

section \<open>Running a schedule\<close>

text \<open>The step of a given thread as a function, and the run of a schedule.\<close>

definition re_next ::
  "(string option \<Rightarrow> 're) \<Rightarrow> (nat \<Rightarrow> string option) \<Rightarrow> nat \<Rightarrow> 're re_sys \<Rightarrow> 're re_sys option" where
  "re_next compile arg i s =
     (let go = (\<lambda>p s. Some (s\<lparr>re_pcs := (re_pcs s)(i := p)\<rparr>)) in
      case re_pcs s i of
        Check1 \<Rightarrow> go (if priv_priv s = None then Lock else Done) s
      | Lock \<Rightarrow> if header_mutex s = None then go Check2 (s\<lparr>header_mutex := Some i\<rparr>) else None
      | Check2 \<Rightarrow> go (if priv_priv s = None then Init else Unlock) s
      | Init \<Rightarrow> go Set_free (s\<lparr>priv_priv := Some (compile (arg i)), re_inits := re_inits s @ [i]\<rparr>)
      | Set_free \<Rightarrow> go Unlock (s\<lparr>priv_free := True\<rparr>)
      | Unlock \<Rightarrow> go Done (s\<lparr>header_mutex := None\<rparr>)
      | Done \<Rightarrow> None)"

lemma re_step_iff: "re_step compile arg n s t \<longleftrightarrow> (\<exists>i < n. re_next compile arg i s = Some t)"
proof
  assume "re_step compile arg n s t"
  then show "\<exists>i < n. re_next compile arg i s = Some t"
    by (induction rule: re_step.induct) (auto simp: re_next_def Let_def)
next
  assume "\<exists>i < n. re_next compile arg i s = Some t"
  then obtain i where i: "i < n" "re_next compile arg i s = Some t" by blast
  then show "re_step compile arg n s t"
    by (cases "re_pcs s i")
      (auto simp: re_next_def Let_def split: if_splits intro: re_step.intros
        dest: re_step.lock [of i n s compile arg] re_step.init [of i n s compile arg] re_step.set_free [of i n s compile arg]
          re_step.unlock [of i n s compile arg])
qed

fun re_sched ::
  "(string option \<Rightarrow> 're) \<Rightarrow> (nat \<Rightarrow> string option) \<Rightarrow> nat list \<Rightarrow> 're re_sys \<Rightarrow> 're re_sys option" where
  "re_sched compile arg [] s = Some s"
| "re_sched compile arg (i # is) s = Option.bind (re_next compile arg i s) (re_sched compile arg is)"

lemma re_sched_steps:
  "re_sched compile arg is s = Some t \<Longrightarrow> list_all (\<lambda>i. i < n) is \<Longrightarrow> (re_step compile arg n ^^ length is) s t"
proof (induction "is" arbitrary: s)
  case (Cons i "is")
  then obtain u where u: "re_next compile arg i s = Some u" "re_sched compile arg is u = Some t"
    by (auto simp: bind_eq_Some_conv)
  then have "re_step compile arg n s u" using Cons.prems(2) by (auto simp: re_step_iff)
  moreover have "(re_step compile arg n ^^ length is) u t" using Cons.IH [OF u(2)] Cons.prems(2) by simp
  ultimately have "(re_step compile arg n ^^ Suc (length is)) s t" by (rule relpowp_Suc_I2)
  then show ?case by (simp del: relpowp.simps)
qed simp

text \<open>Two threads pass the first test together; thread 1 wins the race for the mutex.\<close>

definition race :: "nat list" where "race = [0, 1, 1, 1, 1, 1, 1, 0, 0, 0]"

definition race_arg :: "nat \<Rightarrow> string option" where
  "race_arg i = (if i = 0 then Some ''a='' else Some ''b='')"

lemma race_run:
  "\<exists>t. re_sched the race_arg race re_start = Some t \<and> re_pcs t 0 = Done \<and> re_pcs t 1 = Done \<and>
    priv_priv t = Some ''b=''"
  by (simp add: race_def re_start_def re_next_def race_arg_def Let_def)

lemma race_reached: "\<exists>t. (re_step the race_arg 2 ^^ 10) re_start t \<and> re_pcs t 0 = Done \<and> re_pcs t 1 = Done \<and>
    priv_priv t = Some ''b=''"
proof -
  obtain t where t: "re_sched the race_arg race re_start = Some t" "re_pcs t 0 = Done" "re_pcs t 1 = Done"
    "priv_priv t = Some ''b=''" using race_run by blast
  have "list_all (\<lambda>i. i < 2) race" "length race = 10" by (simp_all add: race_def)
  with re_sched_steps [OF t(1), of 2] t(2-4) show ?thesis by metis
qed

lemma header_re_once_witness:
  "\<exists>t. re_reach the race_arg 2 t \<and> re_pcs t 0 = Done \<and> re_inits t = [1] \<and> priv_priv t = Some ''b=''"
proof -
  obtain t where t: "(re_step the race_arg 2 ^^ 10) re_start t" "re_pcs t 0 = Done" "priv_priv t = Some ''b=''"
    using race_reached by blast
  have r: "re_reach the race_arg 2 t" using t(1) by (rule relpowp_imp_rtranclp)
  from header_re_once [OF r] t(2) obtain j where j: "j < 2" "re_inits t = [j]" "priv_priv t = Some (the (race_arg j))"
    by (metis zero_less_numeral)
  then have "j = 1" using t(3) by (cases "j = 0") (auto simp: race_arg_def)
  with r t j show ?thesis by blast
qed

lemma header_re_progress_witness:
  "\<exists>t. (re_step the race_arg 2 ^^ 10) re_start t \<and> header_mutex t = None \<and> priv_free t"
proof -
  obtain t where t: "(re_step the race_arg 2 ^^ 10) re_start t" "re_pcs t 0 = Done" "re_pcs t 1 = Done"
    using race_reached by blast
  have "re_next the race_arg 0 t = None" "re_next the race_arg 1 t = None" using t(2,3) by (simp_all add: re_next_def Let_def)
  then have "\<nexists>u. re_step the race_arg 2 t u" unfolding re_step_iff by (metis less_2_cases One_nat_def option.distinct(1))
  with header_re_progress [OF t(1)] t(1) show ?thesis by auto
qed

section \<open>Atomicity\<close>

lemma re_step_keeps:
  assumes "re_step compile arg n s t" "regex_inv compile arg n s" "priv_priv s = Some r"
  shows "priv_priv t = Some r"
  using assms
proof (induction rule: re_step.induct)
  case (init i s)
  have "\<forall>i < n. re_pcs s i = Init \<longrightarrow> priv_priv s = None" using init.prems(1) by (simp add: regex_inv_def)
  with init show ?case by simp
qed simp_all

lemma re_steps_keep:
  assumes "(re_step compile arg n)\<^sup>*\<^sup>* s t" "re_reach compile arg n s" "priv_priv s = Some r"
  shows "priv_priv t = Some r"
  using assms(1)
proof (induction rule: rtranclp_induct)
  case base
  show ?case by (rule assms(3))
next
  case (step t u)
  then have "re_reach compile arg n t" using assms(2) by (meson rtranclp_trans)
  from conjunct2 [OF re_reach_inv [OF this]] have "regex_inv compile arg n t" .
  from re_step_keeps [OF step.hyps(2) this step.IH] show ?case .
qed

lemma init_re_fold:
  "fold (\<lambda>i p. header_init_re compile p (arg i)) js (Some r) = Some r"
  by (induction js) (simp_all add: header_init_re_def)

text \<open>
  Claim C19. The interleaved threads against \<open>header_init_re\<close> as one step, which is how theory \<open>Header\<close>
  uses it: whatever the schedule was, when all threads have left the function the shared
  pointer is what the same calls leave when they run one after the other in some order, and
  it never changes once it is set.
\<close>

theorem header_re_atomic:
  assumes "re_reach compile arg n s"
  shows "((\<forall>i < n. re_pcs s i = Done) \<longrightarrow>
      (\<exists>order. distinct order \<and> set order = {..<n} \<and>
        priv_priv s = fold (\<lambda>i p. header_init_re compile p (arg i)) order None)) \<and>
    (\<forall>r t. priv_priv s = Some r \<and> (re_step compile arg n)\<^sup>*\<^sup>* s t \<longrightarrow> priv_priv t = Some r)"
    (is "(?done \<longrightarrow> ?seq) \<and> ?stable")
proof -
  from re_reach_inv [OF assms] have r: "regex_inv compile arg n s" by simp
  have "?seq" if d: "?done"
  proof (cases "n = 0")
    case True
    then have "priv_priv s = None" using r by (auto simp: regex_inv_def split: option.splits)
    then show ?thesis using True by (intro exI [of _ "[]"]) simp
  next
    case False
    with r d obtain p where p: "priv_priv s = Some p" unfolding regex_inv_def by blast
    with r have "\<exists>j < n. p = compile (arg j)" by (auto simp: regex_inv_def)
    with p obtain j where j: "j < n" "priv_priv s = Some (compile (arg j))" by blast
    show ?thesis
    proof (intro exI [of _ "j # remove1 j [0..<n]"] conjI)
      have "header_init_re compile None (arg j) = Some (compile (arg j))" by (simp add: header_init_re_def)
      with j(2) show "priv_priv s = fold (\<lambda>i p. header_init_re compile p (arg i)) (j # remove1 j [0..<n]) None"
        by (simp add: init_re_fold)
    qed (use j(1) in auto)
  qed
  moreover have "priv_priv t = Some p" if "priv_priv s = Some p" "(re_step compile arg n)\<^sup>*\<^sup>* s t" for p t
    using re_steps_keep [OF that(2) assms that(1)] .
  then have "?stable" by blast
  ultimately show ?thesis by blast
qed

theorem header_re_atomic_witness:
  "\<exists>t. re_reach the race_arg 2 t \<and> (\<exists>order. distinct order \<and> set order = {..<2} \<and>
    priv_priv t = fold (\<lambda>i p. header_init_re the p (race_arg i)) order None)"
proof -
  obtain t where t: "(re_step the race_arg 2 ^^ 10) re_start t" "re_pcs t 0 = Done" "re_pcs t 1 = Done"
    using race_reached by blast
  have r: "re_reach the race_arg 2 t" using t(1) by (rule relpowp_imp_rtranclp)
  have "\<forall>i < 2. re_pcs t i = Done" using t(2,3) by (metis less_2_cases One_nat_def)
  with header_re_atomic [OF r] r show ?thesis by blast
qed

end
