(* ===== verification/Vtree_Heap.thy ===== *)
theory Vtree_Heap
  imports Vtree "HOL-Library.Monad_Syntax"
begin

text \<open>
  The red-black trees of \<^verbatim>\<open>src/src/vtree.h\<close> once more, now with the pointers of the C code:
  every node has a left, a right and a parent pointer and a colour in memory, and the
  operations are the assignments of the macros, in their order. Theory \<open>Vtree_Heap_Correct\<close>
  shows that they implement the operations of theory \<open>Vtree\<close>, which the modules are verified
  with.

  A pointer is an address or NULL (\<open>None\<close>); the memory maps allocated addresses to entries.
  The result \<open>None\<close> of an operation is a read or write through NULL or through an address that
  is not allocated, or a loop that does not end. \<open>VRB_AUGMENT\<close> is empty, as in the code.
\<close>

section \<open>Memory\<close>

type_synonym ptr = "addr option"

record vrb_entry =
  e_left :: ptr
  e_right :: ptr
  e_parent :: ptr
  e_color :: vrb_color

record vrb_mem =
  rbh_root :: ptr
  entries :: "addr \<rightharpoonup> vrb_entry"

text \<open>Reading a field through a pointer, and assigning to one.\<close>

definition rd :: "(vrb_entry \<Rightarrow> 'b) \<Rightarrow> ptr \<Rightarrow> vrb_mem \<Rightarrow> 'b option" where
  "rd f p s = Option.bind p (\<lambda>a. map_option f (entries s a))"

definition wr :: "(vrb_entry \<Rightarrow> vrb_entry) \<Rightarrow> ptr \<Rightarrow> vrb_mem \<Rightarrow> vrb_mem option" where
  "wr f p s = Option.bind p (\<lambda>a. map_option (\<lambda>e. s\<lparr>entries := (entries s)(a \<mapsto> f e)\<rparr>) (entries s a))"

definition wr_left :: "ptr \<Rightarrow> ptr \<Rightarrow> vrb_mem \<Rightarrow> vrb_mem option" where
  "wr_left p v = wr (\<lambda>e. e\<lparr>e_left := v\<rparr>) p"

definition wr_right :: "ptr \<Rightarrow> ptr \<Rightarrow> vrb_mem \<Rightarrow> vrb_mem option" where
  "wr_right p v = wr (\<lambda>e. e\<lparr>e_right := v\<rparr>) p"

definition wr_parent :: "ptr \<Rightarrow> ptr \<Rightarrow> vrb_mem \<Rightarrow> vrb_mem option" where
  "wr_parent p v = wr (\<lambda>e. e\<lparr>e_parent := v\<rparr>) p"

definition wr_color :: "ptr \<Rightarrow> vrb_color \<Rightarrow> vrb_mem \<Rightarrow> vrb_mem option" where
  "wr_color p v = wr (\<lambda>e. e\<lparr>e_color := v\<rparr>) p"

definition VRB_SET_h :: "ptr \<Rightarrow> ptr \<Rightarrow> vrb_mem \<Rightarrow> vrb_mem option" where
  "VRB_SET_h elm parent s = do {
     s \<leftarrow> wr_parent elm parent s;
     s \<leftarrow> wr_right elm None s;
     s \<leftarrow> wr_left elm None s;
     wr_color elm VRB_RED s
   }"

definition VRB_SET_BLACKRED_h :: "ptr \<Rightarrow> ptr \<Rightarrow> vrb_mem \<Rightarrow> vrb_mem option" where
  "VRB_SET_BLACKRED_h black red s = do {
     s \<leftarrow> wr_color black VRB_BLACK s;
     wr_color red VRB_RED s
   }"

text \<open>\<open>p && VRB_COLOR(p) == VRB_RED\<close>, which is also the negation of
  \<open>p == NULL || VRB_COLOR(p) == VRB_BLACK\<close>.\<close>

definition is_red_h :: "ptr \<Rightarrow> vrb_mem \<Rightarrow> bool option" where
  "is_red_h p s = (if p = None then Some False else map_option (\<lambda>c. c = VRB_RED) (rd e_color p s))"

text \<open>
  The statement that puts \<open>new\<close> into the place of the child \<open>old\<close> of \<open>p\<close>, or at the root when
  \<open>p\<close> is NULL. The rotations and, three times, the removal have it.
\<close>

definition relink :: "ptr \<Rightarrow> ptr \<Rightarrow> ptr \<Rightarrow> vrb_mem \<Rightarrow> vrb_mem option" where
  "relink p old new s =
     (if p \<noteq> None then do {
        l \<leftarrow> rd e_left p s;
        if l = old then wr_left p new s else wr_right p new s
      }
      else Some (s\<lparr>rbh_root := new\<rparr>))"

section \<open>Rotations\<close>

definition VRB_ROTATE_LEFT_h :: "ptr \<Rightarrow> vrb_mem \<Rightarrow> vrb_mem option" where
  "VRB_ROTATE_LEFT_h elm s = do {
     tmp \<leftarrow> rd e_right elm s;
     b \<leftarrow> rd e_left tmp s;
     s \<leftarrow> wr_right elm b s;
     s \<leftarrow> (if b \<noteq> None then wr_parent b elm s else Some s);
     p \<leftarrow> rd e_parent elm s;
     s \<leftarrow> wr_parent tmp p s;
     s \<leftarrow> relink p elm tmp s;
     s \<leftarrow> wr_left tmp elm s;
     wr_parent elm tmp s
   }"

definition VRB_ROTATE_RIGHT_h :: "ptr \<Rightarrow> vrb_mem \<Rightarrow> vrb_mem option" where
  "VRB_ROTATE_RIGHT_h elm s = do {
     tmp \<leftarrow> rd e_left elm s;
     b \<leftarrow> rd e_right tmp s;
     s \<leftarrow> wr_left elm b s;
     s \<leftarrow> (if b \<noteq> None then wr_parent b elm s else Some s);
     p \<leftarrow> rd e_parent elm s;
     s \<leftarrow> wr_parent tmp p s;
     s \<leftarrow> relink p elm tmp s;
     s \<leftarrow> wr_right tmp elm s;
     wr_parent elm tmp s
   }"

section \<open>Insertion\<close>

partial_function (option) VRB_INSERT_COLOR_loop_h :: "ptr \<Rightarrow> vrb_mem \<Rightarrow> vrb_mem option" where
  "VRB_INSERT_COLOR_loop_h elm s = do {
     parent \<leftarrow> rd e_parent elm s;
     red \<leftarrow> is_red_h parent s;
     if \<not> red then Some s else do {
       gparent \<leftarrow> rd e_parent parent s;
       gl \<leftarrow> rd e_left gparent s;
       if parent = gl then do {
         tmp \<leftarrow> rd e_right gparent s;
         uncle_red \<leftarrow> is_red_h tmp s;
         if uncle_red then do {
           s \<leftarrow> wr_color tmp VRB_BLACK s;
           s \<leftarrow> VRB_SET_BLACKRED_h parent gparent s;
           VRB_INSERT_COLOR_loop_h gparent s
         } else do {
           pr \<leftarrow> rd e_right parent s;
           (elm, parent, s) \<leftarrow> (if pr = elm
              then map_option (\<lambda>s. (parent, elm, s)) (VRB_ROTATE_LEFT_h parent s)
              else Some (elm, parent, s));
           s \<leftarrow> VRB_SET_BLACKRED_h parent gparent s;
           s \<leftarrow> VRB_ROTATE_RIGHT_h gparent s;
           VRB_INSERT_COLOR_loop_h elm s
         }
       } else do {
         tmp \<leftarrow> rd e_left gparent s;
         uncle_red \<leftarrow> is_red_h tmp s;
         if uncle_red then do {
           s \<leftarrow> wr_color tmp VRB_BLACK s;
           s \<leftarrow> VRB_SET_BLACKRED_h parent gparent s;
           VRB_INSERT_COLOR_loop_h gparent s
         } else do {
           pl \<leftarrow> rd e_left parent s;
           (elm, parent, s) \<leftarrow> (if pl = elm
              then map_option (\<lambda>s. (parent, elm, s)) (VRB_ROTATE_RIGHT_h parent s)
              else Some (elm, parent, s));
           s \<leftarrow> VRB_SET_BLACKRED_h parent gparent s;
           s \<leftarrow> VRB_ROTATE_LEFT_h gparent s;
           VRB_INSERT_COLOR_loop_h elm s
         }
       }
     }
   }"

definition VRB_INSERT_COLOR_h :: "ptr \<Rightarrow> vrb_mem \<Rightarrow> vrb_mem option" where
  "VRB_INSERT_COLOR_h elm s = do {
     s \<leftarrow> VRB_INSERT_COLOR_loop_h elm s;
     wr_color (rbh_root s) VRB_BLACK s
   }"

text \<open>The descent: \<open>Inl\<close> is the node with an equal key, \<open>Inr\<close> the final values of \<open>parent\<close> and \<open>comp\<close>.\<close>

partial_function (option) insert_descend_h ::
  "(addr \<Rightarrow> int) \<Rightarrow> ptr \<Rightarrow> ptr \<Rightarrow> int \<Rightarrow> vrb_mem \<Rightarrow> (addr + ptr \<times> int) option" where
  "insert_descend_h cmp tmp parent c s =
     (case tmp of None \<Rightarrow> Some (Inr (parent, c))
      | Some a \<Rightarrow>
          if cmp a < 0 then do { l \<leftarrow> rd e_left tmp s; insert_descend_h cmp l tmp (cmp a) s }
          else if cmp a > 0 then do { r \<leftarrow> rd e_right tmp s; insert_descend_h cmp r tmp (cmp a) s }
          else Some (Inl a))"

definition VRB_INSERT_h :: "(addr \<Rightarrow> int) \<Rightarrow> addr \<Rightarrow> vrb_mem \<Rightarrow> (ptr \<times> vrb_mem) option" where
  "VRB_INSERT_h cmp elm s = do {
     d \<leftarrow> insert_descend_h cmp (rbh_root s) None 0 s;
     case d of
       Inl tmp \<Rightarrow> Some (Some tmp, s)
     | Inr (parent, c) \<Rightarrow> do {
         s \<leftarrow> VRB_SET_h (Some elm) parent s;
         s \<leftarrow> (if parent \<noteq> None then
                (if c < 0 then wr_left parent (Some elm) s else wr_right parent (Some elm) s)
              else Some (s\<lparr>rbh_root := Some elm\<rparr>));
         s \<leftarrow> VRB_INSERT_COLOR_h (Some elm) s;
         Some (None, s)
       }
   }"

section \<open>Removal\<close>

text \<open>
  The body of the loop of \<open>VRB_REMOVE_COLOR\<close> for a left child \<open>elm\<close>: a red sibling \<open>tmp\<close> is
  rotated away first, then the loop goes on at the parent (\<open>Inl\<close>, with the new values of
  \<open>parent\<close> and \<open>elm\<close>) or is left by \<open>break\<close> (\<open>Inr\<close>). \<open>AN(parent)\<close> is the first read through
  \<open>parent\<close>, which fails on NULL.
\<close>

definition red_sibling_L_h :: "ptr \<Rightarrow> vrb_mem \<Rightarrow> (ptr \<times> vrb_mem) option" where
  "red_sibling_L_h parent s = do {
     tmp \<leftarrow> rd e_right parent s;
     c \<leftarrow> rd e_color tmp s;
     if c = VRB_RED then do {
       s \<leftarrow> VRB_SET_BLACKRED_h tmp parent s;
       s \<leftarrow> VRB_ROTATE_LEFT_h parent s;
       tmp \<leftarrow> rd e_right parent s;
       Some (tmp, s)
     } else Some (tmp, s)
   }"

definition final_rotation_L_h :: "ptr \<Rightarrow> ptr \<Rightarrow> vrb_mem \<Rightarrow> vrb_mem option" where
  "final_rotation_L_h parent tmp s = do {
     pc \<leftarrow> rd e_color parent s;
     s \<leftarrow> wr_color tmp pc s;
     s \<leftarrow> wr_color parent VRB_BLACK s;
     tr \<leftarrow> rd e_right tmp s;
     s \<leftarrow> (if tr \<noteq> None then wr_color tr VRB_BLACK s else Some s);
     VRB_ROTATE_LEFT_h parent s
   }"

definition black_sibling_L_h :: "ptr \<Rightarrow> ptr \<Rightarrow> vrb_mem \<Rightarrow> (ptr \<times> ptr \<times> vrb_mem + vrb_mem) option" where
  "black_sibling_L_h parent tmp s = do {
     tl \<leftarrow> rd e_left tmp s;
     left_red \<leftarrow> is_red_h tl s;
     tr \<leftarrow> rd e_right tmp s;
     right_red \<leftarrow> is_red_h tr s;
     if \<not> left_red \<and> \<not> right_red then do {
       s \<leftarrow> wr_color tmp VRB_RED s;
       p \<leftarrow> rd e_parent parent s;
       Some (Inl (p, parent, s))
     } else do {
       (tmp, s) \<leftarrow> (if \<not> right_red then do {
           s \<leftarrow> (if tl \<noteq> None then wr_color tl VRB_BLACK s else Some s);
           s \<leftarrow> wr_color tmp VRB_RED s;
           s \<leftarrow> VRB_ROTATE_RIGHT_h tmp s;
           tmp \<leftarrow> rd e_right parent s;
           Some (tmp, s)
         } else Some (tmp, s));
       s \<leftarrow> final_rotation_L_h parent tmp s;
       Some (Inr s)
     }
   }"

definition remove_body_L_h :: "ptr \<Rightarrow> vrb_mem \<Rightarrow> (ptr \<times> ptr \<times> vrb_mem + vrb_mem) option" where
  "remove_body_L_h parent s = do {
     (tmp, s) \<leftarrow> red_sibling_L_h parent s;
     black_sibling_L_h parent tmp s
   }"

text \<open>The mirror image, for a right child.\<close>

definition red_sibling_R_h :: "ptr \<Rightarrow> vrb_mem \<Rightarrow> (ptr \<times> vrb_mem) option" where
  "red_sibling_R_h parent s = do {
     tmp \<leftarrow> rd e_left parent s;
     c \<leftarrow> rd e_color tmp s;
     if c = VRB_RED then do {
       s \<leftarrow> VRB_SET_BLACKRED_h tmp parent s;
       s \<leftarrow> VRB_ROTATE_RIGHT_h parent s;
       tmp \<leftarrow> rd e_left parent s;
       Some (tmp, s)
     } else Some (tmp, s)
   }"

definition final_rotation_R_h :: "ptr \<Rightarrow> ptr \<Rightarrow> vrb_mem \<Rightarrow> vrb_mem option" where
  "final_rotation_R_h parent tmp s = do {
     pc \<leftarrow> rd e_color parent s;
     s \<leftarrow> wr_color tmp pc s;
     s \<leftarrow> wr_color parent VRB_BLACK s;
     tl \<leftarrow> rd e_left tmp s;
     s \<leftarrow> (if tl \<noteq> None then wr_color tl VRB_BLACK s else Some s);
     VRB_ROTATE_RIGHT_h parent s
   }"

definition black_sibling_R_h :: "ptr \<Rightarrow> ptr \<Rightarrow> vrb_mem \<Rightarrow> (ptr \<times> ptr \<times> vrb_mem + vrb_mem) option" where
  "black_sibling_R_h parent tmp s = do {
     tl \<leftarrow> rd e_left tmp s;
     left_red \<leftarrow> is_red_h tl s;
     tr \<leftarrow> rd e_right tmp s;
     right_red \<leftarrow> is_red_h tr s;
     if \<not> left_red \<and> \<not> right_red then do {
       s \<leftarrow> wr_color tmp VRB_RED s;
       p \<leftarrow> rd e_parent parent s;
       Some (Inl (p, parent, s))
     } else do {
       (tmp, s) \<leftarrow> (if \<not> left_red then do {
           s \<leftarrow> (if tr \<noteq> None then wr_color tr VRB_BLACK s else Some s);
           s \<leftarrow> wr_color tmp VRB_RED s;
           s \<leftarrow> VRB_ROTATE_LEFT_h tmp s;
           tmp \<leftarrow> rd e_left parent s;
           Some (tmp, s)
         } else Some (tmp, s));
       s \<leftarrow> final_rotation_R_h parent tmp s;
       Some (Inr s)
     }
   }"

definition remove_body_R_h :: "ptr \<Rightarrow> vrb_mem \<Rightarrow> (ptr \<times> ptr \<times> vrb_mem + vrb_mem) option" where
  "remove_body_R_h parent s = do {
     (tmp, s) \<leftarrow> red_sibling_R_h parent s;
     black_sibling_R_h parent tmp s
   }"

text \<open>The loop returns the final value of \<open>elm\<close> as well; \<open>break\<close> leaves it at the root.\<close>

partial_function (option) VRB_REMOVE_COLOR_loop_h :: "ptr \<Rightarrow> ptr \<Rightarrow> vrb_mem \<Rightarrow> (ptr \<times> vrb_mem) option" where
  "VRB_REMOVE_COLOR_loop_h parent elm s = do {
     red \<leftarrow> is_red_h elm s;
     if red \<or> elm = rbh_root s then Some (elm, s) else do {
       l \<leftarrow> rd e_left parent s;
       res \<leftarrow> (if l = elm then remove_body_L_h parent s else remove_body_R_h parent s);
       case res of
         Inl (parent, elm, s) \<Rightarrow> VRB_REMOVE_COLOR_loop_h parent elm s
       | Inr s \<Rightarrow> Some (rbh_root s, s)
     }
   }"

definition VRB_REMOVE_COLOR_h :: "ptr \<Rightarrow> ptr \<Rightarrow> vrb_mem \<Rightarrow> vrb_mem option" where
  "VRB_REMOVE_COLOR_h parent elm s = do {
     (elm, s) \<leftarrow> VRB_REMOVE_COLOR_loop_h parent elm s;
     if elm \<noteq> None then wr_color elm VRB_BLACK s else Some s
   }"

text \<open>\<open>while ((left = VRB_LEFT(elm)) != NULL) elm = left\<close>, and the same to the right.\<close>

partial_function (option) leftmost_h :: "ptr \<Rightarrow> vrb_mem \<Rightarrow> ptr option" where
  "leftmost_h elm s = do {
     l \<leftarrow> rd e_left elm s;
     if l \<noteq> None then leftmost_h l s else Some elm
   }"

partial_function (option) rightmost_h :: "ptr \<Rightarrow> vrb_mem \<Rightarrow> ptr option" where
  "rightmost_h elm s = do {
     r \<leftarrow> rd e_right elm s;
     if r \<noteq> None then rightmost_h r s else Some elm
   }"

text \<open>The statements that take \<open>elm\<close>, which has at most the one child \<open>child\<close>, out of the tree.\<close>

definition unlink_h :: "ptr \<Rightarrow> ptr \<Rightarrow> ptr \<Rightarrow> vrb_mem \<Rightarrow> vrb_mem option" where
  "unlink_h elm child parent s = do {
     s \<leftarrow> (if child \<noteq> None then wr_parent child parent s else Some s);
     relink parent elm child s
   }"

text \<open>The statements that put \<open>elm\<close> into the place of \<open>old\<close>: \<open>(elm)->field = (old)->field\<close>, then
  the three pointers to \<open>old\<close>.\<close>

definition replace_h :: "ptr \<Rightarrow> ptr \<Rightarrow> vrb_mem \<Rightarrow> vrb_mem option" where
  "replace_h elm old s = do {
     e \<leftarrow> rd (\<lambda>e. e) old s;
     s \<leftarrow> wr (\<lambda>_. e) elm s;
     p \<leftarrow> rd e_parent old s;
     s \<leftarrow> relink p old elm s;
     l \<leftarrow> rd e_left old s;
     s \<leftarrow> wr_parent l elm s;
     r \<leftarrow> rd e_right old s;
     if r \<noteq> None then wr_parent r elm s else Some s
   }"

text \<open>\<open>do { VRB_AUGMENT(left); } while ((left = VRB_PARENT(left)) != NULL)\<close>: the macro is empty,
  the walk to the root is not.\<close>

partial_function (option) augment_walk_h :: "ptr \<Rightarrow> vrb_mem \<Rightarrow> vrb_mem option" where
  "augment_walk_h left s = do {
     p \<leftarrow> rd e_parent left s;
     if p \<noteq> None then augment_walk_h p s else Some s
   }"

definition VRB_REMOVE_h :: "ptr \<Rightarrow> vrb_mem \<Rightarrow> (ptr \<times> vrb_mem) option" where
  "VRB_REMOVE_h old s = do {
     l \<leftarrow> rd e_left old s;
     r \<leftarrow> rd e_right old s;
     (child, parent, color, s) \<leftarrow>
       (if l = None \<or> r = None then do {
          let child = (if l = None then r else l);
          parent \<leftarrow> rd e_parent old s;
          color \<leftarrow> rd e_color old s;
          s \<leftarrow> unlink_h old child parent s;
          Some (child, parent, color, s)
        } else do {
          elm \<leftarrow> leftmost_h r s;
          child \<leftarrow> rd e_right elm s;
          parent \<leftarrow> rd e_parent elm s;
          color \<leftarrow> rd e_color elm s;
          s \<leftarrow> unlink_h elm child parent s;
          p \<leftarrow> rd e_parent elm s;
          let parent = (if p = old then elm else parent);
          s \<leftarrow> replace_h elm old s;
          s \<leftarrow> (if parent \<noteq> None then augment_walk_h parent s else Some s);
          Some (child, parent, color, s)
        });
     s \<leftarrow> (if color = VRB_BLACK then VRB_REMOVE_COLOR_h parent child s else Some s);
     Some (old, s)
   }"

section \<open>Search and traversal\<close>

partial_function (option) find_from_h :: "(addr \<Rightarrow> int) \<Rightarrow> ptr \<Rightarrow> vrb_mem \<Rightarrow> ptr option" where
  "find_from_h cmp tmp s =
     (case tmp of None \<Rightarrow> Some None
      | Some a \<Rightarrow>
          if cmp a < 0 then do { l \<leftarrow> rd e_left tmp s; find_from_h cmp l s }
          else if cmp a > 0 then do { r \<leftarrow> rd e_right tmp s; find_from_h cmp r s }
          else Some tmp)"

definition VRB_FIND_h :: "(addr \<Rightarrow> int) \<Rightarrow> vrb_mem \<Rightarrow> ptr option" where
  "VRB_FIND_h cmp s = find_from_h cmp (rbh_root s) s"

partial_function (option) nfind_from_h :: "(addr \<Rightarrow> int) \<Rightarrow> ptr \<Rightarrow> ptr \<Rightarrow> vrb_mem \<Rightarrow> ptr option" where
  "nfind_from_h cmp tmp res s =
     (case tmp of None \<Rightarrow> Some res
      | Some a \<Rightarrow>
          if cmp a < 0 then do { l \<leftarrow> rd e_left tmp s; nfind_from_h cmp l tmp s }
          else if cmp a > 0 then do { r \<leftarrow> rd e_right tmp s; nfind_from_h cmp r res s }
          else Some tmp)"

definition VRB_NFIND_h :: "(addr \<Rightarrow> int) \<Rightarrow> vrb_mem \<Rightarrow> ptr option" where
  "VRB_NFIND_h cmp s = nfind_from_h cmp (rbh_root s) None s"

text \<open>\<open>while (VRB_PARENT(elm) && elm == VRB_RIGHT(VRB_PARENT(elm))) elm = VRB_PARENT(elm)\<close>, then
  \<open>elm = VRB_PARENT(elm)\<close>; and the same with \<open>VRB_LEFT\<close>.\<close>

partial_function (option) climb_h :: "(vrb_entry \<Rightarrow> ptr) \<Rightarrow> ptr \<Rightarrow> vrb_mem \<Rightarrow> ptr option" where
  "climb_h side elm s = do {
     p \<leftarrow> rd e_parent elm s;
     if p = None then Some None else do {
       c \<leftarrow> rd side p s;
       if elm = c then climb_h side p s else Some p
     }
   }"

definition VRB_NEXT_h :: "ptr \<Rightarrow> vrb_mem \<Rightarrow> ptr option" where
  "VRB_NEXT_h elm s = do {
     r \<leftarrow> rd e_right elm s;
     if r \<noteq> None then leftmost_h r s
     else do {
       p \<leftarrow> rd e_parent elm s;
       left_child \<leftarrow> (if p \<noteq> None then map_option (\<lambda>l. elm = l) (rd e_left p s) else Some False);
       if left_child then Some p else climb_h e_right elm s
     }
   }"

definition VRB_PREV_h :: "ptr \<Rightarrow> vrb_mem \<Rightarrow> ptr option" where
  "VRB_PREV_h elm s = do {
     l \<leftarrow> rd e_left elm s;
     if l \<noteq> None then rightmost_h l s
     else do {
       p \<leftarrow> rd e_parent elm s;
       right_child \<leftarrow> (if p \<noteq> None then map_option (\<lambda>r. elm = r) (rd e_right p s) else Some False);
       if right_child then Some p else climb_h e_left elm s
     }
   }"

partial_function (option) minmax_from_h :: "int \<Rightarrow> ptr \<Rightarrow> ptr \<Rightarrow> vrb_mem \<Rightarrow> ptr option" where
  "minmax_from_h val tmp parent s =
     (if tmp = None then Some parent
      else do {
        next \<leftarrow> (if val < 0 then rd e_left tmp s else rd e_right tmp s);
        minmax_from_h val next tmp s
      })"

definition VRB_MINMAX_h :: "int \<Rightarrow> vrb_mem \<Rightarrow> ptr option" where
  "VRB_MINMAX_h val s = minmax_from_h val (rbh_root s) None s"

text \<open>
  \<open>VRB_FOREACH_SAFE(x, ..) if (P x) { VRB_REMOVE(..); FREE_OBJ(x); }\<close>, the loops of
  \<open>vsthrottle\<close> and \<open>xkey\<close>. Freeing takes the address out of the memory, so that any later read
  through it fails.
\<close>

definition free_h :: "addr \<Rightarrow> vrb_mem \<Rightarrow> vrb_mem" where
  "free_h a s = s\<lparr>entries := (entries s)(a := None)\<rparr>"

partial_function (option) remove_safe_from_h :: "(addr \<Rightarrow> bool) \<Rightarrow> ptr \<Rightarrow> vrb_mem \<Rightarrow> vrb_mem option" where
  "remove_safe_from_h P x s =
     (case x of None \<Rightarrow> Some s
      | Some a \<Rightarrow> do {
          y \<leftarrow> VRB_NEXT_h x s;
          if P a then do {
            (_, s) \<leftarrow> VRB_REMOVE_h x s;
            remove_safe_from_h P y (free_h a s)
          } else remove_safe_from_h P y s
        })"

definition VRB_FOREACH_SAFE_remove_h :: "(addr \<Rightarrow> bool) \<Rightarrow> vrb_mem \<Rightarrow> vrb_mem option" where
  "VRB_FOREACH_SAFE_remove_h P s = do {
     x \<leftarrow> VRB_MINMAX_h (- 1) s;
     remove_safe_from_h P x s
   }"

text \<open>\<open>VRB_INIT\<close>: the head; nodes are allocated with whatever their entry holds.\<close>

definition VRB_INIT_h :: vrb_mem where
  "VRB_INIT_h = \<lparr>rbh_root = None, entries = Map.empty\<rparr>"

definition alloc_h :: "addr \<Rightarrow> vrb_entry \<Rightarrow> vrb_mem \<Rightarrow> vrb_mem" where
  "alloc_h a e s = s\<lparr>entries := (entries s)(a \<mapsto> e)\<rparr>"

end
