(* ===== verification/Vtree_Heap_Correct.thy ===== *)
theory Vtree_Heap_Correct
  imports Vtree_Heap Vtree_Correct
begin

text \<open>
  The operations on the linked nodes of theory \<open>Vtree_Heap\<close> implement those of theory \<open>Vtree\<close>.

  A memory represents a tree when every node's entry holds the addresses of the roots of its
  two subtrees, of its parent, and its colour, and no address occurs twice. The same for a
  place in the tree: the subtree and the path of frames above it. Moving the place by one
  frame does not change what is represented, so each operation is shown to do its
  assignments at the place where the code does them, and the places are then moved.
\<close>

section \<open>Representation\<close>

fun tree_at :: "(addr \<rightharpoonup> vrb_entry) \<Rightarrow> ptr \<Rightarrow> addr vrb \<Rightarrow> bool" where
  "tree_at m par NIL = True"
| "tree_at m par (NODE l x c r) =
     (m x = Some \<lparr>e_left = elm_of l, e_right = elm_of r, e_parent = par, e_color = c\<rparr>
      \<and> tree_at m (Some x) l \<and> tree_at m (Some x) r)"

fun parent_of :: "addr rb_path \<Rightarrow> ptr" where
  "parent_of [] = None"
| "parent_of (LeftOf x _ _ # _) = Some x"
| "parent_of (RightOf _ x _ # _) = Some x"

fun path_at :: "(addr \<rightharpoonup> vrb_entry) \<Rightarrow> ptr \<Rightarrow> addr rb_path \<Rightarrow> bool" where
  "path_at m hole [] = True"
| "path_at m hole (LeftOf x c r # fs) =
     (m x = Some \<lparr>e_left = hole, e_right = elm_of r, e_parent = parent_of fs, e_color = c\<rparr>
      \<and> tree_at m (Some x) r \<and> path_at m (Some x) fs)"
| "path_at m hole (RightOf l x c # fs) =
     (m x = Some \<lparr>e_left = elm_of l, e_right = hole, e_parent = parent_of fs, e_color = c\<rparr>
      \<and> tree_at m (Some x) l \<and> path_at m (Some x) fs)"

fun root_of :: "ptr \<Rightarrow> addr rb_path \<Rightarrow> ptr" where
  "root_of hole [] = hole"
| "root_of hole (f # fs) = root_of (parent_of (f # fs)) fs"

text \<open>
  \<open>at_place m0 s fs t\<close>: the memory \<open>s\<close> represents the tree with the subtree \<open>t\<close> below the path
  \<open>fs\<close>, and agrees with \<open>m0\<close> at every address that is no node of it.
\<close>

definition at_place :: "(addr \<rightharpoonup> vrb_entry) \<Rightarrow> vrb_mem \<Rightarrow> addr rb_path \<Rightarrow> addr vrb \<Rightarrow> bool" where
  "at_place m0 s fs t \<longleftrightarrow>
     tree_at (entries s) (parent_of fs) t \<and> path_at (entries s) (elm_of t) fs
     \<and> rbh_root s = root_of (elm_of t) fs
     \<and> distinct (before fs @ inorder t @ after fs)
     \<and> (\<forall>a. a \<notin> set (before fs @ inorder t @ after fs) \<longrightarrow> entries s a = m0 a)"

abbreviation vrb_heap :: "(addr \<rightharpoonup> vrb_entry) \<Rightarrow> vrb_mem \<Rightarrow> addr vrb \<Rightarrow> bool" where
  "vrb_heap m0 s t \<equiv> at_place m0 s [] t"

lemma elm_of_simps [simp]:
  "elm_of NIL = None" "elm_of (NODE l x c r) = Some x"
  "elm_of t = None \<longleftrightarrow> t = NIL" "elm_of (set_color c t) = elm_of t"
  by (cases t; simp add: elm_of_def)+

lemma elm_of_in: "elm_of t = Some x \<Longrightarrow> x \<in> set (inorder t)"
  by (cases t) auto

lemma elm_of_neq [simp]:
  "x \<notin> set (inorder t) \<Longrightarrow> elm_of t \<noteq> Some x" "x \<notin> set (inorder t) \<Longrightarrow> Some x \<noteq> elm_of t"
  using elm_of_in by metis+

lemma tree_at_upd [simp]: "a \<notin> set (inorder t) \<Longrightarrow> tree_at (m(a \<mapsto> e)) p t = tree_at m p t"
  by (induction t arbitrary: p) auto

lemma path_at_upd [simp]:
  "a \<notin> set (before fs) \<Longrightarrow> a \<notin> set (after fs) \<Longrightarrow> path_at (m(a \<mapsto> e)) h fs = path_at m h fs"
  by (induction m h fs rule: path_at.induct) auto

text \<open>Moving the place down and up the tree.\<close>

lemma at_place_left: "at_place m0 s (LeftOf x c r # fs) l \<longleftrightarrow> at_place m0 s fs (NODE l x c r)"
  by (auto simp: at_place_def)

lemma at_place_right: "at_place m0 s (RightOf l x c # fs) r \<longleftrightarrow> at_place m0 s fs (NODE l x c r)"
  by (auto simp: at_place_def)

lemma at_place_up: "at_place m0 s (f # fs) t \<longleftrightarrow> at_place m0 s fs (up f t)"
  by (cases f) (simp_all add: at_place_left at_place_right)

lemma at_place_plug: "at_place m0 s (gs @ fs) t \<longleftrightarrow> at_place m0 s fs (plug gs t)"
  by (induction gs arbitrary: t) (simp_all add: at_place_up)

lemma at_place_root: "at_place m0 s fs t \<longleftrightarrow> vrb_heap m0 s (plug fs t)"
  using at_place_plug [of m0 s fs "[]" t] by simp

text \<open>The entry of a node at the place.\<close>

lemma at_place_entry:
  "at_place m0 s fs (NODE l x c r) \<Longrightarrow>
     entries s x = Some \<lparr>e_left = elm_of l, e_right = elm_of r, e_parent = parent_of fs, e_color = c\<rparr>"
  by (simp add: at_place_def)

lemma rd_simps [simp]:
  "rd f None s = None" "rd f (Some a) s = map_option f (entries s a)"
  by (simp_all add: rd_def)

lemma wr_simps [simp]:
  "wr f None s = None"
  "wr f (Some a) s = map_option (\<lambda>e. s\<lparr>entries := (entries s)(a \<mapsto> f e)\<rparr>) (entries s a)"
  by (simp_all add: wr_def)

lemmas wr_defs = wr_left_def wr_right_def wr_parent_def wr_color_def

lemma at_place_is_red:
  assumes "at_place m0 s fs t"
  shows "is_red_h (elm_of t) s = Some (is_red t)"
  using assms by (cases t) (auto simp: is_red_h_def at_place_def)

lemma wr_color_h:
  assumes "at_place m0 s fs (NODE l x c r)"
  shows "\<exists>s'. wr_color (Some x) c' s = Some s' \<and> at_place m0 s' fs (NODE l x c' r)"
  using assms by (auto simp: at_place_def wr_defs)

lemma wr_color_set:
  assumes "at_place m0 s fs t" and "t \<noteq> NIL"
  shows "\<exists>s'. wr_color (elm_of t) c' s = Some s' \<and> at_place m0 s' fs (set_color c' t)"
  using assms wr_color_h [of m0 s fs] by (cases t) auto


section \<open>Rotations\<close>

lemma rotate_left_h:
  assumes "at_place m0 s fs (NODE a x c (NODE b y d e))"
  shows "\<exists>s'. VRB_ROTATE_LEFT_h (Some x) s = Some s' \<and> at_place m0 s' fs (NODE (NODE a x c b) y d e)"
proof (cases fs)
  case Nil
  with assms show ?thesis
    by (cases b) (auto simp: at_place_def VRB_ROTATE_LEFT_h_def wr_defs relink_def)
next
  case (Cons f gs)
  with assms show ?thesis
    by (cases b; cases f) (auto simp: at_place_def VRB_ROTATE_LEFT_h_def wr_defs relink_def)
qed

lemma rotate_right_h:
  assumes "at_place m0 s fs (NODE (NODE a x c b) y d e)"
  shows "\<exists>s'. VRB_ROTATE_RIGHT_h (Some y) s = Some s' \<and> at_place m0 s' fs (NODE a x c (NODE b y d e))"
proof (cases fs)
  case Nil
  with assms show ?thesis
    by (cases b) (auto simp: at_place_def VRB_ROTATE_RIGHT_h_def wr_defs relink_def)
next
  case (Cons f gs)
  with assms show ?thesis
    by (cases b; cases f) (auto simp: at_place_def VRB_ROTATE_RIGHT_h_def wr_defs relink_def)
qed

lemma rotate_left_refines:
  assumes "VRB_ROTATE_LEFT t = Some t'" and "at_place m0 s fs t"
  shows "\<exists>s'. VRB_ROTATE_LEFT_h (elm_of t) s = Some s' \<and> at_place m0 s' fs t'"
  using assms(1) rotate_left_h assms(2) by (cases t rule: VRB_ROTATE_LEFT.cases) auto

lemma rotate_right_refines:
  assumes "VRB_ROTATE_RIGHT t = Some t'" and "at_place m0 s fs t"
  shows "\<exists>s'. VRB_ROTATE_RIGHT_h (elm_of t) s = Some s' \<and> at_place m0 s' fs t'"
  using assms(1) rotate_right_h assms(2) by (cases t rule: VRB_ROTATE_RIGHT.cases) auto

lemma blackred_left:
  assumes "at_place m0 s fs (NODE (NODE a x c b) g gc r)"
  shows "\<exists>s'. VRB_SET_BLACKRED_h (Some x) (Some g) s = Some s' \<and>
    at_place m0 s' fs (NODE (NODE a x VRB_BLACK b) g VRB_RED r)"
  using assms by (auto simp: at_place_def VRB_SET_BLACKRED_h_def wr_defs)

lemma blackred_right:
  assumes "at_place m0 s fs (NODE r g gc (NODE a x c b))"
  shows "\<exists>s'. VRB_SET_BLACKRED_h (Some x) (Some g) s = Some s' \<and>
    at_place m0 s' fs (NODE r g VRB_RED (NODE a x VRB_BLACK b))"
  using assms by (auto simp: at_place_def VRB_SET_BLACKRED_h_def wr_defs)

section \<open>Insertion\<close>

text \<open>The three cases of the loop body for a red parent that is the left child of \<open>g\<close>.\<close>

lemma insert_L_uncle:
  assumes at: "at_place m0 s fs (NODE (NODE pl px VRB_RED pr) g gc tmp)"
    and red: "is_red tmp" and par: "rd e_parent e s = Some (Some px)"
  shows "\<exists>s'. VRB_INSERT_COLOR_loop_h e s = VRB_INSERT_COLOR_loop_h (Some g) s' \<and>
    at_place m0 s' fs (NODE (NODE pl px VRB_BLACK pr) g VRB_RED (set_color VRB_BLACK tmp))"
proof -
  from red obtain ta t tb where tmp: "tmp = NODE ta t VRB_RED tb" by (cases tmp) auto
  from at have R: "at_place m0 s (RightOf (NODE pl px VRB_RED pr) g gc # fs) tmp"
    by (simp add: at_place_right)
  obtain s1 where s1: "wr_color (Some t) VRB_BLACK s = Some s1"
      "at_place m0 s1 fs (NODE (NODE pl px VRB_RED pr) g gc (NODE ta t VRB_BLACK tb))"
    using wr_color_h [OF R [unfolded tmp], of VRB_BLACK] by (auto simp: at_place_right)
  obtain s2 where s2: "VRB_SET_BLACKRED_h (Some px) (Some g) s1 = Some s2"
      "at_place m0 s2 fs (NODE (NODE pl px VRB_BLACK pr) g VRB_RED (NODE ta t VRB_BLACK tb))"
    using blackred_left [OF s1(2)] by auto
  from at tmp par s1(1) s2(1)
  have "VRB_INSERT_COLOR_loop_h e s = VRB_INSERT_COLOR_loop_h (Some g) s2"
    by (subst VRB_INSERT_COLOR_loop_h.simps) (auto simp: at_place_def is_red_h_def)
  with s2(2) tmp show ?thesis by auto
qed

lemma insert_L_outer:
  assumes at: "at_place m0 s fs (NODE (NODE pl px VRB_RED pr) g gc tmp)"
    and red: "\<not> is_red tmp" and e: "e = elm_of pl" "pl \<noteq> NIL"
  shows "\<exists>s'. VRB_INSERT_COLOR_loop_h e s = VRB_INSERT_COLOR_loop_h e s' \<and>
    at_place m0 s' fs (NODE pl px VRB_BLACK (NODE pr g VRB_RED tmp))"
proof -
  obtain s1 where s1: "VRB_SET_BLACKRED_h (Some px) (Some g) s = Some s1"
      "at_place m0 s1 fs (NODE (NODE pl px VRB_BLACK pr) g VRB_RED tmp)"
    using blackred_left [OF at] by auto
  obtain s2 where s2: "VRB_ROTATE_RIGHT_h (Some g) s1 = Some s2"
      "at_place m0 s2 fs (NODE pl px VRB_BLACK (NODE pr g VRB_RED tmp))"
    using rotate_right_h [OF s1(2)] by auto
  have "is_red_h (elm_of tmp) s = Some False"
    using at_place_is_red [of m0 s "RightOf (NODE pl px VRB_RED pr) g gc # fs" tmp] at red
    by (simp add: at_place_right)
  with at e s1(1) s2(1)
  have "VRB_INSERT_COLOR_loop_h e s = VRB_INSERT_COLOR_loop_h e s2"
    by (cases pl; cases pr; subst VRB_INSERT_COLOR_loop_h.simps) (auto simp: at_place_def is_red_h_def)
  with s2(2) show ?thesis by auto
qed

lemma insert_L_inner:
  assumes at: "at_place m0 s fs (NODE (NODE pl px VRB_RED (NODE a x c b)) g gc tmp)"
    and red: "\<not> is_red tmp"
  shows "\<exists>s'. VRB_INSERT_COLOR_loop_h (Some x) s = VRB_INSERT_COLOR_loop_h (Some px) s' \<and>
    at_place m0 s' fs (NODE (NODE pl px VRB_RED a) x VRB_BLACK (NODE b g VRB_RED tmp))"
proof -
  from at have L: "at_place m0 s (LeftOf g gc tmp # fs) (NODE pl px VRB_RED (NODE a x c b))"
    by (simp add: at_place_left)
  obtain s1 where s1: "VRB_ROTATE_LEFT_h (Some px) s = Some s1"
      "at_place m0 s1 fs (NODE (NODE (NODE pl px VRB_RED a) x c b) g gc tmp)"
    using rotate_left_h [OF L] by (auto simp: at_place_left)
  obtain s2 where s2: "VRB_SET_BLACKRED_h (Some x) (Some g) s1 = Some s2"
      "at_place m0 s2 fs (NODE (NODE (NODE pl px VRB_RED a) x VRB_BLACK b) g VRB_RED tmp)"
    using blackred_left [OF s1(2)] by auto
  obtain s3 where s3: "VRB_ROTATE_RIGHT_h (Some g) s2 = Some s3"
      "at_place m0 s3 fs (NODE (NODE pl px VRB_RED a) x VRB_BLACK (NODE b g VRB_RED tmp))"
    using rotate_right_h [OF s2(2)] by auto
  have "is_red_h (elm_of tmp) s = Some False"
    using at_place_is_red [of m0 s "RightOf (NODE pl px VRB_RED (NODE a x c b)) g gc # fs" tmp] at red
    by (simp add: at_place_right)
  with at s1(1) s2(1) s3(1)
  have "VRB_INSERT_COLOR_loop_h (Some x) s = VRB_INSERT_COLOR_loop_h (Some px) s3"
    by (subst VRB_INSERT_COLOR_loop_h.simps) (auto simp: at_place_def is_red_h_def)
  with s3(2) show ?thesis by auto
qed

text \<open>The mirror image: a red parent that is the right child of \<open>g\<close>.\<close>

lemma insert_R_uncle:
  assumes at: "at_place m0 s fs (NODE tmp g gc (NODE pl px VRB_RED pr))"
    and red: "is_red tmp" and par: "rd e_parent e s = Some (Some px)"
  shows "\<exists>s'. VRB_INSERT_COLOR_loop_h e s = VRB_INSERT_COLOR_loop_h (Some g) s' \<and>
    at_place m0 s' fs (NODE (set_color VRB_BLACK tmp) g VRB_RED (NODE pl px VRB_BLACK pr))"
proof -
  from red obtain ta t tb where tmp: "tmp = NODE ta t VRB_RED tb" by (cases tmp) auto
  from at have L: "at_place m0 s (LeftOf g gc (NODE pl px VRB_RED pr) # fs) tmp"
    by (simp add: at_place_left)
  obtain s1 where s1: "wr_color (Some t) VRB_BLACK s = Some s1"
      "at_place m0 s1 fs (NODE (NODE ta t VRB_BLACK tb) g gc (NODE pl px VRB_RED pr))"
    using wr_color_h [OF L [unfolded tmp], of VRB_BLACK] by (auto simp: at_place_left)
  obtain s2 where s2: "VRB_SET_BLACKRED_h (Some px) (Some g) s1 = Some s2"
      "at_place m0 s2 fs (NODE (NODE ta t VRB_BLACK tb) g VRB_RED (NODE pl px VRB_BLACK pr))"
    using blackred_right [OF s1(2)] by auto
  from at tmp par s1(1) s2(1)
  have "VRB_INSERT_COLOR_loop_h e s = VRB_INSERT_COLOR_loop_h (Some g) s2"
    by (subst VRB_INSERT_COLOR_loop_h.simps) (auto simp: at_place_def is_red_h_def)
  with s2(2) tmp show ?thesis by auto
qed

lemma insert_R_outer:
  assumes at: "at_place m0 s fs (NODE tmp g gc (NODE pl px VRB_RED pr))"
    and red: "\<not> is_red tmp" and e: "e = elm_of pr" "pr \<noteq> NIL"
  shows "\<exists>s'. VRB_INSERT_COLOR_loop_h e s = VRB_INSERT_COLOR_loop_h e s' \<and>
    at_place m0 s' fs (NODE (NODE tmp g VRB_RED pl) px VRB_BLACK pr)"
proof -
  obtain s1 where s1: "VRB_SET_BLACKRED_h (Some px) (Some g) s = Some s1"
      "at_place m0 s1 fs (NODE tmp g VRB_RED (NODE pl px VRB_BLACK pr))"
    using blackred_right [OF at] by auto
  obtain s2 where s2: "VRB_ROTATE_LEFT_h (Some g) s1 = Some s2"
      "at_place m0 s2 fs (NODE (NODE tmp g VRB_RED pl) px VRB_BLACK pr)"
    using rotate_left_h [OF s1(2)] by auto
  have "is_red_h (elm_of tmp) s = Some False"
    using at_place_is_red [of m0 s "LeftOf g gc (NODE pl px VRB_RED pr) # fs" tmp] at red
    by (simp add: at_place_left)
  with at e s1(1) s2(1)
  have "VRB_INSERT_COLOR_loop_h e s = VRB_INSERT_COLOR_loop_h e s2"
    by (cases pl; cases pr; subst VRB_INSERT_COLOR_loop_h.simps) (auto simp: at_place_def is_red_h_def)
  with s2(2) show ?thesis by auto
qed

lemma insert_R_inner:
  assumes at: "at_place m0 s fs (NODE tmp g gc (NODE (NODE a x c b) px VRB_RED pr))"
    and red: "\<not> is_red tmp"
  shows "\<exists>s'. VRB_INSERT_COLOR_loop_h (Some x) s = VRB_INSERT_COLOR_loop_h (Some px) s' \<and>
    at_place m0 s' fs (NODE (NODE tmp g VRB_RED a) x VRB_BLACK (NODE b px VRB_RED pr))"
proof -
  from at have R: "at_place m0 s (RightOf tmp g gc # fs) (NODE (NODE a x c b) px VRB_RED pr)"
    by (simp add: at_place_right)
  obtain s1 where s1: "VRB_ROTATE_RIGHT_h (Some px) s = Some s1"
      "at_place m0 s1 fs (NODE tmp g gc (NODE a x c (NODE b px VRB_RED pr)))"
    using rotate_right_h [OF R] by (auto simp: at_place_right)
  obtain s2 where s2: "VRB_SET_BLACKRED_h (Some x) (Some g) s1 = Some s2"
      "at_place m0 s2 fs (NODE tmp g VRB_RED (NODE a x VRB_BLACK (NODE b px VRB_RED pr)))"
    using blackred_right [OF s1(2)] by auto
  obtain s3 where s3: "VRB_ROTATE_LEFT_h (Some g) s2 = Some s3"
      "at_place m0 s3 fs (NODE (NODE tmp g VRB_RED a) x VRB_BLACK (NODE b px VRB_RED pr))"
    using rotate_left_h [OF s2(2)] by auto
  have "is_red_h (elm_of tmp) s = Some False"
    using at_place_is_red [of m0 s "LeftOf g gc (NODE (NODE a x c b) px VRB_RED pr) # fs" tmp] at red
    by (simp add: at_place_left)
  with at s1(1) s2(1) s3(1)
  have "VRB_INSERT_COLOR_loop_h (Some x) s = VRB_INSERT_COLOR_loop_h (Some px) s3"
    by (subst VRB_INSERT_COLOR_loop_h.simps) (auto simp: at_place_def is_red_h_def)
  with s3(2) show ?thesis by auto
qed

text \<open>The loop test, the final blackening of the root, and the whole loop.\<close>

lemma insert_loop_stop:
  assumes "at_place m0 s fs t" and "t \<noteq> NIL" and "\<And>f gs. fs = f # gs \<Longrightarrow> frame_color f = VRB_BLACK"
  shows "VRB_INSERT_COLOR_loop_h (elm_of t) s = Some s"
proof (cases fs)
  case Nil
  with assms(1,2) show ?thesis
    by (cases t; subst VRB_INSERT_COLOR_loop_h.simps) (auto simp: at_place_def is_red_h_def)
next
  case (Cons f gs)
  with assms show ?thesis
    by (cases t; cases f; subst VRB_INSERT_COLOR_loop_h.simps) (auto simp: at_place_def is_red_h_def)
qed

lemma insert_color_end:
  assumes loop: "VRB_INSERT_COLOR_loop_h e s = Some s1" and at: "at_place m0 s1 fs t" and "t \<noteq> NIL"
  shows "\<exists>s'. VRB_INSERT_COLOR_h e s = Some s' \<and> vrb_heap m0 s' (set_color VRB_BLACK (plug fs t))"
proof -
  have root: "vrb_heap m0 s1 (plug fs t)" and "plug fs t \<noteq> NIL"
    using at \<open>t \<noteq> NIL\<close> inorder_Nil_iff [of "plug fs t"] by (simp_all add: at_place_root [symmetric])
  moreover have "rbh_root s1 = elm_of (plug fs t)"
    using root by (simp add: at_place_def)
  ultimately show ?thesis
    using wr_color_set [OF root] loop by (auto simp: VRB_INSERT_COLOR_h_def)
qed

lemma insert_color_next:
  "VRB_INSERT_COLOR_loop_h e s = VRB_INSERT_COLOR_loop_h e' s' \<Longrightarrow>
   VRB_INSERT_COLOR_h e s = VRB_INSERT_COLOR_h e' s'"
  by (simp add: VRB_INSERT_COLOR_h_def)

lemma place_parent:
  assumes "at_place m0 s (f # fs) t" and "t \<noteq> NIL"
  shows "rd e_parent (elm_of t) s = Some (parent_of (f # fs))"
  using assms by (cases t) (auto simp: at_place_def)

lemma insert_color_stop:
  assumes "at_place m0 s fs t" and "t \<noteq> NIL" and "\<And>f gs. fs = f # gs \<Longrightarrow> frame_color f = VRB_BLACK"
  shows "\<exists>s'. VRB_INSERT_COLOR_h (elm_of t) s = Some s' \<and> vrb_heap m0 s' (set_color VRB_BLACK (plug fs t))"
  using insert_color_end insert_loop_stop assms by blast

lemma insert_body_L_uncle:
  assumes "at_place m0 s fs (NODE (up f elm) g gc tmp)" and "frame_color f = VRB_RED" and "elm \<noteq> NIL"
    and "is_red tmp"
  shows "\<exists>s'. VRB_INSERT_COLOR_h (elm_of elm) s = VRB_INSERT_COLOR_h (Some g) s' \<and>
    at_place m0 s' fs (NODE (set_color VRB_BLACK (up f elm)) g VRB_RED (set_color VRB_BLACK tmp))"
proof -
  have "rd e_parent (elm_of elm) s = Some (parent_of (f # LeftOf g gc tmp # fs))"
    using assms by (intro place_parent [of m0]) (simp_all add: at_place_up)
  moreover obtain a x b where f: "up f elm = NODE a x VRB_RED b" "parent_of (f # LeftOf g gc tmp # fs) = Some x"
    using assms(2) by (cases f) auto
  ultimately show ?thesis
    using insert_L_uncle [of m0 s fs a x b g gc tmp "elm_of elm"] assms insert_color_next by (metis set_color.simps(2))
qed

lemma insert_body_L:
  assumes "at_place m0 s fs (NODE (up f elm) g gc tmp)" and "frame_color f = VRB_RED" and "elm \<noteq> NIL"
    and "\<not> is_red tmp"
    and "(case f of RightOf _ _ _ \<Rightarrow> VRB_ROTATE_LEFT (up f elm) | LeftOf _ _ _ \<Rightarrow> Some (up f elm)) = Some p"
    and "VRB_ROTATE_RIGHT (NODE (set_color VRB_BLACK p) g VRB_RED tmp) = Some t"
  shows "\<exists>s'. VRB_INSERT_COLOR_h (elm_of elm) s = Some s' \<and> vrb_heap m0 s' (set_color VRB_BLACK (plug fs t))"
proof (cases f)
  case (LeftOf px pc pr)
  with assms obtain s' where s': "VRB_INSERT_COLOR_loop_h (elm_of elm) s = VRB_INSERT_COLOR_loop_h (elm_of elm) s'"
      "at_place m0 s' fs (NODE elm px VRB_BLACK (NODE pr g VRB_RED tmp))"
    using insert_L_outer by fastforce
  with assms LeftOf show ?thesis
    using insert_color_stop [of m0 s' "LeftOf px VRB_BLACK (NODE pr g VRB_RED tmp) # fs" elm]
    by (auto simp: at_place_left dest: insert_color_next)
next
  case (RightOf pl px pc)
  obtain a x c b where elm: "elm = NODE a x c b" using assms(3) by (cases elm) auto
  with assms RightOf obtain s' where s': "VRB_INSERT_COLOR_loop_h (Some x) s = VRB_INSERT_COLOR_loop_h (Some px) s'"
      "at_place m0 s' fs (NODE (NODE pl px VRB_RED a) x VRB_BLACK (NODE b g VRB_RED tmp))"
    using insert_L_inner by fastforce
  with assms RightOf elm show ?thesis
    using insert_color_stop [of m0 s' "LeftOf x VRB_BLACK (NODE b g VRB_RED tmp) # fs" "NODE pl px VRB_RED a"]
    by (auto simp: at_place_left dest: insert_color_next)
qed

lemma insert_body_R_uncle:
  assumes "at_place m0 s fs (NODE tmp g gc (up f elm))" and "frame_color f = VRB_RED" and "elm \<noteq> NIL"
    and "is_red tmp"
  shows "\<exists>s'. VRB_INSERT_COLOR_h (elm_of elm) s = VRB_INSERT_COLOR_h (Some g) s' \<and>
    at_place m0 s' fs (NODE (set_color VRB_BLACK tmp) g VRB_RED (set_color VRB_BLACK (up f elm)))"
proof -
  have "rd e_parent (elm_of elm) s = Some (parent_of (f # RightOf tmp g gc # fs))"
    using assms by (intro place_parent [of m0]) (simp_all add: at_place_up)
  moreover obtain a x b where f: "up f elm = NODE a x VRB_RED b" "parent_of (f # RightOf tmp g gc # fs) = Some x"
    using assms(2) by (cases f) auto
  ultimately show ?thesis
    using insert_R_uncle [of m0 s fs tmp g gc a x b "elm_of elm"] assms insert_color_next by (metis set_color.simps(2))
qed

lemma insert_body_R:
  assumes "at_place m0 s fs (NODE tmp g gc (up f elm))" and "frame_color f = VRB_RED" and "elm \<noteq> NIL"
    and "\<not> is_red tmp"
    and "(case f of LeftOf _ _ _ \<Rightarrow> VRB_ROTATE_RIGHT (up f elm) | RightOf _ _ _ \<Rightarrow> Some (up f elm)) = Some p"
    and "VRB_ROTATE_LEFT (NODE tmp g VRB_RED (set_color VRB_BLACK p)) = Some t"
  shows "\<exists>s'. VRB_INSERT_COLOR_h (elm_of elm) s = Some s' \<and> vrb_heap m0 s' (set_color VRB_BLACK (plug fs t))"
proof (cases f)
  case (RightOf pl px pc)
  with assms obtain s' where s': "VRB_INSERT_COLOR_loop_h (elm_of elm) s = VRB_INSERT_COLOR_loop_h (elm_of elm) s'"
      "at_place m0 s' fs (NODE (NODE tmp g VRB_RED pl) px VRB_BLACK elm)"
    using insert_R_outer by fastforce
  with assms RightOf show ?thesis
    using insert_color_stop [of m0 s' "RightOf (NODE tmp g VRB_RED pl) px VRB_BLACK # fs" elm]
    by (auto simp: at_place_right dest: insert_color_next)
next
  case (LeftOf px pc pr)
  obtain a x c b where elm: "elm = NODE a x c b" using assms(3) by (cases elm) auto
  with assms LeftOf obtain s' where s': "VRB_INSERT_COLOR_loop_h (Some x) s = VRB_INSERT_COLOR_loop_h (Some px) s'"
      "at_place m0 s' fs (NODE (NODE tmp g VRB_RED a) x VRB_BLACK (NODE b px VRB_RED pr))"
    using insert_R_inner by fastforce
  with assms LeftOf elm show ?thesis
    using insert_color_stop [of m0 s' "RightOf (NODE tmp g VRB_RED a) x VRB_BLACK # fs" "NODE b px VRB_RED pr"]
    by (auto simp: at_place_right dest: insert_color_next)
qed

lemma insert_color_refines:
  assumes "VRB_INSERT_COLOR elm fs = Some t'" and "elm \<noteq> NIL" and "at_place m0 s fs elm"
  shows "\<exists>s'. VRB_INSERT_COLOR_h (elm_of elm) s = Some s' \<and> vrb_heap m0 s' t'"
  using assms
proof (induction elm fs arbitrary: s rule: VRB_INSERT_COLOR.induct)
  case (1 elm)
  then show ?case using insert_color_stop [OF 1(3,2)] by auto
next
  case (2 elm parent fs)
  show ?case
  proof (cases "frame_color parent = VRB_RED")
    case False
    with 2(3) show ?thesis using insert_color_stop [OF 2(5,4)] by auto
  next
    case True
    with 2(3) obtain g fs' where fs: "fs = g # fs'" by (cases fs) auto
    show ?thesis
    proof (cases g)
      case (LeftOf gx gc tmp)
      then have at: "at_place m0 s fs' (NODE (up parent elm) gx gc tmp)"
        using 2(5) fs by (simp add: at_place_up)
      show ?thesis
      proof (cases "is_red tmp")
        case red: True
        show ?thesis
          using insert_body_L_uncle [OF at True 2(4) red] 2(1) 2(3) True red fs LeftOf by force
      next
        case False
        then show ?thesis
          using insert_body_L [OF at True 2(4) False] 2(3) True fs LeftOf by (auto simp: bind_eq_Some_conv)
      qed
    next
      case (RightOf tmp gx gc)
      then have at: "at_place m0 s fs' (NODE tmp gx gc (up parent elm))"
        using 2(5) fs by (simp add: at_place_up)
      show ?thesis
      proof (cases "is_red tmp")
        case red: True
        show ?thesis
          using insert_body_R_uncle [OF at True 2(4) red] 2(2) 2(3) True red fs RightOf by force
      next
        case False
        then show ?thesis
          using insert_body_R [OF at True 2(4) False] 2(3) True fs RightOf by (auto simp: bind_eq_Some_conv)
      qed
    qed
  qed
qed

text \<open>The descent ends with the path to the free slot in \<open>parent\<close> and the side in \<open>comp\<close>.\<close>

fun side_ok :: "addr rb_path \<Rightarrow> int \<Rightarrow> bool" where
  "side_ok [] c = True"
| "side_ok (LeftOf _ _ _ # _) c = (c < 0)"
| "side_ok (RightOf _ _ _ # _) c = (\<not> c < 0)"

lemma insert_descend_h_simps [simp]:
  "insert_descend_h cmp None parent c s = Some (Inr (parent, c))"
  "insert_descend_h cmp (Some a) parent c s =
     (if cmp a < 0 then Option.bind (rd e_left (Some a) s) (\<lambda>l. insert_descend_h cmp l (Some a) (cmp a) s)
      else if cmp a > 0 then Option.bind (rd e_right (Some a) s) (\<lambda>r. insert_descend_h cmp r (Some a) (cmp a) s)
      else Some (Inl a))"
  by (simp_all add: insert_descend_h.simps)

lemma insert_descend_refines:
  assumes "at_place m0 s fs t" and "side_ok fs c"
  shows "case insert_descend cmp t fs of
      Inl x \<Rightarrow> insert_descend_h cmp (elm_of t) (parent_of fs) c s = Some (Inl x)
    | Inr gs \<Rightarrow> \<exists>c'. insert_descend_h cmp (elm_of t) (parent_of fs) c s = Some (Inr (parent_of gs, c'))
        \<and> side_ok gs c' \<and> at_place m0 s gs NIL"
  using assms
proof (induction cmp t fs arbitrary: c rule: insert_descend.induct)
  case (1 cmp fs)
  then show ?case by auto
next
  case (2 cmp l x col r fs)
  then show ?case
    using 2(1) [OF refl _ , of "cmp x"] 2(2) [OF refl _ _, of "cmp x"] at_place_entry [OF 2(3)]
    by (auto simp: Let_def at_place_left at_place_right split: sum.splits)
qed

lemma insert_descend_path:
  "insert_descend cmp t fs = Inr gs \<Longrightarrow> before gs @ after gs = before fs @ inorder t @ after fs"
  by (induction cmp t fs rule: insert_descend.induct) (auto simp: Let_def split: if_splits)

lemma link_leaf:
  assumes "at_place m0 s fs NIL" and "side_ok fs c" and "elm \<notin> set (before fs @ after fs)"
    and "entries s elm \<noteq> None"
  shows "\<exists>s1 s2. VRB_SET_h (Some elm) (parent_of fs) s = Some s1 \<and>
    (if parent_of fs \<noteq> None then (if c < 0 then wr_left (parent_of fs) (Some elm) s1 else wr_right (parent_of fs) (Some elm) s1)
     else Some (s1\<lparr>rbh_root := Some elm\<rparr>)) = Some s2 \<and>
    at_place m0 s2 fs (NODE NIL elm VRB_RED NIL)"
proof (cases fs)
  case Nil
  with assms show ?thesis by (auto simp: at_place_def VRB_SET_h_def wr_defs)
next
  case (Cons f gs)
  with assms show ?thesis by (cases f) (auto simp: at_place_def VRB_SET_h_def wr_defs)
qed

lemma insert_refines:
  assumes "vrb_heap m0 s t" and "VRB_INSERT cmp elm t = Some (res, t')"
    and "elm \<notin> set (inorder t)" and "entries s elm \<noteq> None"
  shows "\<exists>s'. VRB_INSERT_h cmp elm s = Some (res, s') \<and> vrb_heap m0 s' t'"
proof (cases "insert_descend cmp t []")
  case (Inl x)
  then show ?thesis
    using insert_descend_refines [OF assms(1), of 0 cmp] assms
    by (auto simp: VRB_INSERT_h_def VRB_INSERT_def at_place_def)
next
  case (Inr gs)
  then obtain c where d: "insert_descend_h cmp (rbh_root s) None 0 s = Some (Inr (parent_of gs, c))"
      "side_ok gs c" "at_place m0 s gs NIL"
    using insert_descend_refines [OF assms(1), of 0 cmp] assms(1) by (auto simp: at_place_def)
  have t': "VRB_INSERT_COLOR (NODE NIL elm VRB_RED NIL) gs = Some t'" "res = None"
    using assms(2) Inr by (auto simp: VRB_INSERT_def)
  have free: "elm \<notin> set (before gs @ after gs)"
    using insert_descend_path [OF Inr] assms(3) by simp
  obtain s1 s2 where "VRB_SET_h (Some elm) (parent_of gs) s = Some s1"
      "(if parent_of gs \<noteq> None then (if c < 0 then wr_left (parent_of gs) (Some elm) s1 else wr_right (parent_of gs) (Some elm) s1)
        else Some (s1\<lparr>rbh_root := Some elm\<rparr>)) = Some s2"
      "at_place m0 s2 gs (NODE NIL elm VRB_RED NIL)"
    using link_leaf [OF d(3,2) free assms(4)] by blast
  then show ?thesis
    using insert_color_refines [OF t'(1)] d(1) t'(2) by (fastforce simp: VRB_INSERT_h_def)
qed

section \<open>Recolouring after a removal\<close>

lemma final_rotation_L:
  assumes "at_place m0 s fs (NODE elm p pc (NODE ul u uc ur))"
  shows "\<exists>s'. final_rotation_L_h (Some p) (Some u) s = Some s' \<and>
    at_place m0 s' fs (NODE (NODE elm p VRB_BLACK ul) u pc (set_color VRB_BLACK ur))"
proof -
  have "\<exists>s1 s2. wr_color (Some u) pc s = Some s1 \<and> wr_color (Some p) VRB_BLACK s1 = Some s2 \<and>
    at_place m0 s2 fs (NODE elm p VRB_BLACK (NODE ul u pc ur))"
    using assms by (auto simp: at_place_def wr_defs)
  then obtain s1 s2 where s12: "wr_color (Some u) pc s = Some s1" "wr_color (Some p) VRB_BLACK s1 = Some s2"
      "at_place m0 s2 fs (NODE elm p VRB_BLACK (NODE ul u pc ur))" by blast
  have "\<exists>s3. (if elm_of ur \<noteq> None then wr_color (elm_of ur) VRB_BLACK s2 else Some s2) = Some s3 \<and>
    at_place m0 s3 fs (NODE elm p VRB_BLACK (NODE ul u pc (set_color VRB_BLACK ur)))"
    using s12(3) by (cases ur) (auto simp: at_place_def wr_defs)
  then obtain s3 where s3: "(if elm_of ur \<noteq> None then wr_color (elm_of ur) VRB_BLACK s2 else Some s2) = Some s3"
      "at_place m0 s3 fs (NODE elm p VRB_BLACK (NODE ul u pc (set_color VRB_BLACK ur)))" by blast
  have "rd e_color (Some p) s = Some pc" "rd e_right (Some u) s2 = Some (elm_of ur)"
    using assms s12(3) by (auto simp: at_place_def)
  then show ?thesis
    using s12(1,2) s3(1) rotate_left_h [OF s3(2)] by (simp add: final_rotation_L_h_def del: rd_simps not_None_eq)
qed

lemma red_sibling_L:
  assumes at: "at_place m0 s fs (NODE elm p pc (NODE sl x sc sr))"
  shows "\<exists>s'. if sc = VRB_RED
    then red_sibling_L_h (Some p) s = Some (elm_of sl, s') \<and> at_place m0 s' (LeftOf x VRB_BLACK sr # fs) (NODE elm p VRB_RED sl)
    else red_sibling_L_h (Some p) s = Some (Some x, s) \<and> s' = s"
proof (cases "sc = VRB_RED")
  case True
  obtain s1 where s1: "VRB_SET_BLACKRED_h (Some x) (Some p) s = Some s1"
      "at_place m0 s1 fs (NODE elm p VRB_RED (NODE sl x VRB_BLACK sr))"
    using blackred_right [OF at] by blast
  obtain s2 where s2: "VRB_ROTATE_LEFT_h (Some p) s1 = Some s2"
      "at_place m0 s2 fs (NODE (NODE elm p VRB_RED sl) x VRB_BLACK sr)"
    using rotate_left_h [OF s1(2)] by blast
  have "rd e_right (Some p) s = Some (Some x)" "rd e_color (Some x) s = Some VRB_RED"
    "rd e_right (Some p) s2 = Some (elm_of sl)"
    using at s2(2) True by (auto simp: at_place_def)
  then show ?thesis
    using True s1(1) s2 by (simp add: red_sibling_L_h_def at_place_left del: rd_simps)
next
  case False
  then show ?thesis using at by (auto simp: at_place_def red_sibling_L_h_def)
qed

lemma black_sibling_L_reads:
  assumes "at_place m0 s fs (NODE elm p pc (NODE ta t tc tb))"
  shows "rd e_left (Some t) s = Some (elm_of ta)" "rd e_right (Some t) s = Some (elm_of tb)"
    "is_red_h (elm_of ta) s = Some (is_red ta)" "is_red_h (elm_of tb) s = Some (is_red tb)"
  using assms at_place_is_red [of m0 s "LeftOf t tc tb # RightOf elm p pc # fs" ta]
    at_place_is_red [of m0 s "RightOf ta t tc # RightOf elm p pc # fs" tb]
  by (auto simp: at_place_left at_place_right, auto simp: at_place_def)

lemma black_sibling_L:
  assumes at: "at_place m0 s fs (NODE elm p pc (NODE ta t tc tb))"
  shows "\<exists>s'. if \<not> is_red ta \<and> \<not> is_red tb
    then black_sibling_L_h (Some p) (Some t) s = Some (Inl (parent_of fs, Some p, s')) \<and>
      at_place m0 s' fs (NODE elm p pc (NODE ta t VRB_RED tb))
    else black_sibling_L_h (Some p) (Some t) s = Some (Inr s') \<and>
      (\<exists>ul u uc ur. (if \<not> is_red tb then VRB_ROTATE_RIGHT (NODE (set_color VRB_BLACK ta) t VRB_RED tb)
          else Some (NODE ta t tc tb)) = Some (NODE ul u uc ur) \<and>
        at_place m0 s' fs (NODE (NODE elm p VRB_BLACK ul) u pc (set_color VRB_BLACK ur)))"
proof -
  note reads = black_sibling_L_reads [OF at]
  consider (black) "\<not> is_red ta" "\<not> is_red tb" | (far) "is_red tb" | (near) "is_red ta" "\<not> is_red tb" by blast
  then show ?thesis
  proof cases
    case black
    have "\<exists>s'. wr_color (Some t) VRB_RED s = Some s' \<and> rd e_parent (Some p) s' = Some (parent_of fs) \<and>
        at_place m0 s' fs (NODE elm p pc (NODE ta t VRB_RED tb))"
      using at by (auto simp: at_place_def wr_defs)
    with black reads show ?thesis by (auto simp: black_sibling_L_h_def)
  next
    case far
    with reads final_rotation_L [OF at] show ?thesis by (auto simp: black_sibling_L_h_def)
  next
    case near
    then obtain al a ar where ta: "ta = NODE al a VRB_RED ar" by (cases ta) auto
    have "\<exists>s1 s2. wr_color (Some a) VRB_BLACK s = Some s1 \<and> wr_color (Some t) VRB_RED s1 = Some s2 \<and>
        at_place m0 s2 fs (NODE elm p pc (NODE (NODE al a VRB_BLACK ar) t VRB_RED tb))"
      using at ta by (auto simp: at_place_def wr_defs)
    then obtain s1 s2 where s12: "wr_color (Some a) VRB_BLACK s = Some s1" "wr_color (Some t) VRB_RED s1 = Some s2"
        "at_place m0 s2 (RightOf elm p pc # fs) (NODE (NODE al a VRB_BLACK ar) t VRB_RED tb)"
      by (auto simp: at_place_right)
    obtain s3 where s3: "VRB_ROTATE_RIGHT_h (Some t) s2 = Some s3"
        "at_place m0 s3 fs (NODE elm p pc (NODE al a VRB_BLACK (NODE ar t VRB_RED tb)))"
      using rotate_right_h [OF s12(3)] by (auto simp: at_place_right)
    have "rd e_right (Some p) s3 = Some (Some a)" using s3(2) by (auto simp: at_place_def)
    with near reads ta s12(1,2) s3(1) final_rotation_L [OF s3(2)] show ?thesis
      by (auto simp: black_sibling_L_h_def)
  qed
qed

text \<open>The body of the loop for a left child does what \<open>remove_color_L\<close> does.\<close>

definition remove_body_done ::
  "(addr \<rightharpoonup> vrb_entry) \<Rightarrow> (addr rb_path \<times> addr vrb + addr vrb) \<Rightarrow>
   (ptr \<times> ptr \<times> vrb_mem + vrb_mem) option \<Rightarrow> bool" where
  "remove_body_done m0 res out =
     (case res of
        Inl (fs, e) \<Rightarrow> \<exists>s'. out = Some (Inl (parent_of fs, elm_of e, s')) \<and> at_place m0 s' fs e
      | Inr t \<Rightarrow> \<exists>s'. out = Some (Inr s') \<and> vrb_heap m0 s' t)"

lemma black_sibling_L_done:
  assumes at: "at_place m0 s fs (NODE elm p pc (NODE ta t tc tb))"
    and res: "(if \<not> is_red ta \<and> \<not> is_red tb then Some (Inl (fs, NODE elm p pc (NODE ta t VRB_RED tb)))
      else Option.bind
        (if \<not> is_red tb then VRB_ROTATE_RIGHT (NODE (set_color VRB_BLACK ta) t VRB_RED tb)
         else Some (NODE ta t tc tb))
        (\<lambda>tmp2. case tmp2 of NIL \<Rightarrow> None | NODE ul u uc ur \<Rightarrow>
           Option.bind (VRB_ROTATE_LEFT (NODE elm p VRB_BLACK (NODE ul u pc (set_color VRB_BLACK ur))))
             (\<lambda>t'. Some (Inr (plug fs t'))))) = Some res"
  shows "remove_body_done m0 res (black_sibling_L_h (Some p) (Some t) s)"
proof (cases "\<not> is_red ta \<and> \<not> is_red tb")
  case True
  then show ?thesis using black_sibling_L [OF at] res by (auto simp: remove_body_done_def)
next
  case False
  then obtain s' ul u uc ur where "black_sibling_L_h (Some p) (Some t) s = Some (Inr s')"
      "(if \<not> is_red tb then VRB_ROTATE_RIGHT (NODE (set_color VRB_BLACK ta) t VRB_RED tb)
        else Some (NODE ta t tc tb)) = Some (NODE ul u uc ur)"
      "at_place m0 s' fs (NODE (NODE elm p VRB_BLACK ul) u pc (set_color VRB_BLACK ur))"
    using black_sibling_L [OF at] by (simp only: if_False) blast
  with False res show ?thesis
    by (simp add: remove_body_done_def at_place_root [of m0 s' fs]) (auto simp: remove_body_done_def at_place_root [of m0 s' fs])
qed

lemma remove_body_L:
  assumes at: "at_place m0 s fs (NODE elm p pc tmp)" and res: "remove_color_L elm p pc tmp fs = Some res"
  shows "remove_body_done m0 res (remove_body_L_h (Some p) s)"
proof -
  obtain sl x sc sr where tmp: "tmp = NODE sl x sc sr"
    using res by (cases tmp) (auto simp: remove_color_L_def)
  show ?thesis
  proof (cases "sc = VRB_RED")
    case True
    with res tmp obtain ta t tc tb where sl: "sl = NODE ta t tc tb"
      by (cases sl) (auto simp: remove_color_L_def)
    obtain s1 where "red_sibling_L_h (Some p) s = Some (elm_of sl, s1)"
        "at_place m0 s1 (LeftOf x VRB_BLACK sr # fs) (NODE elm p VRB_RED sl)"
      using red_sibling_L [OF at [unfolded tmp]] True by auto
    with sl True res tmp show ?thesis
      using black_sibling_L_done [of m0 s1 "LeftOf x VRB_BLACK sr # fs" elm p VRB_RED ta t tc tb res]
      by (simp add: remove_body_L_h_def remove_color_L_def)
  next
    case False
    then have sc: "sc = VRB_BLACK" by simp
    then have "red_sibling_L_h (Some p) s = Some (Some x, s)"
      using red_sibling_L [OF at [unfolded tmp]] by auto
    with sc res tmp show ?thesis
      using black_sibling_L_done [OF at [unfolded tmp sc], of res]
      by (simp add: remove_body_L_h_def remove_color_L_def)
  qed
qed

text \<open>The mirror images.\<close>

lemma final_rotation_R:
  assumes "at_place m0 s fs (NODE (NODE ul u uc ur) p pc elm)"
  shows "\<exists>s'. final_rotation_R_h (Some p) (Some u) s = Some s' \<and>
    at_place m0 s' fs (NODE (set_color VRB_BLACK ul) u pc (NODE ur p VRB_BLACK elm))"
proof -
  have "\<exists>s1 s2. wr_color (Some u) pc s = Some s1 \<and> wr_color (Some p) VRB_BLACK s1 = Some s2 \<and>
    at_place m0 s2 fs (NODE (NODE ul u pc ur) p VRB_BLACK elm)"
    using assms by (auto simp: at_place_def wr_defs)
  then obtain s1 s2 where s12: "wr_color (Some u) pc s = Some s1" "wr_color (Some p) VRB_BLACK s1 = Some s2"
      "at_place m0 s2 fs (NODE (NODE ul u pc ur) p VRB_BLACK elm)" by blast
  have "\<exists>s3. (if elm_of ul \<noteq> None then wr_color (elm_of ul) VRB_BLACK s2 else Some s2) = Some s3 \<and>
    at_place m0 s3 fs (NODE (NODE (set_color VRB_BLACK ul) u pc ur) p VRB_BLACK elm)"
    using s12(3) by (cases ul) (auto simp: at_place_def wr_defs)
  then obtain s3 where s3: "(if elm_of ul \<noteq> None then wr_color (elm_of ul) VRB_BLACK s2 else Some s2) = Some s3"
      "at_place m0 s3 fs (NODE (NODE (set_color VRB_BLACK ul) u pc ur) p VRB_BLACK elm)" by blast
  have "rd e_color (Some p) s = Some pc" "rd e_left (Some u) s2 = Some (elm_of ul)"
    using assms s12(3) by (auto simp: at_place_def)
  then show ?thesis
    using s12(1,2) s3(1) rotate_right_h [OF s3(2)]
    by (simp add: final_rotation_R_h_def del: rd_simps not_None_eq)
qed

lemma red_sibling_R:
  assumes at: "at_place m0 s fs (NODE (NODE sl x sc sr) p pc elm)"
  shows "\<exists>s'. if sc = VRB_RED
    then red_sibling_R_h (Some p) s = Some (elm_of sr, s') \<and> at_place m0 s' (RightOf sl x VRB_BLACK # fs) (NODE sr p VRB_RED elm)
    else red_sibling_R_h (Some p) s = Some (Some x, s) \<and> s' = s"
proof (cases "sc = VRB_RED")
  case True
  obtain s1 where s1: "VRB_SET_BLACKRED_h (Some x) (Some p) s = Some s1"
      "at_place m0 s1 fs (NODE (NODE sl x VRB_BLACK sr) p VRB_RED elm)"
    using blackred_left [OF at] by blast
  obtain s2 where s2: "VRB_ROTATE_RIGHT_h (Some p) s1 = Some s2"
      "at_place m0 s2 fs (NODE sl x VRB_BLACK (NODE sr p VRB_RED elm))"
    using rotate_right_h [OF s1(2)] by blast
  have "rd e_left (Some p) s = Some (Some x)" "rd e_color (Some x) s = Some VRB_RED"
    "rd e_left (Some p) s2 = Some (elm_of sr)"
    using at s2(2) True by (auto simp: at_place_def)
  then show ?thesis
    using True s1(1) s2 by (simp add: red_sibling_R_h_def at_place_right del: rd_simps)
next
  case False
  then show ?thesis using at by (auto simp: at_place_def red_sibling_R_h_def)
qed

lemma black_sibling_R_reads:
  assumes "at_place m0 s fs (NODE (NODE ta t tc tb) p pc elm)"
  shows "rd e_left (Some t) s = Some (elm_of ta)" "rd e_right (Some t) s = Some (elm_of tb)"
    "is_red_h (elm_of ta) s = Some (is_red ta)" "is_red_h (elm_of tb) s = Some (is_red tb)"
  using assms at_place_is_red [of m0 s "LeftOf t tc tb # LeftOf p pc elm # fs" ta]
    at_place_is_red [of m0 s "RightOf ta t tc # LeftOf p pc elm # fs" tb]
  by (auto simp: at_place_left at_place_right, auto simp: at_place_def)

lemma black_sibling_R:
  assumes at: "at_place m0 s fs (NODE (NODE ta t tc tb) p pc elm)"
  shows "\<exists>s'. if \<not> is_red ta \<and> \<not> is_red tb
    then black_sibling_R_h (Some p) (Some t) s = Some (Inl (parent_of fs, Some p, s')) \<and>
      at_place m0 s' fs (NODE (NODE ta t VRB_RED tb) p pc elm)
    else black_sibling_R_h (Some p) (Some t) s = Some (Inr s') \<and>
      (\<exists>ul u uc ur. (if \<not> is_red ta then VRB_ROTATE_LEFT (NODE ta t VRB_RED (set_color VRB_BLACK tb))
          else Some (NODE ta t tc tb)) = Some (NODE ul u uc ur) \<and>
        at_place m0 s' fs (NODE (set_color VRB_BLACK ul) u pc (NODE ur p VRB_BLACK elm)))"
proof -
  note reads = black_sibling_R_reads [OF at]
  consider (black) "\<not> is_red ta" "\<not> is_red tb" | (far) "is_red ta" | (near) "is_red tb" "\<not> is_red ta" by blast
  then show ?thesis
  proof cases
    case black
    have "\<exists>s'. wr_color (Some t) VRB_RED s = Some s' \<and> rd e_parent (Some p) s' = Some (parent_of fs) \<and>
        at_place m0 s' fs (NODE (NODE ta t VRB_RED tb) p pc elm)"
      using at by (auto simp: at_place_def wr_defs)
    with black reads show ?thesis by (auto simp: black_sibling_R_h_def)
  next
    case far
    with reads final_rotation_R [OF at] show ?thesis by (auto simp: black_sibling_R_h_def)
  next
    case near
    then obtain bl b br where tb: "tb = NODE bl b VRB_RED br" by (cases tb) auto
    have "\<exists>s1 s2. wr_color (Some b) VRB_BLACK s = Some s1 \<and> wr_color (Some t) VRB_RED s1 = Some s2 \<and>
        at_place m0 s2 fs (NODE (NODE ta t VRB_RED (NODE bl b VRB_BLACK br)) p pc elm)"
      using at tb by (auto simp: at_place_def wr_defs)
    then obtain s1 s2 where s12: "wr_color (Some b) VRB_BLACK s = Some s1" "wr_color (Some t) VRB_RED s1 = Some s2"
        "at_place m0 s2 (LeftOf p pc elm # fs) (NODE ta t VRB_RED (NODE bl b VRB_BLACK br))"
      by (auto simp: at_place_left)
    obtain s3 where s3: "VRB_ROTATE_LEFT_h (Some t) s2 = Some s3"
        "at_place m0 s3 fs (NODE (NODE (NODE ta t VRB_RED bl) b VRB_BLACK br) p pc elm)"
      using rotate_left_h [OF s12(3)] by (auto simp: at_place_left)
    have "rd e_left (Some p) s3 = Some (Some b)" using s3(2) by (auto simp: at_place_def)
    with near reads tb s12(1,2) s3(1) final_rotation_R [OF s3(2)] show ?thesis
      by (auto simp: black_sibling_R_h_def)
  qed
qed

lemma black_sibling_R_done:
  assumes at: "at_place m0 s fs (NODE (NODE ta t tc tb) p pc elm)"
    and res: "(if \<not> is_red ta \<and> \<not> is_red tb then Some (Inl (fs, NODE (NODE ta t VRB_RED tb) p pc elm))
      else Option.bind
        (if \<not> is_red ta then VRB_ROTATE_LEFT (NODE ta t VRB_RED (set_color VRB_BLACK tb))
         else Some (NODE ta t tc tb))
        (\<lambda>tmp2. case tmp2 of NIL \<Rightarrow> None | NODE ul u uc ur \<Rightarrow>
           Option.bind (VRB_ROTATE_RIGHT (NODE (NODE (set_color VRB_BLACK ul) u pc ur) p VRB_BLACK elm))
             (\<lambda>t'. Some (Inr (plug fs t'))))) = Some res"
  shows "remove_body_done m0 res (black_sibling_R_h (Some p) (Some t) s)"
proof (cases "\<not> is_red ta \<and> \<not> is_red tb")
  case True
  then show ?thesis using black_sibling_R [OF at] res by (auto simp: remove_body_done_def)
next
  case False
  then obtain s' ul u uc ur where "black_sibling_R_h (Some p) (Some t) s = Some (Inr s')"
      "(if \<not> is_red ta then VRB_ROTATE_LEFT (NODE ta t VRB_RED (set_color VRB_BLACK tb))
        else Some (NODE ta t tc tb)) = Some (NODE ul u uc ur)"
      "at_place m0 s' fs (NODE (set_color VRB_BLACK ul) u pc (NODE ur p VRB_BLACK elm))"
    using black_sibling_R [OF at] by (simp only: if_False) blast
  with False res show ?thesis
    by (simp add: remove_body_done_def at_place_root [of m0 s' fs]) (auto simp: remove_body_done_def at_place_root [of m0 s' fs])
qed

lemma remove_body_R:
  assumes at: "at_place m0 s fs (NODE tmp p pc elm)" and res: "remove_color_R tmp p pc elm fs = Some res"
  shows "remove_body_done m0 res (remove_body_R_h (Some p) s)"
proof -
  obtain sl x sc sr where tmp: "tmp = NODE sl x sc sr"
    using res by (cases tmp) (auto simp: remove_color_R_def)
  show ?thesis
  proof (cases "sc = VRB_RED")
    case True
    with res tmp obtain ta t tc tb where sr: "sr = NODE ta t tc tb"
      by (cases sr) (auto simp: remove_color_R_def)
    obtain s1 where "red_sibling_R_h (Some p) s = Some (elm_of sr, s1)"
        "at_place m0 s1 (RightOf sl x VRB_BLACK # fs) (NODE sr p VRB_RED elm)"
      using red_sibling_R [OF at [unfolded tmp]] True by auto
    with sr True res tmp show ?thesis
      using black_sibling_R_done [of m0 s1 "RightOf sl x VRB_BLACK # fs" ta t tc tb p VRB_RED elm res]
      by (simp add: remove_body_R_h_def remove_color_R_def)
  next
    case False
    then have sc: "sc = VRB_BLACK" by simp
    then have "red_sibling_R_h (Some p) s = Some (Some x, s)"
      using red_sibling_R [OF at [unfolded tmp]] by auto
    with sc res tmp show ?thesis
      using black_sibling_R_done [OF at [unfolded tmp sc], of res]
      by (simp add: remove_body_R_h_def remove_color_R_def)
  qed
qed

text \<open>The two tests of the loop, and the loop.\<close>

lemma root_of_in:
  "fs \<noteq> [] \<Longrightarrow> \<exists>a. root_of h fs = Some a \<and> a \<in> set (before fs @ after fs)"
proof (induction fs arbitrary: h)
  case (Cons f fs)
  then show ?case by (cases fs; cases f) auto
qed simp

lemma root_test:
  assumes "at_place m0 s fs t"
  shows "elm_of t = rbh_root s \<longleftrightarrow> fs = []"
proof (cases "fs = []")
  case False
  then obtain a where "rbh_root s = Some a" "a \<in> set (before fs @ after fs)"
    using root_of_in [of fs "elm_of t"] assms by (auto simp: at_place_def)
  then have "a \<notin> set (inorder t)" using assms by (auto simp: at_place_def)
  with \<open>rbh_root s = Some a\<close> False show ?thesis by simp
qed (use assms in \<open>simp add: at_place_def\<close>)

lemma remove_step_refines:
  assumes at: "at_place m0 s (f # fs) elm" and res: "remove_color_step f fs elm = Some res"
  shows "\<exists>l. rd e_left (parent_of (f # fs)) s = Some l \<and>
    remove_body_done m0 res
      (if l = elm_of elm then remove_body_L_h (parent_of (f # fs)) s else remove_body_R_h (parent_of (f # fs)) s)"
proof (cases f)
  case (LeftOf p pc tmp)
  with at res show ?thesis
    using remove_body_L [of m0 s fs elm p pc tmp res] at_place_entry [of m0 s fs elm p pc tmp]
    by (simp add: at_place_left)
next
  case (RightOf tmp p pc)
  with at have P: "at_place m0 s fs (NODE tmp p pc elm)" by (simp add: at_place_right)
  from res RightOf have "tmp \<noteq> NIL" by (auto simp: remove_color_R_def)
  with P have "elm_of tmp \<noteq> elm_of elm"
    by (cases tmp) (auto simp: at_place_def dest: elm_of_in [OF sym])
  then show ?thesis
    using remove_body_R [OF P, of res] at_place_entry [OF P] res RightOf by simp
qed

lemma remove_color_refines:
  assumes "VRB_REMOVE_COLOR fs elm = Some t'" and "at_place m0 s fs elm"
  shows "\<exists>s'. VRB_REMOVE_COLOR_h (parent_of fs) (elm_of elm) s = Some s' \<and> vrb_heap m0 s' t'"
  using assms
proof (induction fs elm arbitrary: s rule: VRB_REMOVE_COLOR.induct)
  case (1 fs elm)
  note red = at_place_is_red [OF 1(3)] and root = root_test [OF 1(3)]
  show ?case
  proof (cases "is_red elm \<or> fs = []")
    case True
    with red root have "VRB_REMOVE_COLOR_loop_h (parent_of fs) (elm_of elm) s = Some (elm_of elm, s)"
      by (subst VRB_REMOVE_COLOR_loop_h.simps) auto
    moreover have "t' = plug fs (set_color VRB_BLACK elm)"
      using 1(2) True by (simp add: VRB_REMOVE_COLOR.simps)
    ultimately show ?thesis
      using wr_color_set [OF 1(3), of VRB_BLACK] 1(3) by (cases elm) (auto simp: VRB_REMOVE_COLOR_h_def at_place_root [symmetric])
  next
    case False
    then obtain f gs where fs: "fs = f # gs" by (cases fs) auto
    obtain res where res: "remove_color_step f gs elm = Some res"
      using 1(2) False unfolding fs by (subst (asm) VRB_REMOVE_COLOR.simps) (auto split: option.splits)
    obtain l where l: "rd e_left (parent_of fs) s = Some l"
        "remove_body_done m0 res
          (if l = elm_of elm then remove_body_L_h (parent_of fs) s else remove_body_R_h (parent_of fs) s)"
      using remove_step_refines [OF 1(3) [unfolded fs] res] fs by auto
    show ?thesis
    proof (cases res)
      case (Inl p)
      obtain fs1 e1 where p: "p = (fs1, e1)" by (cases p)
      with l Inl obtain s1 where s1: "(if l = elm_of elm then remove_body_L_h (parent_of fs) s
          else remove_body_R_h (parent_of fs) s) = Some (Inl (parent_of fs1, elm_of e1, s1))"
          "at_place m0 s1 fs1 e1"
        by (auto simp: remove_body_done_def)
      have "VRB_REMOVE_COLOR_loop_h (parent_of fs) (elm_of elm) s =
          VRB_REMOVE_COLOR_loop_h (parent_of fs1) (elm_of e1) s1"
        using red root False l(1) s1(1) by (subst VRB_REMOVE_COLOR_loop_h.simps) (auto simp del: rd_simps)
      moreover have "VRB_REMOVE_COLOR fs1 e1 = Some t'"
        using 1(2) False res Inl p unfolding fs by (subst (asm) VRB_REMOVE_COLOR.simps) simp
      ultimately show ?thesis
        using 1(1) [OF False _ Inl p [symmetric]] s1(2) res fs by (simp add: VRB_REMOVE_COLOR_h_def)
    next
      case (Inr t)
      with l obtain s1 where s1: "(if l = elm_of elm then remove_body_L_h (parent_of fs) s
          else remove_body_R_h (parent_of fs) s) = Some (Inr s1)" "vrb_heap m0 s1 t"
        by (auto simp: remove_body_done_def)
      have "VRB_REMOVE_COLOR_loop_h (parent_of fs) (elm_of elm) s = Some (rbh_root s1, s1)"
        using red root False l(1) s1(1) by (subst VRB_REMOVE_COLOR_loop_h.simps) (auto simp del: rd_simps)
      moreover have "t' = set_color VRB_BLACK t"
        using 1(2) False res Inr unfolding fs by (subst (asm) VRB_REMOVE_COLOR.simps) simp
      moreover have "rbh_root s1 = elm_of t" using s1(2) by (simp add: at_place_def)
      ultimately show ?thesis
        using wr_color_set [OF s1(2), of VRB_BLACK] s1(2) by (cases t) (auto simp: VRB_REMOVE_COLOR_h_def)
    qed
  qed
qed

lemma insert_refines_present:
  assumes "vrb_heap m0 s t" and "VRB_INSERT cmp elm t = Some (Some x, t)"
  shows "VRB_INSERT_h cmp elm s = Some (Some x, s)"
  using insert_descend_refines [OF assms(1), of 0 cmp] assms
  by (auto simp: VRB_INSERT_h_def VRB_INSERT_def at_place_def split: sum.splits)

end
