(* ===== verification/Vtree_Heap_Ops.thy ===== *)
theory Vtree_Heap_Ops
  imports Vtree_Heap_Correct
begin

text \<open>
  Removal, search, traversal and the removing loop on the linked nodes, each against its
  counterpart of theory \<open>Vtree\<close>, and the properties of the operations on pointers: on a memory
  that represents a red-black tree they end, read through no NULL or freed pointer, leave every
  other address alone, and represent the tree the functional operation computes.
\<close>

section \<open>Removal\<close>

text \<open>A node with at most one child leaves the tree; its own entry is not touched.\<close>

lemma unlink_refines:
  assumes at: "at_place m0 s fs (NODE l x c r)" and "l = NIL \<or> r = NIL"
    and "child = (if l = NIL then r else l)"
  shows "\<exists>s'. unlink_h (Some x) (elm_of child) (parent_of fs) s = Some s' \<and>
    entries s' x = entries s x \<and> at_place (m0(x := entries s x)) s' fs child"
proof (cases fs)
  case Nil
  with assms show ?thesis
    by (cases child) (auto simp: at_place_def unlink_h_def relink_def wr_defs)
next
  case (Cons f gs)
  with assms show ?thesis
    by (cases child; cases f) (auto simp: at_place_def unlink_h_def relink_def wr_defs)
qed

text \<open>Another node takes the place of a node with a left child.\<close>

lemma replace_refines:
  assumes "at_place m1 s fs (NODE l x c r)" and "l \<noteq> NIL"
    and "y \<notin> set (before fs @ inorder (NODE l x c r) @ after fs)" and "entries s y \<noteq> None"
  shows "\<exists>s'. replace_h (Some y) (Some x) s = Some s' \<and>
    entries s' x = entries s x \<and> at_place (m1(x := entries s x)) s' fs (NODE l y c r)"
proof (cases fs)
  case Nil
  with assms show ?thesis
    by (cases l; cases r) (auto simp: at_place_def replace_h_def relink_def wr_defs)
next
  case (Cons f gs)
  with assms show ?thesis
    by (cases l; cases r; cases f) (auto simp: at_place_def replace_h_def relink_def wr_defs)
qed

text \<open>The walks that only read.\<close>

lemma leftmost_h_refines:
  assumes "at_place m0 s fs t" and "t \<noteq> NIL"
  shows "leftmost_h (elm_of t) s = Some (elm_of (fst (leftmost t fs)))"
  using assms
proof (induction t arbitrary: fs)
  case (NODE l x c r)
  from at_place_entry [OF NODE(3)] NODE(1) [of "LeftOf x c r # fs"] NODE(3) show ?case
    by (cases l; subst leftmost_h.simps) (simp_all add: at_place_left)
qed simp

lemma rightmost_h_refines:
  assumes "at_place m0 s fs t" and "t \<noteq> NIL"
  shows "rightmost_h (elm_of t) s = Some (elm_of (fst (rightmost t fs)))"
  using assms
proof (induction t arbitrary: fs)
  case (NODE l x c r)
  from at_place_entry [OF NODE(3)] NODE(2) [of "RightOf l x c # fs"] NODE(3) show ?case
    by (cases r; subst rightmost_h.simps) (simp_all add: at_place_right)
qed simp

lemma augment_walk_refines:
  "at_place m0 s fs t \<Longrightarrow> t \<noteq> NIL \<Longrightarrow> augment_walk_h (elm_of t) s = Some s"
proof (induction fs arbitrary: t)
  case Nil
  then show ?case by (cases t; subst augment_walk_h.simps) (auto simp: at_place_def)
next
  case (Cons f fs)
  have "augment_walk_h (elm_of (up f t)) s = Some s"
    using Cons(1) [of "up f t"] Cons(2) by (cases f) (simp_all add: at_place_up)
  moreover have "rd e_parent (elm_of t) s = Some (elm_of (up f t))"
    using place_parent [OF Cons(2,3)] by (cases f) simp_all
  ultimately show ?case by (cases f; subst augment_walk_h.simps) (auto simp del: rd_simps)
qed

text \<open>Which addresses the frame condition is about.\<close>

lemma at_place_frame:
  assumes "at_place m s fs t" and "\<And>a. a \<notin> set (before fs @ inorder t @ after fs) \<Longrightarrow> m a = m' a"
  shows "at_place m' s fs t"
  using assms by (auto simp: at_place_def)

lemma parent_rename:
  "x \<notin> set (before (gs @ fs) @ after (gs @ fs)) \<Longrightarrow>
   (if parent_of (gs @ RightOf l x c # fs) = Some x then Some y else parent_of (gs @ RightOf l x c # fs))
     = parent_of (gs @ RightOf l y c # fs)"
  by (cases gs; cases "hd gs") (auto simp: before_append after_append)

lemma take_successor:
  assumes at: "at_place m0 s fs (NODE l x c r)" and "l \<noteq> NIL"
    and r: "plug gs (NODE NIL y d er) = r"
  shows "\<exists>s1 s2. unlink_h (Some y) (elm_of er) (parent_of (gs @ RightOf l x c # fs)) s = Some s1 \<and>
    rd e_parent (Some y) s1 = Some (parent_of (gs @ RightOf l x c # fs)) \<and>
    replace_h (Some y) (Some x) s1 = Some s2 \<and>
    at_place (m0(x := entries s2 x)) s2 (gs @ RightOf l y c # fs) er"
proof -
  let ?hs = "gs @ RightOf l x c # fs"
  have y: "at_place m0 s ?hs (NODE NIL y d er)"
    using at r by (simp add: at_place_plug at_place_right)
  obtain s1 where s1: "unlink_h (Some y) (elm_of er) (parent_of ?hs) s = Some s1"
      "entries s1 y = entries s y" "at_place (m0(y := entries s y)) s1 ?hs er"
    using unlink_refines [OF y, of er] by auto
  have fs1: "at_place (m0(y := entries s y)) s1 fs (NODE l x c (plug gs er))"
    using s1(3) by (simp add: at_place_plug at_place_right)
  have "y \<notin> set (before fs @ inorder (NODE l x c (plug gs er)) @ after fs)"
    using at r [symmetric] by (auto simp: at_place_def)
  then obtain s2 where s2: "replace_h (Some y) (Some x) s1 = Some s2" "entries s2 x = entries s1 x"
      "at_place (m0(y := entries s y, x := entries s1 x)) s2 fs (NODE l y c (plug gs er))"
    using replace_refines [OF fs1 \<open>l \<noteq> NIL\<close>, of y] at_place_entry [OF y] s1(2) by auto
  have "at_place (m0(x := entries s2 x)) s2 (gs @ RightOf l y c # fs) er"
    using at_place_frame [OF s2(3), of "m0(x := entries s2 x)"] s2(2)
    by (auto simp: at_place_plug at_place_right)
  with s1 s2 at_place_entry [OF y] show ?thesis by auto
qed

text \<open>\<open>VRB_REMOVE\<close>. The frame condition leaves open what the removed node's entry holds.\<close>

lemma remove_color_frame:
  assumes "(if c = VRB_BLACK then VRB_REMOVE_COLOR fs t else Some (plug fs t)) = Some t'" and "at_place m s fs t"
  shows "\<exists>s'. (if c = VRB_BLACK then VRB_REMOVE_COLOR_h (parent_of fs) (elm_of t) s else Some s) = Some s' \<and>
    vrb_heap m s' t'"
  using remove_color_refines [of fs t t' m s] assms by (auto simp: at_place_root [symmetric] split: if_splits)

lemma remove_refines_one_child:
  assumes at: "at_place m0 s fs (NODE l x c r)" and one: "l = NIL \<or> r = NIL"
    and res: "(if c = VRB_BLACK then VRB_REMOVE_COLOR fs (if l = NIL then r else l)
      else Some (plug fs (if l = NIL then r else l))) = Some t'"
  shows "\<exists>s' e. VRB_REMOVE_h (Some x) s = Some (Some x, s') \<and> vrb_heap (m0(x := e)) s' t'"
proof -
  define child where "child = (if l = NIL then r else l)"
  obtain s1 where s1: "unlink_h (Some x) (elm_of child) (parent_of fs) s = Some s1"
      "at_place (m0(x := entries s x)) s1 fs child"
    using unlink_refines [OF at one child_def] by blast
  obtain s2 where s2: "(if c = VRB_BLACK then VRB_REMOVE_COLOR_h (parent_of fs) (elm_of child) s1 else Some s1) = Some s2"
      "vrb_heap (m0(x := entries s x)) s2 t'"
    using remove_color_frame [OF res [folded child_def] s1(2)] by blast
  have "elm_of child = (if elm_of l = None then elm_of r else elm_of l)" by (simp add: child_def)
  moreover have "elm_of l = None \<or> elm_of r = None" using one by auto
  ultimately have "VRB_REMOVE_h (Some x) s = Some (Some x, s2)"
    using s1(1) s2(1) at_place_entry [OF at] by (auto simp: VRB_REMOVE_h_def Let_def)
  with s2(2) show ?thesis by blast
qed

lemma leftmost_elm: "fst (leftmost t fs) = fst (leftmost t gs)"
  by (induction t fs arbitrary: gs rule: leftmost.induct) simp_all

lemma rightmost_elm: "fst (rightmost t fs) = fst (rightmost t gs)"
  by (induction t fs arbitrary: gs rule: rightmost.induct) simp_all

lemma remove_refines_two_children:
  assumes at: "at_place m0 s fs (NODE l x c r)" and two: "l \<noteq> NIL" "r \<noteq> NIL"
    and r: "leftmost r [] = (NODE NIL y d er, gs)" "plug gs (NODE NIL y d er) = r"
    and res: "(if d = VRB_BLACK then VRB_REMOVE_COLOR (gs @ RightOf l y c # fs) er
      else Some (plug (gs @ RightOf l y c # fs) er)) = Some t'"
  shows "\<exists>s' e. VRB_REMOVE_h (Some x) s = Some (Some x, s') \<and> vrb_heap (m0(x := e)) s' t'"
proof -
  let ?hs = "gs @ RightOf l x c # fs"
  obtain s1 s2 where s: "unlink_h (Some y) (elm_of er) (parent_of ?hs) s = Some s1"
      "rd e_parent (Some y) s1 = Some (parent_of ?hs)" "replace_h (Some y) (Some x) s1 = Some s2"
      "at_place (m0(x := entries s2 x)) s2 (gs @ RightOf l y c # fs) er"
    using take_successor [OF at two(1) r(2)] by blast
  have y: "at_place m0 s ?hs (NODE NIL y d er)"
    using at r(2) by (simp add: at_place_plug at_place_right)
  have lm: "leftmost_h (elm_of r) s = Some (Some y)"
    using leftmost_h_refines [of m0 s "RightOf l x c # fs" r] leftmost_elm [of r "RightOf l x c # fs" "[]"]
      at r(1) two(2) by (simp add: at_place_right)
  have par: "(if parent_of ?hs = Some x then Some y else parent_of ?hs) = parent_of (gs @ RightOf l y c # fs)"
    using y by (intro parent_rename) (auto simp: at_place_def before_append after_append)
  obtain s3 where s3: "(if d = VRB_BLACK then VRB_REMOVE_COLOR_h (parent_of (gs @ RightOf l y c # fs)) (elm_of er) s2 else Some s2) = Some s3"
      "vrb_heap (m0(x := entries s2 x)) s3 t'"
    using remove_color_frame [OF res s(4)] by blast
  obtain f hs where hs: "gs @ RightOf l y c # fs = f # hs" by (cases gs) auto
  have "augment_walk_h (elm_of (up f er)) s2 = Some s2"
    using augment_walk_refines [of _ s2 hs "up f er"] s(4) hs
    by (cases f) (auto simp: at_place_left at_place_right)
  moreover have "elm_of (up f er) = parent_of (gs @ RightOf l y c # fs)" "parent_of (gs @ RightOf l y c # fs) \<noteq> None"
    using hs by (cases f; simp)+
  moreover have "rd e_left (Some x) s = Some (elm_of l)" "rd e_right (Some x) s = Some (elm_of r)"
    "rd e_right (Some y) s = Some (elm_of er)" "rd e_parent (Some y) s = Some (parent_of ?hs)"
    "rd e_color (Some y) s = Some d"
    using at_place_entry [OF at] at_place_entry [OF y] by simp_all
  ultimately have "VRB_REMOVE_h (Some x) s = Some (Some x, s3)"
    using s(1-3) s3(1) lm par two
    by (simp add: VRB_REMOVE_h_def Let_def del: rd_simps not_None_eq)
  with s3(2) show ?thesis by blast
qed

lemma locate_elm: "locate x t fs = Some (u, gs) \<Longrightarrow> elm_of u = Some x"
  by (induction x t fs rule: locate.induct) (auto split: if_splits option.splits)

lemma remove_refines:
  assumes "vrb_heap m0 s t" and "VRB_REMOVE x t = Some t'"
  shows "\<exists>s' e. VRB_REMOVE_h (Some x) s = Some (Some x, s') \<and> vrb_heap (m0(x := e)) s' t'"
proof -
  obtain u fs where loc: "locate x t [] = Some (u, fs)"
    using assms(2) by (auto simp: VRB_REMOVE_def split: option.splits)
  obtain l c r where u: "u = NODE l x c r" and t: "plug fs u = t"
    using locate_Some [OF loc] locate_elm [OF loc] by auto
  have at: "at_place m0 s fs (NODE l x c r)"
    using assms(1) u t by (simp add: at_place_root [of m0 s fs])
  show ?thesis
  proof (cases "l = NIL \<or> r = NIL")
    case True
    then have "(if c = VRB_BLACK then VRB_REMOVE_COLOR fs (if l = NIL then r else l)
        else Some (plug fs (if l = NIL then r else l))) = Some t'"
      using assms(2) loc u by (cases "l = NIL"; cases "r = NIL") (auto simp: VRB_REMOVE_def Let_def)
    then show ?thesis by (rule remove_refines_one_child [OF at True])
  next
    case False
    then obtain y d er gs where lm: "leftmost r [] = (NODE NIL y d er, gs)" "plug gs (NODE NIL y d er) = r"
      using leftmost_spec [of r "[]"] by auto
    with False show ?thesis
      using remove_refines_two_children [OF at _ _ lm, of t'] assms(2) loc u by (auto simp: VRB_REMOVE_def)
  qed
qed

section \<open>Search and traversal\<close>

lemma find_refines:
  assumes "at_place m0 s fs t"
  shows "find_from_h cmp (elm_of t) s = Some (VRB_FIND cmp t)"
  using assms
proof (induction t arbitrary: fs)
  case NIL
  then show ?case by (simp add: find_from_h.simps)
next
  case (NODE l x c r)
  have "find_from_h cmp (elm_of l) s = Some (VRB_FIND cmp l)"
    "find_from_h cmp (elm_of r) s = Some (VRB_FIND cmp r)"
    using NODE by (metis at_place_left, metis at_place_right)
  then show ?case
    using at_place_entry [OF NODE(3)] by (subst find_from_h.simps) (simp add: Let_def)
qed

lemma nfind_refines:
  assumes "at_place m0 s fs t"
  shows "nfind_from_h cmp (elm_of t) res s = Some (VRB_NFIND_loop cmp t res)"
  using assms
proof (induction t arbitrary: fs res)
  case NIL
  then show ?case by (simp add: nfind_from_h.simps)
next
  case (NODE l x c r)
  have "nfind_from_h cmp (elm_of l) res' s = Some (VRB_NFIND_loop cmp l res')"
    "nfind_from_h cmp (elm_of r) res' s = Some (VRB_NFIND_loop cmp r res')" for res'
    using NODE by (metis at_place_left, metis at_place_right)
  then show ?case
    using at_place_entry [OF NODE(3)] by (subst nfind_from_h.simps) (simp add: Let_def)
qed

lemma minmax_refines:
  assumes "at_place m0 s fs t"
  shows "minmax_from_h val (elm_of t) res s = Some (VRB_MINMAX_loop val t res)"
  using assms
proof (induction t arbitrary: fs res)
  case NIL
  then show ?case by (simp add: minmax_from_h.simps)
next
  case (NODE l x c r)
  have "minmax_from_h val (elm_of l) res' s = Some (VRB_MINMAX_loop val l res')"
    "minmax_from_h val (elm_of r) res' s = Some (VRB_MINMAX_loop val r res')" for res'
    using NODE by (metis at_place_left, metis at_place_right)
  then show ?case
    using at_place_entry [OF NODE(3)] by (subst minmax_from_h.simps) simp
qed

lemma heap_root: "vrb_heap m0 s t \<Longrightarrow> rbh_root s = elm_of t"
  by (simp add: at_place_def)

text \<open>Two subtrees of one node are different places.\<close>

lemma siblings_differ:
  "at_place m0 s fs (NODE l x c r) \<Longrightarrow> l \<noteq> NIL \<or> r \<noteq> NIL \<Longrightarrow> elm_of l \<noteq> elm_of r"
  by (cases l; cases r) (auto simp: at_place_def)

lemma climb_right_refines:
  assumes "at_place m0 s fs t" and "t \<noteq> NIL"
  shows "climb_h e_right (elm_of t) s = Some (climb_right fs)"
  using assms
proof (induction fs arbitrary: t)
  case Nil
  then show ?case using at_place_entry by (cases t; subst climb_h.simps) fastforce+
next
  case (Cons f fs)
  note par = place_parent [OF Cons(2,3)]
  show ?case
  proof (cases f)
    case (LeftOf x c r)
    then have at: "at_place m0 s fs (NODE t x c r)" using Cons(2) by (simp add: at_place_left)
    with siblings_differ [OF at] at_place_entry [OF at] par LeftOf Cons(3) show ?thesis
      by (subst climb_h.simps) (simp del: rd_simps add: rd_simps(2) [of _ x])
  next
    case (RightOf l x c)
    then have at: "at_place m0 s fs (NODE l x c t)" using Cons(2) by (simp add: at_place_right)
    with Cons(1) [of "NODE l x c t"] at_place_entry [OF at] par RightOf show ?thesis
      by (subst climb_h.simps) (simp del: rd_simps add: rd_simps(2) [of _ x])
  qed
qed

lemma climb_left_refines:
  assumes "at_place m0 s fs t" and "t \<noteq> NIL"
  shows "climb_h e_left (elm_of t) s = Some (climb_left fs)"
  using assms
proof (induction fs arbitrary: t)
  case Nil
  then show ?case using at_place_entry by (cases t; subst climb_h.simps) fastforce+
next
  case (Cons f fs)
  note par = place_parent [OF Cons(2,3)]
  show ?case
  proof (cases f)
    case (RightOf l x c)
    then have at: "at_place m0 s fs (NODE l x c t)" using Cons(2) by (simp add: at_place_right)
    with siblings_differ [OF at] at_place_entry [OF at] par RightOf Cons(3) show ?thesis
      by (subst climb_h.simps) (simp del: rd_simps add: rd_simps(2) [of _ x])
  next
    case (LeftOf x c r)
    then have at: "at_place m0 s fs (NODE t x c r)" using Cons(2) by (simp add: at_place_left)
    with Cons(1) [of "NODE t x c r"] at_place_entry [OF at] par LeftOf show ?thesis
      by (subst climb_h.simps) (simp del: rd_simps add: rd_simps(2) [of _ x])
  qed
qed

text \<open>A pointer to a node of the tree marks its place.\<close>

lemma node_place:
  assumes "vrb_heap m0 s t" and "x \<in> set (inorder t)"
  obtains l c r fs where "locate x t [] = Some (NODE l x c r, fs)" "at_place m0 s fs (NODE l x c r)"
proof -
  obtain u fs where loc: "locate x t [] = Some (u, fs)"
    using assms(2) locate_None [of x t "[]"] by (cases "locate x t []") auto
  obtain l c r where "u = NODE l x c r" "plug fs u = t"
    using locate_Some [OF loc] locate_elm [OF loc] by auto
  with that loc assms(1) show thesis by (simp add: at_place_root [of m0 s fs])
qed

lemma next_refines:
  assumes "vrb_heap m0 s t" and "x \<in> set (inorder t)"
  shows "VRB_NEXT_h (Some x) s = Some (VRB_NEXT t x)"
proof -
  obtain l c r fs where loc: "locate x t [] = Some (NODE l x c r, fs)"
    and at: "at_place m0 s fs (NODE l x c r)" using node_place [OF assms] .
  note e = at_place_entry [OF at]
  show ?thesis
  proof (cases "r = NIL")
    case False
    then show ?thesis
      using leftmost_h_refines [of m0 s "RightOf l x c # fs" r] at e loc leftmost_elm [of r "RightOf l x c # fs" "[]"]
      by (simp add: VRB_NEXT_h_def VRB_NEXT_def at_place_right)
  next
    case True
    have climb: "climb_h e_right (Some x) s = Some (climb_right fs)"
      using climb_right_refines [OF at] by simp
    show ?thesis
    proof (cases fs)
      case Nil
      with True e loc climb show ?thesis by (simp add: VRB_NEXT_h_def VRB_NEXT_def)
    next
      case (Cons f gs)
      with True e loc climb at show ?thesis
        by (cases f) (auto simp: VRB_NEXT_h_def VRB_NEXT_def at_place_def)
    qed
  qed
qed

lemma prev_refines:
  assumes "vrb_heap m0 s t" and "x \<in> set (inorder t)"
  shows "VRB_PREV_h (Some x) s = Some (VRB_PREV t x)"
proof -
  obtain l c r fs where loc: "locate x t [] = Some (NODE l x c r, fs)"
    and at: "at_place m0 s fs (NODE l x c r)" using node_place [OF assms] .
  note e = at_place_entry [OF at]
  show ?thesis
  proof (cases "l = NIL")
    case False
    then show ?thesis
      using rightmost_h_refines [of m0 s "LeftOf x c r # fs" l] at e loc rightmost_elm [of l "LeftOf x c r # fs" "[]"]
      by (simp add: VRB_PREV_h_def VRB_PREV_def at_place_left)
  next
    case True
    have climb: "climb_h e_left (Some x) s = Some (climb_left fs)"
      using climb_left_refines [OF at] by simp
    show ?thesis
    proof (cases fs)
      case Nil
      with True e loc climb show ?thesis by (simp add: VRB_PREV_h_def VRB_PREV_def)
    next
      case (Cons f gs)
      with True e loc climb at show ?thesis
        by (cases f) (auto simp: VRB_PREV_h_def VRB_PREV_def at_place_def)
    qed
  qed
qed

section \<open>The removing loop\<close>

lemma free_h_heap:
  assumes "vrb_heap (m0(x := e)) s t" and "x \<notin> set (inorder t)"
  shows "vrb_heap (m0(x := None)) (free_h x s) t"
proof -
  have "tree_at ((entries s)(x := None)) p t = tree_at (entries s) p t" if "x \<notin> set (inorder t)" for p t
    using that by (induction t arbitrary: p) auto
  with assms show ?thesis by (auto simp: at_place_def free_h_def)
qed

abbreviation freed_in :: "addr set \<Rightarrow> (addr \<rightharpoonup> vrb_entry) \<Rightarrow> addr \<rightharpoonup> vrb_entry" where
  "freed_in A m \<equiv> (\<lambda>a. if a \<in> A then None else m a)"

lemma remove_safe_refines:
  assumes "vrb_heap m0 s t" and "rb_tree t" and "inorder t = xs @ ys"
  shows "\<exists>s' t'. remove_safe_from_h P (first_of ys) s = Some s' \<and>
    remove_safe_from P t (first_of ys) freed = Some (t', freed @ filter P ys) \<and>
    vrb_heap (freed_in (set (filter P ys)) m0) s' t'"
  using assms
proof (induction ys arbitrary: m0 s t xs freed)
  case Nil
  then show ?case by (simp add: remove_safe_from_h.simps remove_safe_from.simps)
next
  case (Cons y ys)
  have dist: "distinct (inorder t)" using Cons(2) by (simp add: at_place_def)
  have y: "y \<in> set (inorder t)" using Cons(4) by simp
  have nx: "VRB_NEXT t y = first_of ys" "VRB_NEXT_h (Some y) s = Some (first_of ys)"
    using VRB_NEXT_correct [OF dist Cons(4)] next_refines [OF Cons(2) y] by simp_all
  show ?case
  proof (cases "P y")
    case True
    obtain t1 where t1: "VRB_REMOVE y t = Some t1" "rb_tree t1" "inorder t1 = xs @ ys"
      using VRB_REMOVE_correct [OF Cons(3) dist y] Cons(4) dist by (auto simp: remove1_append)
    obtain s1 e where s1: "VRB_REMOVE_h (Some y) s = Some (Some y, s1)" "vrb_heap (m0(y := e)) s1 t1"
      using remove_refines [OF Cons(2) t1(1)] by auto
    have "y \<notin> set (inorder t1)" using dist Cons(4) t1(3) by auto
    from Cons(1) [OF free_h_heap [OF s1(2) this] t1(2,3), of "freed @ [y]"]
    obtain s' t' where "remove_safe_from_h P (first_of ys) (free_h y s1) = Some s'"
        "remove_safe_from P t1 (first_of ys) (freed @ [y]) = Some (t', freed @ filter P (y # ys))"
        "vrb_heap (freed_in (set (filter P ys)) (m0(y := None))) s' t'"
      using True by auto
    moreover have "freed_in (set (filter P ys)) (m0(y := None)) = freed_in (set (filter P (y # ys))) m0"
      using True by auto
    ultimately show ?thesis
      using True nx t1(1) s1(1) by (subst remove_safe_from_h.simps, subst remove_safe_from.simps) simp
  next
    case False
    from Cons(1) [OF Cons(2,3), of "xs @ [y]" freed] Cons(4) False nx show ?thesis
      by (subst remove_safe_from_h.simps, subst remove_safe_from.simps) simp
  qed
qed

section \<open>Whole operations\<close>

lemma insert_heap_correct:
  assumes "vrb_heap m0 s t" and "index_ok key t" and "cmp_ok key (key elm) cmp (set (inorder t))"
    and "elm \<notin> set (inorder t)" and "entries s elm \<noteq> None"
  shows "if key elm \<in> key ` set (inorder t)
    then (\<exists>x \<in> set (inorder t). key x = key elm \<and> VRB_INSERT_h cmp elm s = Some (Some x, s))
    else (\<exists>s' t'. VRB_INSERT_h cmp elm s = Some (None, s') \<and> VRB_INSERT cmp elm t = Some (None, t') \<and>
       vrb_heap m0 s' t' \<and> index_ok key t' \<and> inorder t' = ins_sorted key elm (inorder t))"
proof (cases "key elm \<in> key ` set (inorder t)")
  case True
  then obtain x where "x \<in> set (inorder t)" "key x = key elm" "VRB_INSERT cmp elm t = Some (Some x, t)"
    using VRB_INSERT_present [of key t elm cmp] assms(2,3) by (force simp: index_ok_def)
  with True insert_refines_present [OF assms(1) this(3)] show ?thesis by auto
next
  case False
  then obtain t' where "VRB_INSERT cmp elm t = Some (None, t')" "index_ok key t'"
      "inorder t' = ins_sorted key elm (inorder t)"
    using VRB_INSERT_new [of t key elm cmp] sorted_ins_sorted [of key "inorder t" elm] assms(2,3)
    by (auto simp: index_ok_def)
  with False insert_refines [OF assms(1) this(1) assms(4,5)] show ?thesis by auto
qed

lemma remove_heap_correct:
  assumes "vrb_heap m0 s t" and "rb_tree t" and "x \<in> set (inorder t)"
  shows "\<exists>s' t'. VRB_REMOVE_h (Some x) s = Some (Some x, s') \<and> VRB_REMOVE x t = Some t' \<and>
    vrb_heap (m0(x := entries s' x)) s' t' \<and> rb_tree t' \<and> inorder t' = remove1 x (inorder t)"
proof -
  have dist: "distinct (inorder t)" using assms(1) by (simp add: at_place_def)
  obtain t' where t': "VRB_REMOVE x t = Some t'" "rb_tree t'" "inorder t' = remove1 x (inorder t)"
    using VRB_REMOVE_correct [OF assms(2) dist assms(3)] by auto
  obtain s' e where s': "VRB_REMOVE_h (Some x) s = Some (Some x, s')" "vrb_heap (m0(x := e)) s' t'"
    using remove_refines [OF assms(1) t'(1)] by auto
  have "x \<notin> set (inorder t')" using t'(3) dist by simp
  with s'(2) have "vrb_heap (m0(x := entries s' x)) s' t'" by (auto simp: at_place_def)
  with s'(1) t' show ?thesis by blast
qed

lemma find_heap_correct:
  assumes "vrb_heap m0 s t" and "sorted_keys key (inorder t)" and "cmp_ok key k cmp (set (inorder t))"
  shows "VRB_FIND_h cmp s = Some (find (\<lambda>x. key x = k) (inorder t))"
    and "VRB_NFIND_h cmp s = Some (find (\<lambda>x. k \<le> key x) (inorder t))"
  using find_refines [OF assms(1)] nfind_refines [OF assms(1)] heap_root [OF assms(1)]
    VRB_FIND_correct [OF assms(2,3)] VRB_NFIND_loop_correct [OF assms(2,3), of None]
  by (auto simp: VRB_FIND_h_def VRB_NFIND_h_def split: option.splits)

lemma ends_heap_correct:
  assumes "vrb_heap m0 s t"
  shows "VRB_MINMAX_h (- 1) s = Some (first_of (inorder t))"
    and "VRB_MINMAX_h 1 s = Some (first_of (rev (inorder t)))"
  using minmax_refines [OF assms, of _ None] heap_root [OF assms] VRB_MIN_first [of t] VRB_MAX_last [of t]
  by (simp_all add: VRB_MINMAX_h_def VRB_MIN_def VRB_MAX_def)

lemma step_heap_correct:
  assumes "vrb_heap m0 s t" and "inorder t = xs @ x # ys"
  shows "VRB_NEXT_h (Some x) s = Some (first_of ys)" and "VRB_PREV_h (Some x) s = Some (first_of (rev xs))"
proof -
  have "distinct (inorder t)" using assms(1) by (simp add: at_place_def)
  then show "VRB_NEXT_h (Some x) s = Some (first_of ys)" "VRB_PREV_h (Some x) s = Some (first_of (rev xs))"
    using next_refines [OF assms(1), of x] prev_refines [OF assms(1), of x] VRB_NEXT_correct VRB_PREV_correct
      assms(2) by fastforce+
qed

section \<open>Properties\<close>

text \<open>A memory with six linked nodes, and an allocated address \<open>4\<close> that is in no tree.\<close>

definition sample_heap :: vrb_mem where
  "sample_heap = \<lparr>rbh_root = Some 2, entries = map_of
     [(1, \<lparr>e_left = None, e_right = None, e_parent = Some 2, e_color = VRB_BLACK\<rparr>),
      (2, \<lparr>e_left = Some 1, e_right = Some 5, e_parent = None, e_color = VRB_BLACK\<rparr>),
      (3, \<lparr>e_left = None, e_right = None, e_parent = Some 5, e_color = VRB_BLACK\<rparr>),
      (4, \<lparr>e_left = Some 9, e_right = Some 9, e_parent = Some 9, e_color = VRB_RED\<rparr>),
      (5, \<lparr>e_left = Some 3, e_right = Some 7, e_parent = Some 2, e_color = VRB_RED\<rparr>),
      (6, \<lparr>e_left = None, e_right = None, e_parent = Some 7, e_color = VRB_RED\<rparr>),
      (7, \<lparr>e_left = Some 6, e_right = None, e_parent = Some 5, e_color = VRB_BLACK\<rparr>)]\<rparr>"

definition sample_addrs :: "addr vrb" where
  "sample_addrs = NODE (NODE NIL 1 VRB_BLACK NIL) 2 VRB_BLACK
     (NODE (NODE NIL 3 VRB_BLACK NIL) 5 VRB_RED (NODE (NODE NIL 6 VRB_RED NIL) 7 VRB_BLACK NIL))"

lemma sample_heap_ok:
  "vrb_heap (entries sample_heap) sample_heap sample_addrs" "index_ok int sample_addrs"
  by (simp_all add: at_place_def sample_heap_def sample_addrs_def index_ok_def rb_tree_def)

text \<open>
  Claim C12. \<open>VRB_INSERT\<close> on the linked nodes: the assignments of the code, with an allocated
  element that is not in the tree, end without a read through NULL. They return the node with an
  equal key and change nothing, or leave a memory that represents the red-black tree with the
  element put in front of the first larger key, which is the tree \<open>VRB_INSERT\<close> of the model
  computes. No address outside the tree changes.
\<close>

theorem vrb_insert_heap:
  assumes "vrb_heap m0 s t" and "index_ok key t" and "cmp_ok key (key elm) cmp (set (inorder t))"
    and "elm \<notin> set (inorder t)" and "entries s elm \<noteq> None"
  shows "if key elm \<in> key ` set (inorder t)
    then (\<exists>x \<in> set (inorder t). key x = key elm \<and> VRB_INSERT_h cmp elm s = Some (Some x, s))
    else (\<exists>s' t'. VRB_INSERT_h cmp elm s = Some (None, s') \<and> VRB_INSERT cmp elm t = Some (None, t') \<and>
       vrb_heap m0 s' t' \<and> index_ok key t' \<and> inorder t' = ins_sorted key elm (inorder t))"
  using assms by (rule insert_heap_correct)

theorem vrb_insert_heap_witness:
  "\<exists>s' t'. VRB_INSERT_h (\<lambda>a. 4 - int a) 4 sample_heap = Some (None, s') \<and>
    vrb_heap (entries sample_heap) s' t' \<and> rb_tree t' \<and> inorder t' = [1, 2, 3, 4, 5, 6, 7]"
proof -
  have "cmp_ok int (int 4) (\<lambda>a. 4 - int a) (set (inorder sample_addrs))"
    by (auto simp: cmp_ok_def)
  with vrb_insert_heap [OF sample_heap_ok, of 4 "\<lambda>a. 4 - int a"] show ?thesis
    by (auto simp: sample_addrs_def sample_heap_def ins_sorted_def index_ok_def)
qed

text \<open>
  Claim C11. \<open>VRB_REMOVE\<close> on the linked nodes: it ends, reads through no NULL pointer, returns the
  node it was given, and leaves a memory that represents the tree the model's \<open>VRB_REMOVE\<close>
  computes, the red-black tree of the other nodes in the old order. Outside the tree at most the
  removed node's own entry changes.
\<close>

theorem vrb_remove_heap:
  assumes "vrb_heap m0 s t" and "rb_tree t" and "x \<in> set (inorder t)"
  shows "\<exists>s' t'. VRB_REMOVE_h (Some x) s = Some (Some x, s') \<and> VRB_REMOVE x t = Some t' \<and>
    vrb_heap (m0(x := entries s' x)) s' t' \<and> rb_tree t' \<and> inorder t' = remove1 x (inorder t)"
  using assms by (rule remove_heap_correct)

theorem vrb_remove_heap_witness:
  "\<exists>s' t'. VRB_REMOVE_h (Some 2) sample_heap = Some (Some 2, s') \<and>
    vrb_heap ((entries sample_heap)(2 := entries s' 2)) s' t' \<and> rb_tree t' \<and> inorder t' = [1, 3, 5, 6, 7]"
  using vrb_remove_heap [OF sample_heap_ok(1), of 2] sample_heap_ok(2)
  by (auto simp: sample_addrs_def index_ok_def)

text \<open>
  Claim C35. The loops of the vmods that drop nodes, \<open>VRB_FOREACH_SAFE\<close> with a body that removes
  and frees the nodes satisfying \<open>P\<close>: every read and write is through an address that is still
  allocated, the freed addresses are exactly those nodes, and the memory represents the tree of
  the others in the same order.
\<close>

theorem vrb_sweep_heap:
  assumes "vrb_heap m0 s t" and "rb_tree t"
  shows "\<exists>s' t'. VRB_FOREACH_SAFE_remove_h P s = Some s' \<and>
    vrb_heap (\<lambda>a. if a \<in> set (inorder t) \<and> P a then None else m0 a) s' t' \<and> rb_tree t' \<and>
    inorder t' = filter (\<lambda>a. \<not> P a) (inorder t) \<and>
    (\<forall>a \<in> set (inorder t). entries s' a = None \<longleftrightarrow> P a)"
proof -
  have dist: "distinct (inorder t)" using assms(1) by (simp add: at_place_def)
  obtain s' t' where s': "remove_safe_from_h P (first_of (inorder t)) s = Some s'"
      "remove_safe_from P t (first_of (inorder t)) [] = Some (t', filter P (inorder t))"
      "vrb_heap (freed_in (set (filter P (inorder t))) m0) s' t'"
    using remove_safe_refines [OF assms, of "[]" "inorder t" P "[]"] by auto
  have t': "rb_tree t'" "inorder t' = filter (\<lambda>a. \<not> P a) (inorder t)"
    using remove_safe_from_correct [OF assms(2) dist, of "[]" "inorder t" P "[]"] s'(2) by auto
  have "entries s' a \<noteq> None" if "a \<in> set (inorder t)" "\<not> P a" for a
  proof -
    have "a \<in> set (inorder t')" using that t'(2) by simp
    from node_place [OF s'(3) this] show ?thesis using at_place_entry by fastforce
  qed
  moreover have "entries s' a = None" if "a \<in> set (inorder t)" "P a" for a
    using s'(3) t'(2) that by (auto simp: at_place_def)
  ultimately have "\<forall>a \<in> set (inorder t). entries s' a = None \<longleftrightarrow> P a" by blast
  moreover have "vrb_heap (\<lambda>a. if a \<in> set (inorder t) \<and> P a then None else m0 a) s' t'"
    using s'(3) by (simp add: conj_commute)
  moreover have "VRB_FOREACH_SAFE_remove_h P s = Some s'"
    using ends_heap_correct(1) [OF assms(1)] s'(1) by (simp add: VRB_FOREACH_SAFE_remove_h_def)
  ultimately show ?thesis using t' by blast
qed

theorem vrb_sweep_heap_witness:
  "\<exists>s' t'. VRB_FOREACH_SAFE_remove_h even sample_heap = Some s' \<and> rb_tree t' \<and>
    vrb_heap (\<lambda>a. if a \<in> {1, 2, 3, 5, 6, 7} \<and> even a then None else entries sample_heap a) s' t' \<and>
    inorder t' = [1, 3, 5, 7] \<and> entries s' 2 = None \<and> entries s' 6 = None"
  using vrb_sweep_heap [OF sample_heap_ok(1), of even] sample_heap_ok(2)
  by (auto simp: sample_addrs_def index_ok_def)

text \<open>
  Claim C36. The operations that only read, on the linked nodes: \<open>VRB_FIND\<close>, \<open>VRB_NFIND\<close>,
  \<open>VRB_MINMAX\<close>, \<open>VRB_NEXT\<close> and \<open>VRB_PREV\<close> end without reading through NULL and return the node
  with the key, the first node whose key is not smaller, the two ends of the in-order sequence,
  and the neighbours of a node in it (NULL where there is none).
\<close>

theorem vrb_search_heap:
  assumes "vrb_heap m0 s t" and "sorted_keys key (inorder t)" and "cmp_ok key k cmp (set (inorder t))"
  shows "VRB_FIND_h cmp s = Some (find (\<lambda>x. key x = k) (inorder t)) \<and>
    VRB_NFIND_h cmp s = Some (find (\<lambda>x. k \<le> key x) (inorder t)) \<and>
    VRB_MINMAX_h (- 1) s = Some (first_of (inorder t)) \<and>
    VRB_MINMAX_h 1 s = Some (first_of (rev (inorder t))) \<and>
    (\<forall>xs x ys. inorder t = xs @ x # ys \<longrightarrow>
       VRB_NEXT_h (Some x) s = Some (first_of ys) \<and> VRB_PREV_h (Some x) s = Some (first_of (rev xs)))"
  using find_heap_correct [OF assms] ends_heap_correct [OF assms(1)] step_heap_correct [OF assms(1)] by blast

theorem vrb_search_heap_witness:
  "VRB_FIND_h (\<lambda>a. 6 - int a) sample_heap = Some (Some 6) \<and>
   VRB_NFIND_h (\<lambda>a. 6 - int a) sample_heap = Some (Some 6) \<and> VRB_MINMAX_h (- 1) sample_heap = Some (Some 1)"
proof -
  have "cmp_ok int 6 (\<lambda>a. 6 - int a) (set (inorder sample_addrs))"
    by (auto simp: cmp_ok_def)
  with vrb_search_heap [OF sample_heap_ok(1), of int 6] sample_heap_ok(2) show ?thesis
    by (auto simp: sample_addrs_def index_ok_def)
qed

end
