(* ===== verification/Vtree_Client.thy ===== *)
theory Vtree_Client
  imports Vtree_Heap_Ops
begin

text \<open>
  Clients of the pointer-level red-black trees: every sequence of allocations, insertions,
  removals and frees that keeps the rules of the macros is safe.
\<close>

section \<open>Clients\<close>

text \<open>
  What a client of the macros can reach from \<open>VRB_INIT\<close>: it allocates nodes (at a free address,
  the key may differ from the one an earlier node there had), inserts an allocated node that
  is in no tree, removes a node of the tree, and frees nodes that are not in the tree. The list
  is the reference: the nodes of the tree in key order.
\<close>

inductive vrb_client :: "(addr \<Rightarrow> 'k::linorder) \<Rightarrow> vrb_mem \<Rightarrow> addr list \<Rightarrow> bool" where
  init: "vrb_client key VRB_INIT_h []"
| alloc: "vrb_client key s xs \<Longrightarrow> entries s a = None \<Longrightarrow> vrb_client (key(a := k)) (alloc_h a e s) xs"
| insert_: "vrb_client key s xs \<Longrightarrow> entries s a \<noteq> None \<Longrightarrow> a \<notin> set xs \<Longrightarrow>
    cmp_ok key (key a) cmp (set xs) \<Longrightarrow> VRB_INSERT_h cmp a s = Some (res, s') \<Longrightarrow>
    vrb_client key s' (if res = None then ins_sorted key a xs else xs)"
| remove_: "vrb_client key s xs \<Longrightarrow> a \<in> set xs \<Longrightarrow> VRB_REMOVE_h (Some a) s = Some (res, s') \<Longrightarrow>
    vrb_client key s' (remove1 a xs)"
| free: "vrb_client key s xs \<Longrightarrow> a \<notin> set xs \<Longrightarrow> vrb_client key (free_h a s) xs"

definition client_inv :: "(addr \<Rightarrow> 'k::linorder) \<Rightarrow> vrb_mem \<Rightarrow> addr list \<Rightarrow> bool" where
  "client_inv key s xs \<longleftrightarrow> (\<exists>t. vrb_heap (entries s) s t \<and> index_ok key t \<and> inorder t = xs)"

lemma heap_self: "vrb_heap m s t \<Longrightarrow> vrb_heap (entries s) s t"
  by (simp add: at_place_def)

lemma heap_upd:
  assumes "vrb_heap (entries s) s t" and "a \<notin> set (inorder t)"
  shows "vrb_heap ((entries s)(a \<mapsto> e)) (alloc_h a e s) t"
  using assms by (auto simp: at_place_def alloc_h_def)

lemma heap_nodes_allocated:
  "vrb_heap m s t \<Longrightarrow> a \<in> set (inorder t) \<Longrightarrow> entries s a \<noteq> None"
  using node_place at_place_entry by (metis option.simps(3))

lemma client_insert:
  assumes "client_inv key s xs" and "entries s a \<noteq> None" and "a \<notin> set xs" and "cmp_ok key (key a) cmp (set xs)"
  shows "\<exists>res s'. VRB_INSERT_h cmp a s = Some (res, s') \<and>
    client_inv key s' (if res = None then ins_sorted key a xs else xs)"
proof -
  obtain t where t: "vrb_heap (entries s) s t" "index_ok key t" "inorder t = xs"
    using assms(1) by (auto simp: client_inv_def)
  show ?thesis
  proof (cases "key a \<in> key ` set xs")
    case True
    obtain x where "VRB_INSERT_h cmp a s = Some (Some x, s)"
      using insert_heap_correct [OF t(1,2), of a cmp] assms t(3) True by auto
    with assms(1) show ?thesis by auto
  next
    case False
    obtain s' t' where "VRB_INSERT_h cmp a s = Some (None, s')" "vrb_heap (entries s) s' t'" "index_ok key t'"
        "inorder t' = ins_sorted key a xs"
      using insert_heap_correct [OF t(1,2), of a cmp] assms t(3) False by auto
    then show ?thesis using heap_self by (auto simp: client_inv_def)
  qed
qed

lemma client_remove:
  assumes "client_inv key s xs" and "a \<in> set xs"
  shows "\<exists>s'. VRB_REMOVE_h (Some a) s = Some (Some a, s') \<and> client_inv key s' (remove1 a xs)"
proof -
  obtain t where t: "vrb_heap (entries s) s t" "rb_tree t" "sorted_keys key xs" "inorder t = xs"
    using assms(1) by (auto simp: client_inv_def index_ok_def)
  obtain s' t' where s': "VRB_REMOVE_h (Some a) s = Some (Some a, s')" "rb_tree t'" "inorder t' = remove1 a xs"
      "vrb_heap ((entries s)(a := entries s' a)) s' t'"
    using remove_heap_correct [OF t(1,2), of a] assms(2) t(4) by auto
  moreover have "sorted_keys key (remove1 a xs)"
    using t(3) sorted_keys_distinct [OF t(3)]
    by (simp add: distinct_remove1_removeAll removeAll_filter_not_eq sorted_wrt_map sorted_wrt_filter)
  ultimately show ?thesis using heap_self [OF s'(4)] by (auto simp: client_inv_def index_ok_def)
qed

lemma client_reachable: "vrb_client key s xs \<Longrightarrow> client_inv key s xs"
proof (induction rule: vrb_client.induct)
  case (init key)
  have "vrb_heap (entries VRB_INIT_h) VRB_INIT_h NIL" "index_ok key NIL"
    by (simp_all add: at_place_def VRB_INIT_h_def index_ok_def rb_tree_def)
  then show ?case by (auto simp: client_inv_def)
next
  case (alloc key s xs a k e)
  then obtain t where t: "vrb_heap (entries s) s t" "index_ok key t" "inorder t = xs"
    by (auto simp: client_inv_def)
  then have a: "a \<notin> set (inorder t)" using alloc(2) heap_nodes_allocated by blast
  then have "index_ok (key(a := k)) t" using t(2) by (auto intro: index_ok_cong [of t key])
  with heap_self [OF heap_upd [OF t(1) a]] t(3) show ?case unfolding client_inv_def by blast
next
  case (insert_ key s xs a cmp res s')
  then show ?case using client_insert [of key s xs a cmp] by auto
next
  case (remove_ key s xs a res s')
  then show ?case using client_remove [of key s xs a] by auto
next
  case (free key s xs a)
  then obtain t where t: "vrb_heap (entries s) s t" "index_ok key t" "inorder t = xs"
    by (auto simp: client_inv_def)
  have "vrb_heap ((entries s)(a := entries s a)) s t" using t(1) by simp
  then have "vrb_heap ((entries s)(a := None)) (free_h a s) t"
    using free_h_heap free(2) t(3) by blast
  with t heap_self show ?case by (auto simp: client_inv_def)
qed

text \<open>
  Claim C10. In every memory a client can reach, the operations it may call next are safe: inserting
  an allocated node and removing a node of the tree end and read only through allocated
  pointers, and so does walking from a node to the next one, which is its neighbour in the key
  order. The walk from \<open>VRB_MIN\<close> therefore visits the reference list, and a lookup finds
  what the list holds.
\<close>

theorem vrb_client_safe:
  assumes "vrb_client key s xs"
  shows "(\<forall>a cmp. entries s a \<noteq> None \<longrightarrow> a \<notin> set xs \<longrightarrow> cmp_ok key (key a) cmp (set xs) \<longrightarrow>
       VRB_INSERT_h cmp a s \<noteq> None) \<and>
    (\<forall>a \<in> set xs. VRB_REMOVE_h (Some a) s \<noteq> None) \<and>
    (\<forall>cmp k. cmp_ok key k cmp (set xs) \<longrightarrow> VRB_FIND_h cmp s = Some (find (\<lambda>a. key a = k) xs)) \<and>
    VRB_MINMAX_h (- 1) s = Some (first_of xs) \<and>
    (\<forall>us a vs. xs = us @ a # vs \<longrightarrow> VRB_NEXT_h (Some a) s = Some (first_of vs)) \<and>
    sorted_keys key xs \<and> (\<forall>a \<in> set xs. entries s a \<noteq> None)"
proof -
  note inv = client_reachable [OF assms]
  obtain t where t: "vrb_heap (entries s) s t" "rb_tree t" "sorted_keys key xs" "inorder t = xs"
    using inv by (auto simp: client_inv_def index_ok_def)
  have "VRB_INSERT_h cmp a s \<noteq> None" if "entries s a \<noteq> None" "a \<notin> set xs" "cmp_ok key (key a) cmp (set xs)" for a cmp
    using client_insert [OF inv that] by auto
  moreover have "VRB_REMOVE_h (Some a) s \<noteq> None" if "a \<in> set xs" for a
    using client_remove [OF inv that] by auto
  moreover have "VRB_FIND_h cmp s = Some (find (\<lambda>a. key a = k) xs)" if "cmp_ok key k cmp (set xs)" for cmp k
    using find_heap_correct(1) [OF t(1), of key k cmp] t(3,4) that by simp
  moreover have "VRB_MINMAX_h (- 1) s = Some (first_of xs)"
    using ends_heap_correct(1) [OF t(1)] t(4) by simp
  moreover have "VRB_NEXT_h (Some a) s = Some (first_of vs)" if "xs = us @ a # vs" for us a vs
    using step_heap_correct(1) [OF t(1)] t(4) that by simp
  moreover have "entries s a \<noteq> None" if "a \<in> set xs" for a
    using heap_nodes_allocated [OF t(1)] t(4) that by blast
  ultimately show ?thesis using t(3) by blast
qed

theorem vrb_client_safe_witness:
  "\<exists>s. VRB_NEXT_h (Some 8) s = Some None \<and> VRB_REMOVE_h (Some 8) s \<noteq> None"
proof -
  let ?e = "\<lparr>e_left = None, e_right = None, e_parent = None, e_color = VRB_RED\<rparr>"
  have "vrb_client (\<lambda>a. int a) VRB_INIT_h []" by (rule vrb_client.init)
  from vrb_client.alloc [OF this, of 8 8 ?e]
  have c1: "vrb_client (int(8 := 8)) (alloc_h 8 ?e VRB_INIT_h) []" by (simp add: VRB_INIT_h_def)
  obtain res s where s: "VRB_INSERT_h (\<lambda>a. 0) 8 (alloc_h 8 ?e VRB_INIT_h) = Some (res, s)"
    "client_inv (int(8 := 8)) s (if res = None then ins_sorted (int(8 := 8)) 8 [] else [])"
    using client_insert [OF client_reachable [OF c1], of 8 "\<lambda>a. 0"] by (auto simp: alloc_h_def cmp_ok_def)
  have "vrb_client (int(8 := 8)) s (if res = None then ins_sorted (int(8 := 8)) 8 [] else [])"
    by (rule vrb_client.insert_ [OF c1 _ _ _ s(1)]) (simp_all add: alloc_h_def cmp_ok_def)
  moreover have "res = None"
    using s(1) by (auto simp: VRB_INSERT_h_def VRB_INIT_h_def alloc_h_def bind_eq_Some_conv)
  ultimately have "vrb_client (int(8 := 8)) s [8]" by (simp add: ins_sorted_def)
  from vrb_client_safe [OF this] have "VRB_NEXT_h (Some 8) s = Some (first_of [])" "VRB_REMOVE_h (Some 8) s \<noteq> None"
    by force+
  then show ?thesis by auto
qed

end
