(* ===== verification/Splay.thy ===== *)
theory Splay
  imports Vtree_Correct
begin

text \<open>
  The splay trees of \<^verbatim>\<open>src/src/vtree.h\<close> (the \<open>VSPLAY_*\<close> macros). A tree is its shape. The
  loop of \<open>VSPLAY\<close> takes the tree apart from the top: nodes smaller than the search element
  go to the bottom right of a left tree, larger ones to the bottom left of a right tree, and
  \<open>VSPLAY_ASSEMBLE\<close> puts what is left of the root between them. The C code keeps the two trees
  by the pointer to the place where the next node is linked (\<open>__left\<close>, \<open>__right\<close>), which starts
  at the dummy \<open>__node\<close>; here each is the list of the nodes on the way from that place up to
  \<open>__node\<close>, with the other subtree of each. The link that such a node still has to the rest of
  the tree is overwritten by the next link or by the assembly, and is not part of the list.
  \<open>None\<close> is a read through a NULL pointer or a loop that does not end.
\<close>

section \<open>Data\<close>

datatype 'a vsplay = SNIL | SNODE (spe_left: "'a vsplay") (spe_elm: 'a) (spe_right: "'a vsplay")

type_synonym 'a left_tree = "('a vsplay \<times> 'a) list"
type_synonym 'a right_tree = "('a \<times> 'a vsplay) list"

section \<open>Steps\<close>

fun VSPLAY_ROTATE_RIGHT :: "'a vsplay \<Rightarrow> 'a vsplay option" where
  "VSPLAY_ROTATE_RIGHT (SNODE (SNODE a tmp b) x c) = Some (SNODE a tmp (SNODE b x c))"
| "VSPLAY_ROTATE_RIGHT _ = None"

fun VSPLAY_ROTATE_LEFT :: "'a vsplay \<Rightarrow> 'a vsplay option" where
  "VSPLAY_ROTATE_LEFT (SNODE a x (SNODE b tmp c)) = Some (SNODE (SNODE a x b) tmp c)"
| "VSPLAY_ROTATE_LEFT _ = None"

fun VSPLAY_LINKLEFT :: "'a vsplay \<Rightarrow> 'a right_tree \<Rightarrow> ('a vsplay \<times> 'a right_tree) option" where
  "VSPLAY_LINKLEFT (SNODE l x r) right = Some (l, (x, r) # right)"
| "VSPLAY_LINKLEFT SNIL right = None"

fun VSPLAY_LINKRIGHT :: "'a vsplay \<Rightarrow> 'a left_tree \<Rightarrow> ('a vsplay \<times> 'a left_tree) option" where
  "VSPLAY_LINKRIGHT (SNODE l x r) left = Some (r, (l, x) # left)"
| "VSPLAY_LINKRIGHT SNIL left = None"

text \<open>The trees that hang off \<open>__node\<close> once the last link is set to \<open>t\<close>.\<close>

fun close_left :: "'a left_tree \<Rightarrow> 'a vsplay \<Rightarrow> 'a vsplay" where
  "close_left [] t = t"
| "close_left ((l, x) # left) t = close_left left (SNODE l x t)"

fun close_right :: "'a right_tree \<Rightarrow> 'a vsplay \<Rightarrow> 'a vsplay" where
  "close_right [] t = t"
| "close_right ((x, r) # right) t = close_right right (SNODE t x r)"

fun VSPLAY_ASSEMBLE :: "'a vsplay \<Rightarrow> 'a left_tree \<Rightarrow> 'a right_tree \<Rightarrow> 'a vsplay option" where
  "VSPLAY_ASSEMBLE (SNODE l x r) left right = Some (SNODE (close_left left l) x (close_right right r))"
| "VSPLAY_ASSEMBLE SNIL left right = None"

section \<open>The splay operation\<close>

text \<open>
  The bodies of the two branches of the loop. \<open>rot\<close> is the test on \<open>__tmp\<close>; \<open>Inr\<close> is \<open>break\<close>
  with the root at that moment, \<open>Inl\<close> is the next turn with the new root and the new right
  (left) tree.
\<close>

fun left_null :: "'a vsplay \<Rightarrow> bool" where
  "left_null (SNODE SNIL _ _) = True"
| "left_null _ = False"

fun right_null :: "'a vsplay \<Rightarrow> bool" where
  "right_null (SNODE _ _ SNIL) = True"
| "right_null _ = False"

fun splay_go_left ::
  "('a \<Rightarrow> bool) \<Rightarrow> 'a vsplay \<Rightarrow> 'a right_tree \<Rightarrow> ('a vsplay \<times> 'a right_tree + 'a vsplay) option" where
  "splay_go_left rot SNIL right = None"
| "splay_go_left rot (SNODE SNIL x r) right = Some (Inr (SNODE SNIL x r))"
| "splay_go_left rot (SNODE (SNODE a tmp b) x r) right =
     (if rot tmp then
        Option.bind (VSPLAY_ROTATE_RIGHT (SNODE (SNODE a tmp b) x r)) (\<lambda>sph.
          if left_null sph then Some (Inr sph) else map_option Inl (VSPLAY_LINKLEFT sph right))
      else map_option Inl (VSPLAY_LINKLEFT (SNODE (SNODE a tmp b) x r) right))"

fun splay_go_right ::
  "('a \<Rightarrow> bool) \<Rightarrow> 'a vsplay \<Rightarrow> 'a left_tree \<Rightarrow> ('a vsplay \<times> 'a left_tree + 'a vsplay) option" where
  "splay_go_right rot SNIL left = None"
| "splay_go_right rot (SNODE l x SNIL) left = Some (Inr (SNODE l x SNIL))"
| "splay_go_right rot (SNODE l x (SNODE a tmp b)) left =
     (if rot tmp then
        Option.bind (VSPLAY_ROTATE_LEFT (SNODE l x (SNODE a tmp b))) (\<lambda>sph.
          if right_null sph then Some (Inr sph) else map_option Inl (VSPLAY_LINKRIGHT sph left))
      else map_option Inl (VSPLAY_LINKRIGHT (SNODE l x (SNODE a tmp b)) left))"

lemma splay_go_shrinks:
  "splay_go_left rot t right = Some (Inl (t', right')) \<Longrightarrow> size t' < size t"
  "splay_go_right rot t left = Some (Inl (t', left')) \<Longrightarrow> size t' < size t"
  by (induction rot t right rule: splay_go_left.induct; auto split: if_splits)
    (induction rot t left rule: splay_go_right.induct; auto split: if_splits)

function VSPLAY_loop :: "('a \<Rightarrow> int) \<Rightarrow> 'a vsplay \<Rightarrow> 'a left_tree \<Rightarrow> 'a right_tree \<Rightarrow> 'a vsplay option" where
  "VSPLAY_loop cmp sph left right =
     (case sph of SNIL \<Rightarrow> None | SNODE _ x _ \<Rightarrow>
      let comp = cmp x in
      if comp < 0 then
        (case splay_go_left (\<lambda>tmp. cmp tmp < 0) sph right of
           None \<Rightarrow> None
         | Some (Inl (sph1, right')) \<Rightarrow> VSPLAY_loop cmp sph1 left right'
         | Some (Inr sph1) \<Rightarrow> VSPLAY_ASSEMBLE sph1 left right)
      else if comp > 0 then
        (case splay_go_right (\<lambda>tmp. cmp tmp > 0) sph left of
           None \<Rightarrow> None
         | Some (Inl (sph1, left')) \<Rightarrow> VSPLAY_loop cmp sph1 left' right
         | Some (Inr sph1) \<Rightarrow> VSPLAY_ASSEMBLE sph1 left right)
      else VSPLAY_ASSEMBLE sph left right)"
  by pat_completeness auto
termination
  by (relation "measure (\<lambda>(_, sph, _, _). size sph)") (auto dest: splay_go_shrinks)

declare VSPLAY_loop.simps [simp del]

definition VSPLAY :: "('a \<Rightarrow> 'a \<Rightarrow> int) \<Rightarrow> 'a \<Rightarrow> 'a vsplay \<Rightarrow> 'a vsplay option" where
  "VSPLAY cmp elm t = VSPLAY_loop (cmp elm) t [] []"

partial_function (option) VSPLAY_MINMAX_loop ::
  "int \<Rightarrow> 'a vsplay \<Rightarrow> 'a left_tree \<Rightarrow> 'a right_tree \<Rightarrow> 'a vsplay option" where
  "VSPLAY_MINMAX_loop val sph left right =
     (if val < 0 then
        (case splay_go_left (\<lambda>_. val < 0) sph right of
           None \<Rightarrow> None
         | Some (Inl (sph1, right')) \<Rightarrow> VSPLAY_MINMAX_loop val sph1 left right'
         | Some (Inr sph1) \<Rightarrow> VSPLAY_ASSEMBLE sph1 left right)
      else if val > 0 then
        (case splay_go_right (\<lambda>_. val > 0) sph left of
           None \<Rightarrow> None
         | Some (Inl (sph1, left')) \<Rightarrow> VSPLAY_MINMAX_loop val sph1 left' right
         | Some (Inr sph1) \<Rightarrow> VSPLAY_ASSEMBLE sph1 left right)
      else VSPLAY_MINMAX_loop val sph left right)"

definition VSPLAY_MINMAX :: "'a vsplay \<Rightarrow> int \<Rightarrow> 'a vsplay option" where
  "VSPLAY_MINMAX t val = VSPLAY_MINMAX_loop val t [] []"

section \<open>Operations\<close>

text \<open>The operations return what the C function returns, and the tree they leave.\<close>

definition splay_root :: "'a vsplay \<Rightarrow> 'a option" where
  "splay_root t = (case t of SNIL \<Rightarrow> None | SNODE _ x _ \<Rightarrow> Some x)"

definition VSPLAY_FIND :: "('a \<Rightarrow> 'a \<Rightarrow> int) \<Rightarrow> 'a \<Rightarrow> 'a vsplay \<Rightarrow> ('a option \<times> 'a vsplay) option" where
  "VSPLAY_FIND cmp elm t =
     (if t = SNIL then Some (None, t)
      else Option.bind (VSPLAY cmp elm t) (\<lambda>t1.
      case t1 of SNIL \<Rightarrow> None | SNODE _ x _ \<Rightarrow>
      if cmp elm x = 0 then Some (Some x, t1) else Some (None, t1)))"

definition VSPLAY_INSERT :: "('a \<Rightarrow> 'a \<Rightarrow> int) \<Rightarrow> 'a \<Rightarrow> 'a vsplay \<Rightarrow> ('a option \<times> 'a vsplay) option" where
  "VSPLAY_INSERT cmp elm t =
     (if t = SNIL then Some (None, SNODE SNIL elm SNIL)
      else Option.bind (VSPLAY cmp elm t) (\<lambda>t1.
      case t1 of SNIL \<Rightarrow> None | SNODE l x r \<Rightarrow>
      let comp = cmp elm x in
      if comp < 0 then Some (None, SNODE l elm (SNODE SNIL x r))
      else if comp > 0 then Some (None, SNODE (SNODE l x SNIL) elm r)
      else Some (Some x, t1)))"

definition VSPLAY_REMOVE :: "('a \<Rightarrow> 'a \<Rightarrow> int) \<Rightarrow> 'a \<Rightarrow> 'a vsplay \<Rightarrow> ('a option \<times> 'a vsplay) option" where
  "VSPLAY_REMOVE cmp elm t =
     (if t = SNIL then Some (None, t)
      else Option.bind (VSPLAY cmp elm t) (\<lambda>t1.
      case t1 of SNIL \<Rightarrow> None | SNODE l x r \<Rightarrow>
      if cmp elm x = 0 then
        (if l = SNIL then Some (Some elm, r)
         else Option.bind (VSPLAY cmp elm l) (\<lambda>l1.
           case l1 of SNIL \<Rightarrow> None | SNODE l2 y _ \<Rightarrow> Some (Some elm, SNODE l2 y r)))
      else Some (None, t1)))"

text \<open>What the pointer \<open>elm\<close> points to: its node in the tree.\<close>

fun splay_at :: "'a \<Rightarrow> 'a vsplay \<Rightarrow> 'a vsplay option" where
  "splay_at e SNIL = None"
| "splay_at e (SNODE l x r) =
     (if x = e then Some (SNODE l x r)
      else case splay_at e l of None \<Rightarrow> splay_at e r | Some t \<Rightarrow> Some t)"

fun splay_leftmost :: "'a vsplay \<Rightarrow> 'a option" where
  "splay_leftmost SNIL = None"
| "splay_leftmost (SNODE l x r) = (if l = SNIL then Some x else splay_leftmost l)"

definition VSPLAY_NEXT :: "('a \<Rightarrow> 'a \<Rightarrow> int) \<Rightarrow> 'a \<Rightarrow> 'a vsplay \<Rightarrow> ('a option \<times> 'a vsplay) option" where
  "VSPLAY_NEXT cmp elm t =
     Option.bind (VSPLAY cmp elm t) (\<lambda>t1.
     Option.bind (splay_at elm t1) (\<lambda>n.
     Some (if spe_right n \<noteq> SNIL then splay_leftmost (spe_right n) else None, t1)))"

definition VSPLAY_MIN_MAX :: "'a vsplay \<Rightarrow> int \<Rightarrow> ('a option \<times> 'a vsplay) option" where
  "VSPLAY_MIN_MAX t val = map_option (\<lambda>t1. (splay_root t1, t1)) (VSPLAY_MINMAX t val)"

definition VSPLAY_NEGINF :: int where "VSPLAY_NEGINF = - 1"
definition VSPLAY_INF :: int where "VSPLAY_INF = 1"

definition VSPLAY_MIN :: "'a vsplay \<Rightarrow> ('a option \<times> 'a vsplay) option" where
  "VSPLAY_MIN t =
     (if t = SNIL then Some (None, t)
      else VSPLAY_MIN_MAX t VSPLAY_NEGINF)"

definition VSPLAY_MAX :: "'a vsplay \<Rightarrow> ('a option \<times> 'a vsplay) option" where
  "VSPLAY_MAX t =
     (if t = SNIL then Some (None, t)
      else VSPLAY_MIN_MAX t VSPLAY_INF)"

text \<open>\<open>VSPLAY_FOREACH\<close> collects the visited elements and returns the tree it leaves.\<close>

partial_function (option) splay_foreach_from ::
  "('a \<Rightarrow> 'a \<Rightarrow> int) \<Rightarrow> 'a option \<Rightarrow> 'a vsplay \<Rightarrow> 'a list \<Rightarrow> ('a list \<times> 'a vsplay) option" where
  "splay_foreach_from cmp x t acc =
     (case x of None \<Rightarrow> Some (rev acc, t)
      | Some e \<Rightarrow> Option.bind (VSPLAY_NEXT cmp e t) (\<lambda>(x', t'). splay_foreach_from cmp x' t' (e # acc)))"

definition VSPLAY_FOREACH :: "('a \<Rightarrow> 'a \<Rightarrow> int) \<Rightarrow> 'a vsplay \<Rightarrow> ('a list \<times> 'a vsplay) option" where
  "VSPLAY_FOREACH cmp t = Option.bind (VSPLAY_MIN t) (\<lambda>(x, t'). splay_foreach_from cmp x t' [])"

end
