(* ===== verification/Splay_Correct.thy ===== *)
theory Splay_Correct
  imports Splay
begin

text \<open>
  Correctness of the splay trees: the loop of \<open>VSPLAY\<close> keeps the in-order sequence and ends
  with everything smaller than the search element on the left of the root and everything
  larger on its right. What the operations do to the tree follows from that.
\<close>

section \<open>In-order sequences\<close>

fun sinorder :: "'a vsplay \<Rightarrow> 'a list" where
  "sinorder SNIL = []"
| "sinorder (SNODE l x r) = sinorder l @ x # sinorder r"

lemma sinorder_Nil_iff [simp]: "sinorder t = [] \<longleftrightarrow> t = SNIL"
  by (cases t) auto

fun left_elms :: "'a left_tree \<Rightarrow> 'a list" where
  "left_elms [] = []"
| "left_elms ((l, x) # left) = left_elms left @ sinorder l @ [x]"

fun right_elms :: "'a right_tree \<Rightarrow> 'a list" where
  "right_elms [] = []"
| "right_elms ((x, r) # right) = x # sinorder r @ right_elms right"

lemma sinorder_close_left [simp]: "sinorder (close_left left t) = left_elms left @ sinorder t"
  by (induction left t rule: close_left.induct) auto

lemma sinorder_close_right [simp]: "sinorder (close_right right t) = sinorder t @ right_elms right"
  by (induction right t rule: close_right.induct) auto

text \<open>One turn moves the upper end of the tree's sequence, from a node on that is larger.\<close>

lemma splay_go_left_step:
  assumes "t = SNODE l x r"
  shows "\<exists>res. splay_go_left rot t right = Some res \<and>
    (case res of
       Inl (t', right') \<Rightarrow> t' \<noteq> SNIL \<and> (\<exists>y ys. right_elms right' = y # ys @ right_elms right \<and>
         sinorder t = sinorder t' @ y # ys \<and> (y = x \<or> rot y))
     | Inr t' \<Rightarrow> \<exists>y r'. t' = SNODE SNIL y r' \<and> sinorder t' = sinorder t \<and> (y = x \<or> rot y))"
proof (cases l)
  case (SNODE a tmp b)
  with assms show ?thesis by (cases a) auto
qed (use assms in auto)

lemma splay_go_right_step:
  assumes "t = SNODE l x r"
  shows "\<exists>res. splay_go_right rot t left = Some res \<and>
    (case res of
       Inl (t', left') \<Rightarrow> t' \<noteq> SNIL \<and> (\<exists>y ys. left_elms left' = left_elms left @ ys @ [y] \<and>
         sinorder t = ys @ y # sinorder t' \<and> (y = x \<or> rot y))
     | Inr t' \<Rightarrow> \<exists>y l'. t' = SNODE l' y SNIL \<and> sinorder t' = sinorder t \<and> (y = x \<or> rot y))"
proof (cases r)
  case (SNODE a tmp b)
  with assms show ?thesis by (cases b) auto
qed (use assms in auto)

section \<open>The loop\<close>

text \<open>\<open>split_at key k t\<close>: the root of \<open>t\<close> is where \<open>k\<close> belongs.\<close>

definition split_at :: "('a \<Rightarrow> 'k::linorder) \<Rightarrow> 'k \<Rightarrow> 'a vsplay \<Rightarrow> bool" where
  "split_at key k t \<longleftrightarrow> (case t of SNIL \<Rightarrow> False | SNODE l x r \<Rightarrow>
     (\<forall>y \<in> set (sinorder l). key y < k) \<and> (\<forall>y \<in> set (sinorder r). k < key y))"

lemma cmp_ok_append: "cmp_ok key k cmp (A \<union> B) \<longleftrightarrow> cmp_ok key k cmp A \<and> cmp_ok key k cmp B"
  by (auto simp: cmp_ok_def)

lemma sorted_keys_above:
  "sorted_keys key (xs @ y # ys) \<Longrightarrow> k < key y \<Longrightarrow> \<forall>z \<in> set (y # ys). k < key z"
  by (auto simp: sorted_wrt_append intro: less_trans)

lemma sorted_keys_below:
  "sorted_keys key (ys @ y # xs) \<Longrightarrow> key y < k \<Longrightarrow> \<forall>z \<in> set (ys @ [y]). key z < k"
  by (auto simp: sorted_wrt_append intro: less_trans)

text \<open>
  What a turn of \<open>VSPLAY\<close> does on a search tree whose root is larger (smaller) than the
  search element: the nodes it moves over are larger (smaller) as well.
\<close>

lemma go_left_keys:
  assumes "t = SNODE l x r" and "cmp x < 0" and "sorted_keys key (sinorder t)"
    and "cmp_ok key k cmp (set (sinorder t))"
  shows "\<exists>res. splay_go_left (\<lambda>tmp. cmp tmp < 0) t right = Some res \<and>
    (case res of
       Inl (t', right') \<Rightarrow> t' \<noteq> SNIL \<and> (\<exists>ys. right_elms right' = ys @ right_elms right \<and>
         sinorder t = sinorder t' @ ys \<and> (\<forall>z \<in> set ys. k < key z))
     | Inr t' \<Rightarrow> \<exists>y r'. t' = SNODE SNIL y r' \<and> sinorder t' = sinorder t \<and> split_at key k t')"
proof -
  have c: "k < key y" if "cmp y < 0" "y \<in> set (sinorder t)" for y
    using assms(4) that by (simp add: cmp_ok_def)
  from splay_go_left_step [OF assms(1), of "\<lambda>tmp. cmp tmp < 0" right] obtain res where
    res: "splay_go_left (\<lambda>tmp. cmp tmp < 0) t right = Some res" and step: "case res of
     Inl (t', right') \<Rightarrow> t' \<noteq> SNIL \<and> (\<exists>y ys. right_elms right' = y # ys @ right_elms right \<and>
       sinorder t = sinorder t' @ y # ys \<and> (y = x \<or> cmp y < 0))
   | Inr t' \<Rightarrow> \<exists>y r'. t' = SNODE SNIL y r' \<and> sinorder t' = sinorder t \<and> (y = x \<or> cmp y < 0)"
    by blast
  show ?thesis
  proof (cases res)
    case (Inl p)
    with step assms(2) obtain t' right' y ys where p: "res = Inl (t', right')" "t' \<noteq> SNIL"
      "right_elms right' = y # ys @ right_elms right" "sinorder t = sinorder t' @ y # ys" "cmp y < 0"
      by (cases p) auto
    then have "\<forall>z \<in> set (y # ys). k < key z"
      using c [of y] assms(3) by (intro sorted_keys_above [of key "sinorder t'"]) auto
    with p res show ?thesis by (intro exI [of _ res]) (auto intro: exI [of _ "y # ys"])
  next
    case (Inr t')
    with step assms(2) obtain y r' where t': "t' = SNODE SNIL y r'" "sinorder t = y # sinorder r'" "cmp y < 0"
      by auto
    then have "\<forall>z \<in> set (y # sinorder r'). k < key z"
      using c [of y] assms(3) by (intro sorted_keys_above [of key "[]"]) auto
    with t' res Inr show ?thesis by (simp add: split_at_def)
  qed
qed

lemma go_right_keys:
  assumes "t = SNODE l x r" and "cmp x > 0" and "sorted_keys key (sinorder t)"
    and "cmp_ok key k cmp (set (sinorder t))"
  shows "\<exists>res. splay_go_right (\<lambda>tmp. cmp tmp > 0) t left = Some res \<and>
    (case res of
       Inl (t', left') \<Rightarrow> t' \<noteq> SNIL \<and> (\<exists>ys. left_elms left' = left_elms left @ ys \<and>
         sinorder t = ys @ sinorder t' \<and> (\<forall>z \<in> set ys. key z < k))
     | Inr t' \<Rightarrow> \<exists>y l'. t' = SNODE l' y SNIL \<and> sinorder t' = sinorder t \<and> split_at key k t')"
proof -
  have c: "key y < k" if "cmp y > 0" "y \<in> set (sinorder t)" for y
    using assms(4) that by (simp add: cmp_ok_def)
  from splay_go_right_step [OF assms(1), of "\<lambda>tmp. cmp tmp > 0" left] obtain res where
    res: "splay_go_right (\<lambda>tmp. cmp tmp > 0) t left = Some res" and step: "case res of
     Inl (t', left') \<Rightarrow> t' \<noteq> SNIL \<and> (\<exists>y ys. left_elms left' = left_elms left @ ys @ [y] \<and>
       sinorder t = ys @ y # sinorder t' \<and> (y = x \<or> cmp y > 0))
   | Inr t' \<Rightarrow> \<exists>y l'. t' = SNODE l' y SNIL \<and> sinorder t' = sinorder t \<and> (y = x \<or> cmp y > 0)"
    by blast
  show ?thesis
  proof (cases res)
    case (Inl p)
    with step assms(2) obtain t' left' y ys where p: "res = Inl (t', left')" "t' \<noteq> SNIL"
      "left_elms left' = left_elms left @ ys @ [y]" "sinorder t = ys @ y # sinorder t'" "cmp y > 0"
      by (cases p) auto
    then have "\<forall>z \<in> set (ys @ [y]). key z < k"
      using c [of y] assms(3) by (intro sorted_keys_below [of key _ y "sinorder t'"]) auto
    with p res show ?thesis by (intro exI [of _ res]) (auto intro: exI [of _ "ys @ [y]"])
  next
    case (Inr t')
    with step assms(2) obtain y l' where t': "t' = SNODE l' y SNIL" "sinorder t = sinorder l' @ [y]" "cmp y > 0"
      by auto
    then have "\<forall>z \<in> set (sinorder l' @ [y]). key z < k"
      using c [of y] assms(3) by (intro sorted_keys_below [of key _ y "[]"]) auto
    with t' res Inr show ?thesis by (simp add: split_at_def)
  qed
qed

lemma VSPLAY_loop_correct:
  assumes "t \<noteq> SNIL" and "sorted_keys key (sinorder t)" and "cmp_ok key k cmp (set (sinorder t))"
    and "\<forall>y \<in> set (left_elms left). key y < k" and "\<forall>y \<in> set (right_elms right). k < key y"
  shows "\<exists>t'. VSPLAY_loop cmp t left right = Some t' \<and> split_at key k t' \<and>
    sinorder t' = left_elms left @ sinorder t @ right_elms right"
  using assms
proof (induction "size t" arbitrary: t left right rule: less_induct)
  case less
  obtain l x r where t: "t = SNODE l x r" using less.prems(1) by (cases t) auto
  note loop = VSPLAY_loop.simps [of cmp "SNODE l x r"]
  consider "cmp x < 0" | "cmp x > 0" | "cmp x = 0" by linarith
  then show ?case
  proof cases
    case 1
    from go_left_keys [OF t this less.prems(2,3), of right] obtain res where
      res: "splay_go_left (\<lambda>tmp. cmp tmp < 0) t right = Some res" and step: "case res of
       Inl (t', right') \<Rightarrow> t' \<noteq> SNIL \<and> (\<exists>ys. right_elms right' = ys @ right_elms right \<and>
         sinorder t = sinorder t' @ ys \<and> (\<forall>z \<in> set ys. k < key z))
     | Inr t' \<Rightarrow> \<exists>y r'. t' = SNODE SNIL y r' \<and> sinorder t' = sinorder t \<and> split_at key k t'"
      by blast
    show ?thesis
    proof (cases res)
      case (Inl p)
      with step obtain t' right' ys where p: "res = Inl (t', right')" "t' \<noteq> SNIL"
        "right_elms right' = ys @ right_elms right" "sinorder t = sinorder t' @ ys" "\<forall>z \<in> set ys. k < key z"
        by (cases p) auto
      then have "\<exists>u. VSPLAY_loop cmp t' left right' = Some u \<and> split_at key k u \<and>
          sinorder u = left_elms left @ sinorder t' @ right_elms right'"
        using less.prems res splay_go_shrinks(1)
        by (intro less.hyps) (auto simp: cmp_ok_def sorted_wrt_append)
      then show ?thesis using 1 res p by (simp add: loop t)
    next
      case (Inr t')
      with 1 res step less.prems(4,5) show ?thesis by (auto simp: loop t split_at_def)
    qed
  next
    case 2
    from go_right_keys [OF t this less.prems(2,3), of left] obtain res where
      res: "splay_go_right (\<lambda>tmp. cmp tmp > 0) t left = Some res" and step: "case res of
       Inl (t', left') \<Rightarrow> t' \<noteq> SNIL \<and> (\<exists>ys. left_elms left' = left_elms left @ ys \<and>
         sinorder t = ys @ sinorder t' \<and> (\<forall>z \<in> set ys. key z < k))
     | Inr t' \<Rightarrow> \<exists>y l'. t' = SNODE l' y SNIL \<and> sinorder t' = sinorder t \<and> split_at key k t'"
      by blast
    show ?thesis
    proof (cases res)
      case (Inl p)
      with step obtain t' left' ys where p: "res = Inl (t', left')" "t' \<noteq> SNIL"
        "left_elms left' = left_elms left @ ys" "sinorder t = ys @ sinorder t'" "\<forall>z \<in> set ys. key z < k"
        by (cases p) auto
      then have "\<exists>u. VSPLAY_loop cmp t' left' right = Some u \<and> split_at key k u \<and>
          sinorder u = left_elms left' @ sinorder t' @ right_elms right"
        using less.prems res splay_go_shrinks(2)
        by (intro less.hyps) (auto simp: cmp_ok_def sorted_wrt_append)
      then show ?thesis using 2 res p by (simp add: loop t)
    next
      case (Inr t')
      with 2 res step less.prems(4,5) show ?thesis by (auto simp: loop t split_at_def)
    qed
  next
    case 3
    with less.prems(3) have "key x = k" by (auto simp: t cmp_ok_def)
    with less.prems(2,4,5) 3 show ?thesis by (auto simp: loop t split_at_def sorted_wrt_append)
  qed
qed

lemma VSPLAY_correct:
  assumes "t \<noteq> SNIL" and "sorted_keys key (sinorder t)" and "cmp_ok key k (cmp e) (set (sinorder t))"
  shows "\<exists>l x r. VSPLAY cmp e t = Some (SNODE l x r) \<and> sinorder t = sinorder l @ x # sinorder r \<and>
    (\<forall>y \<in> set (sinorder l). key y < k) \<and> (\<forall>y \<in> set (sinorder r). k < key y)"
proof -
  from VSPLAY_loop_correct [OF assms, of "[]" "[]"] obtain t' where
    "VSPLAY_loop (cmp e) t [] [] = Some t'" "split_at key k t'" "sinorder t' = sinorder t" by auto
  then show ?thesis by (cases t') (auto simp: VSPLAY_def split_at_def)
qed

section \<open>Smallest and largest\<close>

lemma VSPLAY_MIN_loop:
  "t \<noteq> SNIL \<Longrightarrow> \<exists>x r. VSPLAY_MINMAX_loop (- 1) t [] right = Some (SNODE SNIL x r) \<and>
    x # sinorder r = sinorder t @ right_elms right"
proof (induction "size t" arbitrary: t right rule: less_induct)
  case less
  then obtain l x r where t: "t = SNODE l x r" by (cases t) auto
  from splay_go_left_step [OF t, of "\<lambda>_. True" right] show ?case
  proof (elim exE conjE, goal_cases)
    case (1 res)
    show ?case
    proof (cases res)
      case (Inl p)
      with 1 obtain t' right' where p: "res = Inl (t', right')" "t' \<noteq> SNIL"
        "sinorder t' @ right_elms right' = sinorder t @ right_elms right" by (cases p) auto
      moreover have "size t' < size t" using 1(1) p(1) splay_go_shrinks(1) by blast
      ultimately show ?thesis using less.hyps [of t' right'] 1(1)
        by (auto simp: VSPLAY_MINMAX_loop.simps [of "- 1" t])
    next
      case (Inr t')
      with 1 show ?thesis by (auto simp: VSPLAY_MINMAX_loop.simps [of "- 1" t])
    qed
  qed
qed

lemma VSPLAY_MAX_loop:
  "t \<noteq> SNIL \<Longrightarrow> \<exists>x l. VSPLAY_MINMAX_loop 1 t left [] = Some (SNODE l x SNIL) \<and>
    sinorder l @ [x] = left_elms left @ sinorder t"
proof (induction "size t" arbitrary: t left rule: less_induct)
  case less
  then obtain l x r where t: "t = SNODE l x r" by (cases t) auto
  from splay_go_right_step [OF t, of "\<lambda>_. True" left] show ?case
  proof (elim exE conjE, goal_cases)
    case (1 res)
    show ?case
    proof (cases res)
      case (Inl p)
      with 1 obtain t' left' where p: "res = Inl (t', left')" "t' \<noteq> SNIL"
        "left_elms left' @ sinorder t' = left_elms left @ sinorder t" by (cases p) auto
      moreover have "size t' < size t" using 1(1) p(1) splay_go_shrinks(2) by blast
      ultimately show ?thesis using less.hyps [of t' left'] 1(1)
        by (auto simp: VSPLAY_MINMAX_loop.simps [of 1 t])
    next
      case (Inr t')
      with 1 show ?thesis by (auto simp: VSPLAY_MINMAX_loop.simps [of 1 t])
    qed
  qed
qed

section \<open>The operations\<close>

lemma VSPLAY_FIND_correct:
  assumes "sorted_keys key (sinorder t)" and "cmp_ok key k (cmp e) (set (sinorder t))"
  shows "\<exists>t'. VSPLAY_FIND cmp e t = Some (find (\<lambda>x. key x = k) (sinorder t), t') \<and>
    sinorder t' = sinorder t"
proof (cases "t = SNIL")
  case False
  from VSPLAY_correct [where cmp = cmp and e = e, OF this assms] obtain l x r where
    s: "VSPLAY cmp e t = Some (SNODE l x r)" "sinorder t = sinorder l @ x # sinorder r"
    "\<forall>y \<in> set (sinorder l). key y < k" "\<forall>y \<in> set (sinorder r). k < key y" by blast
  moreover have "cmp e x = 0 \<longleftrightarrow> key x = k" using assms(2) s(2) by (force simp: cmp_ok_def)
  moreover have "find (\<lambda>x. key x = k) (sinorder l) = None" "find (\<lambda>x. key x = k) (sinorder r) = None"
    using s(3,4) by (auto intro!: find_none)
  ultimately show ?thesis using False by (simp add: VSPLAY_FIND_def find_append)
qed (simp add: VSPLAY_FIND_def)

lemma ins_sorted_split:
  "\<forall>y \<in> set xs. key y < key e \<Longrightarrow> \<forall>y \<in> set ys. key e < key y \<Longrightarrow>
   ins_sorted key e (xs @ ys) = xs @ e # ys"
  by (cases ys) (auto simp: ins_sorted_def)

lemma VSPLAY_INSERT_correct:
  assumes "sorted_keys key (sinorder t)" and "cmp_ok key (key e) (cmp e) (set (sinorder t))"
  shows "\<exists>t'. VSPLAY_INSERT cmp e t = Some (find (\<lambda>x. key x = key e) (sinorder t), t') \<and>
    sinorder t' = (if key e \<in> key ` set (sinorder t) then sinorder t else ins_sorted key e (sinorder t))"
proof (cases "t = SNIL")
  case True
  then show ?thesis by (simp add: VSPLAY_INSERT_def ins_sorted_def)
next
  case False
  from VSPLAY_correct [where cmp = cmp and e = e, OF this assms] obtain l x r where
    s: "VSPLAY cmp e t = Some (SNODE l x r)" "sinorder t = sinorder l @ x # sinorder r"
    "\<forall>y \<in> set (sinorder l). key y < key e" "\<forall>y \<in> set (sinorder r). key e < key y" by blast
  have f: "find (\<lambda>x. key x = key e) (sinorder l) = None" "find (\<lambda>x. key x = key e) (sinorder r) = None"
    using s(3,4) by (auto intro!: find_none)
  have c: "cmp e x < 0 \<longleftrightarrow> key e < key x" "cmp e x > 0 \<longleftrightarrow> key x < key e"
    using assms(2) s(2) by (auto simp: cmp_ok_def)
  have n: "key e \<in> key ` set (sinorder t) \<longleftrightarrow> key x = key e" using s(2-4) by force
  consider "key e < key x" | "key x < key e" | "key x = key e" by (metis linorder_neqE)
  then show ?thesis
  proof cases
    case 1
    then have "ins_sorted key e (sinorder t) = sinorder l @ e # x # sinorder r"
      using s(2-4) by (auto intro!: ins_sorted_split)
    with 1 s f c n False show ?thesis by (simp add: VSPLAY_INSERT_def find_append)
  next
    case 2
    then have "ins_sorted key e (sinorder t) = (sinorder l @ [x]) @ e # sinorder r"
      using s(2-4) ins_sorted_split [of "sinorder l @ [x]" key e "sinorder r"] by auto
    with 2 s f c n False show ?thesis by (simp add: VSPLAY_INSERT_def find_append)
  next
    case 3
    with s f c n False show ?thesis by (auto simp: VSPLAY_INSERT_def find_append)
  qed
qed

lemma VSPLAY_REMOVE_correct:
  assumes "sorted_keys key (sinorder t)" and "cmp_ok key (key e) (cmp e) (set (sinorder t))"
  shows "\<exists>t'. VSPLAY_REMOVE cmp e t = Some (if key e \<in> key ` set (sinorder t) then Some e else None, t') \<and>
    sinorder t' = filter (\<lambda>x. key x \<noteq> key e) (sinorder t)"
proof (cases "t = SNIL")
  case False
  from VSPLAY_correct [where cmp = cmp and e = e, OF this assms] obtain l x r where
    s: "VSPLAY cmp e t = Some (SNODE l x r)" "sinorder t = sinorder l @ x # sinorder r"
    "\<forall>y \<in> set (sinorder l). key y < key e" "\<forall>y \<in> set (sinorder r). key e < key y" by blast
  have f: "filter (\<lambda>x. key x \<noteq> key e) (sinorder l) = sinorder l"
    "filter (\<lambda>x. key x \<noteq> key e) (sinorder r) = sinorder r"
    using s(3,4) by (auto intro!: filter_True)
  have c: "cmp e x = 0 \<longleftrightarrow> key x = key e" using assms(2) s(2) by (force simp: cmp_ok_def)
  have n: "key e \<in> key ` set (sinorder t) \<longleftrightarrow> key x = key e" using s(2-4) by force
  show ?thesis
  proof (cases "key x = key e \<and> l \<noteq> SNIL")
    case True
    have "sorted_keys key (sinorder l)" "cmp_ok key (key e) (cmp e) (set (sinorder l))"
      using assms s(2) by (auto simp: sorted_wrt_append cmp_ok_def)
    from VSPLAY_correct [where cmp = cmp and e = e, OF _ this] True obtain l2 y r2 where
      l: "VSPLAY cmp e l = Some (SNODE l2 y r2)" "sinorder l = sinorder l2 @ y # sinorder r2"
      "\<forall>y \<in> set (sinorder r2). key e < key y" by blast
    have "\<forall>z \<in> set (sinorder r2). key z < key e" using l(2) s(3) by auto
    with l(3) have "sinorder r2 = []" by (cases "sinorder r2") (auto dest: less_asym)
    with True s f c n l False show ?thesis by (auto simp: VSPLAY_REMOVE_def)
  next
    case False
    with \<open>t \<noteq> SNIL\<close> s f c n show ?thesis by (auto simp: VSPLAY_REMOVE_def)
  qed
qed (simp add: VSPLAY_REMOVE_def)

section \<open>Traversal\<close>

lemma splay_leftmost_first: "splay_leftmost t = first_of (sinorder t)"
  by (induction t) (auto simp: first_of_append)

lemma VSPLAY_NEXT_correct:
  assumes "sorted_keys key (sinorder t)" and "cmp_ok key (key e) (cmp e) (set (sinorder t))"
    and "sinorder t = xs @ e # ys"
  shows "\<exists>t'. VSPLAY_NEXT cmp e t = Some (first_of ys, t') \<and> sinorder t' = sinorder t"
proof -
  have "t \<noteq> SNIL" using assms(3) by auto
  from VSPLAY_correct [where cmp = cmp and e = e, OF this assms(1,2)] obtain l x r where
    s: "VSPLAY cmp e t = Some (SNODE l x r)" "sinorder t = sinorder l @ x # sinorder r"
    "\<forall>y \<in> set (sinorder l). key y < key e" "\<forall>y \<in> set (sinorder r). key e < key y" by blast
  have "e \<in> set (sinorder t)" by (simp add: assms(3))
  then have x: "x = e" using s(2-4) by auto
  have "e \<notin> set (sinorder l)" "e \<notin> set (sinorder r)" using s(3,4) by auto
  then have "ys = sinorder r"
    using s(2) assms(3) append_Cons_eq_iff [of e "sinorder l" "sinorder r" xs ys] by (simp add: x)
  with s x show ?thesis by (auto simp: VSPLAY_NEXT_def splay_leftmost_first first_of_def split: list.split)
qed

lemma splay_foreach_from_correct:
  assumes "sorted_keys key (sinorder t)"
    and "\<forall>e \<in> set (sinorder t). cmp_ok key (key e) (cmp e) (set (sinorder t))"
    and "sinorder t = xs @ ys"
  shows "\<exists>t'. splay_foreach_from cmp (first_of ys) t acc = Some (rev acc @ ys, t') \<and>
    sinorder t' = sinorder t"
  using assms
proof (induction ys arbitrary: xs t acc)
  case Nil
  then show ?case by (simp add: splay_foreach_from.simps [of _ None])
next
  case (Cons e ys)
  then obtain t' where t': "VSPLAY_NEXT cmp e t = Some (first_of ys, t')" "sinorder t' = sinorder t"
    using VSPLAY_NEXT_correct [OF Cons.prems(1) _ Cons.prems(3)] by fastforce
  with Cons.prems Cons.IH [of t' "xs @ [e]" "e # acc"] show ?case
    by (simp add: splay_foreach_from.simps [of _ "Some e"])
qed

lemma VSPLAY_MIN_correct:
  "\<exists>t'. VSPLAY_MIN t = Some (first_of (sinorder t), t') \<and> sinorder t' = sinorder t"
proof (cases "t = SNIL")
  case False
  from VSPLAY_MIN_loop [OF this, of "[]"] obtain x r where
    "VSPLAY_MINMAX_loop (- 1) t [] [] = Some (SNODE SNIL x r)" "sinorder t = x # sinorder r" by auto
  with False show ?thesis by (simp add: VSPLAY_MIN_def VSPLAY_NEGINF_def VSPLAY_MIN_MAX_def VSPLAY_MINMAX_def splay_root_def)
qed (simp add: VSPLAY_MIN_def)

lemma VSPLAY_MAX_correct:
  "\<exists>t'. VSPLAY_MAX t = Some (first_of (rev (sinorder t)), t') \<and> sinorder t' = sinorder t"
proof (cases "t = SNIL")
  case False
  from VSPLAY_MAX_loop [OF this, of "[]"] obtain x l where
    "VSPLAY_MINMAX_loop 1 t [] [] = Some (SNODE l x SNIL)" "sinorder t = sinorder l @ [x]" by auto
  with False show ?thesis by (simp add: VSPLAY_MAX_def VSPLAY_INF_def VSPLAY_MIN_MAX_def VSPLAY_MINMAX_def splay_root_def)
qed (simp add: VSPLAY_MAX_def)

section \<open>Properties\<close>

definition sample_splay :: "int vsplay" where
  "sample_splay = SNODE (SNODE (SNODE (SNODE SNIL 1 SNIL) 2 SNIL) 4 (SNODE SNIL 5 SNIL)) 7 (SNODE SNIL 8 SNIL)"

lemma sample_splay_inorder [simp]: "sinorder sample_splay = [1, 2, 4, 5, 7, 8]"
  by (simp add: sample_splay_def)

lemma int_cmp_ok: "cmp_ok (\<lambda>x. x) e (\<lambda>x. e - x) A" for e :: int
  by (auto simp: cmp_ok_def)

text \<open>
  The operations of a splay tree on a search tree end, never read through NULL and keep the
  tree a search tree, whatever shape it has. \<open>VSPLAY_FIND\<close> returns the node with the key and
  leaves the in-order sequence alone; \<open>VSPLAY_INSERT\<close> returns the node with the same key if
  there is one, and otherwise puts the new node in its place of the sequence;
  \<open>VSPLAY_REMOVE\<close> takes the node with the key out of the sequence and returns the argument
  of the call, or NULL if there is none.
\<close>

theorem vsplay_operations_correct:
  assumes "sorted_keys key (sinorder t)" and "cmp_ok key (key e) (cmp e) (set (sinorder t))"
  shows "(\<exists>t'. VSPLAY_FIND cmp e t = Some (find (\<lambda>x. key x = key e) (sinorder t), t') \<and>
      sinorder t' = sinorder t) \<and>
    (\<exists>t'. VSPLAY_INSERT cmp e t = Some (find (\<lambda>x. key x = key e) (sinorder t), t') \<and>
      sorted_keys key (sinorder t') \<and>
      sinorder t' = (if key e \<in> key ` set (sinorder t) then sinorder t else ins_sorted key e (sinorder t))) \<and>
    (\<exists>t'. VSPLAY_REMOVE cmp e t = Some (if key e \<in> key ` set (sinorder t) then Some e else None, t') \<and>
      sorted_keys key (sinorder t') \<and> sinorder t' = filter (\<lambda>x. key x \<noteq> key e) (sinorder t))"
  using VSPLAY_FIND_correct [where cmp = cmp and e = e, OF assms] VSPLAY_INSERT_correct [where cmp = cmp, OF assms]
    VSPLAY_REMOVE_correct [where cmp = cmp, OF assms] sorted_ins_sorted [OF assms(1), of e] assms(1)
  by (auto simp: sorted_wrt_map intro: sorted_wrt_filter)

theorem vsplay_operations_correct_witness:
  "\<exists>t'. VSPLAY_REMOVE (\<lambda>a b. a - b) 4 sample_splay = Some (Some 4, t') \<and> sinorder t' = [1, 2, 5, 7, 8]"
  using vsplay_operations_correct [of "\<lambda>x. x" sample_splay 4 "\<lambda>a b. a - b"]
  by (auto simp: int_cmp_ok)

text \<open>
  Traversal of a splay tree, which splays at every step: \<open>VSPLAY_FOREACH\<close> ends and visits every
  node once, in key order, although the tree changes under it; \<open>VSPLAY_MIN\<close> and \<open>VSPLAY_MAX\<close>
  end and return the two ends of the sequence.
\<close>

theorem vsplay_foreach_correct:
  assumes "sorted_keys key (sinorder t)"
    and "\<forall>e \<in> set (sinorder t). cmp_ok key (key e) (cmp e) (set (sinorder t))"
  shows "\<exists>t1 t2 t3. VSPLAY_FOREACH cmp t = Some (sinorder t, t1) \<and> sinorder t1 = sinorder t \<and>
    VSPLAY_MIN t = Some (first_of (sinorder t), t2) \<and> sinorder t2 = sinorder t \<and>
    VSPLAY_MAX t = Some (first_of (rev (sinorder t)), t3) \<and> sinorder t3 = sinorder t"
proof -
  obtain t2 t3 where t2: "VSPLAY_MIN t = Some (first_of (sinorder t), t2)" "sinorder t2 = sinorder t"
    and t3: "VSPLAY_MAX t = Some (first_of (rev (sinorder t)), t3)" "sinorder t3 = sinorder t"
    using VSPLAY_MIN_correct VSPLAY_MAX_correct by metis
  from splay_foreach_from_correct [of key t2 cmp "[]" "sinorder t2" "[]"] assms t2(2)
  obtain t1 where "splay_foreach_from cmp (first_of (sinorder t)) t2 [] = Some (sinorder t, t1)"
    "sinorder t1 = sinorder t" by auto
  with t2 t3 show ?thesis by (simp add: VSPLAY_FOREACH_def)
qed

theorem vsplay_foreach_correct_witness:
  "\<exists>t1. VSPLAY_FOREACH (\<lambda>a b. a - b) sample_splay = Some ([1, 2, 4, 5, 7, 8], t1)"
  using vsplay_foreach_correct [of "\<lambda>x. x" sample_splay "\<lambda>a b. a - b"]
  by (auto simp: int_cmp_ok)

end
