(* ===== verification/Tree_Index.thy ===== *)
theory Tree_Index
  imports Splay_Correct
begin

text \<open>
  The two kinds of trees of \<^verbatim>\<open>src/src/vtree.h\<close> promise the same thing to a program: an ordered
  index that finds, inserts and removes nodes by key. The contract is a locale over the
  sequence of nodes; its client facts are that a run of calls answers like the same run on a
  sorted list. Both trees are instances, so that any program written for one of them gets
  the same answers from the other.
\<close>

section \<open>The contract\<close>

text \<open>\<open>cmp\<close> is the comparison macro with its two arguments.\<close>

definition cmp_by :: "('a \<Rightarrow> 'k::linorder) \<Rightarrow> ('a \<Rightarrow> 'a \<Rightarrow> int) \<Rightarrow> bool" where
  "cmp_by key cmp \<longleftrightarrow> (\<forall>e x. (cmp e x < 0 \<longleftrightarrow> key e < key x) \<and> (cmp e x > 0 \<longleftrightarrow> key x < key e))"

lemma cmp_by_ok: "cmp_by key cmp \<Longrightarrow> cmp_ok key (key e) (cmp e) A"
  by (simp add: cmp_by_def cmp_ok_def)

text \<open>A call by key, and what it answers on a sorted list.\<close>

datatype 'a index_op = FIND 'a | INSERT 'a | REMOVE 'a

datatype 'a answer = Node "'a option" | Removed bool

fun list_op :: "('a \<Rightarrow> 'k::linorder) \<Rightarrow> 'a index_op \<Rightarrow> 'a list \<Rightarrow> 'a answer \<times> 'a list" where
  "list_op key (FIND e) xs = (Node (find (\<lambda>x. key x = key e) xs), xs)"
| "list_op key (INSERT e) xs = (Node (find (\<lambda>x. key x = key e) xs),
     if key e \<in> key ` set xs then xs else ins_sorted key e xs)"
| "list_op key (REMOVE e) xs = (Removed (key e \<in> key ` set xs), filter (\<lambda>x. key x \<noteq> key e) xs)"

fun list_ops :: "('a \<Rightarrow> 'k::linorder) \<Rightarrow> 'a index_op list \<Rightarrow> 'a list \<Rightarrow> 'a answer list \<times> 'a list" where
  "list_ops key [] xs = ([], xs)"
| "list_ops key (c # cs) xs =
     (case list_op key c xs of (a, xs') \<Rightarrow> case list_ops key cs xs' of (as, ys) \<Rightarrow> (a # as, ys))"

text \<open>A run of calls on a tree, which stops at the first that reads through NULL.\<close>

fun run_ops :: "('a index_op \<Rightarrow> 't \<Rightarrow> ('a answer \<times> 't) option) \<Rightarrow> 'a index_op list \<Rightarrow> 't \<Rightarrow> ('a answer list \<times> 't) option" where
  "run_ops step [] t = Some ([], t)"
| "run_ops step (c # cs) t =
     Option.bind (step c t) (\<lambda>(a, t'). map_option (\<lambda>(as, u). (a # as, u)) (run_ops step cs t'))"

locale ordered_index =
  fixes key :: "'a \<Rightarrow> 'k::linorder"
    and inv :: "'t \<Rightarrow> bool"
    and nodes :: "'t \<Rightarrow> 'a list"
    and step :: "'a index_op \<Rightarrow> 't \<Rightarrow> ('a answer \<times> 't) option"
  assumes step_list: "inv t \<Longrightarrow>
    \<exists>t'. step c t = Some (fst (list_op key c (nodes t)), t') \<and> inv t' \<and> nodes t' = snd (list_op key c (nodes t))"
begin

lemma run_list:
  "inv t \<Longrightarrow> \<exists>t'. run_ops step cs t = Some (fst (list_ops key cs (nodes t)), t') \<and> inv t' \<and>
    nodes t' = snd (list_ops key cs (nodes t))"
proof (induction cs arbitrary: t)
  case (Cons c cs)
  from step_list [OF Cons.prems, of c] obtain t1 where t1: "step c t = Some (fst (list_op key c (nodes t)), t1)"
    "inv t1" "nodes t1 = snd (list_op key c (nodes t))" by blast
  from Cons.IH [OF t1(2)] obtain t2 where "run_ops step cs t1 = Some (fst (list_ops key cs (nodes t1)), t2)"
    "inv t2" "nodes t2 = snd (list_ops key cs (nodes t1))" by blast
  with t1 show ?case by (auto split: prod.splits)
qed simp

end

section \<open>The two trees\<close>

fun splay_step :: "('a \<Rightarrow> 'a \<Rightarrow> int) \<Rightarrow> 'a index_op \<Rightarrow> 'a vsplay \<Rightarrow> ('a answer \<times> 'a vsplay) option" where
  "splay_step cmp (FIND e) t = map_option (apfst Node) (VSPLAY_FIND cmp e t)"
| "splay_step cmp (INSERT e) t = map_option (apfst Node) (VSPLAY_INSERT cmp e t)"
| "splay_step cmp (REMOVE e) t = map_option (apfst (\<lambda>r. Removed (r \<noteq> None))) (VSPLAY_REMOVE cmp e t)"

text \<open>\<open>VRB_REMOVE\<close> takes the node itself, which the program has from \<open>VRB_FIND\<close>.\<close>

fun vrb_step :: "('a \<Rightarrow> 'a \<Rightarrow> int) \<Rightarrow> 'a index_op \<Rightarrow> 'a vrb \<Rightarrow> ('a answer \<times> 'a vrb) option" where
  "vrb_step cmp (FIND e) t = Some (Node (VRB_FIND (cmp e) t), t)"
| "vrb_step cmp (INSERT e) t = map_option (apfst Node) (VRB_INSERT (cmp e) e t)"
| "vrb_step cmp (REMOVE e) t =
     (case VRB_FIND (cmp e) t of None \<Rightarrow> Some (Removed False, t)
      | Some x \<Rightarrow> map_option (Pair (Removed True)) (VRB_REMOVE x t))"

lemma splay_step_list:
  assumes "cmp_by key cmp" "sorted_keys key (sinorder t)"
  shows "\<exists>t'. splay_step cmp c t = Some (fst (list_op key c (sinorder t)), t') \<and> sorted_keys key (sinorder t') \<and>
    sinorder t' = snd (list_op key c (sinorder t))"
proof (cases c)
  case (FIND e)
  from VSPLAY_FIND_correct [where cmp = cmp and e = e, OF assms(2) cmp_by_ok [OF assms(1)]] FIND assms(2)
  show ?thesis by auto
next
  case (INSERT e)
  from VSPLAY_INSERT_correct [where cmp = cmp, OF assms(2) cmp_by_ok [OF assms(1)], of e] INSERT assms(2)
    sorted_ins_sorted [OF assms(2), of e]
  show ?thesis by (auto split: if_splits)
next
  case (REMOVE e)
  from VSPLAY_REMOVE_correct [where cmp = cmp, OF assms(2) cmp_by_ok [OF assms(1)], of e] REMOVE assms(2)
  show ?thesis by (auto simp: sorted_wrt_map intro!: sorted_wrt_filter)
qed

lemma sorted_keys_find:
  "sorted_keys key xs \<Longrightarrow> find (\<lambda>x. key x = k) xs = Some y \<Longrightarrow> remove1 y xs = filter (\<lambda>x. key x \<noteq> k) xs"
proof (induction xs)
  case (Cons x xs)
  show ?case
  proof (cases "key x = k")
    case True
    then have "filter (\<lambda>z. key z \<noteq> k) xs = xs" using Cons.prems(1) by (intro filter_True) auto
    with True Cons.prems(2) show ?thesis by simp
  next
    case False
    with Cons have "key y = k" by (auto simp: find_Some_iff)
    with False Cons show ?thesis by auto
  qed
qed simp

lemma find_key_iff: "find (\<lambda>x. key x = k) xs = None \<longleftrightarrow> k \<notin> key ` set xs"
  by (auto simp: find_None_iff)

lemma vrb_step_list:
  assumes "cmp_by key cmp" "index_ok key t"
  shows "\<exists>t'. vrb_step cmp c t = Some (fst (list_op key c (inorder t)), t') \<and> index_ok key t' \<and>
    inorder t' = snd (list_op key c (inorder t))"
proof -
  have t: "rb_tree t" "sorted_keys key (inorder t)" using assms(2) by (simp_all add: index_ok_def)
  note ok = cmp_by_ok [OF assms(1)]
  have f: "VRB_FIND (cmp e) t = find (\<lambda>x. key x = key e) (inorder t)" for e
    using VRB_FIND_correct [OF t(2) ok] .
  show ?thesis
  proof (cases c)
    case (FIND e)
    with f assms(2) show ?thesis by simp
  next
    case (INSERT e)
    show ?thesis
    proof (cases "key e \<in> key ` set (inorder t)")
      case True
      then obtain x where x: "x \<in> set (inorder t)" "key x = key e" by force
      then have "find (\<lambda>y. key y = key e) (inorder t) = Some x"
        using vrb.lookup_Some [OF assms(2) ok [of e], of x] f [of e] by simp
      with VRB_INSERT_present [OF t(2) ok [of e] x] INSERT True assms(2) show ?thesis by simp
    next
      case False
      then have "find (\<lambda>x. key x = key e) (inorder t) = None" by (simp add: find_key_iff)
      with False VRB_INSERT_new [OF t ok False] sorted_ins_sorted [OF t(2) False] INSERT
      show ?thesis by (auto simp: index_ok_def)
    qed
  next
    case (REMOVE e)
    show ?thesis
    proof (cases "VRB_FIND (cmp e) t")
      case None
      then have "key e \<notin> key ` set (inorder t)" using f by (simp add: find_key_iff)
      moreover from this have "filter (\<lambda>x. key x \<noteq> key e) (inorder t) = inorder t" by (intro filter_True) (metis imageI)
      ultimately show ?thesis using None REMOVE assms(2) by simp
    next
      case (Some x)
      then have x: "x \<in> set (inorder t)" "key x = key e" using f [of e] by (auto simp: find_Some_iff)
      from VRB_REMOVE_correct [OF t(1) sorted_keys_distinct [OF t(2)] x(1)] obtain t' where
        t': "VRB_REMOVE x t = Some t'" "rb_tree t'" "inorder t' = remove1 x (inorder t)" by blast
      moreover have "inorder t' = filter (\<lambda>y. key y \<noteq> key e) (inorder t)"
        using sorted_keys_find [OF t(2)] f [of e] Some t'(3) by simp
      moreover have "key e \<in> key ` set (inorder t)" using x by (metis imageI)
      moreover have "sorted_keys key (filter (\<lambda>y. key y \<noteq> key e) (inorder t))"
        using t(2) by (simp add: sorted_wrt_map sorted_wrt_filter)
      ultimately show ?thesis using Some REMOVE by (simp add: index_ok_def)
    qed
  qed
qed

interpretation si: ordered_index key "\<lambda>t. cmp_by key cmp \<and> sorted_keys key (sinorder t)" sinorder "splay_step cmp"
  for key :: "'a \<Rightarrow> 'k::linorder" and cmp
  by unfold_locales (use splay_step_list in blast)

interpretation vi: ordered_index key "\<lambda>t. cmp_by key cmp \<and> index_ok key t" inorder "vrb_step cmp"
  for key :: "'a \<Rightarrow> 'k::linorder" and cmp
  by unfold_locales (use vrb_step_list in blast)

section \<open>Properties\<close>

text \<open>
  Claim C39. The splay tree and the red-black tree are interchangeable. From trees with the same
  sequence of nodes (empty ones, say), every run of find, insert and remove calls goes through
  on both, gives the same answers call by call, those of a sorted list, and leaves the same
  sequence of nodes.
\<close>

theorem trees_agree:
  assumes "cmp_by key cmp" and "index_ok key t" and "sinorder s = inorder t"
  shows "\<exists>s' t'. run_ops (splay_step cmp) cs s = Some (fst (list_ops key cs (inorder t)), s') \<and>
    run_ops (vrb_step cmp) cs t = Some (fst (list_ops key cs (inorder t)), t') \<and>
    sinorder s' = inorder t' \<and> inorder t' = snd (list_ops key cs (inorder t))"
proof -
  have "sorted_keys key (sinorder s)" using assms(2,3) by (simp add: index_ok_def)
  with si.run_list [of key cmp s cs] vi.run_list [of key cmp t cs] assms show ?thesis by auto
qed

theorem trees_agree_witness:
  "\<exists>s' t'. run_ops (splay_step (\<lambda>a b. a - b)) [INSERT 3, INSERT 1, INSERT 3, REMOVE 1, FIND 1] SNIL =
      Some ([Node None, Node None, Node (Some 3), Removed True, Node None], s') \<and>
    run_ops (vrb_step (\<lambda>a b. a - b)) [INSERT 3, INSERT 1, INSERT 3, REMOVE 1, FIND 1] NIL =
      Some ([Node None, Node None, Node (Some 3), Removed True, Node None], t') \<and>
    inorder t' = [3 :: int]"
proof -
  have "cmp_by (\<lambda>x. x) (\<lambda>a b :: int. a - b)" by (simp add: cmp_by_def)
  moreover have "index_ok (\<lambda>x :: int. x) NIL" by (simp add: index_ok_def rb_tree_def)
  moreover have "list_ops (\<lambda>x :: int. x) [INSERT 3, INSERT 1, INSERT 3, REMOVE 1, FIND 1] [] =
      ([Node None, Node None, Node (Some 3), Removed True, Node None], [3])"
    by (simp add: ins_sorted_def)
  ultimately show ?thesis
    using trees_agree [of "\<lambda>x. x" "\<lambda>a b :: int. a - b" NIL SNIL "[INSERT 3, INSERT 1, INSERT 3, REMOVE 1, FIND 1]"]
    by (auto simp del: run_ops.simps list_ops.simps)
qed

end
