(* ===== verification/Softpurge.thy ===== *)
theory Softpurge
  imports Prelude
begin

text \<open>
  Soft purge of the object at hand, \<^verbatim>\<open>src/src/vmod_softpurge.c\<close>. Under the lock of the object
  head the function takes a reference to each object core on its list that is neither busy
  nor dying, as far as the workspace holds the pointers; without the lock it then rearms
  each core and gives the reference back. \<open>EXP_Rearm\<close> and \<open>HSH_DerefObjCore\<close> are varnishd's,
  and so is what other threads do to the cores once the lock is dropped: parameters.
\<close>

section \<open>Data\<close>

record sp_objcore =
  sp_objhead :: addr
  sp_busy :: bool
  sp_dying :: bool
  sp_refcnt :: int
  sp_t_origin :: double
  sp_ttl :: double
  sp_grace :: double
  sp_keep :: double

record sp_head =
  oh_refcnt :: int
  oh_objcs :: "addr list"

type_synonym cores = "addr \<rightharpoonup> sp_objcore"

datatype sp_method = SP_MET_HIT | SP_MET_MISS | SP_MET_OTHER

record sp_req =
  sp_req_objcore :: "addr option"
  sp_t_prev :: double

record sp_ctx =
  sp_met :: sp_method
  sp_request :: "sp_req option"
  sp_log :: vsl_log

text \<open>
  \<open>Rearm oc now ttl grace keep\<close> is the changed core; \<open>Deref\<close> drops one reference; \<open>Others l\<close> is
  what other threads do before the next turn while this one holds references to \<open>l\<close>.
\<close>

record sp_api =
  Rearm :: "sp_objcore \<Rightarrow> double \<Rightarrow> double \<Rightarrow> double \<Rightarrow> double \<Rightarrow> sp_objcore"
  Deref :: "addr \<Rightarrow> cores \<Rightarrow> cores"
  Others :: "addr list \<Rightarrow> cores \<Rightarrow> cores"

section \<open>The function\<close>

definition sizeof_ocp :: u32 where "sizeof_ocp = 8"

text \<open>The loop under the lock; \<open>ocp\<close> is the array of pointers on the workspace.\<close>

fun sp_collect :: "addr \<Rightarrow> addr list \<Rightarrow> u32 \<Rightarrow> cores \<Rightarrow> addr list \<Rightarrow> (cores \<times> addr list) res" where
  "sp_collect oh [] spc h ocp = Inr (h, ocp)"
| "sp_collect oh (oc # q) spc h ocp =
     res_bind (deref h oc) (\<lambda>x.
     res_bind (guard (sp_objhead x = oh) AssertFail) (\<lambda>_.
     if sp_busy x then sp_collect oh q spc h ocp
     else if sp_dying x then sp_collect oh q spc h ocp
     else if spc < sizeof_ocp then Inr (h, ocp)
     else sp_collect oh q (spc - sizeof_ocp) (h(oc \<mapsto> x\<lparr>sp_refcnt := sp_refcnt x + 1\<rparr>)) (ocp @ [oc])))"

text \<open>The loop without the lock.\<close>

fun sp_rearm :: "sp_api \<Rightarrow> double \<Rightarrow> addr list \<Rightarrow> cores \<Rightarrow> cores res" where
  "sp_rearm api now [] h = Inr h"
| "sp_rearm api now (oc # ocp) h =
     (let h1 = Others api (oc # ocp) h in
      res_bind (deref h1 oc) (\<lambda>x.
      let h2 = h1(oc \<mapsto> Rearm api x now 0 (sp_grace x) (sp_keep x)) in
      sp_rearm api now ocp (Deref api oc h2)))"

definition vmod_softpurge ::
  "sp_api \<Rightarrow> u32 \<Rightarrow> sp_ctx \<Rightarrow> (addr \<rightharpoonup> sp_head) \<Rightarrow> cores \<Rightarrow> (sp_ctx \<times> cores) res" where
  "vmod_softpurge api spc ctx heads h =
     (if sp_met ctx \<noteq> SP_MET_HIT \<and> sp_met ctx \<noteq> SP_MET_MISS then
        Inr (ctx\<lparr>sp_log := VSLb SLT_VCL_Error ''softpurge() is only available in vcl_hit{} and vcl_miss{}'' []
          (sp_log ctx)\<rparr>, h)
      else case sp_request ctx of None \<Rightarrow> Inl AssertFail | Some req \<Rightarrow>
      case sp_req_objcore req of None \<Rightarrow> Inl NullDeref | Some c \<Rightarrow>
      res_bind (deref h c) (\<lambda>x.
      res_bind (deref heads (sp_objhead x)) (\<lambda>oh.
      res_bind (guard (sizeof_ocp \<le> spc) AssertFail) (\<lambda>_.
      res_bind (guard (0 < oh_refcnt oh) AssertFail) (\<lambda>_.
      res_bind (sp_collect (sp_objhead x) (oh_objcs oh) spc h []) (\<lambda>(h1, ocp).
      res_bind (sp_rearm api (sp_t_prev req) ocp h1) (\<lambda>h2. Inr (ctx, h2))))))))"

section \<open>What varnishd promises\<close>

definition rearm_ok :: "sp_api \<Rightarrow> bool" where
  "rearm_ok api \<longleftrightarrow> (\<forall>x n t g k. sp_refcnt (Rearm api x n t g k) = sp_refcnt x)"

definition deref_ok :: "sp_api \<Rightarrow> bool" where
  "deref_ok api \<longleftrightarrow> (\<forall>oc h x. h oc = Some x \<longrightarrow> Deref api oc h =
     (if 1 < sp_refcnt x then h(oc \<mapsto> x\<lparr>sp_refcnt := sp_refcnt x - 1\<rparr>) else h(oc := None)))"






section \<open>Proofs\<close>

definition eligible :: "cores \<Rightarrow> addr \<Rightarrow> bool" where
  "eligible h oc \<longleftrightarrow> \<not> sp_busy (the (h oc)) \<and> \<not> sp_dying (the (h oc))"

definition bump :: "addr set \<Rightarrow> cores \<Rightarrow> cores" where
  "bump S h = (\<lambda>p. if p \<in> S then map_option (\<lambda>x. x\<lparr>sp_refcnt := sp_refcnt x + 1\<rparr>) (h p) else h p)"

text \<open>The cores on the list of a head.\<close>

definition on_head :: "cores \<Rightarrow> addr \<Rightarrow> addr list \<Rightarrow> bool" where
  "on_head h oh q \<longleftrightarrow> distinct q \<and> (\<forall>oc \<in> set q. \<exists>x. h oc = Some x \<and> sp_objhead x = oh \<and> 0 < sp_refcnt x)"

lemma sp_collect_ok:
  assumes "on_head h oh q"
  shows "sp_collect oh q spc h ocp =
    Inr (bump (set (take (unat spc div 8) (filter (eligible h) q))) h, ocp @ take (unat spc div 8) (filter (eligible h) q))"
  using assms
proof (induction q arbitrary: spc h ocp)
  case Nil
  then show ?case by (simp add: bump_def)
next
  case (Cons oc q)
  then obtain x where x: "h oc = Some x" "sp_objhead x = oh" and q: "on_head h oh q" "oc \<notin> set q"
    by (auto simp: on_head_def)
  show ?case
  proof (cases "eligible h oc")
    case False
    with x Cons.IH [OF q(1)] show ?thesis by (auto simp: eligible_def)
  next
    case e: True
    show ?thesis
    proof (cases "spc < sizeof_ocp")
      case True
      then have "unat spc div 8 = 0" by (simp add: sizeof_ocp_def word_less_nat_alt)
      with True e x show ?thesis by (simp add: eligible_def bump_def)
    next
      case False
      then have "8 \<le> spc" by (simp add: sizeof_ocp_def not_less)
      then have u: "8 \<le> unat spc" "unat (spc - sizeof_ocp) = unat spc - 8"
        by (simp_all add: sizeof_ocp_def word_le_nat_alt unat_sub)
      let ?h = "h(oc \<mapsto> x\<lparr>sp_refcnt := sp_refcnt x + 1\<rparr>)"
      have on1: "on_head ?h oh q" using q by (auto simp: on_head_def)
      have el: "filter (eligible ?h) q = filter (eligible h) q" using q(2) by (intro filter_cong) (auto simp: eligible_def)
      define L where "L = take ((unat spc - 8) div 8) (filter (eligible h) q)"
      have d: "unat spc div 8 = Suc ((unat spc - 8) div 8)" using u(1) by (simp add: le_div_geq)
      have L: "take (unat spc div 8) (filter (eligible h) (oc # q)) = oc # L" using e by (simp add: L_def d)
      have "oc \<notin> set L" using q(2) by (auto simp: L_def dest: in_set_takeD)
      then have b: "bump (set L) ?h = bump (set (oc # L)) h" using x(1) by (auto simp: bump_def fun_eq_iff)
      have "sp_collect oh (oc # q) spc h ocp = sp_collect oh q (spc - sizeof_ocp) ?h (ocp @ [oc])"
        using False e x by (simp add: eligible_def)
      also have "\<dots> = Inr (bump (set L) ?h, ocp @ oc # L)" unfolding Cons.IH [OF on1] u(2) el L_def by simp
      finally show ?thesis unfolding L b .
    qed
  qed
qed








text \<open>Without interference the loop rearms each core and brings its count back.\<close>

lemma sp_rearm_exact:
  assumes "rearm_ok api" "deref_ok api" "\<And>l h. Others api l h = h" "distinct ocp"
    "\<And>oc. oc \<in> set ocp \<Longrightarrow> \<exists>x. h oc = Some x \<and> 1 < sp_refcnt x"
  shows "sp_rearm api now ocp h = Inr (\<lambda>p. if p \<in> set ocp
    then map_option (\<lambda>x. (Rearm api x now 0 (sp_grace x) (sp_keep x))\<lparr>sp_refcnt := sp_refcnt x - 1\<rparr>) (h p) else h p)"
  using assms(4,5)
proof (induction ocp arbitrary: h)
  case (Cons oc ocp)
  then obtain x where x: "h oc = Some x" "1 < sp_refcnt x" by auto
  let ?y = "Rearm api x now 0 (sp_grace x) (sp_keep x)"
  have "sp_refcnt ?y = sp_refcnt x" using assms(1) by (simp add: rearm_ok_def)
  then have d: "Deref api oc (h(oc \<mapsto> ?y)) = h(oc \<mapsto> ?y\<lparr>sp_refcnt := sp_refcnt x - 1\<rparr>)"
    using assms(2) x(2) by (simp add: deref_ok_def)
  let ?h2 = "h(oc \<mapsto> ?y\<lparr>sp_refcnt := sp_refcnt x - 1\<rparr>)"
  have nd: "distinct ocp" "oc \<notin> set ocp" using Cons.prems(1) by simp_all
  have alive: "\<exists>z. ?h2 p = Some z \<and> 1 < sp_refcnt z" if "p \<in> set ocp" for p using Cons.prems(2) [of p] that nd by auto
  have ih: "sp_rearm api now ocp ?h2 = Inr (\<lambda>p. if p \<in> set ocp
      then map_option (\<lambda>x. (Rearm api x now 0 (sp_grace x) (sp_keep x))\<lparr>sp_refcnt := sp_refcnt x - 1\<rparr>) (?h2 p) else ?h2 p)"
    by (intro Cons.IH nd(1) alive)
  have step: "sp_rearm api now (oc # ocp) h = sp_rearm api now ocp ?h2" using x(1) d by (simp add: assms(3) Let_def)
  show ?case unfolding step ih using x(1) nd by (auto simp: fun_eq_iff)
qed simp

text \<open>The call up to the two loops.\<close>

definition sp_ready :: "sp_ctx \<Rightarrow> (addr \<rightharpoonup> sp_head) \<Rightarrow> cores \<Rightarrow> sp_req \<Rightarrow> sp_head \<Rightarrow> bool" where
  "sp_ready ctx heads h req oh \<longleftrightarrow> sp_met ctx \<in> {SP_MET_HIT, SP_MET_MISS} \<and> sp_request ctx = Some req \<and>
     (\<exists>c x. sp_req_objcore req = Some c \<and> h c = Some x \<and> heads (sp_objhead x) = Some oh \<and>
        0 < oh_refcnt oh \<and> on_head h (sp_objhead x) (oh_objcs oh))"

definition purged :: "u32 \<Rightarrow> cores \<Rightarrow> sp_head \<Rightarrow> addr list" where
  "purged spc h oh = take (unat spc div 8) (filter (eligible h) (oh_objcs oh))"

lemma softpurge_loops:
  assumes "sp_ready ctx heads h req oh"
  shows "vmod_softpurge api spc ctx heads h =
    (if sizeof_ocp \<le> spc then
       res_bind (sp_rearm api (sp_t_prev req) (purged spc h oh) (bump (set (purged spc h oh)) h)) (\<lambda>h2. Inr (ctx, h2))
     else Inl AssertFail)"
proof -
  obtain c x where c: "sp_req_objcore req = Some c" "h c = Some x" "heads (sp_objhead x) = Some oh" "0 < oh_refcnt oh"
    "on_head h (sp_objhead x) (oh_objcs oh)" and m: "sp_met ctx \<in> {SP_MET_HIT, SP_MET_MISS}" "sp_request ctx = Some req"
    using assms unfolding sp_ready_def by blast
  show ?thesis
    using m c(1-4) by (auto simp: vmod_softpurge_def sp_collect_ok [OF c(5)] purged_def)
qed

lemma purged_on_head:
  assumes "sp_ready ctx heads h req oh"
  shows "distinct (purged spc h oh)" "\<And>oc. oc \<in> set (purged spc h oh) \<Longrightarrow> \<exists>x. h oc = Some x \<and> 0 < sp_refcnt x"
  using assms by (auto simp: sp_ready_def on_head_def purged_def distinct_take dest!: in_set_takeD)

section \<open>Properties\<close>


text \<open>
  What softpurge does when nobody interferes: of the cores of the object head that are
  neither busy nor dying, as many as pointers fit into the workspace are rearmed with a ttl of
  zero from now, with their grace and keep, while a reference to them is held; afterwards
  their reference counts are as before, and no other core has changed.
\<close>

theorem softpurge_exact:
  assumes "sp_ready ctx heads h req oh" "rearm_ok api" "deref_ok api" "\<And>l h. Others api l h = h" "sizeof_ocp \<le> spc"
  shows "vmod_softpurge api spc ctx heads h = Inr (ctx, \<lambda>p.
    if p \<in> set (take (unat spc div 8) (filter (eligible h) (oh_objcs oh)))
    then map_option (\<lambda>x. (Rearm api (x\<lparr>sp_refcnt := sp_refcnt x + 1\<rparr>) (sp_t_prev req) 0 (sp_grace x) (sp_keep x))
      \<lparr>sp_refcnt := sp_refcnt x\<rparr>) (h p)
    else h p)"
proof -
  have "\<exists>x. bump (set (purged spc h oh)) h oc = Some x \<and> 1 < sp_refcnt x" if "oc \<in> set (purged spc h oh)" for oc
    using purged_on_head(2) [OF assms(1) that] that by (auto simp: bump_def)
  then have r: "sp_rearm api (sp_t_prev req) (purged spc h oh) (bump (set (purged spc h oh)) h) =
    Inr (\<lambda>p. if p \<in> set (purged spc h oh)
      then map_option (\<lambda>x. (Rearm api x (sp_t_prev req) 0 (sp_grace x) (sp_keep x))\<lparr>sp_refcnt := sp_refcnt x - 1\<rparr>)
        (bump (set (purged spc h oh)) h p)
      else bump (set (purged spc h oh)) h p)"
    by (intro sp_rearm_exact assms(2-4) purged_on_head(1) [OF assms(1)])
  show ?thesis unfolding softpurge_loops [OF assms(1)] r purged_def [symmetric] using assms(5)
    by (auto simp: bump_def option.map_comp comp_def fun_eq_iff)
qed

section \<open>A concrete run\<close>

text \<open>
  Three cores on one head, the second busy; another request gives back its reference to the
  third while softpurge runs.
\<close>

definition demo_core :: "bool \<Rightarrow> sp_objcore" where
  "demo_core busy = \<lparr>sp_objhead = 1, sp_busy = busy, sp_dying = False, sp_refcnt = 1, sp_t_origin = 0, sp_ttl = 60,
     sp_grace = 10, sp_keep = 0\<rparr>"

definition demo_cores :: cores where
  "demo_cores = [10 \<mapsto> demo_core False, 11 \<mapsto> demo_core True, 12 \<mapsto> demo_core False]"

definition demo_sp_api :: "(addr list \<Rightarrow> cores \<Rightarrow> cores) \<Rightarrow> sp_api" where
  "demo_sp_api others = \<lparr>Rearm = (\<lambda>x n t g k. x\<lparr>sp_ttl := n + t - sp_t_origin x, sp_grace := g, sp_keep := k\<rparr>),
     Deref = (\<lambda>oc h. case h oc of None \<Rightarrow> h | Some x \<Rightarrow>
       if 1 < sp_refcnt x then h(oc \<mapsto> x\<lparr>sp_refcnt := sp_refcnt x - 1\<rparr>) else h(oc := None)),
     Others = others\<rparr>"

definition demo_sp_req :: sp_req where
  "demo_sp_req = \<lparr>sp_req_objcore = Some 10, sp_t_prev = 5\<rparr>"

definition demo_sp_ctx :: sp_ctx where
  "demo_sp_ctx = \<lparr>sp_met = SP_MET_HIT, sp_request = Some demo_sp_req, sp_log = []\<rparr>"

definition demo_head :: sp_head where
  "demo_head = \<lparr>oh_refcnt = 1, oh_objcs = [10, 11, 12]\<rparr>"


lemma demo_sp_ok:
  "sp_ready demo_sp_ctx [1 \<mapsto> demo_head] demo_cores demo_sp_req demo_head" "rearm_ok (demo_sp_api f)" "deref_ok (demo_sp_api f)"
  by (auto simp: sp_ready_def demo_sp_ctx_def demo_sp_req_def demo_cores_def demo_core_def demo_head_def on_head_def
      rearm_ok_def deref_ok_def demo_sp_api_def)




lemma softpurge_exact_witness:
  "\<exists>h'. vmod_softpurge (demo_sp_api (\<lambda>l h. h)) 100 demo_sp_ctx [1 \<mapsto> demo_head] demo_cores = Inr (demo_sp_ctx, h') \<and>
    h' 10 = Some ((demo_core False)\<lparr>sp_ttl := 5\<rparr>) \<and> h' 11 = Some (demo_core True) \<and> h' 12 = Some ((demo_core False)\<lparr>sp_ttl := 5\<rparr>)"
  using softpurge_exact [OF demo_sp_ok(1) demo_sp_ok(2,3) [of "\<lambda>l h. h"], where spc = 100]
  by (simp add: sizeof_ocp_def demo_sp_api_def demo_head_def eligible_def demo_cores_def demo_core_def demo_sp_req_def)

end
