(* ===== verification/Bodyaccess.thy ===== *)
theory Bodyaccess
  imports Prelude
begin

text \<open>
  Access to the request body, \<^verbatim>\<open>src/src/vmod_bodyaccess.c\<close>: hash it, measure it, match it
  against a regular expression, write it to the log in pieces of bounded size.

  \<open>VRB_Iterate\<close> hands the stored body to a callback chunk by chunk; the request record holds
  the chunks and what \<open>VRB_Iterate\<close> returns when the callback does not object. Sizes are
  \<open>size_t\<close>, 64 bits. \<open>malloc\<close> is a predicate on the size: whether it returns memory. Of the
  two variants selected by the \<open>HAVE_\<close> macros the callbacks differ in unused arguments only.
\<close>

section \<open>Data\<close>

record breq =
  body_cached :: bool
  body_chunks :: "string list"
  body_ret :: int
  req_bodybytes :: int

datatype b_method = B_MET_RECV | B_MET_HASH | B_MET_OTHER

text \<open>\<open>b_specific\<close> is the hash context: what has been fed to it.\<close>

record bctx =
  b_met :: b_method
  b_req :: "breq option"
  b_vsl :: vsl_log
  b_specific :: string

record bodyaccess_log_ctx =
  log_pfx :: string
  log_len :: u64

record 're vre_api =
  VRE_compile :: "string \<Rightarrow> 're option"
  VRE_exec :: "'re \<Rightarrow> string \<Rightarrow> int"
  VRE_ERROR_NOMATCH :: int

text \<open>
  \<open>VSLbt\<close> appends the text to the log. A record has a maximum size, which is varnishd's: what
  the log keeps of a text is the parameter \<open>keep\<close>.
\<close>

definition VSLbt :: "(string \<Rightarrow> string) \<Rightarrow> slt \<Rightarrow> string \<Rightarrow> vsl_log \<Rightarrow> vsl_log" where
  "VSLbt keep tag t l = l @ [(tag, keep t, [])]"

section \<open>Logging\<close>

text \<open>One turn copies the prefix and up to \<open>log_len\<close> bytes into a buffer of \<open>bufsize\<close> bytes.\<close>

definition log_size :: "u64 \<Rightarrow> u64 \<Rightarrow> u64" where
  "log_size ctx_len len = (if len > ctx_len \<and> ctx_len > 0 then ctx_len else len)"

function log_loop ::
  "(string \<Rightarrow> string) \<Rightarrow> bodyaccess_log_ctx \<Rightarrow> u64 \<Rightarrow> u64 \<Rightarrow> string \<Rightarrow> u64 \<Rightarrow> vsl_log \<Rightarrow> vsl_log res" where
  "log_loop keep ctx bufsize prefix_len str len vsl =
     (if len = 0 then Inr vsl
      else
        let size = log_size (log_len ctx) len in
        res_bind (guard (unat prefix_len + unat size \<le> unat bufsize) HeapOverflow) (\<lambda>_.
        log_loop keep ctx bufsize prefix_len (drop (unat size) str) (len - size)
          (VSLbt keep SLT_Debug (log_pfx ctx @ take (unat size) str) vsl)))"
  by pat_completeness auto
termination
proof (relation "measure (\<lambda>(_, _, _, _, _, len, _). unat len)")
  fix keep ctx bufsize prefix_len str vsl x and size len :: u64
  assume l: "len \<noteq> 0" and s: "size = log_size (log_len ctx) len"
  have "0 < size" "size \<le> len" using l by (auto simp: s log_size_def word_neq_0_conv intro: less_imp_le)
  then have "unat (len - size) < unat len"
    by (metis diff_less unat_0 unat_mono unat_sub order.strict_trans2)
  then show "((keep, ctx, bufsize, prefix_len, drop (unat size) str, len - size,
      VSLbt keep SLT_Debug (log_pfx ctx @ take (unat size) str) vsl), keep, ctx, bufsize, prefix_len, str, len, vsl)
    \<in> measure (\<lambda>(_, _, _, _, _, len, _). unat len)" by simp
qed simp

declare log_loop.simps [simp del]

definition bodyaccess_log ::
  "(u64 \<Rightarrow> bool) \<Rightarrow> (string \<Rightarrow> string) \<Rightarrow> bodyaccess_log_ctx \<Rightarrow> string \<Rightarrow> u64 \<Rightarrow> vsl_log \<Rightarrow> vsl_log res" where
  "bodyaccess_log malloc keep ctx ptr len vsl =
     (let size = (if log_len ctx > 0 then log_len ctx else len);
          prefix_len = of_nat (length (log_pfx ctx));
          size1 = size + prefix_len
      in res_bind (guard (malloc size1) AssertFail) (\<lambda>_. log_loop keep ctx size1 prefix_len ptr len vsl))"

text \<open>\<open>VRB_Iterate\<close> with the logging callback, which always returns 0.\<close>

definition bodyaccess_log_cb ::
  "(u64 \<Rightarrow> bool) \<Rightarrow> (string \<Rightarrow> string) \<Rightarrow> bodyaccess_log_ctx \<Rightarrow> string \<Rightarrow> vsl_log \<Rightarrow> vsl_log res" where
  "bodyaccess_log_cb malloc keep ctx chunk vsl = bodyaccess_log malloc keep ctx chunk (of_nat (length chunk)) vsl"

fun iterate_log ::
  "(u64 \<Rightarrow> bool) \<Rightarrow> (string \<Rightarrow> string) \<Rightarrow> bodyaccess_log_ctx \<Rightarrow> string list \<Rightarrow> vsl_log \<Rightarrow> vsl_log res" where
  "iterate_log malloc keep ctx [] vsl = Inr vsl"
| "iterate_log malloc keep ctx (c # cs) vsl =
     res_bind (bodyaccess_log_cb malloc keep ctx c vsl) (iterate_log malloc keep ctx cs)"

definition vmod_log_req_body ::
  "(u64 \<Rightarrow> bool) \<Rightarrow> (string \<Rightarrow> string) \<Rightarrow> string option \<Rightarrow> int \<Rightarrow> bctx \<Rightarrow> bctx res" where
  "vmod_log_req_body malloc keep prefix len ctx =
     (case b_req ctx of None \<Rightarrow> Inl AssertFail | Some req \<Rightarrow>
      let log_ctx = \<lparr>log_pfx = (case prefix of None \<Rightarrow> '''' | Some p \<Rightarrow> p), log_len = of_int len\<rparr> in
      if \<not> body_cached req then Inr (ctx\<lparr>b_vsl := VSLb SLT_VCL_Error ''Unbuffered req.body'' [] (b_vsl ctx)\<rparr>)
      else res_bind (iterate_log malloc keep log_ctx (body_chunks req) (b_vsl ctx)) (\<lambda>vsl.
        Inr (ctx\<lparr>b_vsl := (if body_ret req < 0
          then VSLb SLT_VCL_Error ''Iteration on req.body didn't succeed.'' [] vsl else vsl)\<rparr>)))"

section \<open>Collecting the body\<close>

text \<open>The string buffer grows as needed; what was collected is used also when the iteration fails.\<close>

definition bodyaccess_bcat_cb :: "string \<Rightarrow> string \<Rightarrow> string" where
  "bodyaccess_bcat_cb chunk vsb = vsb @ chunk"

definition bodyaccess_bcat :: "breq \<Rightarrow> bctx \<Rightarrow> string \<times> bctx" where
  "bodyaccess_bcat req ctx =
     (fold bodyaccess_bcat_cb (body_chunks req) [],
      if body_ret req < 0 then ctx\<lparr>b_vsl := VSLb SLT_VCL_Error ''Iteration on req.body didn't succeed.'' [] (b_vsl ctx)\<rparr>
      else ctx)"

definition vmod_hash_req_body :: "(string \<Rightarrow> string) \<Rightarrow> bctx \<Rightarrow> bctx res" where
  "vmod_hash_req_body keep ctx =
     (case b_req ctx of None \<Rightarrow> Inl NullDeref | Some req \<Rightarrow>
      if \<not> body_cached req then Inr (ctx\<lparr>b_vsl := VSLb SLT_VCL_Error ''Unbuffered req.body'' [] (b_vsl ctx)\<rparr>)
      else if b_met ctx \<noteq> B_MET_HASH then
        Inr (ctx\<lparr>b_vsl := VSLb SLT_VCL_Error ''hash_req_body can only be used in vcl_hash{}'' [] (b_vsl ctx)\<rparr>)
      else let (body, ctx1) = bodyaccess_bcat req ctx in
        Inr (ctx1\<lparr>b_specific := b_specific ctx1 @ body, b_vsl := VSLbt keep SLT_Hash body (b_vsl ctx1)\<rparr>))"

definition vmod_len_req_body :: "bctx \<Rightarrow> (int \<times> bctx) res" where
  "vmod_len_req_body ctx =
     (case b_req ctx of None \<Rightarrow> Inl AssertFail | Some req \<Rightarrow>
      if \<not> body_cached req then Inr (- 1, ctx\<lparr>b_vsl := VSLb SLT_VCL_Error ''Unbuffered req.body'' [] (b_vsl ctx)\<rparr>)
      else if b_met ctx \<noteq> B_MET_RECV then
        Inr (- 1, ctx\<lparr>b_vsl := VSLb SLT_VCL_Error ''len_req_body can only be used in vcl_recv{}'' [] (b_vsl ctx)\<rparr>)
      else Inr (req_bodybytes req, ctx))"

text \<open>\<open>priv\<close> is the compiled expression of the call site.\<close>

definition vmod_rematch_req_body ::
  "'re vre_api \<Rightarrow> 're option \<Rightarrow> string option \<Rightarrow> bctx \<Rightarrow> (int \<times> 're option \<times> bctx) res" where
  "vmod_rematch_req_body api priv re ctx =
     (case b_req ctx of None \<Rightarrow> Inl NullDeref | Some req \<Rightarrow>
      if \<not> body_cached req then Inr (- 1, priv, ctx\<lparr>b_vsl := VSLb SLT_VCL_Error ''Unbuffered req.body'' [] (b_vsl ctx)\<rparr>)
      else if b_met ctx \<noteq> B_MET_RECV then
        Inr (- 1, priv, ctx\<lparr>b_vsl := VSLb SLT_VCL_Error ''rematch_req_body can be used only in vcl_recv{}'' [] (b_vsl ctx)\<rparr>)
      else case re of None \<Rightarrow> Inl AssertFail | Some r \<Rightarrow>
        case (case priv of None \<Rightarrow> VRE_compile api r | Some t \<Rightarrow> Some t) of
          None \<Rightarrow> Inr (- 1, priv, ctx\<lparr>b_vsl := VSLb SLT_VCL_Error ''Regular expression not valid'' [] (b_vsl ctx)\<rparr>)
        | Some t \<Rightarrow>
            let (body, ctx1) = bodyaccess_bcat req ctx; i = VRE_exec api t body in
            if i > 0 then Inr (1, Some t, ctx1)
            else if i = VRE_ERROR_NOMATCH api then Inr (0, Some t, ctx1)
            else Inr (- 1, Some t, ctx1\<lparr>b_vsl := VSLb SLT_VCL_Error ''Regexp matching returned %d'' [ArgInt i] (b_vsl ctx1)\<rparr>))"

section \<open>Pieces\<close>

text \<open>The reference: a list cut into pieces of \<open>n\<close> elements; no cut for \<open>n = 0\<close>.\<close>

function chop :: "nat \<Rightarrow> 'a list \<Rightarrow> 'a list list" where
  "chop n xs = (if xs = [] then [] else if n = 0 then [xs] else take n xs # chop n (drop n xs))"
  by pat_completeness auto
termination
  by (relation "measure (length \<circ> snd)") auto

declare chop.simps [simp del]

lemma chop_Nil [simp]: "chop n [] = []"
  by (simp add: chop.simps)

lemma concat_chop [simp]: "concat (chop n xs) = xs"
proof (induction n xs rule: chop.induct)
  case (1 n xs)
  then show ?case by (cases "xs = [] \<or> n = 0") (auto simp: chop.simps [of n xs])
qed






section \<open>Properties\<close>

definition prefix_of :: "string option \<Rightarrow> string" where
  "prefix_of p = (case p of None \<Rightarrow> [] | Some s \<Rightarrow> s)"


text \<open>
  A negative length is turned into a huge \<open>size_t\<close>: as soon as the body has a byte, the
  sum of that size and the length of the prefix wraps. With a prefix at least as long as the
  absolute value of the length the buffer comes out shorter than the prefix and is overrun;
  otherwise the size is one that \<open>malloc\<close> refuses, and the process aborts.
\<close>

theorem body_log_negative:
  assumes "b_req ctx = Some req" "body_cached req" "body_chunks req = c # cs" "c \<noteq> []"
    "- (2 ^ 63) \<le> len" "len < 0" "length (prefix_of prefix) < 2 ^ 63" "length c < 2 ^ 63"
    "\<And>n. malloc n \<longleftrightarrow> unat n < 2 ^ 63"
  shows "vmod_log_req_body malloc keep prefix len ctx =
    Inl (if nat (- len) \<le> length (prefix_of prefix) then HeapOverflow else AssertFail)"
proof -
  define lctx where "lctx = \<lparr>log_pfx = prefix_of prefix, log_len = of_int len :: u64\<rparr>"
  define n where "n = (of_nat (length c) :: u64)"
  define p where "p = (of_nat (length (prefix_of prefix)) :: u64)"
  define L where "L = (of_int len :: u64)"
  have u: "unat n = length c" "unat p = length (prefix_of prefix)"
    using assms(7,8) by (simp_all add: n_def p_def unat_of_nat take_bit_nat_eq_self)
  have "take_bit 64 len = (len + 2 ^ 64) mod 2 ^ 64" by (simp add: take_bit_eq_mod)
  also have "\<dots> = len + 2 ^ 64" using assms(5,6) by (intro mod_pos_pos_trivial) simp_all
  finally have uL: "uint L = len + 2 ^ 64" using assms(5) by (simp add: L_def unsigned_of_int)
  then have L0: "0 < L" "n < L" using assms(5,6,8) u(1) by (simp_all add: word_less_def n_def unsigned_of_nat take_bit_nat_eq_self)
  have sum: "uint (L + p) = (len + 2 ^ 64 + int (unat p)) mod 2 ^ 64"
  proof -
    have "uint (L + p) = (uint L + uint p) mod 2 ^ 64" by (simp add: uint_word_ariths(1))
    moreover have "uint p = int (unat p)" by simp
    ultimately show ?thesis unfolding uL by argo
  qed
  have n0: "n \<noteq> 0" using u(1) assms(4) by auto
  have log: "bodyaccess_log_cb malloc keep lctx c vsl = (if malloc (L + p) then log_loop keep lctx (L + p) p c n vsl else Inl AssertFail)" for vsl
    using L0(1) by (simp add: bodyaccess_log_cb_def bodyaccess_log_def lctx_def n_def [symmetric] p_def [symmetric]
        L_def [symmetric] Let_def guard_def res_bind_def)
  have "bodyaccess_log_cb malloc keep lctx c vsl = Inl (if nat (- len) \<le> unat p then HeapOverflow else AssertFail)" for vsl
  proof (cases "nat (- len) \<le> unat p")
    case True
    have "uint (L + p) = ((int (unat p) + len) + 2 ^ 64) mod 2 ^ 64" unfolding sum by (simp add: algebra_simps)
    also have "\<dots> = int (unat p) + len" unfolding mod_add_self2
      using True assms(6,7) u(2) by (intro mod_pos_pos_trivial) simp_all
    finally have "uint (L + p) = int (unat p) + len" .
    then have "unat (L + p) = nat (int (unat p) + len)" by (metis nat_uint_eq)
    then have lt: "unat (L + p) < unat p" using True assms(6) by linarith
    then have "malloc (L + p)" using assms(7,9) u(2) by simp
    moreover have "log_size L n = n" using L0(2) by (auto simp: log_size_def)
    moreover have "log_len lctx = L" by (simp add: lctx_def L_def)
    ultimately show ?thesis using True lt n0
      by (simp add: log log_loop.simps [of keep lctx "L + p" p c n] guard_def)
  next
    case False
    then have "int (unat p) < - len" by linarith
    then have r: "len + 2 ^ 64 + int (unat p) < 2 ^ 64" by linarith
    have "0 \<le> len + 2 ^ 64" using assms(5) by simp
    then have r0: "0 \<le> len + 2 ^ 64 + int (unat p)" by (rule add_nonneg_nonneg) (rule of_nat_0_le_iff)
    have "uint (L + p) = len + 2 ^ 64 + int (unat p)" unfolding sum using r0 r by (rule mod_pos_pos_trivial)
    then have "unat (L + p) = nat (len + 2 ^ 64 + int (unat p))" by (metis nat_uint_eq)
    moreover have "2 ^ 63 \<le> len + 2 ^ 64" using assms(5) by simp
    then have "2 ^ 63 \<le> len + 2 ^ 64 + int (unat p)" by (rule order.trans) (rule le_add_same_cancel1 [THEN iffD2, OF of_nat_0_le_iff])
    then have "nat (2 ^ 63) \<le> nat (len + 2 ^ 64 + int (unat p))" by (rule nat_mono)
    ultimately have "2 ^ 63 \<le> unat (L + p)" by (simp add: nat_power_eq)
    then have "\<not> malloc (L + p)" using assms(9) by simp
    with False show ?thesis by (simp add: log)
  qed
  then show ?thesis using assms(1-3) u(2) by (simp add: vmod_log_req_body_def lctx_def prefix_of_def Let_def)
qed

text \<open>
  The expression of the first call wins. Once \<open>rematch_req_body\<close> has been called at a
  call site with an expression that compiles, every later call there, whatever expression it
  is given, answers for the first one: 1 if it matches the whole body of that request, 0 if it
  does not, and -1 with a log record if matching fails.
\<close>

theorem body_rematch_first_wins:
  assumes "b_req ctx = Some req" "body_cached req" "b_met ctx = B_MET_RECV"
    "vmod_rematch_req_body api None (Some r1) ctx1 = Inr (i1, priv, ctx1')" "priv \<noteq> None"
  shows "\<exists>t. VRE_compile api r1 = Some t \<and> (\<exists>ctx'. vmod_rematch_req_body api priv (Some r2) ctx =
    Inr (let i = VRE_exec api t (concat (body_chunks req)) in
      if i > 0 then 1 else if i = VRE_ERROR_NOMATCH api then 0 else - 1, Some t, ctx'))"
proof -
  have f: "fold bodyaccess_bcat_cb cs a = a @ concat cs" for cs a
    by (induction cs arbitrary: a) (simp_all add: bodyaccess_bcat_cb_def)
  obtain t where "VRE_compile api r1 = Some t" "priv = Some t"
    using assms(4,5) by (auto simp: vmod_rematch_req_body_def Let_def case_prod_beta split: option.splits if_splits)
  with assms(1-3) show ?thesis
    by (auto simp: vmod_rematch_req_body_def bodyaccess_bcat_def f Let_def)
qed

text \<open>
  \<open>hash_req_body\<close> feeds what it collected to the hash, also when the iteration over the body
  failed half-way.
\<close>

lemma body_hash_input:
  assumes "b_req ctx = Some req" "body_cached req" "b_met ctx = B_MET_HASH"
  shows "\<exists>l. vmod_hash_req_body keep ctx =
    Inr (ctx\<lparr>b_specific := b_specific ctx @ concat (body_chunks req), b_vsl := l\<rparr>)"
proof -
  have f: "fold bodyaccess_bcat_cb cs a = a @ concat cs" for cs a
    by (induction cs arbitrary: a) (simp_all add: bodyaccess_bcat_cb_def)
  from assms show ?thesis by (auto simp: vmod_hash_req_body_def bodyaccess_bcat_def f)
qed

section \<open>Concrete requests\<close>

definition demo_breq :: breq where
  "demo_breq = \<lparr>body_cached = True, body_chunks = [''abcd'', ''e''], body_ret = 0, req_bodybytes = 5\<rparr>"

definition demo_bctx :: bctx where
  "demo_bctx = \<lparr>b_met = B_MET_RECV, b_req = Some demo_breq, b_vsl = [], b_specific = []\<rparr>"


lemma body_log_negative_witness:
  "vmod_log_req_body (\<lambda>n. unat n < 2 ^ 63) keep (Some ''P:'') (- 1) demo_bctx = Inl HeapOverflow"
  using body_log_negative [of demo_bctx demo_breq "''abcd''" "[''e'']" "- 1" "Some ''P:''" "\<lambda>n. unat n < 2 ^ 63"]
  by (simp add: demo_bctx_def demo_breq_def prefix_of_def)

text \<open>Prefixes in the role of expressions; the second call asks for something else.\<close>

definition demo_vre :: "string vre_api" where
  "demo_vre = \<lparr>VRE_compile = Some, VRE_exec = (\<lambda>t b. if take (length t) b = t then 1 else - 1), VRE_ERROR_NOMATCH = - 1\<rparr>"

lemma body_rematch_first_wins_witness:
  "\<exists>ctx'. vmod_rematch_req_body demo_vre (Some ''abc'') (Some ''xyz'') demo_bctx = Inr (1, Some ''abc'', ctx')"
proof -
  have "vmod_rematch_req_body demo_vre None (Some ''abc'') demo_bctx = Inr (1, Some ''abc'', demo_bctx)"
    by (simp add: vmod_rematch_req_body_def demo_bctx_def demo_breq_def demo_vre_def bodyaccess_bcat_def bodyaccess_bcat_cb_def)
  from body_rematch_first_wins [OF _ _ _ this, of demo_bctx demo_breq "''xyz''"] show ?thesis
    by (auto simp: demo_bctx_def demo_breq_def demo_vre_def)
qed

end
