(* ===== verification/Tcp.thy ===== *)
theory Tcp
  imports Prelude Doubles
begin

text \<open>
  Socket options of the client connection, \<^verbatim>\<open>src/src/vmod_tcp.c\<close>, in the build with
  \<open>HAVE_TCP_INFO\<close>. The kernel's side of \<open>getsockopt\<close> and \<open>setsockopt\<close> is a parameter: a state of
  the socket and what each call returns and does to it.
\<close>

section \<open>Data\<close>

record tcp_info =
  tcpi_snd_mss :: u32
  tcpi_rcv_mss :: u32
  tcpi_lost :: u32
  tcpi_retrans :: u32
  tcpi_pmtu :: u32
  tcpi_rtt :: u32
  tcpi_rttvar :: u32
  tcpi_snd_cwnd :: u32
  tcpi_advmss :: u32
  tcpi_reordering :: u32

text \<open>
  The boolean of a \<open>set\<close> call is whether it succeeded, \<open>None\<close> of a \<open>get\<close> call that it failed;
  \<open>get_pacing\<close> gives the return value and the rate.
\<close>

record 's sock_api =
  get_tcp_info :: "'s \<Rightarrow> tcp_info option"
  set_congestion :: "'s \<Rightarrow> string \<Rightarrow> bool \<times> 's"
  get_congestion :: "'s \<Rightarrow> string option"
  set_pacing :: "'s \<Rightarrow> u32 \<Rightarrow> bool \<times> 's"
  get_pacing :: "'s \<Rightarrow> int \<times> u32"

text \<open>\<open>t_fd\<close> is the descriptor of the session of the request, if the context has a request.\<close>

record 's tcp_ctx =
  t_fd :: "int option"
  t_sock :: 's
  t_vsl :: vsl_log

definition TCP_CA_NAME_MAX :: nat where "TCP_CA_NAME_MAX = 16"

definition t_log :: "slt \<Rightarrow> string \<Rightarrow> vsl_arg list \<Rightarrow> 's tcp_ctx \<Rightarrow> 's tcp_ctx" where
  "t_log tag fmt args ctx = ctx\<lparr>t_vsl := VSLb tag fmt args (t_vsl ctx)\<rparr>"

text \<open>\<open>%i\<close> prints an unsigned field as an \<open>int\<close>.\<close>

definition fmt_i :: "u32 \<Rightarrow> vsl_arg" where "fmt_i w = ArgInt (sint w)"

section \<open>The functions\<close>

definition vmod_dump_info :: "'s sock_api \<Rightarrow> 's tcp_ctx \<Rightarrow> 's tcp_ctx res" where
  "vmod_dump_info api ctx =
     (case t_fd ctx of None \<Rightarrow> Inr ctx | Some fd \<Rightarrow>
      res_bind (guard (fd \<noteq> 0) AssertFail) (\<lambda>_.
      case get_tcp_info api (t_sock ctx) of
        None \<Rightarrow> Inr (t_log SLT_VCL_Error ''getsockopt() failed'' [] ctx)
      | Some i \<Rightarrow>
          Inr (t_log SLT_VCL_Log ''tcpi2: pmtu=%i rtt=%i rttvar=%i snd_cwnd=%i advmss=%i reordering=%i''
            [fmt_i (tcpi_pmtu i), fmt_i (tcpi_rtt i), fmt_i (tcpi_rttvar i), fmt_i (tcpi_snd_cwnd i),
             fmt_i (tcpi_advmss i), fmt_i (tcpi_reordering i)]
            (t_log SLT_VCL_Log ''tcpi: snd_mss=%i rcv_mss=%i lost=%i retrans=%i''
              [fmt_i (tcpi_snd_mss i), fmt_i (tcpi_rcv_mss i), fmt_i (tcpi_lost i), fmt_i (tcpi_retrans i)] ctx))))"

text \<open>The division is that of unsigned integers; its result is converted to a \<open>VCL_REAL\<close>.\<close>

definition vmod_get_estimated_rtt :: "'s sock_api \<Rightarrow> 's tcp_ctx \<Rightarrow> (double \<times> 's tcp_ctx) res" where
  "vmod_get_estimated_rtt api ctx =
     (case t_fd ctx of None \<Rightarrow> Inr (0, ctx) | Some fd \<Rightarrow>
      res_bind (guard (fd \<noteq> 0) AssertFail) (\<lambda>_.
      case get_tcp_info api (t_sock ctx) of
        None \<Rightarrow> Inr (0, t_log SLT_VCL_Error ''getsockopt() failed'' [] ctx)
      | Some i \<Rightarrow> Inr (double_of_long (uint (tcpi_rtt i div 1000)), ctx)))"

text \<open>\<open>strncpy\<close> reads through a NULL \<open>new\<close>; the buffer holds 16 characters and the NUL.\<close>

definition vmod_congestion_algorithm ::
  "'s sock_api \<Rightarrow> 's tcp_ctx \<Rightarrow> string option \<Rightarrow> (int \<times> 's tcp_ctx) res" where
  "vmod_congestion_algorithm api ctx new =
     (case t_fd ctx of None \<Rightarrow> Inr (- 1, ctx) | Some fd \<Rightarrow>
      res_bind (guard (fd \<noteq> 0) AssertFail) (\<lambda>_.
      case new of None \<Rightarrow> Inl NullDeref | Some n \<Rightarrow>
      let strategy = take TCP_CA_NAME_MAX n;
          (ok, s) = set_congestion api (t_sock ctx) strategy;
          ctx1 = ctx\<lparr>t_sock := s\<rparr>
      in if \<not> ok then
           Inr (- 1, t_log SLT_VCL_Error ''TCP_CONGESTION setsockopt() for %s failed.'' [ArgStr strategy] ctx1)
         else case get_congestion api s of
           None \<Rightarrow> Inr (0, t_log SLT_VCL_Error ''getsockopt() failed.'' [] ctx1)
         | Some r \<Rightarrow> Inr (0, t_log SLT_VCL_Log ''getsockopt() returned: %s'' [ArgStr r] ctx1)))"

text \<open>
  The product is computed with 64 bits, where an overflow is undefined, and stored in an \<open>int\<close>,
  which keeps its low 32 bits. The request is dereferenced without a test.
\<close>

definition vmod_set_socket_pace :: "'s sock_api \<Rightarrow> 's tcp_ctx \<Rightarrow> int \<Rightarrow> 's tcp_ctx res" where
  "vmod_set_socket_pace api ctx rate =
     res_bind (guard (in_long (rate * 1024)) UndefBehav) (\<lambda>_.
     case t_fd ctx of None \<Rightarrow> Inl NullDeref | Some fd \<Rightarrow>
     let pacerate = (of_int (rate * 1024) :: u32);
         (ok, s) = set_pacing api (t_sock ctx) pacerate;
         ctx1 = ctx\<lparr>t_sock := s\<rparr>;
         ctx2 = (if \<not> ok then t_log SLT_VCL_Error ''set_socket_pace(): Error setting pace rate.'' [] ctx1
           else t_log SLT_VCL_Log ''vmod-tcp: Socket paced to %lu KB/s.'' [ArgInt (take_bit 64 rate)] ctx1);
         (retval, current_rate) = get_pacing api s
     in Inr (t_log SLT_VCL_Log ''getsockopt() %i %i'' [ArgInt retval, fmt_i current_rate] ctx2))"

section \<open>Properties\<close>

text \<open>What the kernel promises about the two options that are set.\<close>

definition sock_ok :: "'s sock_api \<Rightarrow> bool" where
  "sock_ok api \<longleftrightarrow>
     (\<forall>s n. fst (set_congestion api s n) \<longrightarrow> get_congestion api (snd (set_congestion api s n)) = Some n) \<and>
     (\<forall>s r. fst (set_pacing api s r) \<longrightarrow> get_pacing api (snd (set_pacing api s r)) = (0, r))"

text \<open>
  Claim C40. What \<open>set_socket_pace\<close> does, on every branch. A rate whose product with 1024 leaves the
  64 bits is undefined, and without a request the call reads through NULL. Otherwise the option
  is set to the low 32 bits of the product, an unsigned number, which is the requested pace
  exactly for rates from 0 to \<open>2\<^sup>2\<^sup>2 - 1\<close>. When the kernel accepts it, that is the pace of the
  socket, while the log reports the requested rate, as an unsigned number of 64 bits; when the
  kernel refuses, an error is logged. What \<open>getsockopt\<close> returns is logged in any case.
\<close>

theorem tcp_pace_truncated:
  assumes "sock_ok api"
  shows "if \<not> in_long (rate * 1024) then vmod_set_socket_pace api ctx rate = Inl UndefBehav
    else if t_fd ctx = None then vmod_set_socket_pace api ctx rate = Inl NullDeref
    else (let w = of_int (rate * 1024) :: u32; (accepted, s) = set_pacing api (t_sock ctx) w; (retval, r) = get_pacing api s in
      vmod_set_socket_pace api ctx rate = Inr (ctx\<lparr>t_sock := s, t_vsl := t_vsl ctx @
        [if accepted then (SLT_VCL_Log, ''vmod-tcp: Socket paced to %lu KB/s.'', [ArgInt (rate mod 2 ^ 64)])
         else (SLT_VCL_Error, ''set_socket_pace(): Error setting pace rate.'', []),
         (SLT_VCL_Log, ''getsockopt() %i %i'', [ArgInt retval, fmt_i r])]\<rparr>) \<and>
      (accepted \<longrightarrow> (retval, r) = (0, w)) \<and>
      uint w = rate * 1024 mod 2 ^ 32 \<and> (uint w = rate * 1024 \<longleftrightarrow> 0 \<le> rate \<and> rate < 2 ^ 22))"
proof (cases "in_long (rate * 1024) \<and> t_fd ctx \<noteq> None")
  case False
  then show ?thesis by (auto simp: vmod_set_socket_pace_def)
next
  case True
  define w where "w = (of_int (rate * 1024) :: u32)"
  obtain ok s where s: "set_pacing api (t_sock ctx) w = (ok, s)" by fastforce
  obtain i r where r: "get_pacing api s = (i, r)" by fastforce
  have g: "(i, r) = (0, w)" if ok using assms s r that unfolding sock_ok_def by (metis fst_conv snd_conv)
  have u: "uint w = rate * 1024 mod 2 ^ 32" unfolding w_def uint_word_of_int by (simp add: of_int_mult)
  have "rate * 1024 mod 2 ^ 32 = rate * 1024 \<longleftrightarrow> 0 \<le> rate * 1024 \<and> rate * 1024 < 2 ^ 32"
    by (simp add: mod_eq_self_iff_div_eq_0 zdiv_eq_0_iff) linarith
  then have iff: "uint w = rate * 1024 \<longleftrightarrow> 0 \<le> rate \<and> rate < 2 ^ 22" unfolding u by auto
  have "vmod_set_socket_pace api ctx rate = Inr (ctx\<lparr>t_sock := s, t_vsl := t_vsl ctx @
        [if ok then (SLT_VCL_Log, ''vmod-tcp: Socket paced to %lu KB/s.'', [ArgInt (rate mod 2 ^ 64)])
         else (SLT_VCL_Error, ''set_socket_pace(): Error setting pace rate.'', []),
         (SLT_VCL_Log, ''getsockopt() %i %i'', [ArgInt i, fmt_i r])]\<rparr>)"
    using True unfolding vmod_set_socket_pace_def w_def [symmetric]
    by (auto simp: s r Let_def t_log_def VSLb_def take_bit_eq_mod)
  with True g u iff show ?thesis unfolding w_def [symmetric] by (auto simp: s r Let_def)
qed

text \<open>
  The congestion algorithm is looked up under the first 16 characters of its name, and the
  answer is 0 exactly when the kernel took it.
\<close>

lemma tcp_congestion_name:
  assumes "sock_ok api" "t_fd ctx = Some fd" "fd \<noteq> 0"
  shows "\<exists>i ctx'. vmod_congestion_algorithm api ctx (Some n) = Inr (i, ctx') \<and>
    (i = 0 \<longleftrightarrow> fst (set_congestion api (t_sock ctx) (take 16 n))) \<and>
    (i = 0 \<longrightarrow> get_congestion api (t_sock ctx') = Some (take 16 n)) \<and> (i \<noteq> 0 \<longrightarrow> i = - 1)"
proof -
  obtain ok s where s: "set_congestion api (t_sock ctx) (take 16 n) = (ok, s)" by fastforce
  with assms(1) have "ok \<Longrightarrow> get_congestion api s = Some (take 16 n)" unfolding sock_ok_def by (metis fst_conv snd_conv)
  with s assms(2,3) show ?thesis
    by (cases ok) (auto simp: vmod_congestion_algorithm_def TCP_CA_NAME_MAX_def t_log_def Let_def)
qed

text \<open>The round-trip time is rounded down to milliseconds.\<close>

lemma tcp_rtt_floor:
  assumes "t_fd ctx = Some fd" "fd \<noteq> 0" "get_tcp_info api (t_sock ctx) = Some i"
  shows "vmod_get_estimated_rtt api ctx = Inr (of_int (uint (tcpi_rtt i) div 1000), ctx)"
proof -
  have "uint (tcpi_rtt i div 1000) = uint (tcpi_rtt i) div 1000" by (simp add: uint_div)
  moreover have "\<bar>uint (tcpi_rtt i) div 1000\<bar> \<le> 2 ^ 53"
  proof -
    have "uint (tcpi_rtt i) < 2 ^ 32" using uint_bounded [of "tcpi_rtt i"] by simp
    then have "uint (tcpi_rtt i) div 1000 \<le> 2 ^ 53" by simp
    moreover have "0 \<le> uint (tcpi_rtt i) div 1000" by (simp add: pos_imp_zdiv_nonneg_iff)
    ultimately show ?thesis by simp
  qed
  ultimately show ?thesis using assms by (simp add: vmod_get_estimated_rtt_def double_of_long_def)
qed

section \<open>A concrete socket\<close>

definition demo_sock :: "(string \<times> u32) sock_api" where
  "demo_sock = \<lparr>get_tcp_info = (\<lambda>_. None), set_congestion = (\<lambda>s n. (n \<in> {''cubic'', ''reno''}, if n \<in> {''cubic'', ''reno''} then (n, snd s) else s)),
     get_congestion = (\<lambda>s. Some (fst s)), set_pacing = (\<lambda>s r. (True, (fst s, r))), get_pacing = (\<lambda>s. (0, snd s))\<rparr>"

definition demo_tcp :: "(string \<times> u32) tcp_ctx" where
  "demo_tcp = \<lparr>t_fd = Some 7, t_sock = (''cubic'', 0), t_vsl = []\<rparr>"

lemma tcp_pace_truncated_witness:
  "\<exists>ctx'. vmod_set_socket_pace demo_sock demo_tcp 4194305 = Inr ctx' \<and> get_pacing demo_sock (t_sock ctx') = (0, 1024)"
proof -
  have "sock_ok demo_sock" by (auto simp: sock_ok_def demo_sock_def split: if_splits)
  moreover have "in_long (4194305 * 1024)" "t_fd demo_tcp = Some 7"
    by (simp_all add: demo_tcp_def in_long_def LONG_MAX_def LONG_MIN_def)
  ultimately show ?thesis using tcp_pace_truncated [of demo_sock 4194305 demo_tcp] by (auto simp: demo_sock_def)
qed

end
