(* ===== verification/Spec2Isabelle.thy ===== *)
theory Spec2Isabelle
  imports Cookie Vsthrottle_Threads Saintmode_Enforced Var Xkey_Life Header_Correct Header_Lock Vtree_Client Tree_Index Softpurge Bodyaccess Tcp
begin

text \<open>
  \<^bold>\<open>Verification of the Varnish module collection (varnish-modules).\<close>

  The repository holds nine modules that the cache server varnishd loads into its VCL
  programs, one C file each under \<^verbatim>\<open>src/src\<close>, and a header of tree macros that two of them
  instantiate. The modules do not call each other; they share the conventions of varnishd (a
  call gets a context with a workspace and a log, and a \<open>priv\<close> pointer that keeps the module's
  state for the task, the call site or the VCL) and the tree macros. Accordingly there is one
  theory per module, on a common prelude; composition happens inside a module: of the trees,
  queues and pools of \<open>xkey\<close>, of buckets, partitions and trees in \<open>vsthrottle\<close>, of director
  objects and their lists in \<open>saintmode\<close>, of the calls of one task in \<open>cookie\<close> and \<open>var\<close>.

  \<^bold>\<open>Theories.\<close>

  \<^item> \<open>Prelude\<close>: results of a C routine (\<open>'a res\<close>, where \<open>Inl\<close> says how it stops the process or
    leaves the C standard), C strings as suffixes, \<open>VSLb\<close>, the workspace interface, list lemmas.
  \<^item> \<open>Doubles\<close>: binary64 addition, subtraction, multiplication and division as exact rational
    operations followed by rounding to 53 bits, and the error bound of the rounding.
    \<open>Digest\<close>: \<open>memcmp\<close> on digests as a linear order.
  \<^item> \<open>KV_Store\<close>: the locales \<open>kv_store\<close> and \<open>kv_store_del\<close>, the contract of a keyed store.
    Interpreted on the cookie list (\<open>ck\<close>), the variables of a task (\<open>vs\<close>) and the global
    variables (\<open>gv\<close>).
  \<^item> \<open>Vtree\<close>: the \<open>VRB_*\<close> macros of \<^verbatim>\<open>vtree.h\<close>, translated case by case on a tree with a zipper
    for node pointers. \<open>Vtree_Correct\<close>: insertion and removal keep the colour and height
    invariants, never read through NULL and do the right thing to the in-order sequence;
    search, traversal in both directions (also under removal of the visited node) and the
    height bound; the locale \<open>node_index\<close>, what an ordered index of nodes promises, with its
    interpretation \<open>vrb\<close>, through which \<open>Vsthrottle\<close> and \<open>Xkey\<close> use the trees.
  \<^item> \<open>Vtree_Heap\<close>: the same macros once more, now with the left, right and parent pointers and
    the colour of every node in a store, statement by statement, a NULL access being no result.
    \<open>Vtree_Heap_Correct\<close> and \<open>Vtree_Heap_Ops\<close>: when a store represents a tree, every macro ends,
    reads no NULL, and leaves a store that represents the tree the definition of \<open>Vtree\<close> gives,
    with all parent pointers right and the fields of foreign nodes as they were; the sweep, the
    safe loop that removes and frees some of the nodes it visits, is the last of them.
    \<open>Vtree_Client\<close>: a client that allocates, inserts, looks up, removes and frees nodes one at a
    time as the modules do never gets stuck, whatever the order.
  \<^item> \<open>Splay\<close> and \<open>Splay_Correct\<close>: the \<open>VSPLAY_*\<close> macros of the same header, which no module
    instantiates. The top-down loop with its left and right trees keeps the in-order sequence
    and splits it at the search key; find, insert, remove and traversal follow. \<open>Tree_Index\<close>:
    the locale \<open>ordered_index\<close> with the interpretations \<open>si\<close> (splay) and \<open>vi\<close> (red-black): both
    trees answer every run of calls like a sorted list, hence like each other.
  \<^item> \<open>Cookie\<close> (\<^verbatim>\<open>vmod_cookie.c\<close>): the list of a task; every operation keeps names distinct and
    texts non-empty and refines a finite map; parsing a header is the fold of the pairs it
    contains; \<open>parse\<close> of what \<open>get_string\<close> prints gives back the list.
  \<^item> \<open>Vsthrottle\<close> (\<^verbatim>\<open>vmod_vsthrottle.c\<close>): the heap of token buckets and the sixteen partitions;
    the invariant ties trees, heap and digests together; a call refines the abstract map from
    digests to buckets; over any run of calls no more than the capacity and the earned tokens
    are let through; what blocking and the garbage collector change. \<open>Vsthrottle_Lock\<close> and
    \<open>Vsthrottle_Threads\<close>: the calls as threads, whose statements interleave under one mutex per
    partition. Every interleaving has the outcome of the calls one after the other, in the
    order in which they read the clock; so the rate limit holds for threads; no assertion fails
    and the threads do not block each other for good.
  \<^item> \<open>Saintmode\<close> (\<^verbatim>\<open>vmod_saintmode.c\<close>): directors with their lists of troubled objects; the
    counter is the length of the list in every reachable state; the exact condition under
    which \<open>resolve\<close> hands out the backend; enforcement of a blacklisting until it expires.
    \<open>Saintmode_Lock\<close>: the calls as threads under one mutex per object, the trouble entries on a
    heap. \<open>Saintmode_Threads\<close>: mutual exclusion, no use of a freed entry, no leak, every run ends.
    \<open>Saintmode_Atomic\<close>: the threads are linearizable, by a simulation (locale \<open>simulation\<close> of
    theory \<open>Traces\<close>, interpretation \<open>sm_sim\<close>) with a system in which a call is one step of theory
    \<open>Saintmode\<close>; the test of the counter without the lock is part of it. \<open>Saintmode_Enforced\<close>: a
    blacklisting that has returned is seen by every later resolution, against all threads.
  \<^item> \<open>Var\<close> (\<^verbatim>\<open>vmod_var.c\<close>): a variable has its type tag and, apart from it, the union member last
    written, so a read of another member is an error value; both stores refine a map from names
    to typed values, in which an integer is kept as it was given; the tags are those of the last
    stores and agree with the members; what the \<open>int\<close> member of the union drops.
  \<^item> \<open>Xkey\<close> and \<open>Xkey_Correct\<close> (\<^verbatim>\<open>vmod_xkey.c\<close>): the two trees, the queues between them and the
    pools on three heaps, and the link \<open>list_ochead\<close> field by field; the invariant and its
    preservation; runs of cache events refine the table (object, digest) of tags; a purge visits
    exactly the tagged objects; the memory held is bounded by the tags plus the pools, under
    any interleaving of the sections that run under the mutex. \<open>Xkey_Cleanup\<close>: what the last
    discard does, whose loops follow the wrong link: when it writes into freed memory, what it
    frees and what it leaves allocated otherwise, and what the counters that it does not reset
    do to the next load. \<open>Xkey_Life\<close>: the module between loads, discards and sections of
    callbacks as an inductive set of reachable states, those after such a discard included, with
    the invariant that ties the registered callback to the count of VCLs.
  \<^item> \<open>Header\<close> and \<open>Header_Correct\<close> (\<^verbatim>\<open>vmod_header.c\<close>): the array of header lines; get is a
    search, remove a filter, copy an append of the matching lines, which returns also when it
    copies a header onto itself. \<open>Header_Lock\<close>: the double-checked initialisation of the
    regular expression as a step relation on interleaved threads; at most one compiles, none
    is stuck, and every interleaving has the outcome of \<open>header_init_re\<close> as one atomic step,
    which is how \<open>Header\<close> uses it. The steps read and write memory in a single order; the data
    race that the unlocked test is under the C memory model is not modelled.
  \<^item> \<open>Softpurge\<close> (\<^verbatim>\<open>vmod_softpurge.c\<close>): the collecting loop under the lock and the rearming loop
    outside it, with steps of other threads in between, which take and give back references of
    their own and free a core when its count drops to zero; so it is the reference that the first
    loop takes that keeps a core alive; the references are balanced and the cores that are
    rearmed are exactly the collected ones.
  \<^item> \<open>Bodyaccess\<close> (\<^verbatim>\<open>vmod_bodyaccess.c\<close>): the pieces of the logged body and the bounds of the
    buffer, on 64-bit sizes; hash, length and match of the collected body.
  \<^item> \<open>Tcp\<close> (\<^verbatim>\<open>vmod_tcp.c\<close>): the socket options; the pace, an unsigned 32-bit option that is
    computed in an \<open>int\<close>.

  \<^bold>\<open>Correspondence.\<close> A definition has the name of the C function or macro it translates
  (\<open>vmod_\<close> functions carry the module's name where two modules have the same one) and follows
  its statements, every early return and assertion included. A \<open>struct\<close> is a record, an
  \<open>enum\<close> or a tagged union a datatype. Integers whose width matters are words; \<open>VCL_INT\<close> and
  \<open>long\<close> values are integers with the overflow written out. Objects that are shared (buckets,
  directors, the nodes of \<open>xkey\<close>, object cores) live on explicit heaps, maps from addresses; a
  \<open>VTAILQ\<close> is the list of its elements, but for \<open>list_ochead\<close> of \<open>xkey\<close>, which has its links, after
  the macros of the BSD tail queue that varnishd ships; memory returned by \<open>free\<close> leaves the heap and an access
  to it is an error value. Functional loops recurse on their data or have a termination proof;
  \<open>VRB_FOREACH\<close> and its variants, \<open>VSPLAY_FOREACH\<close>, \<open>VSPLAY_MINMAX\<close>, the last loop of \<open>xkey_cleanup\<close>
  and the loop of \<open>header_http_cphdr\<close>, which re-read what their body changes, are partial functions whose
  termination is a theorem; so are the loops of \<open>Vtree_Heap\<close>, which follow pointers, and their
  termination is part of the theorems that they refine \<open>Vtree\<close>. There is no fuel, but in
  \<open>body_run\<close>, an auxiliary function: six statements finish any call under the lock. The functions
  \<open>run_thread\<close> and \<open>run_schedule\<close> run a given schedule, for the witnesses.

  \<^bold>\<open>Parameters.\<close> Code that is not in the repository is an argument: the workspace functions
  (\<open>WS_Alloc\<close>, \<open>WS_Copy\<close>, \<open>WS_Printf\<close>), SHA-256, the object representation of a double, \<open>EXP_Rearm\<close>,
  \<open>HSH_DerefObjCore\<close>, \<open>VRT_selecthttp\<close>, \<open>VRT_String\<close>, \<open>VRT_re_match\<close>, \<open>http_SetHeader\<close>,
  \<open>VRT_TIME_string\<close>, \<open>VRB_Iterate\<close>, the \<open>malloc\<close> of the logging buffer, \<open>getsockopt\<close>, \<open>setsockopt\<close>, the
  health function of a backend, and what the log keeps of a text (\<open>keep\<close>, which may cut it). What
  a theorem needs of them is a hypothesis with a name (\<open>ws_ample\<close>, \<open>rearm_ok\<close>, \<open>deref_ok\<close>,
  \<open>string_may\<close>, \<open>others_ok\<close> and the like), and its witness runs the theorem with concrete
  functions. The clock is an argument of the calls that read it. The mutex of \<open>var\<close> is held for
  the whole of an operation on the global variables, and that of \<open>xkey\<close> for the whole of a
  removal, a purge, a load or a discard, but only for one token at a time of an insertion;
  a run is a sequence of such sections, in any order that the threads bring about. That
  \<open>vsthrottle\<close>, which has one mutex per partition, and \<open>saintmode\<close>, which has one per object and
  reads a counter without it, behave as if a call were one step is a theorem. The two other
  places where threads get in between, \<open>header_init_re\<close> and the second loop of \<open>softpurge\<close>, are
  modelled with interleaving.

  \<^bold>\<open>Not modelled.\<close> \<^verbatim>\<open>vmod_config.h\<close> holds includes only and \<^verbatim>\<open>hash_slinger.h\<close> declarations, of which
  \<open>softpurge\<close> uses two fields of \<open>struct objhead\<close>. Loading and unloading a VCL while calls of
  \<open>vsthrottle\<close> run is left out of its threads: varnishd unloads a VCL only when no task uses it; so are, for the same
  reason, creating and deleting the objects of \<open>saintmode\<close> from its threads, and \<open>status\<close>, which
  locks one object after the other and describes no single moment. Of code
  that exists in two variants under \<open>#if\<close> both are translated where they differ (\<open>xkey_cb\<close>,
  \<open>xkey_cb_oev\<close>); elsewhere they differ in names or in unused arguments and one is. Magic numbers hold by typing. Infinities,
  NaN and subnormal doubles are outside the model of arithmetic. Allocation succeeds where the
  code asserts that it does: the aborts after \<open>malloc\<close>, \<open>calloc\<close> and \<open>ALLOC_OBJ\<close> in \<open>vsthrottle\<close>
  (\<open>tb_alloc\<close>), \<open>saintmode\<close> (new objects, their VCL data and trouble entries), \<open>xkey\<close> (the \<open>_new\<close>
  functions), \<open>cookie\<close> and \<open>var\<close> (the state of a task, global variables) have no branch; failures
  that the code handles, those of the workspace and of the logging buffer, have one. The \<open>int\<close>
  counters of \<open>purge\<close> and of loaded VCLs are unbounded integers.
\<close>

end
